(* ===== verification/Prelude.thy ===== *)
theory Prelude
  imports Main "HOL-Library.Word"
begin

text \<open>
  What the component theories share: the names of the machine integer types, the faults that
  stand for undefined behaviour of the C++ code, the result type that carries them, and the
  generic lemmas on results, lists and words.

  The code is compiled for a 64-bit target (\<open>src/osfiber_i.S\<close> is AArch64 assembly), so
  \<open>size_t\<close>, \<open>uintptr_t\<close> and \<open>uint64_t\<close> are 64 bits wide, \<open>int\<close> and
  \<open>unsigned int\<close> are 32 bits wide.
\<close>

type_synonym size_t = "64 word"
type_synonym u64 = "64 word"
type_synonym u32 = "32 word"
type_synonym byte = "8 word"

text \<open>
  A fault is a point where the C++ code has no defined behaviour (or the operating system stops
  the process): every operation of the model that can reach such a point returns a
  \<open>res\<close>, with \<open>Inl\<close> for the fault.
\<close>

datatype fault =
    NullDeref         \<comment> \<open>access through a null pointer\<close>
  | OutOfBounds       \<comment> \<open>array access past the end\<close>
  | WildAccess        \<comment> \<open>access to memory that is not allocated\<close>
  | DivByZero
  | BadFree           \<comment> \<open>free of a pointer that malloc did not return\<close>
  | NoObject          \<comment> \<open>use or destruction of an object that is not alive\<close>
  | EmptyContainer    \<comment> \<open>front, begin or pop of an empty container dereferenced\<close>
  | BadCall           \<comment> \<open>call of an empty \<open>std::function\<close>\<close>
  | BadShift          \<comment> \<open>shift by the width of the operand or more\<close>
  | Overflow          \<comment> \<open>overflow of a signed integer\<close>
  | Terminated        \<comment> \<open>\<open>std::terminate\<close>, as a joinable thread is destroyed\<close>

type_synonym 'a res = "fault + 'a"

definition bind_res :: "'a res \<Rightarrow> ('a \<Rightarrow> 'b res) \<Rightarrow> 'b res" where
  "bind_res m f = (case m of Inl e \<Rightarrow> Inl e | Inr x \<Rightarrow> f x)"

definition guard_res :: "bool \<Rightarrow> fault \<Rightarrow> unit res" where
  "guard_res b e = (if b then Inr () else Inl e)"

lemma bind_res_Inl [simp]: "bind_res (Inl e) f = Inl e"
  by (simp add: bind_res_def)

lemma bind_res_Inr [simp]: "bind_res (Inr x) f = f x"
  by (simp add: bind_res_def)

lemma bind_res_eq_Inr [simp]:
  "bind_res m f = Inr y \<longleftrightarrow> (\<exists>x. m = Inr x \<and> f x = Inr y)"
  by (auto simp: bind_res_def split: sum.splits)

lemma Inr_eq_bind_res [simp]:
  "Inr y = bind_res m f \<longleftrightarrow> (\<exists>x. m = Inr x \<and> f x = Inr y)"
  by (auto simp: bind_res_def split: sum.splits)

lemma bind_res_eq_Inl:
  "bind_res m f = Inl e \<longleftrightarrow> m = Inl e \<or> (\<exists>x. m = Inr x \<and> f x = Inl e)"
  by (auto simp: bind_res_def split: sum.splits)

lemma bind_res_assoc:
  "bind_res (bind_res m f) g = bind_res m (\<lambda>x. bind_res (f x) g)"
  by (simp add: bind_res_def split: sum.splits)

lemma guard_res_True [simp]: "guard_res True e = Inr ()"
  by (simp add: guard_res_def)

lemma guard_res_eq_Inr [simp]: "guard_res b e = Inr u \<longleftrightarrow> b"
  by (simp add: guard_res_def)

lemma guard_res_False [simp]: "guard_res False e = Inl e"
  by (simp add: guard_res_def)

text \<open>For the termination of loops: the rest of a loop runs on the result of its body only.\<close>

lemma bind_res_cong [fundef_cong]:
  "m = m' \<Longrightarrow> (\<And>x. m' = Inr x \<Longrightarrow> f x = g x) \<Longrightarrow> bind_res m f = bind_res m' g"
  by (cases m') simp_all

text \<open>A loop body that may fault, applied to the elements of a list in order.\<close>

fun fold_res :: "('a \<Rightarrow> 's \<Rightarrow> 's res) \<Rightarrow> 'a list \<Rightarrow> 's \<Rightarrow> 's res" where
  "fold_res f [] s = Inr s"
| "fold_res f (x # xs) s = bind_res (f x s) (fold_res f xs)"

lemma fold_res_append:
  "fold_res f (xs @ ys) s = bind_res (fold_res f xs s) (fold_res f ys)"
  by (induction xs arbitrary: s) (auto simp: bind_res_assoc fun_eq_iff intro: arg_cong [where f = "bind_res _"])

lemma fold_res_cong:
  "(\<And>x. x \<in> set xs \<Longrightarrow> f x = g x) \<Longrightarrow> fold_res f xs s = fold_res g xs s"
proof (induction xs arbitrary: s)
  case (Cons x xs)
  then have "fold_res f xs = fold_res g xs" by (intro ext) simp
  then show ?case using Cons.prems [of x] by simp
qed simp

text \<open>An invariant of the body is an invariant of the loop.\<close>

lemma fold_res_invariant:
  assumes "fold_res f xs s = Inr t" and "P s"
    and "\<And>x s t. x \<in> set xs \<Longrightarrow> P s \<Longrightarrow> f x s = Inr t \<Longrightarrow> P t"
  shows "P t"
  using assms by (induction xs arbitrary: s) auto

subsection \<open>Words\<close>

lemma unat_lt_2p64 [simp]: "unat (x :: 64 word) < 18446744073709551616"
  using unsigned_less [where 'a=nat and w=x] by simp

lemma unat_lt_2p32 [simp]: "unat (x :: 32 word) < 4294967296"
  using unsigned_less [where 'a=nat and w=x] by simp

lemma unat_add_no_wrap:
  "unat (a :: 64 word) + unat b < 18446744073709551616 \<Longrightarrow> unat (a + b) = unat a + unat b"
  by (simp add: unat_word_ariths)

text \<open>A number below a word is not the greatest one.\<close>

lemma less_2p64: "n < unat (c :: 64 word) \<Longrightarrow> Suc n < 18446744073709551616"
  by (rule order_le_less_trans [of _ "unat c"]) simp_all

lemma unat_diff_le:
  "unat (b :: 64 word) \<le> unat a \<Longrightarrow> unat (a - b) = unat a - unat b"
  by (simp add: unat_sub word_le_nat_alt)

lemma unat_mult_no_wrap:
  "unat (a :: 64 word) * unat b < 18446744073709551616 \<Longrightarrow> unat (a * b) = unat a * unat b"
  by (simp add: unat_word_ariths)

lemma unat_of_nat_64:
  "n < 18446744073709551616 \<Longrightarrow> unat (of_nat n :: 64 word) = n"
  by (simp add: unat_of_nat)

lemma le_mult_pos: "0 < (b :: nat) \<Longrightarrow> a \<le> a * b"
  by (cases b) simp_all

lemma sint_small:
  assumes "unat (x :: u32) < 2147483648"
  shows "sint x = int (unat x)"
proof -
  have "int (unat x) < 2147483648" using assms by linarith
  then have "uint x < 2 ^ 31" by simp
  then have "signed_take_bit 31 (uint x) = uint x"
    by (intro signed_take_bit_int_eq_self) (auto intro: order_trans [of _ 0])
  then show ?thesis by (simp add: sint_uint)
qed

lemma sint_pos_unat:
  assumes "0 < sint (x :: u32)"
  shows "sint x = int (unat x)"
proof -
  have "sint x < 2 ^ 31" using sint_less [of x] by simp
  then have "uint x = sint x" using assms by (simp add: uint_sint take_bit_int_eq_self)
  then show ?thesis by simp
qed

subsection \<open>Lists\<close>

lemma distinct_remove1_notin: "distinct xs \<Longrightarrow> x \<notin> set (remove1 x xs)"
  by simp

end
