(* ===== verification/Memory.thy ===== *)
theory Memory
  imports Prelude
begin

text \<open>
  \<open>include/hfts/memory.hpp\<close> and \<open>src/memory.cpp\<close>: allocation requests, the
  default allocator over \<open>malloc\<close> and over OS pages, the tracking allocator, and the helpers
  that rebuild an \<open>Allocation\<close> from a bare pointer.

  The operating system is the record \<open>os\<close>: the bytes of memory, the live \<open>malloc\<close>
  blocks, the mapped pages, the pages without access, and \<open>os_answers\<close>, a script of the
  addresses that the C library and the kernel will offer next. An offer that would be no correct
  answer (null, not aligned to a page, out of the address space, overlapping live memory) is
  turned down, and the call fails as \<open>malloc\<close> and \<open>mmap\<close> may fail at any time.
  Every behaviour of a correct \<open>malloc\<close> is that of some script, so statements about all
  scripts need no hypothesis about the C library.
\<close>

subsection \<open>Requests and allocations\<close>

datatype usage = Undefined | Stack | Create | Vector | List | Stl | Count

record request =
  req_size :: size_t
  req_alignment :: size_t
  useGuards :: bool
  req_usage :: usage

record allocation =
  alloc_ptr :: size_t
  alloc_request :: request

text \<open>A request and an allocation as the default member initialisers leave them.\<close>

definition default_request :: request where
  "default_request = \<lparr>req_size = 0, req_alignment = 0, useGuards = False, req_usage = Undefined\<rparr>"

definition default_allocation :: allocation where
  "default_allocation = \<lparr>alloc_ptr = 0, alloc_request = default_request\<rparr>"

text \<open>\<open>static_cast<size_t>(usage)\<close>, the index into the statistics.\<close>

fun usage_index :: "usage \<Rightarrow> nat" where
  "usage_index Undefined = 0"
| "usage_index Stack = 1"
| "usage_index Create = 2"
| "usage_index Vector = 3"
| "usage_index List = 4"
| "usage_index Stl = 5"
| "usage_index Count = 6"

lemma usage_index_inj [simp]: "usage_index u = usage_index v \<longleftrightarrow> u = v"
  by (cases u; cases v) simp_all

lemma usage_index_less: "usage_index u < 6 \<longleftrightarrow> u \<noteq> Count"
  by (cases u) simp_all

definition alignUp :: "'a::len word \<Rightarrow> 'a word \<Rightarrow> 'a word res" where
  "alignUp val alignment =
     (if alignment = 0 then Inl DivByZero
      else Inr (alignment * ((val + alignment - 1) div alignment)))"

subsection \<open>Byte-addressed memory and the C library\<close>

record os =
  os_mem :: "size_t \<Rightarrow> byte"
  os_blocks :: "(size_t \<times> size_t) list"
  os_pages :: "size_t list"
  os_guarded :: "size_t list"
  os_page_size :: size_t
  os_answers :: "size_t list"

text \<open>Two address ranges apart; an empty range still owns its address.\<close>

definition apart :: "size_t \<times> size_t \<Rightarrow> size_t \<times> size_t \<Rightarrow> bool" where
  "apart b c \<longleftrightarrow>
     unat (fst b) + max 1 (unat (snd b)) \<le> unat (fst c) \<or>
     unat (fst c) + max 1 (unat (snd c)) \<le> unat (fst b)"

text \<open>Every address of \<open>[a, a + n)\<close> lies in one live block.\<close>

definition in_block :: "os \<Rightarrow> size_t \<Rightarrow> size_t \<Rightarrow> bool" where
  "in_block s a n \<longleftrightarrow>
     list_ex (\<lambda>(b, len). unat b \<le> unat a \<and> unat a + unat n \<le> unat b + unat len) (os_blocks s)"

definition next_answer :: "os \<Rightarrow> size_t \<times> os" where
  "next_answer s =
     (case os_answers s of [] \<Rightarrow> (0, s) | p # ps \<Rightarrow> (p, s\<lparr>os_answers := ps\<rparr>))"

definition malloc_ok :: "os \<Rightarrow> size_t \<Rightarrow> size_t \<Rightarrow> bool" where
  "malloc_ok s p n \<longleftrightarrow>
     p \<noteq> 0 \<and> unat p + unat n < 2 ^ 64 \<and> list_all (apart (p, n)) (os_blocks s) \<and>
     list_all (\<lambda>q. apart (p, n) (q, os_page_size s)) (os_pages s)"

definition c_malloc :: "size_t \<Rightarrow> os \<Rightarrow> size_t \<times> os" where
  "c_malloc n s =
     (let (p, s1) = next_answer s
      in if malloc_ok s1 p n then (p, s1\<lparr>os_blocks := (p, n) # os_blocks s1\<rparr>) else (0, s1))"

definition c_free :: "size_t \<Rightarrow> os \<Rightarrow> os res" where
  "c_free p s =
     (if p = 0 then Inr s
      else if p \<in> fst ` set (os_blocks s)
      then Inr (s\<lparr>os_blocks := filter (\<lambda>b. fst b \<noteq> p) (os_blocks s)\<rparr>)
      else Inl BadFree)"

text \<open>The eight bytes of a pointer, least significant first.\<close>

definition store_ptr :: "size_t \<Rightarrow> size_t \<Rightarrow> (size_t \<Rightarrow> byte) \<Rightarrow> (size_t \<Rightarrow> byte)" where
  "store_ptr a v m =
     (\<lambda>x. if unat (x - a) < 8 then of_nat (unat v div 256 ^ unat (x - a)) else m x)"

definition load_ptr :: "size_t \<Rightarrow> (size_t \<Rightarrow> byte) \<Rightarrow> size_t" where
  "load_ptr a m = of_nat (\<Sum>i<8. unat (m (a + of_nat i)) * 256 ^ i)"

definition memcpy_to :: "size_t \<Rightarrow> size_t \<Rightarrow> os \<Rightarrow> os res" where
  "memcpy_to a v s =
     (if in_block s a 8 then Inr (s\<lparr>os_mem := store_ptr a v (os_mem s)\<rparr>) else Inl WildAccess)"

definition memcpy_from :: "size_t \<Rightarrow> os \<Rightarrow> size_t res" where
  "memcpy_from a s =
     (if in_block s a 8 then Inr (load_ptr a (os_mem s)) else Inl WildAccess)"

lemma digits_sum:
  "(\<Sum>i<n. (v div b ^ i mod b) * b ^ i) = v mod (b :: nat) ^ n"
proof (induction n)
  case 0
  then show ?case by simp
next
  case (Suc n)
  have "v mod b ^ Suc n = b ^ n * (v div b ^ n mod b) + v mod b ^ n"
    using mod_mult2_eq [of v "b ^ n" b] by (simp add: mult.commute)
  with Suc show ?case by (simp add: mult.commute)
qed

lemma load_store_ptr [simp]: "load_ptr a (store_ptr a v m) = v"
proof -
  have "unat (store_ptr a v m (a + of_nat i)) = unat v div 256 ^ i mod 256" if "i < 8" for i
    using that by (simp add: store_ptr_def unat_of_nat)
  then have "load_ptr a (store_ptr a v m) = of_nat (\<Sum>i<8. (unat v div 256 ^ i mod 256) * 256 ^ i)"
    by (simp add: load_ptr_def)
  also have "\<dots> = of_nat (unat v mod 256 ^ 8)"
    by (simp only: digits_sum)
  also have "\<dots> = v" by simp
  finally show ?thesis .
qed

lemma load_ptr_cong:
  "(\<And>x. unat (x - a) < 8 \<Longrightarrow> m x = m' x) \<Longrightarrow> load_ptr a m = load_ptr a m'"
  by (simp add: load_ptr_def unat_of_nat)

subsection \<open>Aligned blocks\<close>

definition alignedMalloc :: "size_t \<Rightarrow> size_t \<Rightarrow> os \<Rightarrow> (size_t \<times> os) res" where
  "alignedMalloc alignment sz s =
     (let allocSize = sz + alignment + 8;
          (allocation, s1) = c_malloc allocSize s
      in bind_res (alignUp allocation alignment) (\<lambda>aligned.
         bind_res (memcpy_to (aligned + sz) allocation s1) (\<lambda>s2.
         Inr (aligned, s2))))"

definition alignedFree :: "size_t \<Rightarrow> size_t \<Rightarrow> os \<Rightarrow> os res" where
  "alignedFree ptr sz s = bind_res (memcpy_from (ptr + sz) s) (\<lambda>base. c_free base s)"

subsection \<open>Pages\<close>

text \<open>The base addresses of \<open>k\<close> consecutive pages.\<close>

definition page_run :: "size_t \<Rightarrow> size_t \<Rightarrow> nat \<Rightarrow> size_t list" where
  "page_run page p k = map (\<lambda>i. p + of_nat i * page) [0..<k]"

definition mmap_ok :: "os \<Rightarrow> size_t \<Rightarrow> size_t \<Rightarrow> bool" where
  "mmap_ok s p len \<longleftrightarrow>
     p \<noteq> 0 \<and> len \<noteq> 0 \<and> unat p mod unat (os_page_size s) = 0 \<and> unat p + unat len < 2 ^ 64 \<and>
     list_all (apart (p, len)) (os_blocks s) \<and>
     list_all (\<lambda>q. apart (p, len) (q, os_page_size s)) (os_pages s)"

text \<open>\<open>mmap\<close> with a length that is a number of pages; 0 stands for \<open>MAP_FAILED\<close>,
  which \<open>allocatePages\<close> turns into a null pointer.\<close>

definition allocatePages :: "size_t \<Rightarrow> os \<Rightarrow> size_t \<times> os" where
  "allocatePages count s =
     (let len = count * os_page_size s;
          (p, s1) = next_answer s
      in if mmap_ok s1 p len
         then (p, s1\<lparr>os_pages :=
                 page_run (os_page_size s) p (unat len div unat (os_page_size s)) @ os_pages s1\<rparr>)
         else (0, s1))"

text \<open>\<open>munmap\<close> takes every page of the range out of the address space; the result code is
  dropped by the code.\<close>

definition freePages :: "size_t \<Rightarrow> size_t \<Rightarrow> os \<Rightarrow> os" where
  "freePages ptr count s =
     (let gone = page_run (os_page_size s) ptr
                   (unat (count * os_page_size s) div unat (os_page_size s))
      in s\<lparr>os_pages := filter (\<lambda>q. q \<notin> set gone) (os_pages s),
           os_guarded := filter (\<lambda>q. q \<notin> set gone) (os_guarded s)\<rparr>)"

text \<open>\<open>mprotect\<close> of one page to no access; it fails, and the code drops the failure, for an
  address that is no mapped page.\<close>

definition protectPage :: "size_t \<Rightarrow> os \<Rightarrow> os" where
  "protectPage addr s =
     (if addr \<in> set (os_pages s) then s\<lparr>os_guarded := addr # os_guarded s\<rparr> else s)"

definition requestedPages :: "size_t \<Rightarrow> size_t \<Rightarrow> size_t" where
  "requestedPages page sz = (sz + page - 1) div page"

definition totalPages :: "size_t \<Rightarrow> bool \<Rightarrow> bool \<Rightarrow> size_t" where
  "totalPages n guardLow guardHigh =
     n + (if guardLow then 1 else 0) + (if guardHigh then 1 else 0)"

definition pagedMalloc :: "size_t \<Rightarrow> size_t \<Rightarrow> bool \<Rightarrow> bool \<Rightarrow> os \<Rightarrow> size_t \<times> os" where
  "pagedMalloc alignment sz guardLow guardHigh s =
     (let page = os_page_size s;
          numRequestedPages = requestedPages page sz;
          numTotalPages = totalPages numRequestedPages guardLow guardHigh;
          (mem, s1) = allocatePages numTotalPages s;
          (mem, s2) = (if guardLow then (mem + page, protectPage mem s1) else (mem, s1));
          s3 = (if guardHigh then protectPage (mem + numRequestedPages * page) s2 else s2)
      in (mem, s3))"

definition pagedFree :: "size_t \<Rightarrow> size_t \<Rightarrow> size_t \<Rightarrow> bool \<Rightarrow> bool \<Rightarrow> os \<Rightarrow> os" where
  "pagedFree ptr alignment sz guardLow guardHigh s =
     (let page = os_page_size s;
          numRequestedPages = requestedPages page sz;
          numTotalPages = totalPages numRequestedPages guardLow guardHigh;
          ptr = (if guardLow then ptr - page else ptr)
      in freePages ptr numTotalPages s)"

subsection \<open>The default allocator\<close>

definition DefaultAllocator_allocate :: "request \<Rightarrow> os \<Rightarrow> (allocation \<times> os) res" where
  "DefaultAllocator_allocate r s =
     bind_res
       (if useGuards r then Inr (pagedMalloc (req_alignment r) (req_size r) True True s)
        else if req_alignment r > 1 then alignedMalloc (req_alignment r) (req_size r) s
        else Inr (c_malloc (req_size r) s))
       (\<lambda>(ptr, s1). Inr (\<lparr>alloc_ptr = ptr, alloc_request = r\<rparr>, s1))"

definition DefaultAllocator_free :: "allocation \<Rightarrow> os \<Rightarrow> os res" where
  "DefaultAllocator_free a s =
     (let r = alloc_request a
      in if useGuards r
         then Inr (pagedFree (alloc_ptr a) (req_alignment r) (req_size r) True True s)
         else if req_alignment r > 1 then alignedFree (alloc_ptr a) (req_size r) s
         else c_free (alloc_ptr a) s)"

subsection \<open>Alignment and the hidden base pointer\<close>

lemma alignUp_unat:
  fixes v a :: "'a::len word"
  assumes "a \<noteq> 0" and "unat v + unat a \<le> 2 ^ LENGTH('a)"
  shows "\<exists>r. alignUp v a = Inr r \<and> unat r = unat a * ((unat v + unat a - 1) div unat a)"
proof -
  have pos: "0 < unat a" using assms(1) by (simp add: unat_gt_0)
  have "unat (a - 1) = unat a - 1" using assms(1) by (simp add: unat_minus_one)
  then have "unat (v + (a - 1)) = unat v + unat a - 1"
    using assms(2) pos by (simp only: unat_word_ariths(1)) simp
  moreover have "v + a - 1 = v + (a - 1)" by (simp add: algebra_simps)
  ultimately have sum: "unat (v + a - 1) = unat v + unat a - 1" by (simp only:)
  have "unat a * ((unat v + unat a - 1) div unat a) \<le> unat v + unat a - 1" by simp
  also have "\<dots> < 2 ^ LENGTH('a)" using assms(2) pos by simp
  finally have "unat (a * ((v + a - 1) div a)) = unat a * ((unat v + unat a - 1) div unat a)"
    using sum by (subst unat_mult_lem [THEN iffD1]) (simp_all add: unat_div_distrib)
  then show ?thesis using assms(1) by (simp add: alignUp_def)
qed

lemma round_up_nat:
  assumes "0 < (a :: nat)"
  shows "v \<le> a * ((v + a - 1) div a)" and "a * ((v + a - 1) div a) < v + a"
    and "a * ((v + a - 1) div a) mod a = 0"
proof -
  have "a * ((v + a - 1) div a) = (v + a - 1) - (v + a - 1) mod a"
    by (simp add: minus_mod_eq_mult_div)
  moreover have "(v + a - 1) mod a < a" using assms by simp
  ultimately show "v \<le> a * ((v + a - 1) div a)" and "a * ((v + a - 1) div a) < v + a"
    using assms by linarith+
  show "a * ((v + a - 1) div a) mod a = 0" by simp
qed

text \<open>
  \<open>alignUp\<close> returns the least multiple of the alignment that is not below the value, as long
  as the value is not within one alignment of the top of the address space.
\<close>

lemma alignUp_bounds:
  fixes v a :: "'a::len word"
  assumes "a \<noteq> 0" and "unat v + unat a \<le> 2 ^ LENGTH('a)"
  obtains r where "alignUp v a = Inr r" "unat v \<le> unat r" "unat r < unat v + unat a"
    "unat r mod unat a = 0"
  using alignUp_unat [OF assms] round_up_nat [of "unat a" "unat v"] assms(1)
  by (metis unat_gt_0)

lemma c_malloc_cases:
  obtains (fail) s' where "c_malloc n s = (0, s')" "os_blocks s' = os_blocks s"
      "os_mem s' = os_mem s" "os_pages s' = os_pages s" "os_guarded s' = os_guarded s"
      "os_page_size s' = os_page_size s"
  | (ok) p s' where "c_malloc n s = (p, s')" "malloc_ok s p n"
      "os_blocks s' = (p, n) # os_blocks s" "os_mem s' = os_mem s" "os_pages s' = os_pages s"
      "os_guarded s' = os_guarded s" "os_page_size s' = os_page_size s"
proof -
  obtain p s1 where a: "next_answer s = (p, s1)" by (cases "next_answer s")
  then have "os_blocks s1 = os_blocks s" "os_mem s1 = os_mem s" "os_pages s1 = os_pages s"
    "os_guarded s1 = os_guarded s" "os_page_size s1 = os_page_size s"
    by (auto simp: next_answer_def split: list.splits)
  with a that show ?thesis
    by (cases "malloc_ok s1 p n") (auto simp: c_malloc_def malloc_ok_def)
qed

lemma malloc_ok_nz: "malloc_ok s p n \<Longrightarrow> p \<noteq> 0"
  by (simp add: malloc_ok_def)

lemma apart_addr: "apart b c \<Longrightarrow> fst b \<noteq> fst c"
  by (auto simp: apart_def)

text \<open>
  What \<open>alignedMalloc\<close> does when \<open>malloc\<close> succeeds and the block size does not wrap:
  the pointer is aligned, the user's bytes and the hidden pointer behind them lie in the block, and
  the hidden pointer is the block's address.
\<close>

lemma alignedMalloc_ok:
  assumes al: "alignment \<noteq> 0" and nowrap: "unat sz + unat alignment + 8 < 2 ^ 64"
    and m: "c_malloc (sz + alignment + 8) s = (base, s1)" and base: "base \<noteq> 0"
  obtains p where
    "alignedMalloc alignment sz s = Inr (p, s1\<lparr>os_mem := store_ptr (p + sz) base (os_mem s1)\<rparr>)"
    "unat p mod unat alignment = 0" "unat base \<le> unat p"
    "unat p + unat sz + 8 \<le> unat base + unat (sz + alignment + 8)"
    "unat (p + sz) = unat p + unat sz" "in_block s1 (p + sz) 8"
    "os_blocks s1 = (base, sz + alignment + 8) # os_blocks s"
    "unat base + unat (sz + alignment + 8) < 2 ^ 64" "malloc_ok s base (sz + alignment + 8)"
proof -
  let ?n = "sz + alignment + 8"
  have "malloc_ok s base ?n \<and> os_blocks s1 = (base, ?n) # os_blocks s"
    using m base by (cases rule: c_malloc_cases [of ?n s]) auto
  then have ok: "malloc_ok s base ?n" and blocks: "os_blocks s1 = (base, ?n) # os_blocks s"
    by simp_all
  have n: "unat ?n = unat sz + unat alignment + 8"
    using nowrap by (simp add: unat_word_ariths)
  have top: "unat base + unat ?n < 2 ^ 64" using ok by (simp add: malloc_ok_def)
  then have "unat base + unat alignment \<le> 2 ^ LENGTH(64)" using n by simp
  then obtain p where p: "alignUp base alignment = Inr p" "unat base \<le> unat p"
    "unat p < unat base + unat alignment" "unat p mod unat alignment = 0"
    using alignUp_bounds [OF al] by blast
  have psz: "unat (p + sz) = unat p + unat sz"
    using p(3) n top by (intro unat_add_no_wrap) simp
  have inb: "in_block s1 (p + sz) 8"
    using blocks psz p(2,3) n by (simp add: in_block_def)
  show ?thesis
    by (rule that) (use m p psz inb n top blocks ok in
      \<open>simp_all add: alignedMalloc_def memcpy_to_def add.assoc\<close>)
qed

lemma c_malloc_null_blocks: "c_malloc n s = (0, s1) \<Longrightarrow> os_blocks s1 = os_blocks s"
  by (rule c_malloc_cases [of n s]) (auto simp: malloc_ok_def)

lemma alignUp_0: "a \<noteq> 0 \<Longrightarrow> alignUp 0 a = Inr (0 :: 'a::len word)"
proof -
  assume a: "a \<noteq> 0"
  then have "a - 1 < a"
    by (metis diff_less unat_gt_0 unat_minus_one word_less_nat_alt zero_less_one)
  then show ?thesis using a by (simp add: alignUp_def div_word_less)
qed

lemma alignedMalloc_null:
  "c_malloc (sz + alignment + 8) s = (0, s1) \<Longrightarrow> alignment \<noteq> 0 \<Longrightarrow>
   alignedMalloc alignment sz s = bind_res (memcpy_to sz 0 s1) (\<lambda>s2. Inr (0, s2))"
  by (simp add: alignedMalloc_def alignUp_0)

lemma filter_apart_id:
  "list_all (apart (p, n)) bs \<Longrightarrow> filter (\<lambda>b. fst b \<noteq> p) bs = bs"
  by (induction bs) (auto dest: apart_addr)

lemma alignedFree_ok:
  assumes inb: "in_block s (p + sz) 8" and ld: "load_ptr (p + sz) (os_mem s) = base"
    and base: "base \<in> fst ` set (os_blocks s)" "base \<noteq> 0"
  shows "alignedFree p sz s = Inr (s\<lparr>os_blocks := filter (\<lambda>b. fst b \<noteq> base) (os_blocks s)\<rparr>)"
  using assms by (simp add: alignedFree_def memcpy_from_def c_free_def)

lemma offset_range:
  assumes "unat (z - x) < n" and "unat (x :: size_t) + n \<le> 2 ^ 64"
  shows "unat x \<le> unat z \<and> unat z < unat x + n"
proof -
  have "unat (x + (z - x)) = unat x + unat (z - x)"
    using assms by (intro unat_add_no_wrap) simp
  then show ?thesis using assms by simp
qed

lemma load_store_other:
  assumes "unat x + 8 \<le> unat y \<or> unat y + 8 \<le> unat x"
    and "unat x + 8 \<le> 2 ^ 64" "unat y + 8 \<le> 2 ^ 64"
  shows "load_ptr x (store_ptr y v m) = load_ptr x m"
proof (rule load_ptr_cong)
  fix z assume "unat (z - x) < 8"
  then have "\<not> unat (z - y) < 8"
    using offset_range [of z x 8] offset_range [of z y 8] assms by linarith
  then show "store_ptr y v m z = m z" by (simp add: store_ptr_def)
qed

subsection \<open>The interface \<open>Allocator\<close>\<close>

text \<open>The virtual functions of \<open>Allocator\<close>, over the state of the implementation.\<close>

record 's allocator =
  vt_allocate :: "request \<Rightarrow> 's \<Rightarrow> (allocation \<times> 's) res"
  vt_free :: "allocation \<Rightarrow> 's \<Rightarrow> 's res"

definition DefaultAllocator :: "os allocator" where
  "DefaultAllocator =
     \<lparr>vt_allocate = DefaultAllocator_allocate, vt_free = DefaultAllocator_free\<rparr>"

text \<open>
  What the containers rely on. \<open>owns s a\<close>: the allocation \<open>a\<close> is live in state
  \<open>s\<close>; \<open>sep s a b\<close>: freeing \<open>a\<close> does not concern \<open>b\<close>; \<open>proper\<close>:
  the requests for which the implementation keeps the contract.
\<close>

locale allocator_contract =
  fixes A :: "'s allocator"
    and inv :: "'s \<Rightarrow> bool"
    and owns :: "'s \<Rightarrow> allocation \<Rightarrow> bool"
    and sep :: "'s \<Rightarrow> allocation \<Rightarrow> allocation \<Rightarrow> bool"
    and proper :: "request \<Rightarrow> bool"
  assumes allocate_request: "vt_allocate A r s = Inr (a, s') \<Longrightarrow> alloc_request a = r"
    and allocate_inv:
      "inv s \<Longrightarrow> proper r \<Longrightarrow> vt_allocate A r s = Inr (a, s') \<Longrightarrow> inv s'"
    and allocate_owns:
      "inv s \<Longrightarrow> proper r \<Longrightarrow> vt_allocate A r s = Inr (a, s') \<Longrightarrow> alloc_ptr a \<noteq> 0
        \<Longrightarrow> owns s' a"
    and allocate_keeps:
      "inv s \<Longrightarrow> proper r \<Longrightarrow> owns s b \<Longrightarrow> vt_allocate A r s = Inr (a, s')
        \<Longrightarrow> alloc_ptr a \<noteq> 0 \<Longrightarrow> owns s' b \<and> sep s' b a"
    and free_owned: "inv s \<Longrightarrow> owns s a \<Longrightarrow> \<exists>s'. vt_free A a s = Inr s' \<and> inv s'"
    and free_keeps:
      "inv s \<Longrightarrow> owns s a \<Longrightarrow> owns s b \<Longrightarrow> sep s a b \<Longrightarrow> vt_free A a s = Inr s'
        \<Longrightarrow> owns s' b"
begin

text \<open>
  Growing storage, as the containers do it: allocate the new block, then free the old one. The
  free succeeds and the new block stays live.
\<close>

lemma replace_block:
  assumes "inv s" "proper r" "owns s old" "vt_allocate A r s = Inr (new, s1)" "alloc_ptr new \<noteq> 0"
  obtains s2 where "vt_free A old s1 = Inr s2" "inv s2" "owns s2 new" "alloc_request new = r"
proof -
  have s1: "inv s1" "owns s1 old" "sep s1 old new" "owns s1 new" "alloc_request new = r"
    using assms allocate_inv allocate_keeps allocate_owns allocate_request by blast+
  then obtain s2 where "vt_free A old s1 = Inr s2" "inv s2" using free_owned by blast
  with s1 show ?thesis using that free_keeps by blast
qed

text \<open>Two allocations that are live together are freed in either order.\<close>

lemma free_both:
  assumes "inv s" "proper r" "owns s a" "vt_allocate A r s = Inr (b, s1)" "alloc_ptr b \<noteq> 0"
  shows "\<exists>s2 s3. vt_free A a s1 = Inr s2 \<and> vt_free A b s2 = Inr s3 \<and> inv s3"
  using replace_block [OF assms] free_owned by metis

text \<open>An allocation that is freed at once.\<close>

lemma allocate_free:
  assumes "inv s" "proper r" "vt_allocate A r s = Inr (a, s1)" "alloc_ptr a \<noteq> 0"
  obtains s2 where "vt_free A a s1 = Inr s2" "inv s2"
  using assms allocate_inv allocate_owns free_owned by metis

end

text \<open>The blocks \<open>as\<close> are live and can be freed one after the other.\<close>

definition holds_all ::
  "('s \<Rightarrow> bool) \<Rightarrow> ('s \<Rightarrow> allocation \<Rightarrow> bool) \<Rightarrow> ('s \<Rightarrow> allocation \<Rightarrow> allocation \<Rightarrow> bool)
    \<Rightarrow> 's \<Rightarrow> allocation list \<Rightarrow> bool" where
  "holds_all I own separate s as \<longleftrightarrow>
     I s \<and> list_all (own s) as \<and> sorted_wrt (separate s) as"

lemma holds_all_Nil [simp]: "holds_all I own separate s [] \<longleftrightarrow> I s"
  by (simp add: holds_all_def)

text \<open>
  What a container that keeps several blocks relies on besides: separation is symmetric and lasts,
  and \<open>live\<close> counts the blocks that have been allocated and not freed.
\<close>

locale allocator_chain = allocator_contract A inv owns sep proper
  for A :: "'s allocator" and inv owns sep proper +
  fixes live :: "'s \<Rightarrow> nat"
  assumes sep_sym: "sep s a b \<Longrightarrow> sep s b a"
    and allocate_keeps_sep:
      "inv s \<Longrightarrow> proper r \<Longrightarrow> owns s b \<Longrightarrow> owns s c \<Longrightarrow> sep s b c
        \<Longrightarrow> vt_allocate A r s = Inr (a, s') \<Longrightarrow> alloc_ptr a \<noteq> 0 \<Longrightarrow> sep s' b c"
    and free_keeps_sep:
      "inv s \<Longrightarrow> owns s a \<Longrightarrow> sep s b c \<Longrightarrow> vt_free A a s = Inr s' \<Longrightarrow> sep s' b c"
    and allocate_live:
      "inv s \<Longrightarrow> proper r \<Longrightarrow> vt_allocate A r s = Inr (a, s') \<Longrightarrow> alloc_ptr a \<noteq> 0
        \<Longrightarrow> live s' = Suc (live s)"
    and free_live:
      "inv s \<Longrightarrow> owns s a \<Longrightarrow> vt_free A a s = Inr s' \<Longrightarrow> Suc (live s') = live s"
begin

lemma holds_all_allocate:
  assumes "holds_all inv owns sep s as" "proper r" "vt_allocate A r s = Inr (a, s')" "alloc_ptr a \<noteq> 0"
  shows "holds_all inv owns sep s' (a # as)"
proof -
  have inv: "inv s" and own: "\<And>b. b \<in> set as \<Longrightarrow> owns s b"
    using assms(1) by (auto simp: holds_all_def list_all_iff)
  have "sorted_wrt (sep s') as"
    using assms(1) own by (auto simp: holds_all_def intro: allocate_keeps_sep [OF inv assms(2) _ _ _ assms(3,4)]
        elim!: sorted_wrt_mono_rel [rotated])
  then show ?thesis
    using allocate_inv [OF inv assms(2,3)] allocate_owns [OF inv assms(2-4)]
      allocate_keeps [OF inv assms(2) own assms(3,4)]
    by (auto simp: holds_all_def list_all_iff intro: sep_sym)
qed

lemma holds_all_free:
  assumes "holds_all inv owns sep s (a # as)"
  obtains s' where "vt_free A a s = Inr s'" "holds_all inv owns sep s' as" "Suc (live s') = live s"
proof -
  have a: "inv s" "owns s a" and as: "\<And>b. b \<in> set as \<Longrightarrow> owns s b \<and> sep s a b"
    and sorted: "sorted_wrt (sep s) as"
    using assms by (auto simp: holds_all_def list_all_iff)
  obtain s' where s': "vt_free A a s = Inr s'" "inv s'" using free_owned [OF a] by blast
  have "sorted_wrt (sep s') as"
    using sorted by (rule sorted_wrt_mono_rel [rotated]) (rule free_keeps_sep [OF a _ s'(1)])
  with s' as free_keeps [OF a _ _ s'(1)] free_live [OF a s'(1)] show ?thesis
    by (intro that [of s']) (auto simp: holds_all_def list_all_iff)
qed

end

subsection \<open>The default allocator keeps the contract\<close>

text \<open>
  Guarded requests are left out: when \<open>mmap\<close> fails, \<open>pagedMalloc\<close> returns the
  address of the second page of the null mapping, so a guarded allocation that failed looks live
  (lemma \<open>pagedMalloc_null\<close> below).
\<close>

definition os_inv :: "os \<Rightarrow> bool" where
  "os_inv s \<longleftrightarrow> sorted_wrt apart (os_blocks s) \<and>
     list_all (\<lambda>(b, n). b \<noteq> 0 \<and> unat b + unat n < 2 ^ 64) (os_blocks s)"

definition os_proper :: "request \<Rightarrow> bool" where
  "os_proper r \<longleftrightarrow>
     \<not> useGuards r \<and> unat (req_size r) + unat (req_alignment r) + 8 < 2 ^ 64"

text \<open>The \<open>malloc\<close> block that backs an allocation.\<close>

definition os_base :: "os \<Rightarrow> allocation \<Rightarrow> size_t" where
  "os_base s a =
     (if req_alignment (alloc_request a) > 1
      then load_ptr (alloc_ptr a + req_size (alloc_request a)) (os_mem s) else alloc_ptr a)"

definition os_owns :: "os \<Rightarrow> allocation \<Rightarrow> bool" where
  "os_owns s a \<longleftrightarrow>
     \<not> useGuards (alloc_request a) \<and>
     (if req_alignment (alloc_request a) > 1
      then (let q = alloc_ptr a + req_size (alloc_request a)
            in list_ex (\<lambda>(b, n). b = load_ptr q (os_mem s) \<and> unat b \<le> unat q \<and>
                 unat q + 8 \<le> unat b + unat n) (os_blocks s))
      else (alloc_ptr a, req_size (alloc_request a)) \<in> set (os_blocks s))"

definition os_sep :: "os \<Rightarrow> allocation \<Rightarrow> allocation \<Rightarrow> bool" where
  "os_sep s a b \<longleftrightarrow> os_base s a \<noteq> os_base s b"

lemma os_owns_base: "os_owns s a \<Longrightarrow> os_base s a \<in> fst ` set (os_blocks s)"
  by (force simp: os_owns_def os_base_def list_ex_iff Let_def split: if_splits)

lemma os_base_nz: "os_inv s \<Longrightarrow> os_owns s a \<Longrightarrow> os_base s a \<noteq> 0"
  using os_owns_base [of s a] by (auto simp: os_inv_def list_all_iff)

lemma os_owns_block:
  assumes "os_owns s a" "req_alignment (alloc_request a) > 1"
  shows "in_block s (alloc_ptr a + req_size (alloc_request a)) 8"
  using assms by (auto simp: os_owns_def in_block_def list_ex_iff Let_def)

text \<open>Freeing removes exactly the block that backs the allocation.\<close>

lemma os_free_owned:
  assumes "os_inv s" "os_owns s a"
  shows "DefaultAllocator_free a s =
           Inr (s\<lparr>os_blocks := filter (\<lambda>b. fst b \<noteq> os_base s a) (os_blocks s)\<rparr>)"
proof (cases "req_alignment (alloc_request a) > 1")
  case True
  with assms show ?thesis
    using alignedFree_ok [OF os_owns_block refl] os_owns_base [of s a] os_base_nz [of s a]
    by (simp add: DefaultAllocator_free_def os_base_def os_owns_def Let_def)
next
  case False
  with assms show ?thesis
    using os_owns_base [of s a] os_base_nz [of s a]
    by (simp add: DefaultAllocator_free_def os_base_def os_owns_def c_free_def)
qed

lemma os_inv_filter: "os_inv s \<Longrightarrow> os_inv (s\<lparr>os_blocks := filter P (os_blocks s)\<rparr>)"
  by (auto simp: os_inv_def sorted_wrt_filter list_all_iff)

lemma os_free_keeps:
  assumes "os_owns s b" "os_base s a \<noteq> os_base s b"
  shows "os_owns (s\<lparr>os_blocks := filter (\<lambda>c. fst c \<noteq> os_base s a) (os_blocks s)\<rparr>) b"
  using assms by (auto simp: os_owns_def os_base_def list_ex_iff Let_def split: if_splits)

lemma malloc_ok_inv:
  "os_inv s \<Longrightarrow> malloc_ok s p n \<Longrightarrow> os_blocks s' = (p, n) # os_blocks s \<Longrightarrow> os_inv s'"
  by (auto simp: os_inv_def malloc_ok_def list_all_iff)

text \<open>What an allocation of the default allocator does to the state.\<close>

lemma os_allocate_cases:
  assumes r: "os_proper r" and a: "DefaultAllocator_allocate r s = Inr (a, s')"
  obtains (null) "alloc_ptr a = 0" "os_blocks s' = os_blocks s"
  | (plain) "\<not> req_alignment r > 1" "malloc_ok s (alloc_ptr a) (req_size r)"
      "os_blocks s' = (alloc_ptr a, req_size r) # os_blocks s" "os_mem s' = os_mem s"
  | (aligned) base where "req_alignment r > 1" "base \<noteq> 0" "alloc_ptr a \<noteq> 0"
      "malloc_ok s base (req_size r + req_alignment r + 8)"
      "os_blocks s' = (base, req_size r + req_alignment r + 8) # os_blocks s"
      "os_mem s' = store_ptr (alloc_ptr a + req_size r) base (os_mem s)"
      "unat base \<le> unat (alloc_ptr a + req_size r)"
      "unat (alloc_ptr a + req_size r) + 8
        \<le> unat base + unat (req_size r + req_alignment r + 8)"
      "unat (alloc_ptr a) mod unat (req_alignment r) = 0"
proof (cases "req_alignment r > 1")
  case False
  then have m: "c_malloc (req_size r) s = (alloc_ptr a, s')"
    using r a by (auto simp: DefaultAllocator_allocate_def os_proper_def split: prod.splits)
  show ?thesis
    using m by (cases rule: c_malloc_cases [of "req_size r" s]) (use False null plain in auto)
next
  case True
  then have al: "req_alignment r \<noteq> 0" by auto
  have am: "alignedMalloc (req_alignment r) (req_size r) s = Inr (alloc_ptr a, s')"
    using r a True by (auto simp: DefaultAllocator_allocate_def os_proper_def)
  obtain base s1 where m: "c_malloc (req_size r + req_alignment r + 8) s = (base, s1)"
    by (cases "c_malloc (req_size r + req_alignment r + 8) s")
  show ?thesis
  proof (cases "base = 0")
    case base0: True
    have "os_blocks s1 = os_blocks s" using m base0 c_malloc_null_blocks by blast
    then show ?thesis
      using am null m base0 by (auto simp: alignedMalloc_null al memcpy_to_def split: if_splits)
  next
    case base: False
    have mem: "os_mem s1 = os_mem s" using m by (cases rule: c_malloc_cases
      [of "req_size r + req_alignment r + 8" s]) auto
    let ?n = "req_size r + req_alignment r + 8"
    from r have nw: "unat (req_size r) + unat (req_alignment r) + 8 < 2 ^ 64"
      by (simp add: os_proper_def)
    obtain p where p: "alignedMalloc (req_alignment r) (req_size r) s =
        Inr (p, s1\<lparr>os_mem := store_ptr (p + req_size r) base (os_mem s1)\<rparr>)"
      "unat p mod unat (req_alignment r) = 0" "unat base \<le> unat p"
      "unat p + unat (req_size r) + 8 \<le> unat base + unat ?n"
      "unat (p + req_size r) = unat p + unat (req_size r)"
      "os_blocks s1 = (base, ?n) # os_blocks s" "malloc_ok s base ?n"
      by (rule alignedMalloc_ok [OF al nw m base])
    have eq: "p = alloc_ptr a" "s' = s1\<lparr>os_mem := store_ptr (p + req_size r) base (os_mem s1)\<rparr>"
      using p(1) am by auto
    have "p \<noteq> 0" using p(3) base by (auto simp: unat_eq_zero)
    with eq show ?thesis
      using p(2-7) by (intro aligned [of base]) (simp_all add: True base mem)
  qed
qed

lemma os_allocate_request: "DefaultAllocator_allocate r s = Inr (a, s') \<Longrightarrow> alloc_request a = r"
  by (auto simp: DefaultAllocator_allocate_def)

lemma os_allocate_inv:
  assumes "os_inv s" "os_proper r" "DefaultAllocator_allocate r s = Inr (a, s')"
  shows "os_inv s'"
  using assms(2,3)
proof (cases rule: os_allocate_cases)
  case null
  with assms(1) show ?thesis by (simp add: os_inv_def)
next
  case plain
  show ?thesis by (rule malloc_ok_inv [OF assms(1) plain(2,3)])
next
  case (aligned base)
  show ?thesis by (rule malloc_ok_inv [OF assms(1) aligned(4,5)])
qed

lemma os_allocate_owns:
  assumes "os_proper r" "DefaultAllocator_allocate r s = Inr (a, s')" "alloc_ptr a \<noteq> 0"
  shows "os_owns s' a"
proof -
  have req: "alloc_request a = r" using assms(2) by (rule os_allocate_request)
  show ?thesis using assms(1,2)
  proof (cases rule: os_allocate_cases)
    case null
    with assms(3) show ?thesis by simp
  next
    case plain
    with req assms(1) show ?thesis by (simp add: os_owns_def os_proper_def)
  next
    case (aligned base)
    with req assms(1) show ?thesis by (simp add: os_owns_def os_proper_def Let_def)
  qed
qed

text \<open>A new block is apart from every live one, so the hidden pointers of the others survive.\<close>

lemma store_in_new_block:
  assumes "(b, n) \<in> set (os_blocks s)" and "unat b \<le> unat q" "unat q + 8 \<le> unat b + unat n"
    and "malloc_ok s p m" and "unat p \<le> unat y" "unat y + 8 \<le> unat p + unat m" and "os_inv s"
  shows "load_ptr q (store_ptr y v (os_mem s)) = load_ptr q (os_mem s)"
proof (rule load_store_other)
  have "apart (p, m) (b, n)" "unat b + unat n < 2 ^ 64" "unat p + unat m < 2 ^ 64"
    using assms(1,4,7) by (auto simp: malloc_ok_def os_inv_def list_all_iff)
  then show "unat q + 8 \<le> unat y \<or> unat y + 8 \<le> unat q"
    and "unat q + 8 \<le> 2 ^ 64" and "unat y + 8 \<le> 2 ^ 64"
    using assms by (auto simp: apart_def)
qed

lemma os_owns_addr_apart:
  assumes "os_owns s b" "malloc_ok s p n"
  shows "os_base s b \<noteq> p"
  using os_owns_base [OF assms(1)] assms(2) by (force simp: malloc_ok_def list_all_iff dest: apart_addr)

lemma os_allocate_base:
  assumes inv: "os_inv s" and r: "os_proper r" and b: "os_owns s b"
    and a: "DefaultAllocator_allocate r s = Inr (a, s')" and nz: "alloc_ptr a \<noteq> 0"
  shows "os_base s' b = os_base s b"
  using r a
proof (cases rule: os_allocate_cases)
  case (aligned base)
  let ?q = "alloc_ptr b + req_size (alloc_request b)"
  have "load_ptr ?q (os_mem s') = load_ptr ?q (os_mem s)" if "req_alignment (alloc_request b) > 1"
  proof -
    from that b obtain c n where "(c, n) \<in> set (os_blocks s)" "unat c \<le> unat ?q"
      "unat ?q + 8 \<le> unat c + unat n"
      by (auto simp: os_owns_def list_ex_iff Let_def)
    from store_in_new_block [OF this aligned(4) aligned(7,8) inv] aligned(6)
    show ?thesis by simp
  qed
  then show ?thesis by (simp add: os_base_def)
qed (use nz in \<open>simp_all add: os_base_def\<close>)

lemma os_allocate_keeps:
  assumes inv: "os_inv s" and r: "os_proper r" and b: "os_owns s b"
    and a: "DefaultAllocator_allocate r s = Inr (a, s')" and nz: "alloc_ptr a \<noteq> 0"
  shows "os_owns s' b \<and> os_sep s' b a"
proof -
  have req: "alloc_request a = r" using a by (rule os_allocate_request)
  have base: "os_base s' b = os_base s b" using assms by (rule os_allocate_base)
  from r a show ?thesis
  proof (cases rule: os_allocate_cases)
    case null
    with nz show ?thesis by simp
  next
    case plain
    have "os_base s b \<noteq> alloc_ptr a" using b plain(2) by (rule os_owns_addr_apart)
    moreover have "os_base s' a = alloc_ptr a" using plain req by (simp add: os_base_def)
    moreover have "os_owns s' b" using b plain by (auto simp: os_owns_def list_ex_iff Let_def)
    ultimately show ?thesis using base by (simp add: os_sep_def)
  next
    case (aligned base)
    have "os_base s b \<noteq> base" using b aligned(4) by (rule os_owns_addr_apart)
    moreover have "os_base s' a = base" using aligned req by (simp add: os_base_def)
    moreover have "os_owns s' b"
      using b base aligned(5) by (auto simp: os_owns_def os_base_def list_ex_iff Let_def split: if_splits)
    ultimately show ?thesis using base by (simp add: os_sep_def)
  qed
qed

interpretation default_alloc: allocator_contract DefaultAllocator os_inv os_owns os_sep os_proper
proof (unfold_locales; (simp only: DefaultAllocator_def allocator.simps)?)
  fix r s a s'
  show "DefaultAllocator_allocate r s = Inr (a, s') \<Longrightarrow> alloc_request a = r"
    by (rule os_allocate_request)
  show "os_inv s \<Longrightarrow> os_proper r \<Longrightarrow> DefaultAllocator_allocate r s = Inr (a, s') \<Longrightarrow> os_inv s'"
    by (rule os_allocate_inv)
  show "os_inv s \<Longrightarrow> os_proper r \<Longrightarrow> DefaultAllocator_allocate r s = Inr (a, s') \<Longrightarrow>
    alloc_ptr a \<noteq> 0 \<Longrightarrow> os_owns s' a"
    by (rule os_allocate_owns)
  show "os_inv s \<Longrightarrow> os_proper r \<Longrightarrow> os_owns s b \<Longrightarrow> DefaultAllocator_allocate r s = Inr (a, s') \<Longrightarrow>
    alloc_ptr a \<noteq> 0 \<Longrightarrow> os_owns s' b \<and> os_sep s' b a" for b
    by (rule os_allocate_keeps)
  show "os_inv s \<Longrightarrow> os_owns s a \<Longrightarrow> \<exists>s'. DefaultAllocator_free a s = Inr s' \<and> os_inv s'"
    by (simp add: os_free_owned os_inv_filter)
  show "os_inv s \<Longrightarrow> os_owns s a \<Longrightarrow> os_owns s b \<Longrightarrow> os_sep s a b \<Longrightarrow>
    DefaultAllocator_free a s = Inr s' \<Longrightarrow> os_owns s' b" for b
    by (auto simp: os_free_owned os_sep_def intro: os_free_keeps)
qed

lemma filter_one_out:
  "distinct (map fst bs) \<Longrightarrow> b \<in> fst ` set bs \<Longrightarrow>
   Suc (length (filter (\<lambda>c. fst c \<noteq> b) bs)) = length bs"
proof (induction bs)
  case (Cons c bs)
  have "filter (\<lambda>d. fst d \<noteq> b) bs = bs" if "fst c = b"
    using that Cons.prems(1) by (intro filter_True) (auto simp: rev_image_eqI)
  then show ?case using Cons by (cases "fst c = b") auto
qed simp

lemma os_inv_distinct:
  assumes "os_inv s" shows "distinct (map fst (os_blocks s))"
proof -
  have "sorted_wrt apart bs \<Longrightarrow> distinct (map fst bs)" for bs
    by (induction bs) (auto dest: apart_addr)
  then show ?thesis using assms by (simp add: os_inv_def)
qed

interpretation default_chain: allocator_chain DefaultAllocator os_inv os_owns os_sep os_proper
  "\<lambda>s. length (os_blocks s)"
proof (unfold_locales; (simp only: DefaultAllocator_def allocator.simps)?)
  fix r s a s' b c
  show "os_sep s a b \<Longrightarrow> os_sep s b a" by (simp add: os_sep_def)
  show "os_inv s \<Longrightarrow> os_proper r \<Longrightarrow> os_owns s b \<Longrightarrow> os_owns s c \<Longrightarrow> os_sep s b c \<Longrightarrow>
    DefaultAllocator_allocate r s = Inr (a, s') \<Longrightarrow> alloc_ptr a \<noteq> 0 \<Longrightarrow> os_sep s' b c"
    by (simp add: os_sep_def os_allocate_base)
  show "os_inv s \<Longrightarrow> os_owns s a \<Longrightarrow> os_sep s b c \<Longrightarrow>
    DefaultAllocator_free a s = Inr s' \<Longrightarrow> os_sep s' b c"
    by (auto simp: os_free_owned os_sep_def os_base_def)
  show "os_inv s \<Longrightarrow> os_proper r \<Longrightarrow> DefaultAllocator_allocate r s = Inr (a, s') \<Longrightarrow>
    alloc_ptr a \<noteq> 0 \<Longrightarrow> length (os_blocks s') = Suc (length (os_blocks s))"
    by (erule os_allocate_cases, assumption) simp_all
  show "os_inv s \<Longrightarrow> os_owns s a \<Longrightarrow> DefaultAllocator_free a s = Inr s' \<Longrightarrow>
    Suc (length (os_blocks s')) = length (os_blocks s)"
    using filter_one_out [OF os_inv_distinct os_owns_base] by (auto simp: os_free_owned)
qed

lemma os_allocate_free_blocks:
  assumes inv: "os_inv s" and r: "os_proper r"
    and a: "DefaultAllocator_allocate r s = Inr (a, s1)" and nz: "alloc_ptr a \<noteq> 0"
    and free: "DefaultAllocator_free a s1 = Inr s2"
  shows "os_blocks s2 = os_blocks s"
proof -
  have req: "alloc_request a = r" using a by (rule os_allocate_request)
  have "os_inv s1" "os_owns s1 a"
    using os_allocate_inv [OF inv r a] os_allocate_owns [OF r a nz] by simp_all
  then have s2: "os_blocks s2 = filter (\<lambda>b. fst b \<noteq> os_base s1 a) (os_blocks s1)"
    using free by (auto simp: os_free_owned)
  from r a show ?thesis
  proof (cases rule: os_allocate_cases)
    case null
    with nz show ?thesis by simp
  next
    case plain
    with s2 req filter_apart_id [of "alloc_ptr a" "req_size r" "os_blocks s"] show ?thesis
      by (simp add: os_base_def malloc_ok_def)
  next
    case (aligned base)
    with s2 req filter_apart_id [of base "req_size r + req_alignment r + 8" "os_blocks s"]
    show ?thesis by (simp add: os_base_def malloc_ok_def)
  qed
qed

subsection \<open>Guarded blocks\<close>

text \<open>The page of an address, and whether the process may read and write there.\<close>

definition page_of :: "os \<Rightarrow> size_t \<Rightarrow> size_t" where
  "page_of s x = of_nat (unat x div unat (os_page_size s) * unat (os_page_size s))"

definition accessible :: "os \<Rightarrow> size_t \<Rightarrow> bool" where
  "accessible s x \<longleftrightarrow> page_of s x \<in> set (os_pages s) \<and> page_of s x \<notin> set (os_guarded s)"

definition pages_inv :: "os \<Rightarrow> bool" where
  "pages_inv s \<longleftrightarrow> os_page_size s \<noteq> 0 \<and> set (os_guarded s) \<subseteq> set (os_pages s)"

lemma page_run_unat:
  assumes "unat p + n * unat page < 2 ^ 64" "i < n"
  shows "unat (p + of_nat i * page) = unat p + i * unat (page :: size_t)"
proof -
  have "unat p + i * unat page < 2 ^ 64"
    using assms mult_le_mono1 [of i n "unat page"] by linarith
  moreover have "of_nat i * page = of_nat (i * unat page)" by simp
  ultimately show ?thesis
    by (simp only: unat_word_ariths unat_of_nat) simp
qed

lemma page_run_disjoint:
  assumes "unat p + n * unat page < 2 ^ 64" "page \<noteq> 0" "apart (p, len) (q, page)"
    "unat len = n * unat page"
  shows "q \<notin> set (page_run page p n)"
proof
  assume "q \<in> set (page_run page p n)"
  then obtain i where i: "i < n" "q = p + of_nat i * page"
    by (auto simp: page_run_def)
  have q: "unat q = unat p + i * unat page" using page_run_unat [OF assms(1) i(1)] i(2) by simp
  have "i * unat page < n * unat page" using i(1) assms(2) by (simp add: unat_gt_0)
  with q assms(3,4) show False by (auto simp: apart_def)
qed

lemma requestedPages_bounds:
  assumes "page \<noteq> 0" "unat sz + unat page \<le> 2 ^ 64"
  shows "unat sz \<le> unat (requestedPages page sz) * unat page"
    and "unat (requestedPages page sz) * unat page < unat sz + unat page"
proof -
  obtain r where "alignUp sz page = Inr r"
    "unat r = unat page * ((unat sz + unat page - 1) div unat page)"
    using alignUp_unat [of page sz] assms by auto
  have "unat (page - 1) = unat page - 1" and "0 < unat page"
    using assms(1) by (simp_all add: unat_minus_one unat_gt_0)
  then have "unat (sz + (page - 1)) = unat sz + unat page - 1"
    using assms(2) by (subst unat_add_no_wrap) simp_all
  moreover have "sz + page - 1 = sz + (page - 1)" by (simp add: algebra_simps)
  ultimately have "unat (sz + page - 1) = unat sz + unat page - 1" by (simp only:)
  then have "unat (requestedPages page sz) = (unat sz + unat page - 1) div unat page"
    by (simp add: requestedPages_def unat_div_distrib)
  then show "unat sz \<le> unat (requestedPages page sz) * unat page"
    and "unat (requestedPages page sz) * unat page < unat sz + unat page"
    using round_up_nat [of "unat page" "unat sz"] assms(1)
    by (simp_all add: unat_gt_0 mult.commute)
qed

lemma next_answer_frame:
  "next_answer s = (p, s1) \<Longrightarrow> os_pages s1 = os_pages s \<and> os_blocks s1 = os_blocks s \<and>
   os_guarded s1 = os_guarded s \<and> os_page_size s1 = os_page_size s \<and> os_mem s1 = os_mem s"
  by (auto simp: next_answer_def split: list.splits)

text \<open>The pages of a successful \<open>allocatePages\<close>.\<close>

lemma allocatePages_ok:
  assumes "allocatePages n s = (m, s1)" "m \<noteq> 0" "unat n * unat (os_page_size s) < 2 ^ 64"
    "os_page_size s \<noteq> 0"
  shows "os_pages s1 = page_run (os_page_size s) m (unat n) @ os_pages s"
    and "unat m + unat n * unat (os_page_size s) < 2 ^ 64"
    and "unat m mod unat (os_page_size s) = 0"
    and "os_guarded s1 = os_guarded s" and "os_page_size s1 = os_page_size s"
    and "set (page_run (os_page_size s) m (unat n)) \<inter> set (os_pages s) = {}"
proof -
  let ?page = "os_page_size s"
  let ?len = "n * ?page"
  have len: "unat ?len = unat n * unat ?page" using assms(3) by (simp add: unat_mult_no_wrap)
  obtain p t where t: "next_answer s = (p, t)" by (cases "next_answer s")
  note fr = next_answer_frame [OF t]
  have ok: "mmap_ok t p ?len" "p = m"
    and s1: "s1 = t\<lparr>os_pages := page_run ?page m (unat n) @ os_pages s\<rparr>"
    using assms t fr len
    by (auto simp: allocatePages_def unat_gt_0 Let_def split: if_splits)
  show "os_pages s1 = page_run ?page m (unat n) @ os_pages s"
    and "os_guarded s1 = os_guarded s" and "os_page_size s1 = ?page"
    using s1 fr by simp_all
  show top: "unat m + unat n * unat ?page < 2 ^ 64" and "unat m mod unat ?page = 0"
    using ok fr len by (simp_all add: mmap_ok_def)
  have "apart (m, ?len) (q, ?page)" if "q \<in> set (os_pages s)" for q
    using ok fr that by (simp add: mmap_ok_def list_all_iff)
  then show "set (page_run ?page m (unat n)) \<inter> set (os_pages s) = {}"
    using page_run_disjoint [OF top assms(4) _ len] by blast
qed

lemma page_of_run:
  assumes "unat p mod unat (os_page_size s) = 0" "os_page_size s \<noteq> 0"
    and "unat p + n * unat (os_page_size s) < 2 ^ 64" "i < n"
    and "unat x = unat p + i * unat (os_page_size s) + d" "d < unat (os_page_size s)"
  shows "page_of s x = p + of_nat i * os_page_size s"
proof -
  let ?P = "unat (os_page_size s)"
  obtain k where k: "unat p = ?P * k" using assms(1) by (auto simp: mod_0_imp_dvd elim: dvdE)
  have "unat x = (k + i) * ?P + d" using k assms(5) by (simp add: algebra_simps)
  moreover have "((k + i) * ?P + d) div ?P = k + i"
    using assms(6) by (subst div_mult_self3) simp_all
  ultimately have "unat x div ?P * ?P = unat p + i * ?P"
    using k by (simp add: algebra_simps)
  also have "\<dots> = unat (p + of_nat i * os_page_size s)"
    using page_run_unat [OF assms(3,4)] by simp
  finally show ?thesis by (simp add: page_of_def)
qed

lemma in_page_run: "i < n \<Longrightarrow> p + of_nat i * page \<in> set (page_run page p n)"
  by (auto simp: page_run_def)

lemma page_run_neq:
  assumes "unat p + n * unat page < 2 ^ 64" "i < n" "j < n" "i \<noteq> j" "page \<noteq> (0 :: size_t)"
  shows "p + of_nat i * page \<noteq> p + of_nat j * page"
proof
  assume "p + of_nat i * page = p + of_nat j * page"
  then have "unat (p + of_nat i * page) = unat (p + of_nat j * page)" by (rule arg_cong)
  then have "i * unat page = j * unat page"
    by (simp only: page_run_unat [OF assms(1,2)] page_run_unat [OF assms(1,3)])
  moreover have "0 < unat page" using assms(5) by (simp add: unat_gt_0)
  ultimately show False using assms(4) by auto
qed

text \<open>
  The layout of a guarded block: the pages of the block between two pages without access, all of
  them fresh.
\<close>

lemma pagedMalloc_layout:
  fixes sz :: size_t
  assumes inv: "pages_inv s" and sz: "unat sz + 3 * unat (os_page_size s) < 2 ^ 64"
    and m: "allocatePages (requestedPages (os_page_size s) sz + 2) s = (m, s1)" "m \<noteq> 0"
  defines "n \<equiv> unat (requestedPages (os_page_size s) sz)" and "page \<equiv> os_page_size s"
  shows "pagedMalloc alignment sz True True s =
      (m + page, s1\<lparr>os_guarded :=
         (m + of_nat (n + 1) * page) # m # os_guarded s\<rparr>)"
    and "os_pages s1 = page_run page m (n + 2) @ os_pages s"
    and "unat m + (n + 2) * unat page < 2 ^ 64" and "unat m mod unat page = 0"
    and "set (page_run page m (n + 2)) \<inter> set (os_pages s) = {}"
    and "unat sz \<le> n * unat page" and "os_page_size s1 = page"
proof -
  have page0: "page \<noteq> 0" using inv by (simp add: pages_inv_def page_def)
  have n: "unat sz \<le> n * unat page" "n * unat page < unat sz + unat page"
    using requestedPages_bounds [of page sz] page0 sz by (simp_all add: n_def page_def)
  show "unat sz \<le> n * unat page" by (rule n)
  have "n < 2 ^ 64 - 2"
  proof -
    have "0 < unat page" using page0 by (simp add: unat_gt_0)
    then have "n \<le> n * unat page" by (rule le_mult_pos)
    with \<open>0 < unat page\<close> n(2) sz show ?thesis unfolding page_def by linarith
  qed
  then have n2: "unat (requestedPages page sz + 2) = n + 2"
    by (subst unat_add_no_wrap) (simp_all add: n_def page_def)
  have "(n + 2) * unat page < 2 ^ 64" using n(2) sz by (simp add: page_def algebra_simps)
  note ok = allocatePages_ok [OF m, folded page_def, unfolded n2, OF this page0]
  show "os_pages s1 = page_run page m (n + 2) @ os_pages s"
    and "unat m + (n + 2) * unat page < 2 ^ 64" and "unat m mod unat page = 0"
    and "set (page_run page m (n + 2)) \<inter> set (os_pages s) = {}" and "os_page_size s1 = page"
    by (fact ok)+
  have hi: "m + of_nat (n + 1) * page = m + page + requestedPages page sz * page"
    by (simp add: n_def page_def algebra_simps)
  have mem: "m \<in> set (os_pages s1)" "m + of_nat (n + 1) * page \<in> set (os_pages s1)"
    using in_page_run [of 0 "n + 2" m page] in_page_run [of "n + 1" "n + 2" m page] ok(1)
    by simp_all
  have "totalPages (requestedPages page sz) True True = requestedPages page sz + 2"
    by (simp add: totalPages_def)
  with mem show "pagedMalloc alignment sz True True s =
      (m + page, s1\<lparr>os_guarded := (m + of_nat (n + 1) * page) # m # os_guarded s\<rparr>)"
    using m(1) ok(4) unfolding hi
    by (simp add: pagedMalloc_def protectPage_def Let_def page_def)
qed

lemma allocatePages_null:
  assumes "allocatePages n s = (0, s1)"
  shows "os_pages s1 = os_pages s" "os_page_size s1 = os_page_size s"
    "os_guarded s1 = os_guarded s"
proof -
  obtain p t where t: "next_answer s = (p, t)" by (cases "next_answer s")
  have "s1 = t"
    using assms t by (auto simp: allocatePages_def mmap_ok_def Let_def split: if_splits)
  then show "os_pages s1 = os_pages s" "os_page_size s1 = os_page_size s"
    "os_guarded s1 = os_guarded s"
    using next_answer_frame [OF t] by simp_all
qed

text \<open>A failed guarded allocation returns the page size as an address.\<close>

lemma pagedMalloc_null:
  assumes "allocatePages (requestedPages (os_page_size s) sz + 2) s = (0, s1)"
  shows "fst (pagedMalloc alignment sz True True s) = os_page_size s"
proof -
  have "totalPages (requestedPages (os_page_size s) sz) True True =
    requestedPages (os_page_size s) sz + 2" by (simp add: totalPages_def)
  with assms show ?thesis by (simp add: pagedMalloc_def Let_def)
qed

lemma pagedMalloc_success:
  fixes sz :: size_t
  assumes inv: "pages_inv s" and sz: "unat sz + 3 * unat (os_page_size s) < 2 ^ 64"
    and p: "pagedMalloc alignment sz True True s = (p, s2)" "p \<noteq> os_page_size s"
  defines "n \<equiv> unat (requestedPages (os_page_size s) sz)" and "page \<equiv> os_page_size s"
  obtains m where "p = m + page" "unat m + (n + 2) * unat page < 2 ^ 64"
    "unat m mod unat page = 0" "os_page_size s2 = page"
    "os_pages s2 = page_run page m (n + 2) @ os_pages s"
    "os_guarded s2 = (m + of_nat (n + 1) * page) # m # os_guarded s"
    "set (page_run page m (n + 2)) \<inter> set (os_pages s) = {}" "unat sz \<le> n * unat page"
    "unat (requestedPages page sz + 2) = n + 2"
proof -
  obtain m s1 where m: "allocatePages (requestedPages (os_page_size s) sz + 2) s = (m, s1)"
    by (cases "allocatePages (requestedPages (os_page_size s) sz + 2) s")
  have "m \<noteq> 0" using pagedMalloc_null [of s sz s1 alignment] m p by auto
  note lay = pagedMalloc_layout [OF inv sz m this, folded n_def page_def]
  have "n + 2 < 2 ^ 64"
  proof -
    have "0 < unat page" using inv by (simp add: pages_inv_def page_def unat_gt_0)
    then have "n + 2 \<le> (n + 2) * unat page" by (rule le_mult_pos)
    then show ?thesis using lay(3) by linarith
  qed
  then have "unat (requestedPages page sz + 2) = n + 2"
    by (subst unat_add_no_wrap) (simp_all add: n_def page_def)
  with lay p(1) show ?thesis by (intro that [of m]) auto
qed

text \<open>The pages of a run between its first and its last are accessible, if only those two are guarded.\<close>

lemma inner_page_accessible:
  fixes m :: size_t
  assumes inv: "pages_inv s" and m: "unat m + (n + 2) * unat (os_page_size s) < 2 ^ 64"
    "os_page_size s2 = os_page_size s" "os_pages s2 = page_run (os_page_size s) m (n + 2) @ os_pages s"
    "os_guarded s2 = (m + of_nat (n + 1) * os_page_size s) # m # os_guarded s"
    "set (page_run (os_page_size s) m (n + 2)) \<inter> set (os_pages s) = {}"
    and i: "1 \<le> i" "i < n + 1" "page_of s2 x = m + of_nat i * os_page_size s"
  shows "accessible s2 x"
proof -
  let ?page = "os_page_size s"
  have P: "?page \<noteq> 0" using inv by (simp add: pages_inv_def)
  have "m + of_nat i * ?page \<in> set (page_run ?page m (n + 2))" using i(2) by (intro in_page_run) simp
  moreover have "m + of_nat i * ?page \<noteq> m + of_nat 0 * ?page" "m + of_nat i * ?page \<noteq> m + of_nat (n + 1) * ?page"
    using i by (intro page_run_neq [OF m(1)]; simp add: P unat_gt_0)+
  moreover have "os_guarded s \<noteq> [] \<longrightarrow> set (os_guarded s) \<subseteq> set (os_pages s)" using inv by (simp add: pages_inv_def)
  ultimately show ?thesis using m(2-5) i(3) inv by (auto simp: accessible_def pages_inv_def)
qed

text \<open>
  C28. The guards of a guarded block: when the mapping succeeds (a failed one returns the page size
  as its address), every byte of the block can be read and written, and no byte of the page below
  it and of the page above its last page can.
\<close>

theorem guarded_block_layout:
  fixes sz :: size_t
  assumes inv: "pages_inv s" and sz: "unat sz + 3 * unat (os_page_size s) < 2 ^ 64"
    and p: "pagedMalloc alignment sz True True s = (p, s2)" "p \<noteq> os_page_size s"
  shows "(\<forall>x. unat p \<le> unat x \<and> unat x < unat p + unat sz \<longrightarrow> accessible s2 x) \<and>
    (\<forall>x. unat p - unat (os_page_size s) \<le> unat x \<and> unat x < unat p \<longrightarrow> \<not> accessible s2 x) \<and>
    (\<forall>x. unat p + unat (requestedPages (os_page_size s) sz) * unat (os_page_size s) \<le> unat x \<and>
       unat x < unat p + (unat (requestedPages (os_page_size s) sz) + 1) * unat (os_page_size s)
       \<longrightarrow> \<not> accessible s2 x)"
proof -
  let ?n = "unat (requestedPages (os_page_size s) sz)" and ?page = "os_page_size s"
  let ?P = "unat ?page"
  have P: "0 < ?P" "?page \<noteq> 0" using inv by (simp_all add: pages_inv_def unat_gt_0)
  obtain m where m: "p = m + ?page" "unat m + (?n + 2) * ?P < 2 ^ 64" "unat m mod ?P = 0"
    "os_page_size s2 = ?page" "os_pages s2 = page_run ?page m (?n + 2) @ os_pages s"
    "os_guarded s2 = (m + of_nat (?n + 1) * ?page) # m # os_guarded s"
    "set (page_run ?page m (?n + 2)) \<inter> set (os_pages s) = {}" "unat sz \<le> ?n * ?P"
    by (rule pagedMalloc_success [OF inv sz p])
  have up: "unat p = unat m + ?P" using m(1,2) by (simp add: unat_add_no_wrap algebra_simps)
  have page: "page_of s2 x = m + of_nat i * ?page"
    if "i < ?n + 2" "unat m + i * ?P \<le> unat x" "unat x < unat m + (i + 1) * ?P" for x i
    using page_of_run [of m s2 "?n + 2" i x "unat x - (unat m + i * ?P)"] that m(2,3,4) P
    by (simp add: algebra_simps)
  have acc: "accessible s2 x" if "unat p \<le> unat x" "unat x < unat p + unat sz" for x
  proof -
    define i where "i = (unat x - unat m) div ?P"
    have i: "i * ?P \<le> unat x - unat m" "unat x - unat m < (i + 1) * ?P"
      using P div_times_less_eq_dividend [of "unat x - unat m" ?P]
        dividend_less_div_times [of ?P "unat x - unat m"]
      by (simp_all add: i_def algebra_simps)
    have lo: "1 \<le> i" using that up P by (simp add: i_def div_greater_zero_iff Suc_le_eq)
    have "unat x - unat m < (?n + 1) * ?P" using that up m(8) by (simp add: algebra_simps)
    then have hi: "i < ?n + 1" by (simp add: i_def div_less_iff_less_mult P)
    have "page_of s2 x = m + of_nat i * ?page"
      using i that up lo hi by (intro page) (auto simp: algebra_simps)
    then show ?thesis by (rule inner_page_accessible [OF inv m(2,4-7) lo hi])
  qed
  have low: "\<not> accessible s2 x" if "unat p - ?P \<le> unat x" "unat x < unat p" for x
    using page [of 0 x] that up m(6) by (simp add: accessible_def)
  have high: "\<not> accessible s2 x"
    if "unat p + ?n * ?P \<le> unat x" "unat x < unat p + (?n + 1) * ?P" for x
    using page [of "?n + 1" x] that up m(6) by (simp add: accessible_def algebra_simps)
  show ?thesis using acc low high by blast
qed

text \<open>A concrete operating system for the witnesses: pages of 4096 bytes, nothing allocated.\<close>

definition os_fresh :: "size_t list \<Rightarrow> os" where
  "os_fresh answers =
     \<lparr>os_mem = (\<lambda>_. 0), os_blocks = [], os_pages = [], os_guarded = [], os_page_size = 4096,
      os_answers = answers\<rparr>"

lemmas os_eval = os_fresh_def next_answer_def Let_def apart_def
  requestedPages_def totalPages_def allocatePages_def mmap_ok_def page_run_def protectPage_def
  c_malloc_def malloc_ok_def memcpy_to_def memcpy_from_def in_block_def alignUp_def

theorem guarded_block_layout_witness:
  "\<exists>s2. pagedMalloc 16 5000 True True (os_fresh [65536]) = (69632, s2) \<and>
     accessible s2 69632 \<and> \<not> accessible s2 69631 \<and> \<not> accessible s2 77824"
proof -
  let ?s = "os_fresh [65536]"
  obtain s2 where s2: "pagedMalloc 16 5000 True True ?s = (69632, s2)"
    by (simp add: pagedMalloc_def os_eval upt_rec)
  have "pages_inv ?s" "unat (5000 :: size_t) + 3 * unat (os_page_size ?s) < 2 ^ 64"
    "(69632 :: size_t) \<noteq> os_page_size ?s"
    by (simp_all add: pages_inv_def os_fresh_def)
  note lay = guarded_block_layout [OF this(1,2) s2 this(3)]
  have "unat (requestedPages (os_page_size ?s) 5000) * unat (os_page_size ?s) = 8192"
    by (simp add: os_fresh_def requestedPages_def)
  with lay have "accessible s2 69632" "\<not> accessible s2 69631" "\<not> accessible s2 77824"
    by (simp_all add: os_fresh_def)
  with s2 show ?thesis by blast
qed

text \<open>
  Freeing a guarded block undoes its allocation: the mapped pages and the pages without access
  are those from before.
\<close>

theorem guarded_block_roundtrip:
  fixes sz :: size_t
  assumes inv: "pages_inv s" and sz: "unat sz + 3 * unat (os_page_size s) < 2 ^ 64"
    and p: "pagedMalloc alignment sz True True s = (p, s2)" "p \<noteq> os_page_size s"
  shows "os_pages (pagedFree p alignment sz True True s2) = os_pages s \<and>
    os_guarded (pagedFree p alignment sz True True s2) = os_guarded s"
proof -
  let ?n = "unat (requestedPages (os_page_size s) sz)" and ?page = "os_page_size s"
  let ?run = "page_run ?page (p - ?page) (?n + 2)"
  obtain m where m: "p = m + ?page" "unat m + (?n + 2) * unat ?page < 2 ^ 64"
    "os_page_size s2 = ?page" "os_pages s2 = page_run ?page m (?n + 2) @ os_pages s"
    "os_guarded s2 = (m + of_nat (?n + 1) * ?page) # m # os_guarded s"
    "set (page_run ?page m (?n + 2)) \<inter> set (os_pages s) = {}"
    "unat (requestedPages ?page sz + 2) = ?n + 2"
    by (rule pagedMalloc_success [OF inv sz p])
  have pos: "0 < unat ?page" using inv by (simp add: pages_inv_def unat_gt_0)
  have "unat ((requestedPages ?page sz + 2) * ?page) = (?n + 2) * unat ?page"
    using m(2,7) by (subst unat_mult_no_wrap) simp_all
  moreover have "totalPages (requestedPages ?page sz) True True = requestedPages ?page sz + 2"
    by (simp add: totalPages_def)
  ultimately have "unat (totalPages (requestedPages ?page sz) True True * ?page) div unat ?page =
      ?n + 2"
    using pos by (simp only: nonzero_mult_div_cancel_right)
  then have free: "pagedFree p alignment sz True True s2 =
      s2\<lparr>os_pages := filter (\<lambda>q. q \<notin> set ?run) (os_pages s2),
         os_guarded := filter (\<lambda>q. q \<notin> set ?run) (os_guarded s2)\<rparr>"
    using m(3) by (simp add: pagedFree_def freePages_def Let_def)
  have run: "?run = page_run ?page m (?n + 2)" using m(1) by simp
  have "m \<in> set ?run" "m + of_nat (?n + 1) * ?page \<in> set ?run"
    unfolding run using in_page_run [of 0 "?n + 2" m ?page] in_page_run [of "?n + 1" "?n + 2"]
    by simp_all
  moreover have "filter (\<lambda>q. q \<notin> set ?run) (os_pages s) = os_pages s"
    using m(6) run by (intro filter_True) auto
  moreover have "filter (\<lambda>q. q \<notin> set ?run) (os_guarded s) = os_guarded s"
    using m(6) run inv by (intro filter_True) (auto simp: pages_inv_def)
  ultimately show ?thesis using free m(4,5) run by simp
qed

theorem guarded_block_roundtrip_witness:
  "\<exists>s2. pagedMalloc 16 5000 True True (os_fresh [65536]) = (69632, s2) \<and>
     os_pages (pagedFree 69632 16 5000 True True s2) = []"
proof -
  let ?s = "os_fresh [65536]"
  obtain s2 where s2: "pagedMalloc 16 5000 True True ?s = (69632, s2)"
    by (simp add: pagedMalloc_def os_eval upt_rec)
  have "pages_inv ?s" "unat (5000 :: size_t) + 3 * unat (os_page_size ?s) < 2 ^ 64"
    "(69632 :: size_t) \<noteq> os_page_size ?s"
    by (simp_all add: pages_inv_def os_fresh_def)
  from guarded_block_roundtrip [OF this(1,2) s2 this(3)] s2 show ?thesis
    by (auto simp: os_fresh_def)
qed

subsection \<open>Properties of the unguarded allocations\<close>

text \<open>
  C27. Aligned blocks: the returned pointer has the requested alignment, and whatever the user
  writes into the bytes of the block, freeing it finds the hidden base pointer behind them and
  leaves the live \<open>malloc\<close> blocks as they were before the allocation.
\<close>

theorem aligned_block_roundtrip:
  assumes al: "alignment \<noteq> 0" and nowrap: "unat sz + unat alignment + 8 < 2 ^ 64"
    and p: "alignedMalloc alignment sz s = Inr (p, s2)" "p \<noteq> 0"
    and user: "\<And>x. unat x < unat p \<or> unat p + unat sz \<le> unat x \<Longrightarrow> m x = os_mem s2 x"
  shows "unat p mod unat alignment = 0 \<and>
    (\<exists>s3. alignedFree p sz (s2\<lparr>os_mem := m\<rparr>) = Inr s3 \<and> os_blocks s3 = os_blocks s)"
proof -
  obtain base s1 where b: "c_malloc (sz + alignment + 8) s = (base, s1)"
    by (cases "c_malloc (sz + alignment + 8) s")
  have base: "base \<noteq> 0"
    using b p alignedMalloc_null [of sz alignment s s1] al by auto
  obtain q where q: "alignedMalloc alignment sz s =
      Inr (q, s1\<lparr>os_mem := store_ptr (q + sz) base (os_mem s1)\<rparr>)"
    "unat q mod unat alignment = 0" "unat (q + sz) = unat q + unat sz"
    "unat q + unat sz + 8 \<le> unat base + unat (sz + alignment + 8)"
    "in_block s1 (q + sz) 8" "os_blocks s1 = (base, sz + alignment + 8) # os_blocks s"
    "unat base + unat (sz + alignment + 8) < 2 ^ 64" "malloc_ok s base (sz + alignment + 8)"
    by (rule alignedMalloc_ok [OF al nowrap b base])
  have eq: "q = p" "s2 = s1\<lparr>os_mem := store_ptr (p + sz) base (os_mem s1)\<rparr>"
    using q(1) p(1) by auto
  have "load_ptr (p + sz) m = load_ptr (p + sz) (os_mem s2)"
  proof (rule load_ptr_cong)
    fix x assume "unat (x - (p + sz)) < 8"
    then have "unat p + unat sz \<le> unat x"
      using offset_range [of x "p + sz" 8] q(3,4,7) eq(1) by simp
    then show "m x = os_mem s2 x" by (intro user) simp
  qed
  then have ld: "load_ptr (p + sz) (os_mem (s2\<lparr>os_mem := m\<rparr>)) = base" using eq by simp
  have inb: "in_block (s2\<lparr>os_mem := m\<rparr>) (p + sz) 8" using q(5) eq by (simp add: in_block_def)
  have "alignedFree p sz (s2\<lparr>os_mem := m\<rparr>) = Inr (s2\<lparr>os_mem := m,
      os_blocks := filter (\<lambda>c. fst c \<noteq> base) (os_blocks s2)\<rparr>)"
    using alignedFree_ok [OF inb ld _ base] eq(2) q(6) by simp
  moreover have "filter (\<lambda>c. fst c \<noteq> base) (os_blocks s2) = os_blocks s"
    using eq(2) q(6,8) filter_apart_id [of base "sz + alignment + 8" "os_blocks s"]
    by (simp add: malloc_ok_def)
  ultimately show ?thesis using q(2) eq(1) by auto
qed

theorem aligned_block_roundtrip_witness:
  "\<exists>s2. alignedMalloc 64 100 (os_fresh [1000]) = Inr (1024, s2) \<and>
     (\<exists>s3. alignedFree 1024 100 s2 = Inr s3 \<and> os_blocks s3 = [])"
proof -
  let ?s = "os_fresh [1000]"
  obtain s2 where s2: "alignedMalloc 64 100 ?s = Inr (1024, s2)"
    by (simp add: alignedMalloc_def os_eval)
  have "(64 :: size_t) \<noteq> 0" "unat (100 :: size_t) + unat (64 :: size_t) + 8 < 2 ^ 64"
    "(1024 :: size_t) \<noteq> 0" by simp_all
  from aligned_block_roundtrip [OF this(1,2) s2 this(3), of "os_mem s2"] s2 show ?thesis
    by (auto simp: os_fresh_def)
qed

text \<open>
  Allocations of the default allocator do not disturb each other: while an allocation \<open>a\<close>
  is live, a second one succeeds or returns null, and after a success both are freed without a
  fault, the older one first.
\<close>

theorem default_allocator_free_both:
  assumes "os_inv s" "os_proper r" "os_owns s a"
    and "DefaultAllocator_allocate r s = Inr (b, s1)" "alloc_ptr b \<noteq> 0"
  shows "alloc_request b = r \<and>
    (\<exists>s2 s3. DefaultAllocator_free a s1 = Inr s2 \<and> DefaultAllocator_free b s2 = Inr s3 \<and>
       os_inv s3)"
  using default_alloc.free_both [of s r a b s1] os_allocate_request [of r s b s1] assms
  by (simp add: DefaultAllocator_def)

theorem default_allocator_free_both_witness:
  "\<exists>a s0 b s1 s2 s3.
     DefaultAllocator_allocate (default_request\<lparr>req_size := 24, req_alignment := 8\<rparr>)
       (os_fresh [1000, 9001]) = Inr (a, s0) \<and>
     DefaultAllocator_allocate (default_request\<lparr>req_size := 40, req_alignment := 16\<rparr>) s0 = Inr (b, s1) \<and>
     DefaultAllocator_free a s1 = Inr s2 \<and> DefaultAllocator_free b s2 = Inr s3"
proof -
  let ?r = "default_request\<lparr>req_size := 24, req_alignment := 8\<rparr>"
  let ?r' = "default_request\<lparr>req_size := 40, req_alignment := 16\<rparr>"
  let ?s = "os_fresh [1000, 9001]"
  obtain a s0 where a: "DefaultAllocator_allocate ?r ?s = Inr (a, s0)" "alloc_ptr a \<noteq> 0"
    and s0: "os_answers s0 = [9001]" "os_blocks s0 = [(1000, 40)]" "os_pages s0 = []"
    by (simp add: DefaultAllocator_allocate_def alignedMalloc_def os_eval default_request_def)
  obtain b s1 where b: "DefaultAllocator_allocate ?r' s0 = Inr (b, s1)" "alloc_ptr b \<noteq> 0"
    using s0
    by (simp add: DefaultAllocator_allocate_def alignedMalloc_def os_eval default_request_def)
  have "os_inv ?s" "os_proper ?r" "os_proper ?r'"
    by (simp_all add: os_inv_def os_fresh_def os_proper_def default_request_def)
  then have "os_inv s0" "os_owns s0 a"
    using a os_allocate_inv os_allocate_owns by blast+
  from default_allocator_free_both [OF this(1) \<open>os_proper ?r'\<close> this(2) b] a b show ?thesis by blast
qed

end
