(* ===== verification/Allocators.thy ===== *)
theory Allocators
  imports Memory
begin

text \<open>
  The rest of \<open>include/hfts/memory.hpp\<close>: \<open>TrackedAllocator\<close>, which wraps any
  allocator and counts what is live per usage, and the helpers that allocate objects and later
  rebuild the \<open>Allocation\<close> to free from the bare pointer: \<open>create\<close> and
  \<open>destroy\<close>, \<open>make_unique_n\<close> and its \<open>Deleter\<close>, \<open>make_shared\<close>,
  and \<open>StlAllocator\<close>.
\<close>

subsection \<open>The tracking allocator\<close>

record usage_stats =
  st_count :: size_t
  st_bytes :: size_t

record 's tracked =
  tr_inner :: 's
  tr_stats :: "usage_stats list"

text \<open>\<open>numAllocations\<close> and \<open>bytesAllocated\<close>: the loops over \<open>byUsage\<close>.\<close>

definition numAllocations :: "usage_stats list \<Rightarrow> size_t" where
  "numAllocations byUsage = foldl (\<lambda>out stats. out + st_count stats) 0 byUsage"

definition bytesAllocated :: "usage_stats list \<Rightarrow> size_t" where
  "bytesAllocated byUsage = foldl (\<lambda>out stats. out + st_bytes stats) 0 byUsage"

definition TrackedAllocator_new :: "'s \<Rightarrow> 's tracked" where
  "TrackedAllocator_new s =
     \<lparr>tr_inner = s, tr_stats = replicate 6 \<lparr>st_count = 0, st_bytes = 0\<rparr>\<rparr>"

text \<open>The statistics are updated under the mutex, before the wrapped allocator is called.\<close>

definition count_allocation :: "request \<Rightarrow> usage_stats list \<Rightarrow> usage_stats list res" where
  "count_allocation r st =
     (let i = usage_index (req_usage r)
      in if i < length st
         then Inr (st[i := \<lparr>st_count = st_count (st ! i) + 1,
                           st_bytes = st_bytes (st ! i) + req_size r\<rparr>])
         else Inl OutOfBounds)"

definition count_free :: "request \<Rightarrow> usage_stats list \<Rightarrow> usage_stats list res" where
  "count_free r st =
     (let i = usage_index (req_usage r)
      in if i < length st
         then Inr (st[i := \<lparr>st_count = st_count (st ! i) - 1,
                           st_bytes = st_bytes (st ! i) - req_size r\<rparr>])
         else Inl OutOfBounds)"

definition TrackedAllocator_allocate ::
  "'s allocator \<Rightarrow> request \<Rightarrow> 's tracked \<Rightarrow> (allocation \<times> 's tracked) res" where
  "TrackedAllocator_allocate A r t =
     bind_res (count_allocation r (tr_stats t)) (\<lambda>st.
     bind_res (vt_allocate A r (tr_inner t)) (\<lambda>(a, s).
     Inr (a, \<lparr>tr_inner = s, tr_stats = st\<rparr>)))"

definition TrackedAllocator_free ::
  "'s allocator \<Rightarrow> allocation \<Rightarrow> 's tracked \<Rightarrow> 's tracked res" where
  "TrackedAllocator_free A a t =
     bind_res (count_free (alloc_request a) (tr_stats t)) (\<lambda>st.
     bind_res (vt_free A a (tr_inner t)) (\<lambda>s.
     Inr \<lparr>tr_inner = s, tr_stats = st\<rparr>))"

definition TrackedAllocator :: "'s allocator \<Rightarrow> 's tracked allocator" where
  "TrackedAllocator A =
     \<lparr>vt_allocate = TrackedAllocator_allocate A, vt_free = TrackedAllocator_free A\<rparr>"

lemmas tracked_defs = TrackedAllocator_allocate_def TrackedAllocator_free_def
  count_allocation_def count_free_def Let_def

text \<open>
  A tracking allocator over an allocator that keeps the contract keeps it too, for requests whose
  usage is not the upper bound \<open>Count\<close>.
\<close>

locale tracking = allocator_contract A inv owns sep proper
  for A :: "'s allocator" and inv owns sep proper

sublocale tracking \<subseteq> tracked: allocator_contract "TrackedAllocator A"
  "\<lambda>t. inv (tr_inner t) \<and> length (tr_stats t) = 6"
  "\<lambda>t a. owns (tr_inner t) a \<and> req_usage (alloc_request a) \<noteq> Count"
  "\<lambda>t. sep (tr_inner t)" "\<lambda>r. proper r \<and> req_usage r \<noteq> Count"
proof (unfold_locales, unfold TrackedAllocator_def allocator.simps)
  fix r :: request and t t' :: "'s tracked" and a b :: allocation
  show "TrackedAllocator_allocate A r t = Inr (a, t') \<Longrightarrow> alloc_request a = r"
    by (auto simp: tracked_defs dest: allocate_request split: if_splits)
  show "inv (tr_inner t) \<and> length (tr_stats t) = 6 \<Longrightarrow> proper r \<and> req_usage r \<noteq> Count \<Longrightarrow>
    TrackedAllocator_allocate A r t = Inr (a, t') \<Longrightarrow>
    inv (tr_inner t') \<and> length (tr_stats t') = 6"
    by (auto simp: tracked_defs dest: allocate_inv split: if_splits)
  show "inv (tr_inner t) \<and> length (tr_stats t) = 6 \<Longrightarrow> proper r \<and> req_usage r \<noteq> Count \<Longrightarrow>
    TrackedAllocator_allocate A r t = Inr (a, t') \<Longrightarrow> alloc_ptr a \<noteq> 0 \<Longrightarrow>
    owns (tr_inner t') a \<and> req_usage (alloc_request a) \<noteq> Count"
    by (auto simp: tracked_defs dest: allocate_owns allocate_request split: if_splits)
  show "inv (tr_inner t) \<and> length (tr_stats t) = 6 \<Longrightarrow> proper r \<and> req_usage r \<noteq> Count \<Longrightarrow>
    owns (tr_inner t) b \<and> req_usage (alloc_request b) \<noteq> Count \<Longrightarrow>
    TrackedAllocator_allocate A r t = Inr (a, t') \<Longrightarrow> alloc_ptr a \<noteq> 0 \<Longrightarrow>
    (owns (tr_inner t') b \<and> req_usage (alloc_request b) \<noteq> Count) \<and> sep (tr_inner t') b a"
    by (auto simp: tracked_defs dest: allocate_keeps split: if_splits)
  show "inv (tr_inner t) \<and> length (tr_stats t) = 6 \<Longrightarrow>
    owns (tr_inner t) a \<and> req_usage (alloc_request a) \<noteq> Count \<Longrightarrow>
    \<exists>t'. TrackedAllocator_free A a t = Inr t' \<and> inv (tr_inner t') \<and> length (tr_stats t') = 6"
    using free_owned [of "tr_inner t" a] usage_index_less [of "req_usage (alloc_request a)"]
    by (auto simp: tracked_defs)
  show "inv (tr_inner t) \<and> length (tr_stats t) = 6 \<Longrightarrow>
    owns (tr_inner t) a \<and> req_usage (alloc_request a) \<noteq> Count \<Longrightarrow>
    owns (tr_inner t) b \<and> req_usage (alloc_request b) \<noteq> Count \<Longrightarrow> sep (tr_inner t) a b \<Longrightarrow>
    TrackedAllocator_free A a t = Inr t' \<Longrightarrow>
    owns (tr_inner t') b \<and> req_usage (alloc_request b) \<noteq> Count"
    by (auto simp: tracked_defs dest: free_keeps split: if_splits)
qed

interpretation default_tracking: tracking DefaultAllocator os_inv os_owns os_sep os_proper
  by unfold_locales

text \<open>
  A client of a tracking allocator that frees only what it holds: \<open>tracked_run A s t live\<close>
  says that from a fresh allocator over \<open>s\<close> the client reaches state \<open>t\<close> holding
  the allocations \<open>live\<close>.
\<close>

inductive tracked_run :: "'s allocator \<Rightarrow> 's \<Rightarrow> 's tracked \<Rightarrow> allocation list \<Rightarrow> bool"
  for A s where
  run_new: "tracked_run A s (TrackedAllocator_new s) []"
| run_allocate:
    "tracked_run A s t live \<Longrightarrow> TrackedAllocator_allocate A r t = Inr (a, t') \<Longrightarrow>
     tracked_run A s t' (\<lparr>alloc_ptr = alloc_ptr a, alloc_request = r\<rparr> # live)"
| run_free:
    "tracked_run A s t live \<Longrightarrow> a \<in> set live \<Longrightarrow> TrackedAllocator_free A a t = Inr t' \<Longrightarrow>
     tracked_run A s t' (remove1 a live)"

text \<open>The sum of a quantity over the live allocations of one usage.\<close>

definition usage_total :: "(allocation \<Rightarrow> size_t) \<Rightarrow> nat \<Rightarrow> allocation list \<Rightarrow> size_t" where
  "usage_total q i live =
     sum_list (map (\<lambda>a. if usage_index (req_usage (alloc_request a)) = i then q a else 0) live)"

definition stats_of :: "allocation list \<Rightarrow> usage_stats list" where
  "stats_of live =
     map (\<lambda>i. \<lparr>st_count = usage_total (\<lambda>_. 1) i live,
               st_bytes = usage_total (\<lambda>a. req_size (alloc_request a)) i live\<rparr>) [0..<6]"

lemma usage_total_Cons:
  "usage_total q i (a # live) =
     usage_total q i live + (if usage_index (req_usage (alloc_request a)) = i then q a else 0)"
  by (simp add: usage_total_def add.commute)

lemma usage_total_remove1:
  "a \<in> set live \<Longrightarrow> usage_total q i (remove1 a live) =
     usage_total q i live - (if usage_index (req_usage (alloc_request a)) = i then q a else 0)"
  by (induction live) (auto simp: usage_total_Cons algebra_simps)

lemma stats_of_nth [simp]: "i < 6 \<Longrightarrow> stats_of live ! i =
    \<lparr>st_count = usage_total (\<lambda>_. 1) i live,
     st_bytes = usage_total (\<lambda>a. req_size (alloc_request a)) i live\<rparr>"
  by (simp add: stats_of_def)

lemma length_stats_of [simp]: "length (stats_of live) = 6"
  by (simp add: stats_of_def)

lemma count_allocation_stats:
  "count_allocation r (stats_of live) = Inr st \<Longrightarrow>
   st = stats_of (\<lparr>alloc_ptr = p, alloc_request = r\<rparr> # live)"
  by (rule nth_equalityI)
    (auto simp: count_allocation_def Let_def nth_list_update usage_total_Cons split: if_splits)

lemma count_free_stats:
  "count_free (alloc_request a) (stats_of live) = Inr st \<Longrightarrow> a \<in> set live \<Longrightarrow>
   st = stats_of (remove1 a live)"
  by (rule nth_equalityI)
    (auto simp: count_free_def Let_def nth_list_update usage_total_remove1 split: if_splits)

lemma tracked_run_stats: "tracked_run A s t live \<Longrightarrow> tr_stats t = stats_of live"
proof (induction rule: tracked_run.induct)
  case run_new
  show ?case
    by (rule nth_equalityI) (auto simp: TrackedAllocator_new_def usage_total_def)
next
  case (run_allocate t live r a t')
  then show ?case
    by (auto simp: TrackedAllocator_allocate_def dest: count_allocation_stats [of r live])
next
  case (run_free t live a t')
  then show ?case
    by (auto simp: TrackedAllocator_free_def dest: count_free_stats)
qed

lemma tracked_run_usage:
  "tracked_run A s t live \<Longrightarrow> a \<in> set live \<Longrightarrow> usage_index (req_usage (alloc_request a)) < 6"
proof (induction rule: tracked_run.induct)
  case (run_allocate t live r b t')
  then show ?case using tracked_run_stats [OF run_allocate.hyps(1)]
    by (auto simp: tracked_defs split: if_splits)
qed (auto dest: notin_set_remove1 set_remove1_subset [THEN subsetD])

lemma foldl_stats:
  "foldl (\<lambda>out st. out + f st) (c :: size_t) xs = c + sum_list (map f xs)"
  by (induction xs arbitrary: c) (simp_all add: add.assoc)

lemma sum_usage_total:
  "(\<forall>a\<in>set live. usage_index (req_usage (alloc_request a)) < 6) \<Longrightarrow>
   (\<Sum>i<6. usage_total q i live) = sum_list (map q live)"
proof (induction live)
  case Nil
  then show ?case by (simp add: usage_total_def)
next
  case (Cons a live)
  then show ?case
    by (simp add: usage_total_Cons sum.distrib add.commute)
qed

lemma stats_of_sums:
  assumes "\<forall>a\<in>set live. usage_index (req_usage (alloc_request a)) < 6"
  shows "numAllocations (stats_of live) = of_nat (length live)"
    and "bytesAllocated (stats_of live) = sum_list (map (\<lambda>a. req_size (alloc_request a)) live)"
proof -
  have "sum_list (map f [0..<6]) = (\<Sum>i<6. f i)" for f :: "nat \<Rightarrow> size_t"
    by (simp add: interv_sum_list_conv_sum_set_nat lessThan_atLeast0)
  then show "numAllocations (stats_of live) = of_nat (length live)"
    and "bytesAllocated (stats_of live) = sum_list (map (\<lambda>a. req_size (alloc_request a)) live)"
    using sum_usage_total [OF assms]
    by (simp_all add: numAllocations_def bytesAllocated_def foldl_stats stats_of_def o_def
        sum_list_triv)
qed

text \<open>
  C32. The statistics of a tracking allocator are exact, modulo the 64 bits of the counters, after
  any sequence of allocations and frees of a client that frees only what it holds: each usage
  counts the live allocations of that usage and their bytes, and the totals over all usages are
  those of all live allocations.
\<close>

theorem tracked_stats_exact:
  assumes "tracked_run A s t live"
  shows "tr_stats t = stats_of live \<and>
    numAllocations (tr_stats t) = of_nat (length live) \<and>
    bytesAllocated (tr_stats t) = sum_list (map (\<lambda>a. req_size (alloc_request a)) live)"
  using tracked_run_stats [OF assms] stats_of_sums [of live] tracked_run_usage [OF assms] by simp

theorem tracked_stats_exact_witness:
  "\<exists>t a. TrackedAllocator_allocate DefaultAllocator (default_request\<lparr>req_size := 24, req_usage := Stl\<rparr>)
       (TrackedAllocator_new (os_fresh [4096])) = Inr (a, t) \<and>
     numAllocations (tr_stats t) = 1 \<and> bytesAllocated (tr_stats t) = 24"
proof -
  let ?r = "default_request\<lparr>req_size := 24, req_usage := Stl\<rparr>" and ?s = "os_fresh [4096]"
  obtain t a where a: "TrackedAllocator_allocate DefaultAllocator ?r (TrackedAllocator_new ?s) =
      Inr (a, t)"
    by (simp add: tracked_defs TrackedAllocator_new_def DefaultAllocator_def
        DefaultAllocator_allocate_def os_eval default_request_def)
  from tracked_stats_exact [OF run_allocate [OF run_new a]] a show ?thesis by auto
qed

subsection \<open>Objects from an allocator\<close>

text \<open>The size and the alignment of a C++ type.\<close>

record ctype =
  ty_sizeof :: size_t
  ty_alignof :: size_t

definition create_request :: "ctype \<Rightarrow> size_t \<Rightarrow> request" where
  "create_request T n =
     default_request\<lparr>req_size := ty_sizeof T * n, req_alignment := ty_alignof T,
                     req_usage := Create\<rparr>"

text \<open>
  \<open>create\<close>: allocate and construct in place; construction at a null pointer is a fault.
\<close>

definition Allocator_create :: "'s allocator \<Rightarrow> ctype \<Rightarrow> 's \<Rightarrow> (size_t \<times> 's) res" where
  "Allocator_create A T s =
     bind_res (vt_allocate A (create_request T 1) s) (\<lambda>(alloc, s).
     bind_res (guard_res (alloc_ptr alloc \<noteq> 0) NullDeref) (\<lambda>_.
     Inr (alloc_ptr alloc, s)))"

definition Allocator_destroy :: "'s allocator \<Rightarrow> ctype \<Rightarrow> size_t \<Rightarrow> 's \<Rightarrow> 's res" where
  "Allocator_destroy A T obj s =
     bind_res (guard_res (obj \<noteq> 0) NullDeref) (\<lambda>_.
     vt_free A \<lparr>alloc_ptr = obj, alloc_request = create_request T 1\<rparr> s)"

text \<open>
  A \<open>unique_ptr\<close> with its \<open>Deleter\<close>: the pointer, the deleter's count, and the
  addresses at which a constructor has run.
\<close>

record unique =
  up_ptr :: size_t
  up_count :: size_t
  up_constructed :: "size_t list"

definition make_unique_n :: "'s allocator \<Rightarrow> ctype \<Rightarrow> size_t \<Rightarrow> 's \<Rightarrow> (unique option \<times> 's) res" where
  "make_unique_n A T n s =
     (if n = 0 then Inr (None, s)
      else bind_res (vt_allocate A (create_request T n) s) (\<lambda>(alloc, s).
           bind_res (guard_res (alloc_ptr alloc \<noteq> 0) NullDeref) (\<lambda>_.
           Inr (Some \<lparr>up_ptr = alloc_ptr alloc, up_count = n,
                      up_constructed = [alloc_ptr alloc]\<rparr>, s))))"

definition make_unique :: "'s allocator \<Rightarrow> ctype \<Rightarrow> 's \<Rightarrow> (unique option \<times> 's) res" where
  "make_unique A T s = make_unique_n A T 1 s"

definition Deleter_call :: "'s allocator \<Rightarrow> ctype \<Rightarrow> unique \<Rightarrow> 's \<Rightarrow> 's res" where
  "Deleter_call A T u s =
     bind_res (guard_res (up_ptr u \<noteq> 0) NullDeref) (\<lambda>_.
     vt_free A \<lparr>alloc_ptr = up_ptr u, alloc_request = create_request T (up_count u)\<rparr> s)"

definition make_shared :: "'s allocator \<Rightarrow> ctype \<Rightarrow> 's \<Rightarrow> (unique \<times> 's) res" where
  "make_shared A T s =
     bind_res (vt_allocate A (create_request T 1) s) (\<lambda>(alloc, s).
     bind_res (guard_res (alloc_ptr alloc \<noteq> 0) NullDeref) (\<lambda>_.
     Inr (\<lparr>up_ptr = alloc_ptr alloc, up_count = 1, up_constructed = [alloc_ptr alloc]\<rparr>, s)))"

definition StlAllocator_request :: "ctype \<Rightarrow> size_t \<Rightarrow> request" where
  "StlAllocator_request T n =
     default_request\<lparr>req_size := ty_sizeof T * n, req_alignment := ty_alignof T, req_usage := Stl\<rparr>"

definition StlAllocator_allocate :: "'s allocator \<Rightarrow> ctype \<Rightarrow> size_t \<Rightarrow> 's \<Rightarrow> (size_t \<times> 's) res" where
  "StlAllocator_allocate A T n s =
     bind_res (vt_allocate A (StlAllocator_request T n) s) (\<lambda>(alloc, s). Inr (alloc_ptr alloc, s))"

definition StlAllocator_deallocate ::
  "'s allocator \<Rightarrow> ctype \<Rightarrow> size_t \<Rightarrow> size_t \<Rightarrow> 's \<Rightarrow> 's res" where
  "StlAllocator_deallocate A T p n s =
     vt_free A \<lparr>alloc_ptr = p, alloc_request = StlAllocator_request T n\<rparr> s"

definition StlAllocator_max_size :: "ctype \<Rightarrow> size_t res" where
  "StlAllocator_max_size T =
     (if ty_sizeof T = 0 then Inl DivByZero else Inr ((- 1) div ty_sizeof T))"

lemmas object_defs = Allocator_create_def Allocator_destroy_def make_unique_n_def
  Deleter_call_def make_shared_def StlAllocator_allocate_def StlAllocator_deallocate_def

text \<open>The request a helper makes has every field that its counterpart rebuilds.\<close>

context allocator_contract
begin

lemma rebuilt:
  "vt_allocate A r s = Inr (a, s') \<Longrightarrow> \<lparr>alloc_ptr = alloc_ptr a, alloc_request = r\<rparr> = a"
  using allocate_request [of r s a s'] by (cases a) simp

lemma create_destroy:
  assumes "inv s" "proper (create_request T 1)" "Allocator_create A T s = Inr (p, s1)"
  obtains s2 where "Allocator_destroy A T p s1 = Inr s2" "inv s2"
  using assms by (auto simp: object_defs rebuilt elim: allocate_free)

lemma unique_deleted:
  assumes "inv s" "proper (create_request T n)" "make_unique_n A T n s = Inr (Some u, s1)"
  obtains s2 where "Deleter_call A T u s1 = Inr s2" "inv s2"
  using assms by (auto simp: object_defs rebuilt elim: allocate_free split: if_splits)

lemma shared_deleted:
  assumes "inv s" "proper (create_request T 1)" "make_shared A T s = Inr (u, s1)"
  obtains s2 where "Deleter_call A T u s1 = Inr s2" "inv s2"
  using assms by (auto simp: object_defs rebuilt elim: allocate_free)

lemma stl_deallocated:
  assumes "inv s" "proper (StlAllocator_request T n)" "StlAllocator_allocate A T n s = Inr (p, s1)"
    "p \<noteq> 0"
  obtains s2 where "StlAllocator_deallocate A T p n s1 = Inr s2" "inv s2"
  using assms by (auto simp: object_defs rebuilt elim: allocate_free)

end

lemma usage_stats_eta: "\<lparr>st_count = st_count u, st_bytes = st_bytes u\<rparr> = (u :: usage_stats)"
  by (cases u) simp

lemma count_roundtrip:
  assumes "count_allocation r st = Inr st1" "count_free r st1 = Inr st2"
  shows "st2 = st"
  using assms
  by (auto simp: count_allocation_def count_free_def Let_def usage_stats_eta split: if_splits)

text \<open>
  C33. An array from \<open>make_unique_n\<close>, on a tracked default allocator: one object is
  constructed, at the start of the array, whatever its length; the deleter frees the array without
  a fault and leaves the statistics and the live blocks as they were.
\<close>

theorem unique_roundtrip:
  assumes inv: "os_inv (tr_inner t)" "length (tr_stats t) = 6"
    and r: "os_proper (create_request T n)"
    and u: "make_unique_n (TrackedAllocator DefaultAllocator) T n t = Inr (Some u, t1)"
  shows "up_count u = n \<and> up_constructed u = [up_ptr u] \<and>
    (\<exists>t2. Deleter_call (TrackedAllocator DefaultAllocator) T u t1 = Inr t2 \<and>
       tr_stats t2 = tr_stats t \<and> os_blocks (tr_inner t2) = os_blocks (tr_inner t))"
proof -
  let ?A = "TrackedAllocator DefaultAllocator" and ?r = "create_request T n"
  have usage: "req_usage ?r \<noteq> Count" by (simp add: create_request_def)
  obtain t2 where t2: "Deleter_call ?A T u t1 = Inr t2"
    using default_tracking.tracked.unique_deleted [of t T n u t1] inv r u usage by auto
  obtain a where a: "vt_allocate ?A ?r t = Inr (a, t1)" "alloc_ptr a \<noteq> 0" "up_ptr u = alloc_ptr a"
    and shape: "up_count u = n" "up_constructed u = [up_ptr u]"
    using u by (auto simp: make_unique_n_def split: if_splits)
  have free: "vt_free ?A a t1 = Inr t2"
    using t2 a shape default_tracking.tracked.rebuilt [OF a(1)] by (simp add: Deleter_call_def)
  have "tr_stats t2 = tr_stats t"
    using a(1) free default_tracking.tracked.allocate_request [OF a(1)]
    by (auto simp: TrackedAllocator_def TrackedAllocator_allocate_def TrackedAllocator_free_def
        dest: count_roundtrip)
  moreover have "os_blocks (tr_inner t2) = os_blocks (tr_inner t)"
    using a(1,2) free os_allocate_free_blocks [OF inv(1) r]
    by (auto simp: TrackedAllocator_def TrackedAllocator_allocate_def TrackedAllocator_free_def
        DefaultAllocator_def)
  ultimately show ?thesis using shape t2 by blast
qed

theorem unique_roundtrip_witness:
  "\<exists>u t1 t2. make_unique_n (TrackedAllocator DefaultAllocator) \<lparr>ty_sizeof = 12, ty_alignof = 4\<rparr> 10
       (TrackedAllocator_new (os_fresh [8193])) = Inr (Some u, t1) \<and> up_ptr u = 8196 \<and>
     Deleter_call (TrackedAllocator DefaultAllocator) \<lparr>ty_sizeof = 12, ty_alignof = 4\<rparr> u t1 = Inr t2 \<and>
     os_blocks (tr_inner t2) = []"
proof -
  let ?A = "TrackedAllocator DefaultAllocator" and ?T = "\<lparr>ty_sizeof = 12, ty_alignof = 4\<rparr>"
  let ?t = "TrackedAllocator_new (os_fresh [8193])"
  obtain u t1 where u: "make_unique_n ?A ?T 10 ?t = Inr (Some u, t1)" "up_ptr u = 8196"
    by (simp add: make_unique_n_def TrackedAllocator_def tracked_defs TrackedAllocator_new_def
        DefaultAllocator_def DefaultAllocator_allocate_def alignedMalloc_def os_eval
        create_request_def default_request_def)
  have "os_inv (tr_inner ?t)" "length (tr_stats ?t) = 6" "os_proper (create_request ?T 10)"
    by (simp_all add: TrackedAllocator_new_def os_inv_def os_fresh_def os_proper_def
        create_request_def default_request_def)
  from unique_roundtrip [OF this u(1)] u show ?thesis
    by (auto simp: TrackedAllocator_new_def os_fresh_def)
qed

end
