(* ===== verification/OS_Fiber.thy ===== *)
theory OS_Fiber
  imports Allocators
begin

text \<open>
  \<open>OSFiber\<close> (\<open>include/hfts/osfiberm.hpp\<close>): the register context of a fiber, the creation of a
  fiber on a stack of its own, and the switch between two fibers, whose assembly is
  \<open>src/osfiber_i.S\<close>. The processor is the part of the AArch64 state that the switch touches: the
  general registers, the floating-point registers, the stack pointer and the program counter.
\<close>

unbundle bit_operations_syntax

subsection \<open>Contexts and the processor\<close>

record fiber_context =
  ctx_r0 :: u64
  ctx_r1 :: u64
  ctx_r16 :: u64
  ctx_r17 :: u64
  ctx_r18 :: u64
  ctx_r19 :: u64
  ctx_r20 :: u64
  ctx_r21 :: u64
  ctx_r22 :: u64
  ctx_r23 :: u64
  ctx_r24 :: u64
  ctx_r25 :: u64
  ctx_r26 :: u64
  ctx_r27 :: u64
  ctx_r28 :: u64
  ctx_r29 :: u64
  ctx_v8 :: u64
  ctx_v9 :: u64
  ctx_v10 :: u64
  ctx_v11 :: u64
  ctx_v12 :: u64
  ctx_v13 :: u64
  ctx_v14 :: u64
  ctx_v15 :: u64
  ctx_SP :: u64
  ctx_LR :: u64

definition zero_context :: fiber_context where
  "zero_context = \<lparr>ctx_r0 = 0, ctx_r1 = 0, ctx_r16 = 0, ctx_r17 = 0, ctx_r18 = 0,
     ctx_r19 = 0, ctx_r20 = 0, ctx_r21 = 0, ctx_r22 = 0, ctx_r23 = 0, ctx_r24 = 0, ctx_r25 = 0,
     ctx_r26 = 0, ctx_r27 = 0, ctx_r28 = 0, ctx_r29 = 0, ctx_v8 = 0, ctx_v9 = 0, ctx_v10 = 0,
     ctx_v11 = 0, ctx_v12 = 0, ctx_v13 = 0, ctx_v14 = 0, ctx_v15 = 0, ctx_SP = 0,
     ctx_LR = 0\<rparr>"

record cpu =
  cpu_x :: "nat \<Rightarrow> u64"      \<comment> \<open>\<open>x0\<close> to \<open>x30\<close>\<close>
  cpu_d :: "nat \<Rightarrow> u64"      \<comment> \<open>\<open>d0\<close> to \<open>d31\<close>\<close>
  cpu_sp :: u64
  cpu_pc :: u64

text \<open>
  \<open>hfts_fiber_swap\<close>: the stores to the context of \<open>from\<close>, then the loads from the one of
  \<open>to\<close>. \<open>x0\<close> and \<open>x1\<close> are loaded, and not stored.
\<close>

definition store_context :: "cpu \<Rightarrow> fiber_context \<Rightarrow> fiber_context" where
  "store_context c ctx = ctx\<lparr>ctx_r16 := cpu_x c 16, ctx_r17 := cpu_x c 17,
     ctx_r18 := cpu_x c 18, ctx_r19 := cpu_x c 19, ctx_r20 := cpu_x c 20, ctx_r21 := cpu_x c 21,
     ctx_r22 := cpu_x c 22, ctx_r23 := cpu_x c 23, ctx_r24 := cpu_x c 24, ctx_r25 := cpu_x c 25,
     ctx_r26 := cpu_x c 26, ctx_r27 := cpu_x c 27, ctx_r28 := cpu_x c 28, ctx_r29 := cpu_x c 29,
     ctx_v8 := cpu_d c 8, ctx_v9 := cpu_d c 9, ctx_v10 := cpu_d c 10, ctx_v11 := cpu_d c 11,
     ctx_v12 := cpu_d c 12, ctx_v13 := cpu_d c 13, ctx_v14 := cpu_d c 14, ctx_v15 := cpu_d c 15,
     ctx_SP := cpu_sp c, ctx_LR := cpu_x c 30\<rparr>"

text \<open>
  \<open>x7\<close> holds \<open>to\<close> and \<open>x2\<close> goes to the stack pointer; \<open>ret\<close> jumps to
  \<open>x30\<close>.
\<close>

definition load_context :: "u64 \<Rightarrow> fiber_context \<Rightarrow> cpu \<Rightarrow> cpu" where
  "load_context to ctx c = c\<lparr>cpu_x := (cpu_x c)(7 := to, 16 := ctx_r16 ctx,
     17 := ctx_r17 ctx, 18 := ctx_r18 ctx, 19 := ctx_r19 ctx, 20 := ctx_r20 ctx,
     21 := ctx_r21 ctx, 22 := ctx_r22 ctx, 23 := ctx_r23 ctx, 24 := ctx_r24 ctx,
     25 := ctx_r25 ctx, 26 := ctx_r26 ctx, 27 := ctx_r27 ctx, 28 := ctx_r28 ctx,
     29 := ctx_r29 ctx, 0 := ctx_r0 ctx, 1 := ctx_r1 ctx, 30 := ctx_LR ctx, 2 := ctx_SP ctx),
     cpu_d := (cpu_d c)(8 := ctx_v8 ctx, 9 := ctx_v9 ctx, 10 := ctx_v10 ctx, 11 := ctx_v11 ctx,
     12 := ctx_v12 ctx, 13 := ctx_v13 ctx, 14 := ctx_v14 ctx, 15 := ctx_v15 ctx),
     cpu_sp := ctx_SP ctx, cpu_pc := ctx_LR ctx\<rparr>"

text \<open>The contexts of the fibers, by their addresses.\<close>

type_synonym contexts = "u64 \<Rightarrow> fiber_context"

definition hfts_fiber_swap :: "u64 \<Rightarrow> u64 \<Rightarrow> cpu \<times> contexts \<Rightarrow> cpu \<times> contexts" where
  "hfts_fiber_swap from to = (\<lambda>(c, m).
     let m = m(from := store_context c (m from))
     in (load_context to (m to) c, m))"

text \<open>\<open>hfts_fiber_set_run\<close>; \<open>trampoline\<close> is the address of \<open>hfts_fiber_trampoline\<close>.\<close>

definition hfts_fiber_set_run ::
  "u64 \<Rightarrow> u64 \<Rightarrow> u32 \<Rightarrow> u64 \<Rightarrow> u64 \<Rightarrow> fiber_context \<Rightarrow> fiber_context" where
  "hfts_fiber_set_run trampoline stack stack_size func arg ctx =
     (let stack_top = stack + ucast stack_size
      in ctx\<lparr>ctx_LR := trampoline, ctx_r0 := func, ctx_r1 := arg, ctx_SP := stack_top AND NOT 15\<rparr>)"

text \<open>The call that the trampoline makes: the target in \<open>x0\<close> with the argument in \<open>x1\<close>.\<close>

definition hfts_fiber_trampoline :: "cpu \<Rightarrow> u64 \<times> u64" where
  "hfts_fiber_trampoline c = (cpu_x c 0, cpu_x c 1)"

subsection \<open>OSFiber\<close>

record 'f os_fiber =
  osf_target :: "'f option"
  osf_context :: fiber_context
  osf_stack :: allocation

definition OSFiber_new :: "'f os_fiber" where
  "OSFiber_new =
     \<lparr>osf_target = None, osf_context = zero_context, osf_stack = default_allocation\<rparr>"

definition OSFiber_destruct :: "'s allocator \<Rightarrow> 'f os_fiber \<Rightarrow> 's \<Rightarrow> 's res" where
  "OSFiber_destruct A f s =
     (if alloc_ptr (osf_stack f) \<noteq> 0 then vt_free A (osf_stack f) s else Inr s)"

text \<open>\<open>T\<close> is the size and alignment of the class; the first result is the address of the object.\<close>

definition createFiberFromCurrentThread ::
  "'s allocator \<Rightarrow> ctype \<Rightarrow> 's \<Rightarrow> (u64 \<times> 'f os_fiber \<times> 's) res" where
  "createFiberFromCurrentThread A T s =
     bind_res (Allocator_create A T s) (\<lambda>(out, s).
     Inr (out, OSFiber_new\<lparr>osf_context := zero_context\<rparr>, s))"

definition stack_request :: "size_t \<Rightarrow> request" where
  "stack_request stackSize =
     default_request\<lparr>req_size := stackSize, req_alignment := 16, req_usage := Stack\<rparr>"

definition createFiber ::
  "'s allocator \<Rightarrow> ctype \<Rightarrow> u64 \<Rightarrow> u64 \<Rightarrow> size_t \<Rightarrow> 'f \<Rightarrow> 's \<Rightarrow> (u64 \<times> 'f os_fiber \<times> 's) res" where
  "createFiber A T trampoline run stackSize func s =
     bind_res (Allocator_create A T s) (\<lambda>(out, s).
     bind_res (vt_allocate A (stack_request stackSize) s) (\<lambda>(stack, s).
     let f = OSFiber_new\<lparr>osf_context := zero_context, osf_stack := stack, osf_target := Some func\<rparr>
     in Inr (out, f\<lparr>osf_context :=
          hfts_fiber_set_run trampoline (alloc_ptr stack) (ucast stackSize) run out (osf_context f)\<rparr>, s)))"

text \<open>\<open>OSFiber::run\<close> calls the target, which an empty \<open>std::function\<close> does not allow.\<close>

definition OSFiber_run :: "'f os_fiber \<Rightarrow> 'f res" where
  "OSFiber_run self = (case osf_target self of None \<Rightarrow> Inl BadCall | Some f \<Rightarrow> Inr f)"

definition OSFiber_switchTo :: "u64 \<Rightarrow> u64 \<Rightarrow> cpu \<times> contexts \<Rightarrow> cpu \<times> contexts" where
  "OSFiber_switchTo this to = hfts_fiber_swap this to"

text \<open>\<open>Fiber::switchTo\<close>, which leaves out the switch to itself.\<close>

definition Fiber_switchTo :: "u64 \<Rightarrow> u64 \<Rightarrow> cpu \<times> contexts \<Rightarrow> cpu \<times> contexts" where
  "Fiber_switchTo this to st = (if to \<noteq> this then OSFiber_switchTo this to st else st)"


text \<open>
  A \<open>Fiber\<close>: its id, the \<open>OSFiber\<close> it owns with its address, and the worker of the thread
  that creates it. \<open>TF\<close> is the size and alignment of the class \<open>Fiber\<close>.
\<close>

record 'f fiber_object =
  fb_id :: u32
  fb_address :: u64
  fb_OSF :: "'f os_fiber"
  fb_worker :: u64

definition Fiber_create ::
  "'s allocator \<Rightarrow> ctype \<Rightarrow> ctype \<Rightarrow> u64 \<Rightarrow> u64 \<Rightarrow> u64 \<Rightarrow> u32 \<Rightarrow> size_t \<Rightarrow> 'f \<Rightarrow> 's \<Rightarrow>
   (u64 \<times> 'f fiber_object \<times> 's) res" where
  "Fiber_create A TF T trampoline run current i stackSize func s =
     bind_res (createFiber A T trampoline run stackSize func s) (\<lambda>(out, f, s).
     bind_res (Allocator_create A TF s) (\<lambda>(obj, s).
     Inr (obj, \<lparr>fb_id = i, fb_address = out, fb_OSF = f, fb_worker = current\<rparr>, s)))"

definition Fiber_createFromCurrentThread ::
  "'s allocator \<Rightarrow> ctype \<Rightarrow> ctype \<Rightarrow> u64 \<Rightarrow> u32 \<Rightarrow> 's \<Rightarrow> (u64 \<times> 'f fiber_object \<times> 's) res" where
  "Fiber_createFromCurrentThread A TF T current i s =
     bind_res (createFiberFromCurrentThread A T s) (\<lambda>(out, f, s).
     bind_res (Allocator_create A TF s) (\<lambda>(obj, s).
     Inr (obj, \<lparr>fb_id = i, fb_address = out, fb_OSF = f, fb_worker = current\<rparr>, s)))"

subsection \<open>What a switch keeps\<close>

text \<open>
  A resumed fiber finds the registers of its last switch away, its stack pointer, and goes on after
  the call.
\<close>

definition resumed :: "cpu \<Rightarrow> cpu \<Rightarrow> bool" where
  "resumed c c' \<longleftrightarrow>
     (\<forall>r\<in>{16..29}. cpu_x c' r = cpu_x c r) \<and> (\<forall>r\<in>{8..15}. cpu_d c' r = cpu_d c r) \<and>
     cpu_sp c' = cpu_sp c \<and> cpu_pc c' = cpu_x c 30"

lemma load_stored: "resumed c (load_context f (store_context c ctx) c')"
proof -
  have "{16..29} = set [16..<30]" "{8..15} = set [8..<16]" by (simp only: set_upt, auto)+
  then show ?thesis
    unfolding resumed_def load_context_def store_context_def by (simp add: upt_rec)
qed

text \<open>
  The fibers that run one after the other: each computes, which changes the processor in any way, and
  then switches to the next one.
\<close>

fun run_switches ::
  "u64 \<Rightarrow> ((cpu \<Rightarrow> cpu) \<times> u64) list \<Rightarrow> cpu \<times> contexts \<Rightarrow> u64 \<times> cpu \<times> contexts" where
  "run_switches this [] st = (this, st)"
| "run_switches this ((g, to) # turns) (c, m) =
     run_switches to turns (Fiber_switchTo this to (g c, m))"

lemma switch_context:
  "f \<noteq> this \<Longrightarrow> snd (Fiber_switchTo this to (c, m)) f = m f"
  by (simp add: Fiber_switchTo_def OSFiber_switchTo_def hfts_fiber_swap_def Let_def)

lemma run_switches_context:
  "f \<noteq> this \<Longrightarrow> \<forall>turn\<in>set turns. snd turn \<noteq> f \<Longrightarrow> run_switches this turns st = (cur, c', m') \<Longrightarrow>
   cur \<noteq> f \<and> m' f = snd st f"
proof (induction turns arbitrary: this st)
  case (Cons turn turns)
  obtain g to c m where [simp]: "turn = (g, to)" "st = (c, m)" by (cases turn; cases st)
  show ?case
    using Cons.IH [of to "Fiber_switchTo this to (g c, m)"] Cons.prems
      switch_context [of f this to "g c" m] by auto
qed simp

subsection \<open>The stack of a new fiber\<close>

lemma and_not_15: "unat ((w :: 64 word) AND NOT 15) = 16 * (unat w div 16)"
proof -
  have "w AND NOT (mask 4) = push_bit 4 (drop_bit 4 w)"
    by (rule bit_word_eqI) (auto simp: bit_simps)
  also have "\<dots> = 16 * (w div 16)" by (simp add: push_bit_eq_mult drop_bit_eq_div)
  also have "unat \<dots> = 16 * (unat w div 16)"
    using unat_mult_no_wrap [of 16 "w div 16"] unat_lt_2p64 [of w]
    by (simp add: unat_div_distrib order_le_less_trans [of "16 * (unat w div 16)" "unat w"])
  finally show ?thesis by (simp add: mask_eq_exp_minus_1)
qed

lemma stack_top:
  assumes "unat p mod 16 = 0" "unat p + unat n < 2 ^ 64"
  shows "unat (ctx_SP (hfts_fiber_set_run trampoline p (ucast n) func arg ctx)) =
    unat p + 16 * (unat n mod 2 ^ 32 div 16)"
proof -
  have "unat (ucast n :: u32) = unat n mod 2 ^ 32"
    by (simp only: unsigned_ucast_eq len_num1 len_num0 len_bit0 len_bit1) (simp add: take_bit_eq_mod)
  moreover have "unat (ucast x :: u64) = unat x" for x :: u32
    by (simp add: unsigned_ucast_eq take_bit_nat_eq_self order_less_trans [OF unat_lt_2p32])
  ultimately have n: "unat (ucast (ucast n :: u32) :: u64) = unat n mod 2 ^ 32"
    by (simp only:)
  moreover have "unat n mod 2 ^ 32 \<le> unat n" by simp
  ultimately have "unat (p + ucast (ucast n :: u32)) = unat p + unat n mod 2 ^ 32"
    using assms(2) by (subst unat_add_no_wrap) simp_all
  moreover have "16 * ((unat p + m) div 16) = unat p + 16 * (m div 16)" for m
    using assms(1) by (metis div_plus_div_distrib_dvd_left distrib_left dvd_mult_div_cancel mod_0_imp_dvd)
  moreover have "ctx_SP (hfts_fiber_set_run trampoline p (ucast n) func arg ctx) =
      (p + ucast (ucast n :: u32)) AND NOT 15"
    by (simp add: hfts_fiber_set_run_def)
  ultimately show ?thesis by (simp only: and_not_15)
qed

text \<open>Where the default allocator puts a stack.\<close>

lemma stack_block:
  assumes "vt_allocate DefaultAllocator (stack_request sz) s = Inr (stack, s')"
    and "unat sz + 24 < 2 ^ 64" "alloc_ptr stack \<noteq> 0"
  shows "unat (alloc_ptr stack) mod 16 = 0 \<and> unat (alloc_ptr stack) + unat sz < 2 ^ 64"
proof -
  have am: "alignedMalloc 16 sz s = Inr (alloc_ptr stack, s')"
    using assms(1)
    by (auto simp: DefaultAllocator_def DefaultAllocator_allocate_def stack_request_def
        default_request_def)
  obtain base s1 where b: "c_malloc (sz + 16 + 8) s = (base, s1)" by (cases "c_malloc (sz + 16 + 8) s")
  have base: "base \<noteq> 0" using b am assms(3) alignedMalloc_null [of sz 16 s s1] by auto
  have "(16 :: size_t) \<noteq> 0" "unat sz + unat (16 :: size_t) + 8 < 2 ^ 64" using assms(2) by simp_all
  then obtain p where
    "alignedMalloc 16 sz s = Inr (p, s1\<lparr>os_mem := store_ptr (p + sz) base (os_mem s1)\<rparr>)"
    "unat p mod unat (16 :: size_t) = 0" "unat (p + sz) = unat p + unat sz"
    by (rule alignedMalloc_ok [OF _ _ b base])
  with am show ?thesis using unat_lt_2p64 [of "p + sz"] by simp
qed

text \<open>
  C14. A fiber that switches to another one and is resumed later, after any number of other fibers
  have run and have changed the processor in any way, finds every callee-saved register, its stack
  pointer and the return address of its call as it left them.
\<close>

theorem fiber_resumed:
  assumes "t \<noteq> f" "\<forall>turn\<in>set turns. snd turn \<noteq> f"
    and "run_switches t turns (Fiber_switchTo f t (c, m)) = (cur, c1, m1)"
  shows "resumed c (fst (Fiber_switchTo cur f (g c1, m1)))"
proof -
  obtain c2 m2 where st: "Fiber_switchTo f t (c, m) = (c2, m2)" by (cases "Fiber_switchTo f t (c, m)")
  have "m2 f = store_context c (m f)"
    using st assms(1)
    by (auto simp: Fiber_switchTo_def OSFiber_switchTo_def hfts_fiber_swap_def Let_def)
  with run_switches_context [OF _ assms(2), of t "(c2, m2)" cur c1 m1] assms(1,3) st
  have "cur \<noteq> f" "m1 f = store_context c (m f)" by auto
  then show ?thesis
    using load_stored [of c f "m f" "g c1"]
    by (simp add: Fiber_switchTo_def OSFiber_switchTo_def hfts_fiber_swap_def Let_def)
qed

theorem fiber_resumed_witness:
  "\<exists>cur c1 m1. run_switches 2 [(\<lambda>c. c\<lparr>cpu_sp := 96, cpu_x := (cpu_x c)(19 := 5)\<rparr>, 3)]
      (Fiber_switchTo 1 2 (\<lparr>cpu_x = (\<lambda>r. of_nat r), cpu_d = (\<lambda>_. 0), cpu_sp = 64, cpu_pc = 0\<rparr>,
        \<lambda>_. zero_context)) = (cur, c1, m1) \<and>
    cpu_sp (fst (Fiber_switchTo cur 1 (c1, m1))) = 64 \<and>
    cpu_x (fst (Fiber_switchTo cur 1 (c1, m1))) 19 = 19 \<and>
    cpu_pc (fst (Fiber_switchTo cur 1 (c1, m1))) = 30"
proof -
  let ?c = "\<lparr>cpu_x = (\<lambda>r. of_nat r), cpu_d = (\<lambda>_. 0), cpu_sp = 64, cpu_pc = 0\<rparr>"
  let ?turns = "[(\<lambda>c. c\<lparr>cpu_sp := 96, cpu_x := (cpu_x c)(19 := 5)\<rparr>, 3)]"
  obtain cur c1 m1 where run:
    "run_switches 2 ?turns (Fiber_switchTo 1 2 (?c, \<lambda>_. zero_context)) = (cur, c1, m1)"
    by (cases "run_switches 2 ?turns (Fiber_switchTo 1 2 (?c, \<lambda>_. zero_context))")
  have "resumed ?c (fst (Fiber_switchTo cur 1 (id c1, m1)))"
    by (rule fiber_resumed [OF _ _ run]) simp_all
  with run show ?thesis by (auto simp: resumed_def)
qed

text \<open>
  C23. \<open>createFiber\<close> over the default allocator, for a stack that is allocated: the stack
  pointer is aligned to 16 bytes and lies above the block's start by the stack size, cut to 32 bits
  and rounded down to a multiple of 16, so below \<open>2 ^ 32\<close> it is at most 15 bytes below the
  block's end. The first switch to the fiber goes to the trampoline, which calls \<open>run\<close> with
  the fiber, and the destructor of the fiber gives the stack back.
\<close>

theorem createFiber_stack:
  assumes "createFiber DefaultAllocator T trampoline run stackSize func s = Inr (out, f, s')"
    and "os_inv s" "os_proper (create_request T 1)" "unat stackSize + 24 < 2 ^ 64"
    and "alloc_ptr (osf_stack f) \<noteq> 0"
  shows "unat (ctx_SP (osf_context f)) =
      unat (alloc_ptr (osf_stack f)) + 16 * (unat stackSize mod 2 ^ 32 div 16) \<and>
    unat (alloc_ptr (osf_stack f)) mod 16 = 0 \<and>
    (\<forall>this c m. let c' = fst (OSFiber_switchTo this out (c, m(out := osf_context f)))
      in this \<noteq> out \<longrightarrow> cpu_pc c' = trampoline \<and> hfts_fiber_trampoline c' = (run, out)) \<and>
    OSFiber_run f = Inr func \<and> (\<exists>s''. OSFiber_destruct DefaultAllocator f s' = Inr s'' \<and> os_inv s'')"
proof -
  let ?r = "stack_request stackSize"
  have proper: "os_proper ?r"
    using assms(4) by (simp add: os_proper_def stack_request_def default_request_def)
  obtain s1 where create: "Allocator_create DefaultAllocator T s = Inr (out, s1)"
    and stack: "vt_allocate DefaultAllocator ?r s1 = Inr (osf_stack f, s')"
    and f: "osf_context f = hfts_fiber_set_run trampoline (alloc_ptr (osf_stack f)) (ucast stackSize) run out
        zero_context" "osf_target f = Some func"
    using assms(1) by (auto simp: createFiber_def Let_def OSFiber_new_def)
  obtain a where "vt_allocate DefaultAllocator (create_request T 1) s = Inr (a, s1)"
    using create by (auto simp: Allocator_create_def)
  then have inv: "os_inv s1" by (rule default_alloc.allocate_inv [OF assms(2,3)])
  have inv': "os_inv s'" by (rule default_alloc.allocate_inv [OF inv proper stack])
  have owns: "os_owns s' (osf_stack f)"
    by (rule default_alloc.allocate_owns [OF inv proper stack assms(5)])
  obtain s'' where "vt_free DefaultAllocator (osf_stack f) s' = Inr s''" "os_inv s''"
    using default_alloc.free_owned [OF inv' owns] by blast
  moreover have p: "unat (alloc_ptr (osf_stack f)) mod 16 = 0"
      "unat (alloc_ptr (osf_stack f)) + unat stackSize < 2 ^ 64"
    using stack_block [OF stack assms(4,5)] by simp_all
  moreover have "unat (ctx_SP (osf_context f)) =
      unat (alloc_ptr (osf_stack f)) + 16 * (unat stackSize mod 2 ^ 32 div 16)"
    unfolding f(1) using stack_top [OF p] by blast
  ultimately show ?thesis
    using f assms(5)
    by (auto simp: OSFiber_run_def OSFiber_destruct_def OSFiber_switchTo_def hfts_fiber_swap_def
        load_context_def hfts_fiber_trampoline_def hfts_fiber_set_run_def Let_def)
qed

theorem createFiber_stack_witness:
  "\<exists>out f s'. createFiber DefaultAllocator \<lparr>ty_sizeof = 288, ty_alignof = 8\<rparr> 400 408 1000 ()
      (os_fresh [4096, 8192]) = Inr (out, f, s') \<and>
    unat (ctx_SP (osf_context f)) = unat (alloc_ptr (osf_stack f)) + 992 \<and>
    (\<exists>s''. OSFiber_destruct DefaultAllocator f s' = Inr s'')"
proof -
  let ?T = "\<lparr>ty_sizeof = 288, ty_alignof = 8\<rparr>" and ?s = "os_fresh [4096, 8192]"
  obtain out f s' where c: "createFiber DefaultAllocator ?T 400 408 1000 () ?s = Inr (out, f, s')"
    "alloc_ptr (osf_stack f) = 8192"
    by (simp add: createFiber_def Allocator_create_def create_request_def stack_request_def
        DefaultAllocator_def DefaultAllocator_allocate_def alignedMalloc_def default_request_def
        os_eval OSFiber_new_def)
  have "os_inv ?s" by (simp add: os_inv_def os_fresh_def)
  moreover have "os_proper (create_request ?T 1)"
    by (simp add: os_proper_def create_request_def default_request_def)
  ultimately show ?thesis using createFiber_stack [OF c(1)] c by auto
qed

end
