(* ===== verification/Vec.thy ===== *)
theory Vec
  imports Memory
begin

text \<open>
  \<open>hfts::containers::vector<T, BASE_CAPACITY>\<close> of \<open>include/hfts/containers.hpp\<close>: a
  growing array that keeps its first elements in an inline buffer. The model keeps the storage as
  slots that hold an object, a moved-from object or no object, so that construction, destruction and
  access at a wrong place are faults.
\<close>

subsection \<open>State\<close>

datatype 'a slot = Raw | Obj 'a | Moved

text \<open>What the pointer \<open>elements\<close> points to.\<close>

datatype storage = Buffer | HeapMem | Nullptr

record 'a vec =
  v_count :: size_t
  v_capacity :: size_t
  v_buffer :: "'a slot list"     \<comment> \<open>\<open>buffer[BASE_CAPACITY]\<close>\<close>
  v_elements :: storage
  v_heap :: "'a slot list"       \<comment> \<open>the slots of the block of \<open>allocation\<close>\<close>
  v_allocation :: allocation

definition vector_new :: "nat \<Rightarrow> 'a vec" where
  "vector_new base_capacity =
     \<lparr>v_count = 0, v_capacity = of_nat base_capacity, v_buffer = replicate base_capacity Raw,
      v_elements = Buffer, v_heap = [], v_allocation = default_allocation\<rparr>"

fun slots_at :: "storage \<Rightarrow> 'a vec \<Rightarrow> 'a slot list" where
  "slots_at Buffer v = v_buffer v"
| "slots_at HeapMem v = v_heap v"
| "slots_at Nullptr v = []"

definition slots :: "'a vec \<Rightarrow> 'a slot list" where
  "slots v = slots_at (v_elements v) v"

definition set_slots :: "'a slot list \<Rightarrow> 'a vec \<Rightarrow> 'a vec" where
  "set_slots ys v =
     (case v_elements v of
        Buffer \<Rightarrow> v\<lparr>v_buffer := ys\<rparr> | HeapMem \<Rightarrow> v\<lparr>v_heap := ys\<rparr> | Nullptr \<Rightarrow> v)"

subsection \<open>Access to \<open>elements[i]\<close>\<close>

definition access :: "nat \<Rightarrow> 'a vec \<Rightarrow> 'a slot res" where
  "access i v =
     (if v_elements v = Nullptr then Inl NullDeref
      else if i < length (slots v) then Inr (slots v ! i) else Inl OutOfBounds)"

text \<open>Placement \<open>new\<close>, the destructor call, a read and a move of one element.\<close>

definition construct_at :: "nat \<Rightarrow> 'a \<Rightarrow> 'a vec \<Rightarrow> 'a vec res" where
  "construct_at i x v = bind_res (access i v) (\<lambda>_. Inr (set_slots ((slots v)[i := Obj x]) v))"

definition destroy_at :: "nat \<Rightarrow> 'a vec \<Rightarrow> 'a vec res" where
  "destroy_at i v =
     bind_res (access i v) (\<lambda>sl.
     if sl = Raw then Inl NoObject else Inr (set_slots ((slots v)[i := Raw]) v))"

definition read_at :: "nat \<Rightarrow> 'a vec \<Rightarrow> 'a res" where
  "read_at i v =
     bind_res (access i v) (\<lambda>sl. case sl of Obj x \<Rightarrow> Inr x | _ \<Rightarrow> Inl NoObject)"

definition move_from :: "nat \<Rightarrow> 'a vec \<Rightarrow> ('a \<times> 'a vec) res" where
  "move_from i v =
     bind_res (read_at i v) (\<lambda>x. Inr (x, set_slots ((slots v)[i := Moved]) v))"

text \<open>Construction in the block that \<open>reserve\<close> has just allocated.\<close>

definition put_grown :: "bool \<Rightarrow> nat \<Rightarrow> 'a \<Rightarrow> 'a slot list \<Rightarrow> 'a slot list res" where
  "put_grown null i x g =
     (if null then Inl NullDeref
      else if i < length g then Inr (g[i := Obj x]) else Inl OutOfBounds)"

subsection \<open>Operations\<close>

record elem_type =
  et_sizeof :: size_t
  et_alignof :: size_t

definition vector_request :: "elem_type \<Rightarrow> size_t \<Rightarrow> request" where
  "vector_request T capacity =
     default_request\<lparr>req_size := et_sizeof T * capacity, req_alignment := et_alignof T,
                     req_usage := Vector\<rparr>"

definition vector_free :: "'s allocator \<Rightarrow> 'a vec \<Rightarrow> 's \<Rightarrow> ('a vec \<times> 's) res" where
  "vector_free A v s =
     bind_res (fold_res destroy_at [0..<unat (v_count v)] v) (\<lambda>v.
     if alloc_ptr (v_allocation v) \<noteq> 0
     then bind_res (vt_free A (v_allocation v) s) (\<lambda>s.
          Inr (v\<lparr>v_allocation := default_allocation, v_elements := Nullptr, v_heap := []\<rparr>, s))
     else Inr (v, s))"

definition move_loop :: "bool \<Rightarrow> nat \<Rightarrow> 'a vec \<times> 'a slot list \<Rightarrow> ('a vec \<times> 'a slot list) res" where
  "move_loop null i = (\<lambda>(v, g).
     bind_res (move_from i v) (\<lambda>(x, v).
     bind_res (put_grown null i x g) (\<lambda>g. Inr (v, g))))"

definition vector_reserve ::
  "'s allocator \<Rightarrow> elem_type \<Rightarrow> size_t \<Rightarrow> 'a vec \<Rightarrow> 's \<Rightarrow> ('a vec \<times> 's) res" where
  "vector_reserve A T n v s =
     (if n > v_capacity v
      then let capacity = max (n * 2) 8;
               v = v\<lparr>v_capacity := capacity\<rparr>
           in bind_res (vt_allocate A (vector_request T capacity) s) (\<lambda>(alloc, s).
              let null = (alloc_ptr alloc = 0);
                  grown = replicate (unat (et_sizeof T * capacity) div unat (et_sizeof T)) Raw
              in bind_res (fold_res (move_loop null) [0..<unat (v_count v)] (v, grown))
                  (\<lambda>(v, grown).
                 bind_res (vector_free A v s) (\<lambda>(v, s).
                 Inr (v\<lparr>v_elements := (if null then Nullptr else HeapMem), v_heap := grown,
                        v_allocation := alloc\<rparr>, s))))
      else Inr (v, s))"

text \<open>
  The reference \<open>el\<close> that \<open>push_back\<close> and \<open>emplace_back\<close> take: to an
  object elsewhere, or to element \<open>i\<close> of the vector itself. It is read after
  \<open>reserve\<close>, which leaves a reference to the vector's own element without its object when it
  grows: the block that held it is freed, or the inline element is destroyed.
\<close>

datatype 'a arg = Given 'a | Own size_t

definition grows :: "size_t \<Rightarrow> 'a vec \<Rightarrow> bool" where
  "grows n v \<longleftrightarrow> n > v_capacity v"

definition arg_read :: "'a arg \<Rightarrow> 'a vec \<Rightarrow> 'a vec \<Rightarrow> 'a res" where
  \<comment> \<open>\<open>T(el)\<close>, where \<open>v\<close> is the vector before \<open>reserve(count + 1)\<close> and \<open>w\<close> after\<close>
  "arg_read el v w =
     (case el of
        Given x \<Rightarrow> Inr x
      | Own i \<Rightarrow>
          if grows (v_count v + 1) v
          then Inl (if v_elements v = HeapMem then WildAccess else NoObject)
          else read_at (unat i) w)"

definition arg_move :: "'a arg \<Rightarrow> 'a vec \<Rightarrow> 'a vec \<Rightarrow> ('a \<times> 'a vec) res" where
  \<comment> \<open>\<open>T(std::move(el))\<close>\<close>
  "arg_move el v w =
     (case el of
        Given x \<Rightarrow> Inr (x, w)
      | Own i \<Rightarrow>
          if grows (v_count v + 1) v
          then Inl (if v_elements v = HeapMem then WildAccess else NoObject)
          else move_from (unat i) w)"

definition vector_push_back ::
  "'s allocator \<Rightarrow> elem_type \<Rightarrow> 'a arg \<Rightarrow> 'a vec \<Rightarrow> 's \<Rightarrow> ('a vec \<times> 's) res" where
  "vector_push_back A T el v s =
     bind_res (vector_reserve A T (v_count v + 1) v s) (\<lambda>(w, s).
     bind_res (arg_read el v w) (\<lambda>x.
     bind_res (construct_at (unat (v_count w)) x w) (\<lambda>w.
     Inr (w\<lparr>v_count := v_count w + 1\<rparr>, s))))"

definition vector_emplace_back ::
  "'s allocator \<Rightarrow> elem_type \<Rightarrow> 'a arg \<Rightarrow> 'a vec \<Rightarrow> 's \<Rightarrow> ('a vec \<times> 's) res" where
  "vector_emplace_back A T el v s =
     bind_res (vector_reserve A T (v_count v + 1) v s) (\<lambda>(w, s).
     bind_res (arg_move el v w) (\<lambda>(x, w).
     bind_res (construct_at (unat (v_count w)) x w) (\<lambda>w.
     Inr (w\<lparr>v_count := v_count w + 1\<rparr>, s))))"

definition vector_pop_back :: "'a vec \<Rightarrow> 'a vec res" where
  "vector_pop_back v =
     (let v = v\<lparr>v_count := v_count v - 1\<rparr> in destroy_at (unat (v_count v)) v)"

definition vector_front :: "'a vec \<Rightarrow> 'a res" where
  "vector_front v = read_at 0 v"

definition vector_back :: "'a vec \<Rightarrow> 'a res" where
  "vector_back v = read_at (unat (v_count v - 1)) v"

definition vector_index :: "size_t \<Rightarrow> 'a vec \<Rightarrow> 'a res" where
  "vector_index i v = read_at (unat i) v"

definition vector_set :: "size_t \<Rightarrow> 'a \<Rightarrow> 'a vec \<Rightarrow> 'a vec res" where
  \<comment> \<open>assignment through the reference that \<open>operator[]\<close> returns\<close>
  "vector_set i x v =
     bind_res (read_at (unat i) v) (\<lambda>_. Inr (set_slots ((slots v)[unat i := Obj x]) v))"

definition vector_size :: "'a vec \<Rightarrow> size_t" where
  "vector_size v = v_count v"

text \<open>The bodies of the two loops of \<open>resize\<close>; \<open>dflt\<close> is the value that \<open>T()\<close> constructs.\<close>

definition resize_up :: "'a \<Rightarrow> nat \<Rightarrow> 'a vec \<Rightarrow> 'a vec res" where
  "resize_up dflt i v =
     bind_res (construct_at i dflt v) (\<lambda>v. Inr (v\<lparr>v_count := of_nat (i + 1)\<rparr>))"

definition resize_down :: "nat \<Rightarrow> 'a vec \<Rightarrow> 'a vec res" where
  "resize_down i v = destroy_at i (v\<lparr>v_count := of_nat i\<rparr>)"

definition vector_resize ::
  "'s allocator \<Rightarrow> elem_type \<Rightarrow> 'a \<Rightarrow> size_t \<Rightarrow> 'a vec \<Rightarrow> 's \<Rightarrow> ('a vec \<times> 's) res" where
  "vector_resize A T dflt n v s =
     bind_res (vector_reserve A T n v s) (\<lambda>(v, s).
     bind_res (fold_res (resize_up dflt) [unat (v_count v)..<unat n] v) (\<lambda>v.
     bind_res (fold_res resize_down (rev [unat n..<unat (v_count v)]) v) (\<lambda>v.
     Inr (v, s))))"

definition vector_assign ::
  "'s allocator \<Rightarrow> elem_type \<Rightarrow> 'a vec \<Rightarrow> 'a vec \<Rightarrow> 's \<Rightarrow> ('a vec \<times> 's) res" where
  "vector_assign A T other v s =
     bind_res (vector_free A v s) (\<lambda>(v, s).
     bind_res (vector_reserve A T (v_count other) v s) (\<lambda>(v, s).
     bind_res (fold_res (\<lambda>i v. bind_res (read_at i other) (\<lambda>x. construct_at i x v))
         [0..<unat (v_count other)] (v\<lparr>v_count := v_count other\<rparr>)) (\<lambda>v.
     Inr (v, s))))"

text \<open>
  Move assignment; \<open>other\<close> has an allocator of its own, which its \<open>resize(0)\<close> does not
  use, since the capacity covers 0.
\<close>

definition vector_move_assign ::
  "'s allocator \<Rightarrow> elem_type \<Rightarrow> 'a \<Rightarrow> 'a vec \<Rightarrow> 'a vec \<Rightarrow> 's \<Rightarrow> ('a vec \<times> 'a vec \<times> 's) res" where
  "vector_move_assign A T dflt other v s =
     bind_res (vector_free A v s) (\<lambda>(v, s).
     bind_res (vector_reserve A T (v_count other) v s) (\<lambda>(v, s).
     bind_res (fold_res
         (\<lambda>i (other, v). bind_res (move_from i other) (\<lambda>(x, other).
                          bind_res (construct_at i x v) (\<lambda>v. Inr (other, v))))
         [0..<unat (v_count other)] (other, v\<lparr>v_count := v_count other\<rparr>)) (\<lambda>(other, v).
     bind_res (vector_resize A T dflt 0 other s) (\<lambda>(other, s).
     Inr (v, other, s)))))"

text \<open>
  \<open>v = v\<close>, where \<open>other\<close> is the vector that is assigned to: its elements are destroyed
  before they are read.
\<close>

definition vector_assign_self ::
  "'s allocator \<Rightarrow> elem_type \<Rightarrow> 'a vec \<Rightarrow> 's \<Rightarrow> ('a vec \<times> 's) res" where
  "vector_assign_self A T v s =
     bind_res (vector_free A v s) (\<lambda>(v, s).
     bind_res (vector_reserve A T (v_count v) v s) (\<lambda>(v, s).
     bind_res (fold_res (\<lambda>i v. bind_res (read_at i v) (\<lambda>x. construct_at i x v)) [0..<unat (v_count v)] v)
       (\<lambda>v. Inr (v, s))))"

definition vector_copy ::
  "'s allocator \<Rightarrow> elem_type \<Rightarrow> nat \<Rightarrow> 'a vec \<Rightarrow> 's \<Rightarrow> ('a vec \<times> 's) res" where
  \<comment> \<open>the copy constructor: a new vector, then \<open>*this = other\<close>\<close>
  "vector_copy A T base_capacity other s = vector_assign A T other (vector_new base_capacity) s"

definition vector_destruct :: "'s allocator \<Rightarrow> 'a vec \<Rightarrow> 's \<Rightarrow> 's res" where
  "vector_destruct A v s = bind_res (vector_free A v s) (\<lambda>(_, s). Inr s)"

subsection \<open>Slots\<close>

lemma slots_set_slots [simp]: "v_elements v \<noteq> Nullptr \<Longrightarrow> slots (set_slots ys v) = ys"
  by (cases "v_elements v") (simp_all add: slots_def set_slots_def)

lemma set_slots_fields [simp]:
  "v_elements (set_slots ys v) = v_elements v" "v_count (set_slots ys v) = v_count v"
  "v_capacity (set_slots ys v) = v_capacity v" "v_allocation (set_slots ys v) = v_allocation v"
  by (cases "v_elements v"; simp add: set_slots_def)+

lemma set_slots_twice [simp]: "set_slots ys (set_slots zs v) = set_slots ys v"
  by (cases "v_elements v") (simp_all add: set_slots_def)

lemma set_slots_slots [simp]: "set_slots (slots v) v = v"
  by (cases "v_elements v") (simp_all add: slots_def set_slots_def)

lemma set_slots_count [simp]:
  "(set_slots ys v)\<lparr>v_count := n\<rparr> = set_slots ys (v\<lparr>v_count := n\<rparr>)"
  by (cases "v_elements v") (simp_all add: set_slots_def)

lemma slots_updates [simp]:
  "slots (v\<lparr>v_count := n\<rparr>) = slots v" "slots (v\<lparr>v_capacity := c\<rparr>) = slots v"
  "slots (v\<lparr>v_allocation := a\<rparr>) = slots v"
  by (cases "v_elements v"; simp add: slots_def)+

lemma access_ok [simp]:
  "v_elements v \<noteq> Nullptr \<Longrightarrow> i < length (slots v) \<Longrightarrow> access i v = Inr (slots v ! i)"
  by (simp add: access_def)

lemma construct_ok [simp]:
  "v_elements v \<noteq> Nullptr \<Longrightarrow> i < length (slots v) \<Longrightarrow>
   construct_at i x v = Inr (set_slots ((slots v)[i := Obj x]) v)"
  by (simp add: construct_at_def)

lemma destroy_ok [simp]:
  "v_elements v \<noteq> Nullptr \<Longrightarrow> i < length (slots v) \<Longrightarrow> slots v ! i \<noteq> Raw \<Longrightarrow>
   destroy_at i v = Inr (set_slots ((slots v)[i := Raw]) v)"
  by (simp add: destroy_at_def)

lemma read_ok [simp]:
  "v_elements v \<noteq> Nullptr \<Longrightarrow> i < length (slots v) \<Longrightarrow> slots v ! i = Obj x \<Longrightarrow>
   read_at i v = Inr x"
  by (simp add: read_at_def)

lemma nullptr_faults [simp]:
  assumes "v_elements v = Nullptr"
  shows "construct_at i x v = Inl NullDeref" "destroy_at i v = Inl NullDeref"
    "read_at i v = Inl NullDeref"
  using assms by (simp_all add: construct_at_def destroy_at_def read_at_def access_def)

text \<open>One more element at the border between the part done and the part left.\<close>

lemma border_update:
  "k < length ys \<Longrightarrow> length zs = k \<Longrightarrow> (zs @ drop k ys)[k := y] = zs @ y # drop (Suc k) ys"
  by (simp add: list_update_append Cons_nth_drop_Suc [symmetric])

lemma border_nth: "k < length ys \<Longrightarrow> length zs = k \<Longrightarrow> (zs @ drop k ys) ! k = ys ! k"
  by (simp add: nth_append)

lemma replicate_border: "replicate k y @ y # ys = y # replicate k y @ ys"
  by (induction k) simp_all

text \<open>The loops of the operations, each over the first \<open>k\<close> slots.\<close>

lemma destroy_loop:
  assumes "v_elements v \<noteq> Nullptr" "k \<le> length (slots v)" "\<forall>i<k. slots v ! i \<noteq> Raw"
  shows "fold_res destroy_at [0..<k] v = Inr (set_slots (replicate k Raw @ drop k (slots v)) v)"
  using assms(2,3)
proof (induction k)
  case 0
  then show ?case by simp
next
  case (Suc k)
  then show ?case using assms(1)
    by (simp add: fold_res_append border_nth border_update replicate_border)
qed

lemma move_loop_step:
  assumes "v_elements v \<noteq> Nullptr" "i < length (slots v)" "slots v ! i = Obj x" "i < length g"
  shows "move_loop False i (v, g) = Inr (set_slots ((slots v)[i := Moved]) v, g[i := Obj x])"
  using assms by (simp add: move_loop_def move_from_def put_grown_def)

lemma move_loop_all:
  assumes "v_elements v \<noteq> Nullptr" "slots v = map Obj xs @ rest" "k \<le> length xs"
    "length xs \<le> m"
  shows "fold_res (move_loop False) [0..<k] (v, replicate m Raw) =
    Inr (set_slots (replicate k Moved @ drop k (slots v)) v,
         map Obj (take k xs) @ replicate (m - k) Raw)"
  using assms(3)
proof (induction k)
  case 0
  then show ?case by simp
next
  case (Suc k)
  have "slots v ! k = Obj (xs ! k)" "k < length (slots v)"
    using Suc.prems assms(2) by (simp_all add: nth_append)
  moreover have "(map Obj (take k xs) @ replicate (m - k) Raw)[k := Obj (xs ! k)] =
      map Obj (take (Suc k) xs) @ replicate (m - Suc k) Raw"
    using Suc.prems assms(4)
    by (simp add: list_update_append take_Suc_conv_app_nth Suc_diff_Suc [symmetric])
  ultimately show ?case using Suc assms(1,4)
    by (simp add: fold_res_append move_loop_step border_nth border_update replicate_border)
qed

lemma construct_loop:
  assumes "v_elements v \<noteq> Nullptr" "length ys \<le> length (slots v)"
  shows "k \<le> length ys \<Longrightarrow> fold_res (\<lambda>i. construct_at i (ys ! i)) [0..<k] v =
    Inr (set_slots (map Obj (take k ys) @ drop k (slots v)) v)"
proof (induction k)
  case 0
  then show ?case by simp
next
  case (Suc k)
  then show ?case using assms
    by (simp add: fold_res_append border_update take_Suc_conv_app_nth)
qed

text \<open>The two loops of \<open>resize\<close>.\<close>

lemma resize_up_loop:
  assumes "v_elements v \<noteq> Nullptr" "c \<le> n" "n \<le> length (slots v)"
  shows "fold_res (resize_up d) [c..<n] v =
    Inr (if c = n then v else set_slots (take c (slots v) @ replicate (n - c) (Obj d) @
           drop n (slots v)) (v\<lparr>v_count := of_nat n\<rparr>))"
  using assms(2,3)
proof (induction n rule: dec_induct)
  case base
  then show ?case by simp
next
  case (step n)
  have "(take c (slots v) @ replicate (n - c) (Obj d) @ drop n (slots v))[n := Obj d] =
      take c (slots v) @ replicate (Suc n - c) (Obj d) @ drop (Suc n) (slots v)"
    using step border_update [of n "slots v" "take c (slots v) @ replicate (n - c) (Obj d)" "Obj d"]
    by (simp add: Suc_diff_le replicate_border)
  moreover have "(slots v)[c := Obj d] = take c (slots v) @ Obj d # drop (Suc c) (slots v)"
    if "c = n" using step that by (simp add: upd_conv_take_nth_drop)
  ultimately show ?case using step assms(1)
    by (auto simp: fold_res_append resize_up_def)
qed

lemma resize_down_loop:
  assumes "v_elements v \<noteq> Nullptr" "n \<le> c" "c \<le> length (slots v)"
    "\<forall>i<c. slots v ! i \<noteq> Raw"
  shows "fold_res resize_down (rev [n..<c]) v =
    Inr (if c = n then v else set_slots (take n (slots v) @ replicate (c - n) Raw @
           drop c (slots v)) (v\<lparr>v_count := of_nat n\<rparr>))"
  using assms
proof (induction "c - n" arbitrary: c v)
  case 0
  then show ?case by simp
next
  case (Suc k)
  then obtain c' where c: "c = Suc c'" "n \<le> c'" by (cases c) auto
  let ?v = "set_slots ((slots v)[c' := Raw]) (v\<lparr>v_count := of_nat c'\<rparr>)"
  have "fold_res resize_down (rev [n..<c]) v = fold_res resize_down (rev [n..<c']) ?v"
    using Suc.prems c by (simp add: resize_down_def)
  also have "\<dots> = Inr (if c' = n then ?v else set_slots (take n (slots ?v) @
      replicate (c' - n) Raw @ drop c' (slots ?v)) (?v\<lparr>v_count := of_nat n\<rparr>))"
    using Suc c by (intro Suc.hyps(1)) auto
  finally show ?case using Suc.prems c
    by (auto simp: upd_conv_take_nth_drop Suc_diff_le replicate_border drop_Cons')
qed

subsection \<open>The argument of \<open>push_back\<close>\<close>

lemma push_back_given:
  "vector_push_back A T (Given x) v s =
     bind_res (vector_reserve A T (v_count v + 1) v s) (\<lambda>(v, s).
     bind_res (construct_at (unat (v_count v)) x v) (\<lambda>v.
     Inr (v\<lparr>v_count := v_count v + 1\<rparr>, s)))"
  by (simp add: vector_push_back_def arg_read_def)

lemma emplace_back_given:
  "vector_emplace_back A T (Given x) v s = vector_push_back A T (Given x) v s"
  by (simp add: vector_emplace_back_def push_back_given arg_move_def)

text \<open>An own element dangles as soon as the vector grows.\<close>

lemma own_dangles:
  assumes "grows (v_count v + 1) v"
  shows "isl (vector_push_back A T (Own i) v s)" "isl (vector_emplace_back A T (Own i) v s)"
  using assms
  by (cases "vector_reserve A T (v_count v + 1) v s";
      simp add: vector_push_back_def vector_emplace_back_def arg_read_def arg_move_def split_beta)+

subsection \<open>The list a vector holds\<close>

text \<open>
  The vector \<open>v\<close> holds the list \<open>xs\<close>: objects in the first \<open>count\<close> slots,
  no object in the others, and storage on the heap exactly when there is an allocation.
\<close>

definition vec_rep :: "'a vec \<Rightarrow> 'a list \<Rightarrow> bool" where
  "vec_rep v xs \<longleftrightarrow>
     v_elements v \<noteq> Nullptr \<and> (v_elements v = HeapMem \<longleftrightarrow> alloc_ptr (v_allocation v) \<noteq> 0) \<and>
     unat (v_count v) = length xs \<and> length xs \<le> unat (v_capacity v) \<and>
     slots v = map Obj xs @ replicate (unat (v_capacity v) - length xs) Raw"

lemma vec_repD:
  assumes "vec_rep v xs"
  shows "v_elements v \<noteq> Nullptr" "unat (v_count v) = length xs"
    "length xs \<le> unat (v_capacity v)" "length (slots v) = unat (v_capacity v)"
    "slots v = map Obj xs @ replicate (unat (v_capacity v) - length xs) Raw"
    "i < length xs \<Longrightarrow> slots v ! i = Obj (xs ! i)"
    "length xs \<le> i \<Longrightarrow> i < unat (v_capacity v) \<Longrightarrow> slots v ! i = Raw"
  using assms by (auto simp: vec_rep_def nth_append)

lemma vector_new_rep: "base < 2 ^ 64 \<Longrightarrow> vec_rep (vector_new base) []"
  by (simp add: vec_rep_def vector_new_def slots_def unat_of_nat_64 default_allocation_def)

text \<open>Replacing the elements within the capacity.\<close>

lemma vec_rep_set:
  assumes "vec_rep v xs" "length ys \<le> unat (v_capacity v)" "unat c = length ys"
    "zs = map Obj ys @ replicate (unat (v_capacity v) - length ys) Raw"
  shows "vec_rep (set_slots zs (v\<lparr>v_count := c\<rparr>)) ys"
  using assms by (simp add: vec_rep_def)

lemma vec_rep_construct:
  assumes "vec_rep v xs" "length xs < unat (v_capacity v)"
  shows "construct_at (length xs) x v = Inr (set_slots ((slots v)[length xs := Obj x]) v)"
    and "vec_rep (set_slots ((slots v)[length xs := Obj x]) (v\<lparr>v_count := v_count v + 1\<rparr>)) (xs @ [x])"
proof -
  note rep = vec_repD [OF assms(1)]
  show "construct_at (length xs) x v = Inr (set_slots ((slots v)[length xs := Obj x]) v)"
    using rep assms(2) by simp
  have "unat (v_count v + 1) = Suc (length xs)"
    using rep(2) assms(2) less_2p64 [OF assms(2)] by (simp add: unat_add_no_wrap)
  then show "vec_rep (set_slots ((slots v)[length xs := Obj x]) (v\<lparr>v_count := v_count v + 1\<rparr>)) (xs @ [x])"
    using assms rep(5)
    by (intro vec_rep_set [OF assms(1)])
      (auto simp: list_update_append Suc_diff_Suc [symmetric])
qed

lemma vec_rep_pop:
  assumes "vec_rep v (xs @ [x])"
  shows "\<exists>v'. vector_pop_back v = Inr v' \<and> vec_rep v' xs \<and> v_allocation v' = v_allocation v \<and>
    v_capacity v' = v_capacity v"
proof -
  note rep = vec_repD [OF assms]
  let ?v = "v\<lparr>v_count := v_count v - 1\<rparr>"
  have c: "unat (v_count v - 1) = length xs"
    using rep(2) by (subst unat_diff_le) simp_all
  have "destroy_at (length xs) ?v = Inr (set_slots ((slots ?v)[length xs := Raw]) ?v)"
    using rep by (intro destroy_ok) (auto simp: nth_append)
  moreover have "vec_rep (set_slots ((slots ?v)[length xs := Raw]) ?v) xs"
    using rep(3,5) c
    by (intro vec_rep_set [OF assms])
      (auto simp: list_update_append Suc_diff_Suc [symmetric])
  ultimately show ?thesis using c by (auto simp: vector_pop_back_def)
qed

lemma vec_rep_pop_empty:
  assumes "vec_rep v []"
  shows "\<exists>e. vector_pop_back v = Inl e"
proof -
  note rep = vec_repD [OF assms]
  have "v_count v = 0" using rep(2) by (simp add: unat_eq_0)
  moreover have "\<not> unat (- 1 :: 64 word) < length (slots v)"
    using rep(4) less_2p64 [of 18446744073709551615 "v_capacity v"]
    by (auto simp: unsigned_minus_1_eq_mask mask_eq_exp_minus_1)
  ultimately show ?thesis using rep(1)
    by (simp add: vector_pop_back_def destroy_at_def access_def)
qed

lemma vec_rep_index:
  assumes "vec_rep v xs"
  shows "read_at i v = Inr x \<longleftrightarrow> i < length xs \<and> x = xs ! i"
proof (cases "i < length xs")
  case True
  then show ?thesis using vec_repD [OF assms] by (auto simp: read_at_def)
next
  case False
  then show ?thesis using vec_repD [OF assms] by (auto simp: read_at_def access_def)
qed

lemma vec_rep_assign_at:
  assumes "vec_rep v xs" "unat i < length xs"
  shows "vector_set i x v = Inr (set_slots ((slots v)[unat i := Obj x]) v)"
    and "vec_rep (set_slots ((slots v)[unat i := Obj x]) v) (xs[unat i := x])"
proof -
  note rep = vec_repD [OF assms(1)]
  show "vector_set i x v = Inr (set_slots ((slots v)[unat i := Obj x]) v)"
    using rep assms(2) by (simp add: vector_set_def)
  show "vec_rep (set_slots ((slots v)[unat i := Obj x]) v) (xs[unat i := x])"
    using vec_rep_set [OF assms(1), of "xs[unat i := x]" "v_count v" "(slots v)[unat i := Obj x]"]
      rep assms(2) by (simp add: list_update_append map_update)
qed

text \<open>Within the capacity, \<open>resize\<close> cuts the list or fills it up with \<open>T()\<close>.\<close>

definition list_resize :: "'a \<Rightarrow> nat \<Rightarrow> 'a list \<Rightarrow> 'a list" where
  "list_resize d n xs = take n xs @ replicate (n - length xs) d"

lemma reserve_noop [simp]: "n \<le> v_capacity v \<Longrightarrow> vector_reserve A T n v s = Inr (v, s)"
  by (drule leD) (simp only: vector_reserve_def if_False)

lemma vec_rep_resize:
  assumes "vec_rep v xs" "n \<le> v_capacity v"
  shows "\<exists>v'. vector_resize A T d n v s = Inr (v', s) \<and>
    vec_rep v' (list_resize d (unat n) xs) \<and>
    v_allocation v' = v_allocation v \<and> v_capacity v' = v_capacity v"
proof -
  note rep = vec_repD [OF assms(1)]
  have n: "unat n \<le> unat (v_capacity v)" using assms(2) by (simp add: word_le_nat_alt)
  have reserve: "vector_reserve A T n v s = Inr (v, s)" using assms(2) by simp
  consider (eq) "length xs = unat n" | (up) "length xs < unat n" | (down) "unat n < length xs"
    by linarith
  then show ?thesis
  proof cases
    case eq
    then show ?thesis using reserve assms(1) rep(2)
      by (auto simp: vector_resize_def list_resize_def)
  next
    case up
    let ?zs = "take (length xs) (slots v) @ replicate (unat n - length xs) (Obj d) @
      drop (unat n) (slots v)"
    have "vec_rep (set_slots ?zs (v\<lparr>v_count := n\<rparr>)) (list_resize d (unat n) xs)"
      using up rep(2,5) n by (intro vec_rep_set [OF assms(1)]) (auto simp: list_resize_def)
    then show ?thesis
      using up reserve rep(1,2,4) n resize_up_loop [of v "length xs" "unat n" d]
      by (auto simp: vector_resize_def)
  next
    case down
    let ?zs = "take (unat n) (slots v) @ replicate (length xs - unat n) Raw @
      drop (length xs) (slots v)"
    have "vec_rep (set_slots ?zs (v\<lparr>v_count := n\<rparr>)) (list_resize d (unat n) xs)"
      using down rep(2,3,5) n
      by (intro vec_rep_set [OF assms(1)])
        (auto simp: list_resize_def take_map replicate_add [symmetric])
    then show ?thesis
      using down reserve rep(1,2,3,4,6) resize_down_loop [of v "unat n" "length xs"]
      by (auto simp: vector_resize_def)
  qed
qed

subsection \<open>Growing, on any allocator that keeps the contract\<close>

text \<open>A vector without an allocation has nothing to free.\<close>

lemma vector_free_inline:
  assumes "v_elements v \<noteq> Nullptr" "unat (v_count v) \<le> length (slots v)"
    "\<forall>i<unat (v_count v). slots v ! i \<noteq> Raw" "alloc_ptr (v_allocation v) = 0"
  shows "vector_free A v s =
    Inr (set_slots (replicate (unat (v_count v)) Raw @ drop (unat (v_count v)) (slots v)) v, s)"
  using assms by (simp add: vector_free_def destroy_loop)

lemma vector_free_heap:
  assumes "v_elements v \<noteq> Nullptr" "unat (v_count v) \<le> length (slots v)"
    "\<forall>i<unat (v_count v). slots v ! i \<noteq> Raw" "alloc_ptr (v_allocation v) \<noteq> 0"
    "vt_free A (v_allocation v) s = Inr s'"
  shows "\<exists>w. vector_free A v s = Inr (w, s') \<and> v_elements w = Nullptr \<and> v_count w = v_count v \<and>
    v_capacity w = v_capacity v \<and> v_allocation w = default_allocation"
  using assms by (simp add: vector_free_def destroy_loop)

text \<open>The allocation of a vector, if any, is live.\<close>

definition vec_owned :: "('s \<Rightarrow> allocation \<Rightarrow> bool) \<Rightarrow> 's \<Rightarrow> 'a vec \<Rightarrow> bool" where
  "vec_owned owns s v \<longleftrightarrow> alloc_ptr (v_allocation v) = 0 \<or> owns s (v_allocation v)"

text \<open>The bytes of the new block do not wrap, and the allocator accepts its request.\<close>

definition fits :: "(request \<Rightarrow> bool) \<Rightarrow> elem_type \<Rightarrow> size_t \<Rightarrow> bool" where
  "fits proper T n \<longleftrightarrow>
     unat n * 2 < 2 ^ 64 \<and> et_sizeof T \<noteq> 0 \<and>
     unat (et_sizeof T) * max (unat n * 2) 8 < 2 ^ 64 \<and>
     proper (vector_request T (max (n * 2) 8))"

lemma unat_max: "unat (max a b :: 64 word) = max (unat a) (unat b)"
  by (simp add: max_def word_le_nat_alt)

lemma fits_capacity:
  assumes "fits proper T n"
  shows "unat (max (n * 2) 8) = max (unat n * 2) 8"
    and "unat (et_sizeof T * max (n * 2) 8) div unat (et_sizeof T) = max (unat n * 2) 8"
proof -
  show cap: "unat (max (n * 2) 8) = max (unat n * 2) 8"
    using assms by (simp add: fits_def unat_max unat_mult_no_wrap)
  have "unat (et_sizeof T * max (n * 2) 8) = unat (et_sizeof T) * max (unat n * 2) 8"
    using assms cap by (simp add: fits_def unat_mult_no_wrap)
  then show "unat (et_sizeof T * max (n * 2) 8) div unat (et_sizeof T) = max (unat n * 2) 8"
    using assms by (simp add: fits_def unat_gt_0)
qed

text \<open>A vector in a state of its allocator, holding \<open>xs\<close>.\<close>

definition vec_ok ::
  "('s \<Rightarrow> bool) \<Rightarrow> ('s \<Rightarrow> allocation \<Rightarrow> bool) \<Rightarrow> 'a list \<Rightarrow> 'a vec \<times> 's \<Rightarrow> bool" where
  "vec_ok I owns xs vs \<longleftrightarrow>
     I (snd vs) \<and> vec_rep (fst vs) xs \<and> vec_owned owns (snd vs) (fst vs)"

text \<open>
  A client's calls, what they do to the vector, and what they do to the list it holds;
  \<open>None\<close> where the call breaks the precondition that the code's disabled assertions name.
\<close>

datatype 'a vec_op =
    PushBack 'a | PushOwn size_t | EmplaceBack 'a | PopBack | Resize size_t | SetAt size_t 'a

fun vec_step ::
  "'s allocator \<Rightarrow> elem_type \<Rightarrow> 'a \<Rightarrow> 'a vec_op \<Rightarrow> 'a vec \<times> 's \<Rightarrow> ('a vec \<times> 's) res" where
  "vec_step A T d (PushBack x) (v, s) = vector_push_back A T (Given x) v s"
| "vec_step A T d (PushOwn i) (v, s) = vector_push_back A T (Own i) v s"
| "vec_step A T d (EmplaceBack x) (v, s) = vector_emplace_back A T (Given x) v s"
| "vec_step A T d PopBack (v, s) = bind_res (vector_pop_back v) (\<lambda>v. Inr (v, s))"
| "vec_step A T d (Resize n) (v, s) = vector_resize A T d n v s"
| "vec_step A T d (SetAt i x) (v, s) = bind_res (vector_set i x v) (\<lambda>v. Inr (v, s))"

fun list_step :: "'a \<Rightarrow> 'a vec_op \<Rightarrow> 'a list \<Rightarrow> 'a list option" where
  "list_step d (PushBack x) xs = Some (xs @ [x])"
| "list_step d (PushOwn i) xs = (if unat i < length xs then Some (xs @ [xs ! unat i]) else None)"
| "list_step d (EmplaceBack x) xs = Some (xs @ [x])"
| "list_step d PopBack xs = (if xs = [] then None else Some (butlast xs))"
| "list_step d (Resize n) xs = Some (list_resize d (unat n) xs)"
| "list_step d (SetAt i x) xs = (if unat i < length xs then Some (xs[unat i := x]) else None)"

text \<open>The capacity a call asks \<open>reserve\<close> for.\<close>

fun wanted :: "'a vec_op \<Rightarrow> 'a list \<Rightarrow> nat" where
  "wanted (PushBack x) xs = length xs + 1"
| "wanted (PushOwn i) xs = length xs + 1"
| "wanted (EmplaceBack x) xs = length xs + 1"
| "wanted (Resize n) xs = unat n"
| "wanted _ xs = 0"

text \<open>A call that has to grow the vector and gets no memory.\<close>

definition no_memory :: "'s allocator \<Rightarrow> elem_type \<Rightarrow> size_t \<Rightarrow> 'a vec \<Rightarrow> 's \<Rightarrow> bool" where
  "no_memory A T n v s \<longleftrightarrow>
     v_capacity v < n \<and>
     (case vt_allocate A (vector_request T (max (n * 2) 8)) s of
        Inl e \<Rightarrow> True | Inr (a, s1) \<Rightarrow> alloc_ptr a = 0)"

context allocator_contract
begin

lemma reserve_grows:
  assumes rep: "vec_rep v xs" and inv: "inv s" and own: "vec_owned owns s v"
    and n: "v_capacity v < n" and fits: "fits proper T n"
    and a: "vt_allocate A (vector_request T (max (n * 2) 8)) s = Inr (a, s1)" "alloc_ptr a \<noteq> 0"
  shows "\<exists>v' s'. vector_reserve A T n v s = Inr (v', s') \<and> vec_rep v' xs \<and> inv s' \<and>
    vec_owned owns s' v' \<and> v_capacity v' = max (n * 2) 8"
proof -
  let ?c = "max (n * 2) 8" and ?k = "length xs" and ?m = "max (unat n * 2) 8"
  let ?v = "v\<lparr>v_capacity := ?c\<rparr>"
  note R = vec_repD [OF rep] and cap = fits_capacity [OF fits]
  have proper: "proper (vector_request T ?c)" using fits by (simp add: fits_def)
  have le: "?k \<le> ?m" using R(3) n by (simp add: word_less_nat_alt)
  let ?v1 = "set_slots (replicate ?k Moved @ drop ?k (slots v)) ?v"
  let ?g = "map Obj xs @ replicate (?m - ?k) Raw"
  have moved: "fold_res (move_loop False) [0..<unat (v_count ?v)] (?v, replicate ?m Raw) =
      Inr (?v1, ?g)"
    using R(1,2,5) le move_loop_all [of ?v xs "replicate (unat (v_capacity v) - ?k) Raw" ?k ?m]
    by simp
  have ok1: "v_elements ?v1 \<noteq> Nullptr" "unat (v_count ?v1) \<le> length (slots ?v1)"
    "\<forall>i<unat (v_count ?v1). slots ?v1 ! i \<noteq> Raw"
    using R(1,2,3,4) by (auto simp: nth_append)
  obtain w s' where free: "vector_free A ?v1 s1 = Inr (w, s')" "inv s'" "owns s' a"
    and w: "v_count w = v_count v" "v_capacity w = ?c"
  proof (cases "alloc_ptr (v_allocation v) = 0")
    case True
    then show ?thesis
      using that [OF vector_free_inline [OF ok1]] allocate_inv [OF inv proper a(1)]
        allocate_owns [OF inv proper a] by simp
  next
    case False
    then have "owns s (v_allocation v)" using own by (simp add: vec_owned_def)
    then obtain s2 where "vt_free A (v_allocation v) s1 = Inr s2" "inv s2" "owns s2 a"
      using replace_block [OF inv proper _ a] by metis
    then show ?thesis using that vector_free_heap [OF ok1, of A s1 s2] False by auto
  qed
  let ?v' = "w\<lparr>v_elements := HeapMem, v_heap := ?g, v_allocation := a\<rparr>"
  have "vector_reserve A T n v s = Inr (?v', s')"
    using n a moved free(1) cap(2) by (simp add: vector_reserve_def Let_def)
  moreover have "vec_rep ?v' xs"
    using w R(2) a(2) cap(1) le by (simp add: vec_rep_def slots_def)
  moreover have "vec_owned owns s' ?v'" using free(3) by (simp add: vec_owned_def)
  ultimately show ?thesis using free(2) w(2) by (intro exI [of _ "?v'"] exI [of _ "s'"]) simp
qed

lemma reserve_ok:
  assumes "vec_ok inv owns xs (v, s)" "fits proper T n" "\<not> no_memory A T n v s"
  shows "\<exists>v' s'. vector_reserve A T n v s = Inr (v', s') \<and> vec_ok inv owns xs (v', s') \<and>
    n \<le> v_capacity v'"
proof (cases "v_capacity v < n")
  case True
  then obtain a s1 where "vt_allocate A (vector_request T (max (n * 2) 8)) s = Inr (a, s1)"
    "alloc_ptr a \<noteq> 0"
    using assms(3) by (auto simp: no_memory_def split: sum.splits)
  moreover have "n \<le> max (n * 2) 8"
    using fits_capacity(1) [OF assms(2)] by (simp add: word_le_nat_alt)
  ultimately show ?thesis
    using reserve_grows [OF _ _ _ True assms(2)] assms(1) by (fastforce simp: vec_ok_def)
next
  case False
  then show ?thesis using assms(1) by (auto simp: not_less)
qed

lemma push_back_ok:
  assumes ok: "vec_ok inv owns xs (v, s)" and fits: "fits proper T (v_count v + 1)"
    and mem: "\<not> no_memory A T (v_count v + 1) v s"
    and len: "Suc (length xs) < 2 ^ 64"
  shows "\<exists>vs. vector_push_back A T (Given x) v s = Inr vs \<and> vec_ok inv owns (xs @ [x]) vs"
proof -
  obtain v' s' where r: "vector_reserve A T (v_count v + 1) v s = Inr (v', s')"
    "vec_ok inv owns xs (v', s')" "v_count v + 1 \<le> v_capacity v'"
    using reserve_ok [OF ok fits mem] by blast
  have rep: "vec_rep v' xs" using r(2) by (simp add: vec_ok_def)
  have "unat (v_count v) = length xs" using ok by (simp add: vec_ok_def vec_repD(2))
  then have "unat (v_count v + 1) = Suc (length xs)" using len by (simp add: unat_add_no_wrap)
  then have "length xs < unat (v_capacity v')"
    using r(3) by (simp add: word_le_nat_alt)
  from vec_rep_construct [OF rep this, of x] r rep show ?thesis
    by (simp add: push_back_given vec_ok_def vec_owned_def vec_repD(2))
qed

lemma resize_ok:
  assumes ok: "vec_ok inv owns xs (v, s)" and fits: "fits proper T n"
    and mem: "\<not> no_memory A T n v s"
  shows "\<exists>vs. vector_resize A T d n v s = Inr vs \<and> vec_ok inv owns (list_resize d (unat n) xs) vs"
proof -
  obtain v' s' where r: "vector_reserve A T n v s = Inr (v', s')"
    "vec_ok inv owns xs (v', s')" "n \<le> v_capacity v'"
    using reserve_ok [OF ok fits mem] by blast
  have "vector_resize A T d n v s = vector_resize A T d n v' s'"
    using r(1,3) by (simp add: vector_resize_def)
  with vec_rep_resize [OF _ r(3), of xs A T d s'] r(2) show ?thesis
    by (auto simp: vec_ok_def vec_owned_def)
qed

end

text \<open>Without memory a call that has to grow faults.\<close>

lemma reserve_no_memory:
  assumes "vec_rep v xs" "no_memory A T n v s" "vector_reserve A T n v s = Inr (v', s')"
  shows "v_elements v' = Nullptr \<and> unat (v_count v') = 0"
proof (cases "xs = []")
  case True
  then have count: "v_count v = 0" using vec_repD(2) [OF assms(1)] by (simp add: unat_eq_0)
  have grow: "v_capacity v < n" using assms(2) by (simp add: no_memory_def)
  have free: "v_count w = 0" if "vector_free A (v\<lparr>v_capacity := c\<rparr>) t = Inr (w, t')" for c t w t'
    using that count by (auto simp: vector_free_def split: if_splits)
  obtain a s1 where a: "vt_allocate A (vector_request T (max (n * 2) 8)) s = Inr (a, s1)"
    using assms(3) grow by (auto simp: vector_reserve_def Let_def)
  then have "alloc_ptr a = 0" using assms(2) by (simp add: no_memory_def)
  with assms(3) grow a count show ?thesis
    by (auto simp: vector_reserve_def Let_def dest: free)
next
  case False
  note rep = vec_repD [OF assms(1)]
  have pos: "0 < length xs" using False by simp
  have "read_at 0 (v\<lparr>v_capacity := c\<rparr>) = Inr (xs ! 0)" for c
  proof (rule read_ok)
    show "0 < length (slots (v\<lparr>v_capacity := c\<rparr>))" using rep(3,4) pos by (simp only: slots_updates)
  qed (use rep(1) rep(6) [OF pos] in simp_all)
  then have "move_loop True 0 (v\<lparr>v_capacity := c\<rparr>, g) = Inl NullDeref" for c g
    by (simp add: move_loop_def move_from_def put_grown_def)
  then have "fold_res (move_loop True) [0..<unat (v_count v)] (v\<lparr>v_capacity := c\<rparr>, g) =
      Inl NullDeref" for c g
    using rep(2) pos by (simp add: upt_conv_Cons)
  then show ?thesis using assms(2,3)
    by (auto simp: vector_reserve_def no_memory_def Let_def split: sum.splits)
qed

lemma grow_no_memory:
  assumes "vec_rep v xs" "no_memory A T n v s"
  shows "n = v_count v + 1 \<Longrightarrow> \<exists>e. vector_push_back A T el v s = Inl e"
    and "\<exists>e. vector_resize A T d n v s = Inl e"
proof -
  show "\<exists>e. vector_push_back A T el v s = Inl e" if n: "n = v_count v + 1"
  proof (cases "vector_reserve A T n v s")
    case (Inr r)
    obtain w t where r: "r = (w, t)" by (cases r)
    then have "v_elements w = Nullptr" using reserve_no_memory [OF assms] Inr by simp
    then show ?thesis using Inr r n
      by (cases "arg_read el v w") (simp_all add: vector_push_back_def)
  qed (use n in \<open>simp add: vector_push_back_def\<close>)
  have "0 < unat n" using assms(2) by (cases "n = 0") (auto simp: no_memory_def unat_gt_0)
  then show "\<exists>e. vector_resize A T d n v s = Inl e"
    using reserve_no_memory [OF assms]
    by (cases "vector_reserve A T n v s")
      (auto simp: vector_resize_def upt_conv_Cons resize_up_def)
qed

subsection \<open>Sequences of calls\<close>

definition vec_run ::
  "'s allocator \<Rightarrow> elem_type \<Rightarrow> 'a \<Rightarrow> 'a vec_op list \<Rightarrow> 'a vec \<times> 's \<Rightarrow> ('a vec \<times> 's) res" where
  "vec_run A T d ops = fold_res (vec_step A T d) ops"

fun list_run :: "'a \<Rightarrow> 'a vec_op list \<Rightarrow> 'a list \<Rightarrow> 'a list option" where
  "list_run d [] xs = Some xs"
| "list_run d (op # ops) xs = Option.bind (list_step d op xs) (list_run d ops)"

text \<open>Every call of the sequence stays within the address space.\<close>

fun all_fit :: "(request \<Rightarrow> bool) \<Rightarrow> elem_type \<Rightarrow> 'a \<Rightarrow> 'a vec_op list \<Rightarrow> 'a list \<Rightarrow> bool" where
  "all_fit proper T d [] xs = True"
| "all_fit proper T d (op # ops) xs =
     (wanted op xs < 2 ^ 64 \<and> fits proper T (of_nat (wanted op xs)) \<and>
      (case list_step d op xs of None \<Rightarrow> True | Some ys \<Rightarrow> all_fit proper T d ops ys))"

text \<open>A call whose argument is an element of the vector, which has to grow for it.\<close>

fun dangling :: "'a vec_op \<Rightarrow> 'a vec \<Rightarrow> bool" where
  "dangling (PushOwn i) v = grows (v_count v + 1) v"
| "dangling _ v = False"

text \<open>
  Some call of the sequence has to grow the vector, and gets no memory or has an element of the
  vector for its argument.
\<close>

fun starved ::
  "'s allocator \<Rightarrow> elem_type \<Rightarrow> 'a \<Rightarrow> 'a vec_op list \<Rightarrow> 'a list \<Rightarrow> 'a vec \<times> 's \<Rightarrow> bool" where
  "starved A T d [] xs vs = False"
| "starved A T d (op # ops) xs vs =
     (no_memory A T (of_nat (wanted op xs)) (fst vs) (snd vs) \<or> dangling op (fst vs) \<or>
      (case (list_step d op xs, vec_step A T d op vs) of
         (Some ys, Inr vs') \<Rightarrow> starved A T d ops ys vs' | _ \<Rightarrow> False))"

text \<open>Without growth, an own element is an element of the list.\<close>

lemma push_own_within:
  assumes "vec_rep v xs" "\<not> grows (v_count v + 1) v"
  shows "unat i < length xs \<Longrightarrow>
      vector_push_back A T (Own i) v s = vector_push_back A T (Given (xs ! unat i)) v s"
    and "length xs \<le> unat i \<Longrightarrow> \<exists>e. vector_push_back A T (Own i) v s = Inl e"
proof -
  have le: "v_count v + 1 \<le> v_capacity v" using assms(2) by (simp add: grows_def)
  show "vector_push_back A T (Own i) v s = vector_push_back A T (Given (xs ! unat i)) v s"
    if "unat i < length xs"
  proof -
    have "read_at (unat i) v = Inr (xs ! unat i)" using that vec_rep_index [OF assms(1)] by blast
    then show ?thesis using assms(2) le by (simp add: vector_push_back_def arg_read_def)
  qed
  show "\<exists>e. vector_push_back A T (Own i) v s = Inl e" if "length xs \<le> unat i"
    using that vec_rep_index [OF assms(1), of "unat i"] assms(2) le
    by (cases "read_at (unat i) v") (auto simp: vector_push_back_def arg_read_def)
qed

lemma no_memory_0 [simp]: "\<not> no_memory A T 0 v s"
  by (simp add: no_memory_def)

lemma vec_step_none:
  assumes "vec_rep (fst vs) xs" "list_step d op xs = None"
  shows "\<exists>e. vec_step A T d op vs = Inl e"
proof (cases vs)
  case [simp]: (Pair v s)
  note rep = vec_repD [OF assms(1)]
  from assms show ?thesis
  proof (cases op)
    case PopBack
    then have "xs = []" using assms(2) by (simp split: if_splits)
    then show ?thesis using PopBack vec_rep_pop_empty [of v] assms(1) by auto
  next
    case (SetAt i x)
    then have "length xs \<le> unat i" using assms(2) by (simp split: if_splits)
    then have "\<exists>e. read_at (unat i) v = Inl e"
      using vec_rep_index [of v xs "unat i"] assms(1) by (cases "read_at (unat i) v") auto
    then show ?thesis using SetAt by (auto simp: vector_set_def)
  next
    case (PushOwn i)
    then have "length xs \<le> unat i" using assms(2) by (simp split: if_splits)
    then show ?thesis
      using PushOwn push_own_within(2) [of v xs i A T s] own_dangles(1) [of v A T i s] assms(1)
      by (auto simp: isl_def)
  qed simp_all
qed

lemma vec_step_dangling:
  assumes "dangling op (fst vs)"
  shows "\<exists>e. vec_step A T d op vs = Inl e"
  using assms own_dangles(1) [of "fst vs" A T _ "snd vs"]
  by (cases vs; cases op) (auto simp: isl_def)

lemma vec_step_no_memory:
  assumes "vec_rep (fst vs) xs" "no_memory A T (of_nat (wanted op xs)) (fst vs) (snd vs)"
  shows "\<exists>e. vec_step A T d op vs = Inl e"
proof (cases vs)
  case [simp]: (Pair v s)
  have c: "of_nat (length xs) = v_count v"
    using assms(1) by (simp add: vec_repD(2) [symmetric])
  from assms show ?thesis
    using grow_no_memory [of v xs A T] c
    by (cases op) (auto simp: emplace_back_given add.commute)
qed

context allocator_contract
begin

lemma vec_step_some:
  assumes ok: "vec_ok inv owns xs vs" and fit: "wanted op xs < 2 ^ 64"
    "fits proper T (of_nat (wanted op xs))"
    and mem: "\<not> no_memory A T (of_nat (wanted op xs)) (fst vs) (snd vs)"
    and dangle: "\<not> dangling op (fst vs)"
    and ys: "list_step d op xs = Some ys"
  shows "\<exists>vs'. vec_step A T d op vs = Inr vs' \<and> vec_ok inv owns ys vs'"
proof (cases vs)
  case [simp]: (Pair v s)
  have rep: "vec_rep v xs" using ok by (simp add: vec_ok_def)
  have c: "of_nat (length xs) = v_count v"
    using rep by (simp add: vec_repD(2) [symmetric])
  show ?thesis
  proof (cases op)
    case (PushBack x)
    then show ?thesis using push_back_ok [of xs v s T x] ok fit mem ys c by (simp add: add.commute)
  next
    case (EmplaceBack x)
    then show ?thesis using push_back_ok [of xs v s T x] ok fit mem ys c
      by (simp add: add.commute emplace_back_given)
  next
    case (PushOwn i)
    then have i: "unat i < length xs" "ys = xs @ [xs ! unat i]"
      using ys by (simp_all split: if_splits)
    then show ?thesis
      using PushOwn push_back_ok [of xs v s T "xs ! unat i"] ok fit mem dangle c
        push_own_within(1) [OF rep _ i(1), of A T s]
      by (simp add: add.commute)
  next
    case PopBack
    then obtain zs z where "xs = zs @ [z]" "ys = zs"
      using ys by (cases xs rule: rev_cases) (auto split: if_splits)
    then show ?thesis using PopBack vec_rep_pop [of v zs z] rep ok
      by (auto simp: vec_ok_def vec_owned_def)
  next
    case (Resize n)
    then show ?thesis using resize_ok [of xs v s T n d] ok fit mem ys by simp
  next
    case (SetAt i x)
    then show ?thesis using vec_rep_assign_at [OF rep, of i x] ok ys
      by (auto simp: vec_ok_def vec_owned_def split: if_splits)
  qed
qed

lemma vec_run_some:
  "vec_ok inv owns xs vs \<Longrightarrow> all_fit proper T d ops xs \<Longrightarrow> list_run d ops xs = Some ys \<Longrightarrow>
   \<not> starved A T d ops xs vs \<Longrightarrow>
   \<exists>vs'. vec_run A T d ops vs = Inr vs' \<and> vec_ok inv owns ys vs'"
proof (induction ops arbitrary: xs vs)
  case Nil
  then show ?case by (simp add: vec_run_def)
next
  case (Cons op ops)
  then obtain zs where zs: "list_step d op xs = Some zs" "list_run d ops zs = Some ys"
    by (auto simp: bind_eq_Some_conv)
  then obtain vs' where "vec_step A T d op vs = Inr vs'" "vec_ok inv owns zs vs'"
    using vec_step_some [of xs vs op T d zs] Cons.prems by auto
  then show ?case using Cons zs by (simp add: vec_run_def)
qed

lemma vec_run_none:
  "vec_ok inv owns xs vs \<Longrightarrow> all_fit proper T d ops xs \<Longrightarrow>
   list_run d ops xs = None \<or> starved A T d ops xs vs \<Longrightarrow> \<exists>e. vec_run A T d ops vs = Inl e"
proof (induction ops arbitrary: xs vs)
  case Nil
  then show ?case by simp
next
  case (Cons op ops)
  have rep: "vec_rep (fst vs) xs" using Cons.prems(1) by (simp add: vec_ok_def)
  show ?case
  proof (cases "list_step d op xs = None \<or>
      no_memory A T (of_nat (wanted op xs)) (fst vs) (snd vs) \<or> dangling op (fst vs)")
    case True
    then have "\<exists>e. vec_step A T d op vs = Inl e"
      by (elim disjE) (erule vec_step_none [OF rep] vec_step_no_memory [OF rep] vec_step_dangling)+
    then show ?thesis by (auto simp: vec_run_def)
  next
    case False
    then obtain zs where zs: "list_step d op xs = Some zs" by auto
    then obtain vs' where "vec_step A T d op vs = Inr vs'" "vec_ok inv owns zs vs'"
      using vec_step_some [of xs vs op T d zs] Cons.prems False by auto
    then show ?thesis using Cons zs False by (auto simp: vec_run_def)
  qed
qed

end

text \<open>
  C24. A vector is a list under these calls: over the default allocator, any sequence of
  \<open>push_back\<close> (of an object outside the vector, or of an element of the vector itself),
  \<open>emplace_back\<close> of an outside object, \<open>pop_back\<close>, \<open>resize\<close> and assignments
  through \<open>operator[]\<close> that stays within the address space leaves the vector with exactly the
  list that the same calls give, across the move from the inline buffer to the heap and every later
  growth, with its block live. The only faults are a call outside its precondition, an allocation
  that fails, and a \<open>push_back\<close> of an element of the vector itself when the vector has to grow
  for it, which reads the element after \<open>reserve\<close> has destroyed it; those always fault.
\<close>

theorem vector_refines_list:
  assumes "vec_ok os_inv os_owns xs (v, s)" "all_fit os_proper T d ops xs"
  shows "case list_run d ops xs of
      Some ys \<Rightarrow> if starved DefaultAllocator T d ops xs (v, s)
        then isl (vec_run DefaultAllocator T d ops (v, s))
        else \<exists>vs'. vec_run DefaultAllocator T d ops (v, s) = Inr vs' \<and> vec_ok os_inv os_owns ys vs'
    | None \<Rightarrow> isl (vec_run DefaultAllocator T d ops (v, s))"
  using default_alloc.vec_run_some [OF assms] default_alloc.vec_run_none [OF assms]
  by (cases "list_run d ops xs"; cases "starved DefaultAllocator T d ops xs (v, s)") auto

text \<open>The definitions a concrete run of a vector evaluates.\<close>

lemmas vec_evals = vector_push_back_def arg_read_def grows_def vector_reserve_def vector_free_def
  vector_pop_back_def vector_set_def vector_resize_def resize_up_def move_loop_def
  move_from_def read_at_def construct_at_def destroy_at_def access_def put_grown_def
  slots_def set_slots_def vector_new_def default_allocation_def DefaultAllocator_def
  DefaultAllocator_allocate_def alignedMalloc_def vector_request_def default_request_def
  os_eval upt_rec

theorem vector_refines_list_witness:
  "isl (vec_run DefaultAllocator \<lparr>et_sizeof = 8, et_alignof = 8\<rparr> 0
       [PushBack 10, PushBack (20 :: nat), PushOwn 0] (vector_new 2, os_fresh [4096])) \<and>
   (\<exists>vs'. vec_run DefaultAllocator \<lparr>et_sizeof = 8, et_alignof = 8\<rparr> 0
       [PushBack 10, PushOwn 0, PushBack (30 :: nat), SetAt 0 11, PopBack, Resize 4]
       (vector_new 2, os_fresh [4096]) = Inr vs' \<and>
     vec_rep (fst vs') [11, 10, 0, 0] \<and> v_elements (fst vs') = HeapMem)"
proof -
  let ?T = "\<lparr>et_sizeof = 8, et_alignof = 8\<rparr>" and ?s = "os_fresh [4096]"
  let ?ops = "[PushBack 10, PushOwn 0, PushBack (30 :: nat), SetAt 0 11, PopBack, Resize 4]"
  let ?bad = "[PushBack 10, PushBack (20 :: nat), PushOwn 0]"
  have ok: "vec_ok os_inv os_owns [] (vector_new 2, ?s)"
    using vector_new_rep [of 2]
    by (simp add: vec_ok_def os_inv_def os_fresh_def vec_owned_def vector_new_def
        default_allocation_def)
  have fit: "all_fit os_proper ?T 0 ?ops []" "all_fit os_proper ?T 0 ?bad []"
    by (simp_all add: fits_def os_proper_def vector_request_def default_request_def list_resize_def)
  obtain vs' where run: "vec_run DefaultAllocator ?T 0 ?ops (vector_new 2, ?s) = Inr vs'"
    "v_elements (fst vs') = HeapMem"
    by (simp add: vec_run_def vec_evals)
  have "list_run 0 ?ops [] = Some [11, 10, 0, 0]"
    by (simp add: list_resize_def) (simp add: numeral_2_eq_2)
  moreover have "list_run 0 ?bad [] = Some [10, 20, 10]" by simp
  moreover have "starved DefaultAllocator ?T 0 ?bad [] (vector_new 2, ?s)"
    by (simp add: vec_evals)
  ultimately show ?thesis
    using vector_refines_list [OF ok fit(1)] vector_refines_list [OF ok fit(2)] run
    by (auto simp: vec_ok_def split: if_splits)
qed

subsection \<open>Assignment\<close>

text \<open>
  Assignment works when the target fits the source into its inline buffer, or when it is empty and
  has to grow. Otherwise the target's storage is gone (\<open>free\<close> leaves \<open>elements\<close> null
  and the old capacity), or its destroyed elements are moved and destroyed once more.
\<close>

definition assign_safe :: "'a vec \<Rightarrow> 'a vec \<Rightarrow> bool" where
  "assign_safe other v \<longleftrightarrow>
     (if v_count other \<le> v_capacity v then alloc_ptr (v_allocation v) = 0 else v_count v = 0)"

lemma fill_ok:
  assumes v: "v_elements v \<noteq> Nullptr" "v_elements v = HeapMem \<longleftrightarrow> alloc_ptr (v_allocation v) \<noteq> 0"
    "slots v = replicate (unat (v_capacity v)) Raw"
    and ys: "vec_rep other ys" "length ys \<le> unat (v_capacity v)"
  shows "\<exists>v'. fold_res (\<lambda>i v. bind_res (read_at i other) (\<lambda>x. construct_at i x v))
      [0..<length ys] (v\<lparr>v_count := v_count other\<rparr>) = Inr v' \<and> vec_rep v' ys \<and>
      v_allocation v' = v_allocation v"
proof -
  let ?v = "v\<lparr>v_count := v_count other\<rparr>"
  have "fold_res (\<lambda>i v. bind_res (read_at i other) (\<lambda>x. construct_at i x v)) [0..<length ys] ?v =
      fold_res (\<lambda>i. construct_at i (ys ! i)) [0..<length ys] ?v"
  proof (rule fold_res_cong)
    fix i assume "i \<in> set [0..<length ys]"
    then have "read_at i other = Inr (ys ! i)" using vec_rep_index [OF ys(1)] by simp
    then show "(\<lambda>v. bind_res (read_at i other) (\<lambda>x. construct_at i x v)) = construct_at i (ys ! i)"
      by simp
  qed
  also have "\<dots> = Inr (set_slots (map Obj ys @ drop (length ys) (slots v)) ?v)"
    using construct_loop [of ?v ys "length ys"] v ys by simp
  finally show ?thesis using v ys vec_repD(2) [OF ys(1)] by (simp add: vec_rep_def)
qed

text \<open>Growing an empty vector without an allocation, whatever \<open>elements\<close> points to.\<close>

lemma reserve_empty:
  assumes "v_count v = 0" "alloc_ptr (v_allocation v) = 0" "v_capacity v < n" "fits proper T n"
    "vt_allocate A (vector_request T (max (n * 2) 8)) s = Inr (a, s1)" "alloc_ptr a \<noteq> 0"
  shows "vector_reserve A T n v s = Inr (v\<lparr>v_capacity := max (n * 2) 8, v_elements := HeapMem,
    v_heap := replicate (unat (max (n * 2) 8)) Raw, v_allocation := a\<rparr>, s1)"
  using assms fits_capacity [OF assms(4)]
  by (simp add: vector_reserve_def vector_free_def Let_def)

lemma vector_free_capacity:
  assumes "vector_free A v s = Inr (v1, s1)"
  shows "v_capacity v1 = v_capacity v"
proof -
  obtain w where w: "fold_res destroy_at [0..<unat (v_count v)] v = Inr w"
    using assms by (auto simp: vector_free_def)
  then have "v_capacity w = v_capacity v"
    by (rule fold_res_invariant) (auto simp: destroy_at_def split: if_splits)
  with w assms show ?thesis by (auto simp: vector_free_def split: if_splits)
qed

context allocator_contract
begin

lemma assign_within:
  assumes ok: "vec_ok inv owns xs (v, s)" and ys: "vec_rep other ys"
    and inline: "alloc_ptr (v_allocation v) = 0" "v_count other \<le> v_capacity v"
  shows "\<exists>vs. vector_assign A T other v s = Inr vs \<and> vec_ok inv owns ys vs"
proof -
  have rep: "vec_rep v xs" using ok by (simp add: vec_ok_def)
  note R = vec_repD [OF rep]
  let ?v = "set_slots (replicate (unat (v_capacity v)) Raw) v"
  have "vector_free A v s = Inr (?v, s)"
    using vector_free_inline [of v A s] R(1-5) inline(1)
    by (simp add: nth_append replicate_add [symmetric])
  moreover have len: "length ys \<le> unat (v_capacity v)"
    using inline(2) vec_repD(2) [OF ys] by (simp add: word_le_nat_alt)
  moreover have "v_elements v = HeapMem \<longleftrightarrow> alloc_ptr (v_allocation v) \<noteq> 0"
    using rep by (simp add: vec_rep_def)
  ultimately show ?thesis
    using fill_ok [of ?v other ys] R(1) ys inline ok vec_repD(2) [OF ys]
    by (auto simp: vector_assign_def vec_ok_def vec_owned_def)
qed

lemma assign_growing:
  assumes ok: "vec_ok inv owns xs (v, s)" and ys: "vec_rep other ys"
    and fits: "fits proper T (v_count other)"
    and empty: "v_count v = 0" "v_capacity v < v_count other"
    and mem: "\<And>v1 s1. vector_free A v s = Inr (v1, s1) \<Longrightarrow> \<not> no_memory A T (v_count other) v1 s1"
  shows "\<exists>vs. vector_assign A T other v s = Inr vs \<and> vec_ok inv owns ys vs"
proof -
  let ?c = "max (v_count other * 2) 8"
  have own: "vec_owned owns s v" "inv s" using ok by (simp_all add: vec_ok_def)
  obtain v1 s1 where free: "vector_free A v s = Inr (v1, s1)" "inv s1" "v_count v1 = 0"
    "alloc_ptr (v_allocation v1) = 0" "v_capacity v1 = v_capacity v"
    using own free_owned [of s "v_allocation v"] empty(1) that
    by (cases "alloc_ptr (v_allocation v) = 0")
      (auto simp: vector_free_def vec_owned_def default_allocation_def)
  obtain a s2 where a: "vt_allocate A (vector_request T ?c) s1 = Inr (a, s2)" "alloc_ptr a \<noteq> 0"
    using mem [OF free(1)] free(5) empty(2) by (auto simp: no_memory_def split: sum.splits)
  have proper: "proper (vector_request T ?c)" using fits by (simp add: fits_def)
  let ?v = "v1\<lparr>v_capacity := ?c, v_elements := HeapMem,
    v_heap := replicate (unat ?c) Raw, v_allocation := a\<rparr>"
  have "vector_reserve A T (v_count other) v1 s1 = Inr (?v, s2)"
    using reserve_empty [OF free(3,4) _ fits a] free(5) empty(2) by simp
  moreover have "length ys \<le> unat ?c"
    using vec_repD(2) [OF ys] fits_capacity(1) [OF fits] by simp
  moreover have "inv s2" "owns s2 a"
    using allocate_inv [OF free(2) proper a(1)] allocate_owns [OF free(2) proper a] by simp_all
  ultimately show ?thesis
    using fill_ok [of ?v other ys] ys a(2) free(1) vec_repD(2) [OF ys]
    by (auto simp: vector_assign_def vec_ok_def vec_owned_def slots_def)
qed

text \<open>Moving out of storage that is gone, or whose first object is destroyed, is a fault.\<close>

lemma reserve_dead:
  assumes "0 < unat (v_count v)" "v_capacity v < n"
    "v_elements v = Nullptr \<or> (\<exists>ys. slots v = Raw # ys)"
  shows "isl (vector_reserve A T n v s)"
proof -
  have "read_at 0 (v\<lparr>v_capacity := c\<rparr>) \<noteq> Inr x" for c x
    using assms(3) by (auto simp: read_at_def access_def)
  then have "\<exists>e. move_loop null 0 (v\<lparr>v_capacity := c\<rparr>, g) = Inl e" for c g null
    by (cases "read_at 0 (v\<lparr>v_capacity := c\<rparr>)") (auto simp: move_loop_def move_from_def)
  then have "isl (fold_res (move_loop null) [0..<unat (v_count v)] (v\<lparr>v_capacity := c\<rparr>, g))"
    for c g null
    using assms(1) by (auto simp: upt_conv_Cons bind_res_eq_Inl isl_def) blast
  then have "fold_res (move_loop null) [0..<unat (v_count v)] (v\<lparr>v_capacity := c\<rparr>, g) \<noteq> Inr y"
    for c g null y by (metis sum.disc(2))
  then show ?thesis using assms(2)
    by (cases "vector_reserve A T n v s") (auto simp: vector_reserve_def Let_def)
qed

lemma assign_unsafe:
  assumes ok: "vec_ok inv owns xs (v, s)" and ys: "vec_rep other ys" "ys \<noteq> []"
    and unsafe: "\<not> assign_safe other v"
  shows "isl (vector_assign A T other v s)"
proof -
  have rep: "vec_rep v xs" and own: "vec_owned owns s v" "inv s" using ok by (simp_all add: vec_ok_def)
  note R = vec_repD [OF rep]
  have some: "\<forall>i<unat (v_count v). slots v ! i \<noteq> Raw" using R(2,6) by auto
  have le: "unat (v_count v) \<le> length (slots v)" using R(2,3,4) by simp
  have pos: "0 < unat (v_count other)" using ys(2) vec_repD(2) [OF ys(1)] by simp
  show ?thesis
  proof (cases "alloc_ptr (v_allocation v) = 0")
    case True
    then have grow: "v_capacity v < v_count other" "v_count v \<noteq> 0"
      using unsafe by (auto simp: assign_safe_def split: if_splits)
    let ?v = "set_slots (replicate (unat (v_count v)) Raw @ drop (unat (v_count v)) (slots v)) v"
    have "0 < unat (v_count v)" using grow(2) by (simp add: unat_gt_0)
    then have "isl (vector_reserve A T (v_count other) ?v s)"
      using grow(1) R(1) by (intro reserve_dead) (auto simp: gr0_conv_Suc)
    then show ?thesis
      using vector_free_inline [OF R(1) le some True, of A s]
      by (auto simp: vector_assign_def isl_def)
  next
    case False
    then obtain s' where "vt_free A (v_allocation v) s = Inr s'"
      using own free_owned [of s "v_allocation v"] by (auto simp: vec_owned_def)
    then obtain w where w: "vector_free A v s = Inr (w, s')" "v_elements w = Nullptr"
      "v_count w = v_count v" "v_capacity w = v_capacity v"
      using vector_free_heap [OF R(1) le some False, of A s s'] by auto
    show ?thesis
    proof (cases "v_count other \<le> v_capacity v")
      case True
      have "bind_res (read_at 0 other) (\<lambda>x. construct_at 0 x (w\<lparr>v_count := c\<rparr>)) \<noteq> Inr y" for c y
        using w(2) by simp
      then show ?thesis using w pos True
        by (cases "vector_assign A T other v s") (auto simp: vector_assign_def upt_conv_Cons)
    next
      case False
      then have "0 < unat (v_count w)" "v_capacity w < v_count other"
        using unsafe w by (auto simp: assign_safe_def unat_gt_0)
      then show ?thesis using reserve_dead [of w "v_count other" T s'] w(1,2)
        by (auto simp: vector_assign_def isl_def)
    qed
  qed
qed

end

text \<open>
  An empty source: a heap target is left with a null \<open>elements\<close> behind its old capacity, so
  that nothing can be appended to it before it grows past that capacity.
\<close>

lemma assign_empty:
  assumes ok: "vec_ok os_inv os_owns xs (v, s)" and ys: "vec_rep other []"
    and unsafe: "\<not> assign_safe other v"
  shows "\<exists>w s'. vector_assign DefaultAllocator T other v s = Inr (w, s') \<and>
    v_elements w = Nullptr \<and> v_count w = 0 \<and> v_capacity w = v_capacity v"
proof -
  have rep: "vec_rep v xs" and own: "vec_owned os_owns s v" "os_inv s"
    using ok by (simp_all add: vec_ok_def)
  note R = vec_repD [OF rep]
  have some: "\<forall>i<unat (v_count v). slots v ! i \<noteq> Raw" using R(2,6) by auto
  have le: "unat (v_count v) \<le> length (slots v)" using R(2,3,4) by simp
  have zero: "v_count other = 0" using vec_repD(2) [OF ys] by (simp add: unat_eq_0)
  then have heap: "alloc_ptr (v_allocation v) \<noteq> 0" using unsafe by (simp add: assign_safe_def)
  then obtain s' where "vt_free DefaultAllocator (v_allocation v) s = Inr s'"
    using own default_alloc.free_owned [of s "v_allocation v"] by (auto simp: vec_owned_def)
  with vector_free_heap [OF R(1) le some heap, of DefaultAllocator s s'] zero show ?thesis
    by (auto simp: vector_assign_def)
qed

lemma push_back_nullptr:
  assumes "v_elements v = Nullptr" "v_count v = 0" "0 < v_capacity v"
  shows "isl (vector_push_back A T el v s)"
proof -
  have "v_count v + 1 \<le> v_capacity v"
    using assms(2,3) by (simp add: word_le_nat_alt word_less_nat_alt)
  then show ?thesis
    using assms(1) by (cases "arg_read el v v") (simp_all add: vector_push_back_def)
qed

text \<open>Assigned to itself, a vector has destroyed its elements before it copies them.\<close>

lemma self_assign_faults:
  assumes rep: "vec_rep v xs" and some: "xs \<noteq> []"
  shows "isl (vector_assign_self A T v s)"
proof -
  note R = vec_repD [OF rep]
  have ok: "\<forall>i<unat (v_count v). slots v ! i \<noteq> Raw" "unat (v_count v) \<le> length (slots v)"
    using R(2,3,4,6) by auto
  have le: "v_count v \<le> v_capacity v" using R(2,3) by (simp add: word_le_nat_alt)
  obtain n where n: "unat (v_count v) = Suc n" using R(2) some by (cases xs) auto
  have fault: "isl (vector_assign_self A T v s)"
    if "vector_free A v s = Inr (w, t)" "v_count w = v_count v" "v_capacity w = v_capacity v"
      "read_at 0 w = Inl e" for w t e
    using that le n by (simp add: vector_assign_self_def upt_conv_Cons del: upt_Suc)
  show ?thesis
  proof (cases "alloc_ptr (v_allocation v) = 0")
    case True
    let ?w = "set_slots (replicate (unat (v_count v)) Raw @ drop (unat (v_count v)) (slots v)) v"
    have "read_at 0 ?w = Inl NoObject" using R(1) n by (simp add: read_at_def access_def)
    then show ?thesis using fault [OF vector_free_inline [OF R(1) ok(2,1) True]] by simp
  next
    case False
    show ?thesis
    proof (cases "vt_free A (v_allocation v) s")
      case (Inl e)
      then show ?thesis
        using R(1) ok False by (simp add: vector_assign_self_def vector_free_def destroy_loop)
    next
      case (Inr t)
      obtain w where "vector_free A v s = Inr (w, t)" "v_elements w = Nullptr"
        "v_count w = v_count v" "v_capacity w = v_capacity v"
        using vector_free_heap [OF R(1) ok(2,1) False Inr] by blast
      then show ?thesis using fault [of w t NullDeref] by simp
    qed
  qed
qed

text \<open>
  C25. Copy assignment over the default allocator, with memory available for the source's elements, whose
  size is within the address space. From another vector, it
  makes the target hold the source's list exactly when the target fits it into its inline buffer,
  or is empty and has to grow. Otherwise, a non-empty source makes it fault, and an empty source
  leaves the target without storage behind its old capacity, so that the next \<open>push_back\<close>
  faults if that capacity is not 0. Assignment of a non-empty vector to itself always faults.
\<close>

theorem vector_assign_spec:
  assumes "vec_ok os_inv os_owns xs (v, s)" "vec_rep other ys"
    and "fits os_proper T (v_count other)"
    and "\<And>v1 s1. vector_free DefaultAllocator v s = Inr (v1, s1) \<Longrightarrow>
      \<not> no_memory DefaultAllocator T (v_count other) v1 s1"
  shows "(if assign_safe other v
      then \<exists>vs. vector_assign DefaultAllocator T other v s = Inr vs \<and> vec_ok os_inv os_owns ys vs
      else if ys \<noteq> [] then isl (vector_assign DefaultAllocator T other v s)
      else \<exists>w s'. vector_assign DefaultAllocator T other v s = Inr (w, s') \<and>
        v_elements w = Nullptr \<and> v_count w = 0 \<and> v_capacity w = v_capacity v \<and>
        (0 < v_capacity w \<longrightarrow> (\<forall>el t. isl (vector_push_back DefaultAllocator T el w t)))) \<and>
    (xs \<noteq> [] \<longrightarrow> isl (vector_assign_self DefaultAllocator T v s))"
proof (rule conjI)
  show "xs \<noteq> [] \<longrightarrow> isl (vector_assign_self DefaultAllocator T v s)"
    using assms(1) self_assign_faults by (auto simp: vec_ok_def)
  show "if assign_safe other v
      then \<exists>vs. vector_assign DefaultAllocator T other v s = Inr vs \<and> vec_ok os_inv os_owns ys vs
      else if ys \<noteq> [] then isl (vector_assign DefaultAllocator T other v s)
      else \<exists>w s'. vector_assign DefaultAllocator T other v s = Inr (w, s') \<and>
        v_elements w = Nullptr \<and> v_count w = 0 \<and> v_capacity w = v_capacity v \<and>
        (0 < v_capacity w \<longrightarrow> (\<forall>el t. isl (vector_push_back DefaultAllocator T el w t)))"
  proof (cases "assign_safe other v")
    case True
    then show ?thesis
      using default_alloc.assign_within [OF assms(1,2)]
        default_alloc.assign_growing [OF assms(1,2,3) _ _ assms(4)]
      by (auto simp: assign_safe_def not_le split: if_splits)
  next
    case False
    show ?thesis
    proof (cases "ys = []")
      case True
      then obtain w s' where w: "vector_assign DefaultAllocator T other v s = Inr (w, s')"
        "v_elements w = Nullptr" "v_count w = 0" "v_capacity w = v_capacity v"
        using assign_empty [OF assms(1) _ False, of T] assms(2) by blast
      have "isl (vector_push_back DefaultAllocator T el w t)" if "0 < v_capacity w" for el t
        by (rule push_back_nullptr [OF w(2,3) that])
      with w True False show ?thesis by auto
    next
      case nonempty: False
      then show ?thesis using default_alloc.assign_unsafe [OF assms(1,2) nonempty False, of T] False
        by (simp only: if_False if_True not_False_eq_True)
    qed
  qed
qed

theorem vector_assign_spec_witness:
  "\<exists>w s. vec_run DefaultAllocator \<lparr>et_sizeof = 8, et_alignof = 8\<rparr> 0
      [PushBack 1, PushBack (2 :: nat)] (vector_new 1, os_fresh [4096, 8192]) = Inr (w, s) \<and>
    isl (vector_assign DefaultAllocator \<lparr>et_sizeof = 8, et_alignof = 8\<rparr> w w s) \<and>
    isl (vector_assign_self DefaultAllocator \<lparr>et_sizeof = 8, et_alignof = 8\<rparr> w s) \<and>
    (\<exists>w' s'. vector_assign DefaultAllocator \<lparr>et_sizeof = 8, et_alignof = 8\<rparr> (vector_new 1) w s =
      Inr (w', s') \<and> isl (vector_push_back DefaultAllocator \<lparr>et_sizeof = 8, et_alignof = 8\<rparr>
        (Given 3) w' s'))"
proof -
  let ?T = "\<lparr>et_sizeof = 8, et_alignof = 8\<rparr>" and ?s = "os_fresh [4096, 8192]"
  let ?ops = "[PushBack 1, PushBack (2 :: nat)]" and ?e = "vector_new 1 :: nat vec"
  have "vec_ok os_inv os_owns [] (?e, ?s)"
    using vector_new_rep [of 1]
    by (simp add: vec_ok_def os_inv_def os_fresh_def vec_owned_def vector_new_def
        default_allocation_def)
  moreover have "all_fit os_proper ?T 0 ?ops []"
    by (simp add: fits_def os_proper_def vector_request_def default_request_def)
  moreover obtain w s where w: "vec_run DefaultAllocator ?T 0 ?ops (?e, ?s) = Inr (w, s)"
    "v_capacity w = 8" "v_count w = 2" "alloc_ptr (v_allocation w) \<noteq> 0"
    by (simp add: vec_run_def vec_evals)
  ultimately have ok: "vec_ok os_inv os_owns [1, 2] (w, s)"
    using default_alloc.vec_run_some [of "[]" "(?e, ?s)" ?T 0 ?ops "[1, 2]"]
      default_alloc.vec_run_none [of "[]" "(?e, ?s)" ?T 0 ?ops] by fastforce
  have rep: "vec_rep w [1, 2]" using ok by (simp add: vec_ok_def)
  have e: "vec_rep ?e []" "v_count ?e = 0"
    using vector_new_rep [of 1] by (simp_all add: vector_new_def)
  have fits: "fits os_proper ?T (v_count w)" "fits os_proper ?T (v_count ?e)"
    using w(3) e(2) by (simp_all add: fits_def os_proper_def vector_request_def default_request_def)
  have mem: "\<not> no_memory DefaultAllocator ?T (v_count w) v1 s1"
    if "vector_free DefaultAllocator w s = Inr (v1, s1)" for v1 s1
    using vector_free_capacity [OF that] w(2,3) by (simp add: no_memory_def)
  have mem0: "\<not> no_memory DefaultAllocator ?T (v_count ?e) v1 s1" for v1 s1
    using e(2) by simp
  have "isl (vector_assign DefaultAllocator ?T w w s) \<and> isl (vector_assign_self DefaultAllocator ?T w s)"
    using vector_assign_spec [OF ok rep fits(1) mem] w(2-4) by (simp add: assign_safe_def)
  moreover have "\<exists>w' s'. vector_assign DefaultAllocator ?T ?e w s = Inr (w', s') \<and>
      isl (vector_push_back DefaultAllocator ?T (Given 3) w' s')"
    using vector_assign_spec [OF ok e(1) fits(2) mem0] w(2-4) e(2)
    by (auto simp: assign_safe_def)
  ultimately show ?thesis using w(1) by blast
qed

subsection \<open>Move construction\<close>

definition move_elem :: "nat \<Rightarrow> 'a vec \<times> 'a vec \<Rightarrow> ('a vec \<times> 'a vec) res" where
  "move_elem i = (\<lambda>(other, v).
     bind_res (move_from i other) (\<lambda>(x, other).
     bind_res (construct_at i x v) (\<lambda>v. Inr (other, v))))"

lemma move_elem_loop:
  assumes other: "vec_rep other ys" and v: "v_elements v \<noteq> Nullptr" "length ys \<le> length (slots v)"
  shows "k \<le> length ys \<Longrightarrow> fold_res move_elem [0..<k] (other, v) =
    Inr (set_slots (replicate k Moved @ drop k (slots other)) other,
         set_slots (map Obj (take k ys) @ drop k (slots v)) v)"
proof (induction k)
  case (Suc k)
  note R = vec_repD [OF other]
  have k: "k < length (slots other)" "slots other ! k = Obj (ys ! k)" "k < length (slots v)"
    using Suc.prems R(3,4,6) v(2) by auto
  let ?o = "set_slots (replicate k Moved @ drop k (slots other)) other"
  have "move_from k ?o = Inr (ys ! k, set_slots (replicate (Suc k) Moved @ drop (Suc k) (slots other)) other)"
    using k R(1) by (simp add: move_from_def border_nth border_update replicate_border)
  then show ?case using Suc v k
    by (simp add: fold_res_append move_elem_def border_update take_Suc_conv_app_nth)
qed simp

lemma vector_move_assign_eq:
  "vector_move_assign A T d other v s =
     bind_res (vector_free A v s) (\<lambda>(v, s).
     bind_res (vector_reserve A T (v_count other) v s) (\<lambda>(v, s).
     bind_res (fold_res move_elem [0..<unat (v_count other)] (other, v\<lparr>v_count := v_count other\<rparr>))
       (\<lambda>(other, v). bind_res (vector_resize A T d 0 other s) (\<lambda>(other, s). Inr (v, other, s)))))"
  unfolding vector_move_assign_def move_elem_def by (rule refl)

text \<open>What is left of the source is an empty vector that still has its storage.\<close>

lemma emptied:
  assumes rep: "vec_rep other ys"
  shows "\<exists>other'. vector_resize A T d 0
      (set_slots (replicate (length ys) Moved @ drop (length ys) (slots other)) other) s = Inr (other', s) \<and>
    vec_rep other' [] \<and> v_allocation other' = v_allocation other"
proof -
  note R = vec_repD [OF rep]
  let ?o = "set_slots (replicate (length ys) Moved @ drop (length ys) (slots other)) other"
  let ?zs = "replicate (length ys) Raw @ drop (length ys) (slots other)"
  have o: "v_elements ?o \<noteq> Nullptr" "length ys \<le> length (slots ?o)"
    "\<forall>i<length ys. slots ?o ! i \<noteq> Raw"
    using R(1,3,4) by (simp_all add: nth_append)
  have empty: "vec_rep (set_slots ?zs (other\<lparr>v_count := 0\<rparr>)) []"
    using R(3,5) by (intro vec_rep_set [OF rep]) (auto simp: replicate_add [symmetric])
  show ?thesis
  proof (cases "ys = []")
    case True
    then show ?thesis using rep R(2) by (simp add: vector_resize_def)
  next
    case False
    have "vector_reserve A T 0 ?o s = Inr (?o, s)" by simp
    then show ?thesis
      using resize_down_loop [OF o(1) _ o(2,3), of 0] empty R(1,2) False
      by (auto simp: vector_resize_def)
  qed
qed

context allocator_contract
begin

lemma move_new_ok:
  assumes inv: "inv s" and ys: "vec_rep other (ys :: 'a list)" and base: "base < 2 ^ 64"
    and fits: "fits proper T (v_count other)"
    and mem: "\<not> no_memory A T (v_count other) (vector_new base :: 'a vec) s"
  shows "\<exists>w other' s'. vector_move_assign A T d other (vector_new base) s = Inr (w, other', s') \<and>
    vec_ok inv owns ys (w, s') \<and> vec_rep other' [] \<and> v_allocation other' = v_allocation other"
proof -
  let ?n = "vector_new base :: 'a vec"
  have "vec_ok inv owns [] (?n, s)"
    using inv base vector_new_rep [of base]
    by (simp add: vec_ok_def vec_owned_def vector_new_def default_allocation_def)
  then obtain v t where v: "vector_reserve A T (v_count other) ?n s = Inr (v, t)"
    "vec_ok inv owns [] (v, t)" "v_count other \<le> v_capacity v"
    using reserve_ok [OF _ fits mem] by blast
  have rep: "vec_rep v []" using v(2) by (simp add: vec_ok_def)
  note R = vec_repD [OF rep] and O = vec_repD [OF ys]
  have len: "length ys \<le> unat (v_capacity v)" using v(3) O(2) by (simp add: word_le_nat_alt)
  let ?v = "v\<lparr>v_count := v_count other\<rparr>"
  let ?w = "set_slots (map Obj ys @ drop (length ys) (slots v)) ?v"
  have "vec_rep ?w ys"
    using len R(5) O(2) by (intro vec_rep_set [OF rep]) simp_all
  moreover have "fold_res move_elem [0..<length ys] (other, ?v) =
      Inr (set_slots (replicate (length ys) Moved @ drop (length ys) (slots other)) other, ?w)"
    using move_elem_loop [OF ys, of ?v "length ys"] R(1,4) len by simp
  moreover have "vector_free A ?n s = Inr (?n, s)"
    by (simp add: vector_free_def vector_new_def default_allocation_def)
  moreover obtain other' where "vector_resize A T d 0
      (set_slots (replicate (length ys) Moved @ drop (length ys) (slots other)) other) t = Inr (other', t)"
    "vec_rep other' []" "v_allocation other' = v_allocation other"
    using emptied [OF ys, of A T d t] by blast
  ultimately show ?thesis
    using v(1,2) O(2) by (auto simp: vector_move_assign_eq vec_ok_def vec_owned_def)
qed

end

end
