(* ===== verification/Affinity.thy ===== *)
theory Affinity
  imports Vec Allocators "HOL-Library.Multiset"
begin

text \<open>
  \<open>Thread::Core\<close>, \<open>Thread::Affinity\<close> and its policies (\<open>include/hfts/thread.hpp\<close>,
  \<open>src/thread.cpp\<close>). An affinity is its member \<open>cores\<close>, a
  \<open>containers::vector<Core, 32>\<close>, so its operations are sequences of vector operations; the
  lists they compute on are derived from the vector's contract. The branches for Windows are modelled
  beside the ones for pthreads, under names that end in \<open>_windows\<close>; what the operating system
  answers (the CPU set of a thread, the processor groups) is an argument, and so are the blocks that
  the standard library takes for the \<open>unordered_set\<close> of \<open>add\<close> and \<open>remove\<close>.
\<close>

unbundle bit_operations_syntax

subsection \<open>Core\<close>

text \<open>
  The union of \<open>windows.group\<close>, \<open>windows.index\<close> and \<open>pthread.index\<close> is two bytes
  of storage, read as one little-endian number or as two bytes.
\<close>

datatype core = Core (pthread_index: "16 word")

definition windows_group :: "core \<Rightarrow> byte" where
  "windows_group c = ucast (pthread_index c)"

definition windows_index :: "core \<Rightarrow> byte" where
  "windows_index c = ucast (drop_bit 8 (pthread_index c))"

definition windows_core :: "byte \<Rightarrow> byte \<Rightarrow> core" where
  "windows_core grp i = Core (ucast grp + push_bit 8 (ucast i))"

definition Core_eq :: "core \<Rightarrow> core \<Rightarrow> bool" where
  "Core_eq c d \<longleftrightarrow> pthread_index c = pthread_index d"

definition Core_less :: "core \<Rightarrow> core \<Rightarrow> bool" where
  "Core_less c d \<longleftrightarrow> pthread_index c < pthread_index d"

text \<open>\<open>operator<\<close> is a linear order that agrees with \<open>operator==\<close>.\<close>

instantiation core :: linorder
begin

definition less_core :: "core \<Rightarrow> core \<Rightarrow> bool" where
  "less_core = Core_less"

definition less_eq_core :: "core \<Rightarrow> core \<Rightarrow> bool" where
  "less_eq_core c d \<longleftrightarrow> \<not> Core_less d c"

instance
  by standard (auto simp: less_core_def less_eq_core_def Core_less_def core.expand)

end

lemma Core_eq_iff [simp]: "Core_eq c d \<longleftrightarrow> c = d"
  by (auto simp: Core_eq_def core.expand)

lemma windows_core_parts [simp]:
  "windows_group (windows_core g i) = g" "windows_index (windows_core g i) = i"
proof -
  have "windows_core g i = Core (ucast g OR push_bit 8 (ucast i))"
    unfolding windows_core_def
    by (rule arg_cong [where f = Core], rule disjunctive_add)
      (auto simp: bit_simps dest: bit_imp_le_length)
  then show "windows_group (windows_core g i) = g" "windows_index (windows_core g i) = i"
    by (auto simp: windows_group_def windows_index_def intro!: bit_word_eqI)
      (auto simp: bit_simps dest: bit_imp_le_length)
qed

subsection \<open>Affinity\<close>

type_synonym affinity = "core vec"

definition core_type :: elem_type where
  "core_type = \<lparr>et_sizeof = 2, et_alignof = 2\<rparr>"

definition Affinity_new :: affinity where
  "Affinity_new = vector_new 32"

definition Affinity_move_assign ::
  "'s allocator \<Rightarrow> affinity \<Rightarrow> affinity \<Rightarrow> 's \<Rightarrow> (affinity \<times> affinity \<times> 's) res" where
  "Affinity_move_assign A other this s = vector_move_assign A core_type (Core 0) other this s"

definition Affinity_move ::
  "'s allocator \<Rightarrow> affinity \<Rightarrow> 's \<Rightarrow> (affinity \<times> affinity \<times> 's) res" where
  \<comment> \<open>the vector's move constructor: a new vector, then \<open>*this = std::move(other)\<close>\<close>
  "Affinity_move A other s = vector_move_assign A core_type (Core 0) other (vector_new 32) s"

definition Affinity_copy :: "'s allocator \<Rightarrow> affinity \<Rightarrow> 's \<Rightarrow> (affinity \<times> 's) res" where
  "Affinity_copy A other s = vector_copy A core_type 32 other s"

definition Affinity_vector :: "'s allocator \<Rightarrow> core vec \<Rightarrow> 's \<Rightarrow> (affinity \<times> 's) res" where
  "Affinity_vector A coreList s = vector_copy A core_type 32 coreList s"

definition Affinity_list :: "'s allocator \<Rightarrow> core list \<Rightarrow> 's \<Rightarrow> (affinity \<times> 's) res" where
  "Affinity_list A list s =
     bind_res (vector_reserve A core_type (of_nat (length list)) (vector_new 32) s)
       (fold_res (\<lambda>core (v, s). vector_push_back A core_type (Given core) v s) list)"

definition Affinity_count :: "affinity \<Rightarrow> size_t" where
  "Affinity_count v = vector_size v"

definition Affinity_index :: "size_t \<Rightarrow> affinity \<Rightarrow> core res" where
  "Affinity_index i v = vector_index i v"

text \<open>
  \<open>all()\<close> on Linux: the answer of \<open>pthread_getaffinity_np\<close> is the CPU set of the thread, or
  an error.
\<close>

type_synonym cpu_set = "bool list"

definition CPU_COUNT :: "cpu_set \<Rightarrow> nat" where
  "CPU_COUNT cpuset = length (filter (\<lambda>b. b) cpuset)"

definition Affinity_all :: "'s allocator \<Rightarrow> cpu_set option \<Rightarrow> 's \<Rightarrow> (affinity \<times> 's) res" where
  "Affinity_all A answer s =
     (case answer of
        None \<Rightarrow> Inr (Affinity_new, s)
      | Some cpuset \<Rightarrow>
          fold_res (\<lambda>i (v, s). vector_emplace_back A core_type (Given (Core (of_nat i))) v s)
            [0..<CPU_COUNT cpuset] (Affinity_new, s))"

text \<open>\<open>all()\<close> on Windows, over the processor groups: their sizes and affinity masks.\<close>

record processor_group =
  group_count :: u32
  group_affinity :: u64

definition all_windows_core ::
  "'s allocator \<Rightarrow> nat \<Rightarrow> processor_group \<Rightarrow> nat \<Rightarrow> affinity \<times> 's \<Rightarrow> (affinity \<times> 's) res" where
  "all_windows_core A groupIdx grp coreIdx = (\<lambda>(v, s).
     bind_res (guard_res (coreIdx < 64) BadShift) (\<lambda>_.
     if drop_bit coreIdx (group_affinity grp) AND 1 \<noteq> 0
     then vector_emplace_back A core_type
            (Given (windows_core (of_nat groupIdx) (of_nat coreIdx))) v s
     else Inr (v, s)))"

definition Affinity_all_windows ::
  "'s allocator \<Rightarrow> processor_group list \<Rightarrow> 's \<Rightarrow> (affinity \<times> 's) res" where
  "Affinity_all_windows A groups s =
     fold_res (\<lambda>(groupIdx, grp).
         fold_res (all_windows_core A groupIdx grp) [0..<unat (group_count grp)])
       (List.enumerate 0 groups) (Affinity_new, s)"

subsection \<open>add and remove\<close>

text \<open>\<open>for (auto core : cores)\<close> reads the elements in order; \<open>std::sort\<close> permutes them.\<close>

definition read_all :: "'a vec \<Rightarrow> 'a list res" where
  "read_all v =
     fold_res (\<lambda>i xs. bind_res (read_at i v) (\<lambda>x. Inr (xs @ [x]))) [0..<unat (v_count v)] []"

definition vector_sort :: "('a :: linorder) vec \<Rightarrow> 'a vec res" where
  "vector_sort v =
     bind_res (read_all v) (\<lambda>xs.
     Inr (set_slots (map Obj (sort xs) @ drop (length xs) (slots v)) v))"

definition add_missing ::
  "'s allocator \<Rightarrow> core set \<Rightarrow> core \<Rightarrow> affinity \<times> 's \<Rightarrow> (affinity \<times> 's) res" where
  "add_missing A present core = (\<lambda>(v, s).
     if core \<notin> present then vector_push_back A core_type (Given core) v s else Inr (v, s))"

text \<open>
  The \<open>unordered_set\<close> of the cores, built with a \<open>StlAllocator\<close> of the affinity's
  allocator. Which nodes and bucket arrays the library takes and returns while it inserts the cores
  is a parameter, \<open>plan\<close>; a block is constructed in, so a null pointer is a fault. A block
  is its address with the type and the count it was asked for; the destructor returns those held.
\<close>

datatype set_block_op = TakeBlock ctype size_t | ReturnBlock nat

type_synonym set_block = "size_t \<times> ctype \<times> size_t"

fun set_block_step ::
  "'s allocator \<Rightarrow> set_block_op \<Rightarrow> set_block list \<times> 's \<Rightarrow> (set_block list \<times> 's) res" where
  "set_block_step A (TakeBlock T n) (held, s) =
     bind_res (StlAllocator_allocate A T n s) (\<lambda>(p, s).
     if p = 0 then Inl NullDeref else Inr ((p, T, n) # held, s))"
| "set_block_step A (ReturnBlock k) (held, s) =
     (if k < length held
      then (case held ! k of (p, T, n) \<Rightarrow>
              bind_res (StlAllocator_deallocate A T p n s) (\<lambda>s.
              Inr (take k held @ drop (Suc k) held, s)))
      else Inl BadFree)"

definition set_fill ::
  "'s allocator \<Rightarrow> set_block_op list \<Rightarrow> 's \<Rightarrow> (set_block list \<times> 's) res" where
  "set_fill A ops s = fold_res (set_block_step A) ops ([], s)"

definition set_destruct :: "'s allocator \<Rightarrow> set_block list \<Rightarrow> 's \<Rightarrow> 's res" where
  "set_destruct A held s =
     fold_res (\<lambda>(p, T, n) s. StlAllocator_deallocate A T p n s) held s"

definition Affinity_add ::
  "'s allocator \<Rightarrow> (core list \<Rightarrow> set_block_op list) \<Rightarrow> affinity \<Rightarrow> affinity \<Rightarrow> 's \<Rightarrow>
     (affinity \<times> 's) res" where
  "Affinity_add A plan other this s =
     bind_res (read_all this) (\<lambda>cores.
     bind_res (set_fill A (plan cores) s) (\<lambda>(held, s).
     bind_res (read_all other) (\<lambda>others.
     bind_res (fold_res (add_missing A (set cores)) others (this, s)) (\<lambda>(this, s).
     bind_res (vector_sort this) (\<lambda>this.
     bind_res (set_destruct A held s) (\<lambda>s. Inr (this, s)))))))"

text \<open>
  One turn of the loop of \<open>remove\<close>; \<open>cores[i] = cores.back()\<close>, then
  \<open>resize(size() - 1)\<close>.
\<close>

definition remove_turn ::
  "'s allocator \<Rightarrow> core set \<Rightarrow> size_t \<Rightarrow> affinity \<Rightarrow> 's \<Rightarrow> (affinity \<times> 's) res" where
  "remove_turn A S i v s =
     bind_res (vector_index i v) (\<lambda>core.
     if core \<in> S
     then bind_res (vector_back v) (\<lambda>last.
          bind_res (vector_set i last v) (\<lambda>v.
          vector_resize A core_type (Core 0) (vector_size v - 1) v s))
     else Inr (v, s))"

lemma fold_resize_up_count:
  "fold_res (resize_up d) (rev ks) v = Inr w \<Longrightarrow> ks = [] \<or> v_count w = of_nat (Suc (hd ks))"
  by (cases ks) (auto simp: fold_res_append resize_up_def)


lemma destroy_count [simp]: "destroy_at i v = Inr w \<Longrightarrow> v_count w = v_count v"
  by (auto simp: destroy_at_def split: if_splits)

lemma free_count: "vector_free A v s = Inr (w, t) \<Longrightarrow> v_count w = v_count v"
proof -
  assume free: "vector_free A v s = Inr (w, t)"
  then obtain u where u: "fold_res destroy_at [0..<unat (v_count v)] v = Inr u"
    by (auto simp: vector_free_def)
  then have "v_count u = v_count v"
    by (rule fold_res_invariant) simp_all
  with free u show "v_count w = v_count v" by (auto simp: vector_free_def split: if_splits)
qed

lemma move_loop_count: "move_loop null i (v, g) = Inr (w, h) \<Longrightarrow> v_count w = v_count v"
  by (auto simp: move_loop_def move_from_def)

lemma reserve_count:
  assumes "vector_reserve A T n v s = Inr (w, t)"
  shows "v_count w = v_count v"
proof (cases "n > v_capacity v")
  case True
  let ?v = "v\<lparr>v_capacity := max (n * 2) 8\<rparr>"
  obtain null g u h s1 x t' where
    m: "fold_res (move_loop null) [0..<unat (v_count v)] (?v, g) = Inr (u, h)"
    and f: "vector_free A u s1 = Inr (x, t')" "v_count w = v_count x"
    using assms True by (auto simp: vector_reserve_def Let_def)
  have "v_count (fst (u, h)) = v_count v"
    using m by (rule fold_res_invariant) (auto dest: move_loop_count)
  with free_count [OF f(1)] f(2) show ?thesis by simp
qed (use assms in \<open>simp add: not_less\<close>)

lemma resize_pred_count:
  assumes "vector_resize A T d (v_count v - 1) v s = Inr (w, t)" "v_count v \<noteq> 0"
  shows "v_count w = v_count v - 1"
proof -
  obtain u s1 where "vector_reserve A T (v_count v - 1) v s = Inr (u, s1)"
    and r: "fold_res (resize_up d) [unat (v_count u)..<unat (v_count v - 1)] u = Inr x \<Longrightarrow> True"
    and rest: "bind_res (fold_res (resize_up d) [unat (v_count u)..<unat (v_count v - 1)] u)
      (\<lambda>u. fold_res resize_down (rev [unat (v_count v - 1)..<unat (v_count u)]) u) = Inr w" for x
    using assms(1) by (auto simp: vector_resize_def)
  then have c: "v_count u = v_count v" by (simp add: reserve_count)
  have n: "unat (v_count v) = Suc (unat (v_count v - 1))"
    using assms(2) by (simp add: unat_minus_one unat_gt_0)
  have "rev [unat (v_count v - 1)..<Suc (unat (v_count v - 1))] = [unat (v_count v - 1)]" by simp
  then have "resize_down (unat (v_count v - 1)) u = Inr w"
    using rest c n by simp
  then have "v_count w = of_nat (unat (v_count v - 1))" by (auto simp: resize_down_def)
  then show ?thesis by simp
qed

lemma remove_turn_count:
  assumes "remove_turn A S i v s = Inr (w, t)" "v_count v \<noteq> 0"
  shows "unat (v_count w) \<le> unat (v_count v)"
proof (cases "w = v")
  case False
  then obtain l u where "vector_set i l v = Inr u" "vector_resize A core_type (Core 0) (v_count v - 1) u s = Inr (w, t)"
    using assms(1) by (auto simp: remove_turn_def vector_size_def split: if_splits)
      (auto simp: vector_set_def)
  moreover from this have "v_count u = v_count v" by (auto simp: vector_set_def)
  ultimately have "v_count w = v_count v - 1" using resize_pred_count [of A core_type "Core 0" u s w t] assms(2) by simp
  then show ?thesis using assms(2) by (simp add: unat_minus_one)
qed simp

function remove_loop ::
  "'s allocator \<Rightarrow> core set \<Rightarrow> size_t \<Rightarrow> affinity \<Rightarrow> 's \<Rightarrow> (affinity \<times> 's) res" where
  "remove_loop A S i v s =
     (if i < vector_size v
      then bind_res (remove_turn A S i v s) (\<lambda>(v, s). remove_loop A S (i + 1) v s)
      else Inr (v, s))"
  by pat_completeness auto
termination
proof (relation "measure (\<lambda>(A, S, i, v, s). unat (v_count v) - unat i)")
  fix A :: "'s allocator" and S i v s y x z
  assume less: "i < vector_size v" and turn: "remove_turn A S i v s = Inr y" "(x, z) = y"
  then have "unat i < unat (v_count v)" by (simp add: vector_size_def word_less_nat_alt)
  moreover from this have "unat (i + 1) = Suc (unat i)"
    using less_2p64 [of "unat i" "v_count v"] by (simp add: unat_add_no_wrap)
  moreover have "unat (v_count x) \<le> unat (v_count v)"
    using remove_turn_count [of A S i v s x z] turn less
    by (cases "v_count v = 0") (auto simp: vector_size_def)
  ultimately show "((A, S, i + 1, x, z), A, S, i, v, s) \<in>
      measure (\<lambda>(A, S, i, v, s). unat (v_count v) - unat i)"
    by simp
qed simp

declare remove_loop.simps [simp del]

definition Affinity_remove ::
  "'s allocator \<Rightarrow> (core list \<Rightarrow> set_block_op list) \<Rightarrow> affinity \<Rightarrow> affinity \<Rightarrow> 's \<Rightarrow>
     (affinity \<times> 's) res" where
  "Affinity_remove A plan other this s =
     bind_res (read_all other) (\<lambda>others.
     bind_res (set_fill A (plan others) s) (\<lambda>(held, s).
     bind_res (remove_loop A (set others) 0 this s) (\<lambda>(this, s).
     bind_res (vector_sort this) (\<lambda>this.
     bind_res (set_destruct A held s) (\<lambda>s. Inr (this, s))))))"

subsection \<open>Policy\<close>

text \<open>
  \<open>get\<close> of the two policies. A policy holds an affinity; the one of \<open>anyOf\<close> has a
  branch for Windows.
\<close>

definition anyOf_get :: "'s allocator \<Rightarrow> affinity \<Rightarrow> u32 \<Rightarrow> 's \<Rightarrow> (affinity \<times> 's) res" where
  "anyOf_get A aff threadId s = Affinity_copy A aff s"

definition same_group ::
  "'s allocator \<Rightarrow> byte \<Rightarrow> core \<Rightarrow> affinity \<times> 's \<Rightarrow> (affinity \<times> 's) res" where
  "same_group A grp core = (\<lambda>(out, s).
     if windows_group core = grp then vector_push_back A core_type (Given core) out s
     else Inr (out, s))"

definition anyOf_get_windows ::
  "'s allocator \<Rightarrow> affinity \<Rightarrow> u32 \<Rightarrow> 's \<Rightarrow> (affinity \<times> 's) res" where
  "anyOf_get_windows A aff threadId s =
     (let count = Affinity_count aff in
      if count = 0 then Affinity_copy A aff s
      else bind_res (Affinity_index (ucast threadId mod count) aff) (\<lambda>core.
           bind_res (vector_reserve A core_type count Affinity_new s) (\<lambda>(out, s).
           bind_res (read_all aff) (\<lambda>cores.
           fold_res (same_group A (windows_group core)) cores (out, s)))))"

definition oneOf_get :: "'s allocator \<Rightarrow> affinity \<Rightarrow> u32 \<Rightarrow> 's \<Rightarrow> (affinity \<times> 's) res" where
  "oneOf_get A aff threadId s =
     (let count = Affinity_count aff in
      if count = 0 then Affinity_copy A aff s
      else bind_res (Affinity_index (ucast threadId mod count) aff) (\<lambda>core.
           Affinity_list A [core] s))"
subsection \<open>Elements in order\<close>

lemma read_all_ok:
  assumes "vec_rep v xs"
  shows "read_all v = Inr xs"
proof -
  have "fold_res (\<lambda>i xs. bind_res (read_at i v) (\<lambda>x. Inr (xs @ [x]))) [0..<k] [] = Inr (take k xs)"
    if "k \<le> length xs" for k
    using that
  proof (induction k)
    case (Suc k)
    then have "read_at k v = Inr (xs ! k)" using vec_rep_index [OF assms] by simp
    then show ?case using Suc by (simp add: fold_res_append take_Suc_conv_app_nth)
  qed simp
  then show ?thesis using vec_repD(2) [OF assms] by (simp add: read_all_def)
qed

lemma vector_sort_ok:
  assumes "vec_rep v xs"
  shows "\<exists>w. vector_sort v = Inr w \<and> vec_rep w (sort xs) \<and> v_allocation w = v_allocation v"
proof -
  note rep = vec_repD [OF assms]
  have "vec_rep (set_slots (map Obj (sort xs) @ drop (length xs) (slots v))
      (v\<lparr>v_count := v_count v\<rparr>)) (sort xs)"
    using rep(2,3,5) by (intro vec_rep_set [OF assms]) auto
  then show ?thesis using read_all_ok [OF assms] rep(1) by (simp add: vector_sort_def)
qed

lemma sort_ok:
  assumes "vec_ok I owns xs (v, s)"
  shows "\<exists>w. vector_sort v = Inr w \<and> vec_ok I owns (sort xs) (w, s)"
  using vector_sort_ok [of v xs] assms by (auto simp: vec_ok_def vec_owned_def)

subsection \<open>add\<close>

lemma add_missing_run:
  "fold_res (add_missing A S) others vs =
   vec_run A core_type (Core 0) (map PushBack (filter (\<lambda>c. c \<notin> S) others)) vs"
proof (induction others arbitrary: vs)
  case (Cons c others)
  then show ?case
    by (cases vs) (auto simp: vec_run_def add_missing_def intro!: arg_cong [where f = "bind_res _"])
qed (simp add: vec_run_def)

lemma list_run_pushes: "list_run d (map PushBack zs) xs = Some (xs @ zs)"
  by (induction zs arbitrary: xs) simp_all

lemma list_run_emplaces: "list_run d (map EmplaceBack zs) xs = Some (xs @ zs)"
  by (induction zs arbitrary: xs) simp_all

lemma core_fits: "n < 2 ^ 60 \<Longrightarrow> fits os_proper core_type (of_nat n)"
  using unat_max [of "of_nat n * 2" 8]
  by (auto simp: fits_def os_proper_def core_type_def vector_request_def default_request_def
      unat_of_nat_64 unat_mult_no_wrap max_def)

lemma pushes_fit:
  "length xs + length zs < 2 ^ 60 \<Longrightarrow> all_fit os_proper core_type d (map PushBack zs) xs"
  "length xs + length zs < 2 ^ 60 \<Longrightarrow> all_fit os_proper core_type d (map EmplaceBack zs) xs"
  by (induction zs arbitrary: xs)
    (simp_all add: core_fits [of "Suc (length _)", simplified] less_imp_le)

text \<open>
  The library asks for blocks the allocator accepts, and returns only blocks that it holds
  (\<open>k\<close> of them at the beginning).
\<close>

fun plan_ok :: "(request \<Rightarrow> bool) \<Rightarrow> nat \<Rightarrow> set_block_op list \<Rightarrow> bool" where
  "plan_ok proper k [] = True"
| "plan_ok proper k (TakeBlock T n # ops) =
     (proper (StlAllocator_request T n) \<and> plan_ok proper (Suc k) ops)"
| "plan_ok proper k (ReturnBlock j # ops) = (j < k \<and> plan_ok proper (k - 1) ops)"

text \<open>Some block of the set gets no memory.\<close>

fun set_starved :: "'s allocator \<Rightarrow> set_block_op list \<Rightarrow> set_block list \<times> 's \<Rightarrow> bool" where
  "set_starved A [] hs = False"
| "set_starved A (op # ops) hs =
     ((case op of
         TakeBlock T n \<Rightarrow> (case vt_allocate A (StlAllocator_request T n) (snd hs) of
           Inl e \<Rightarrow> True | Inr (a, s1) \<Rightarrow> alloc_ptr a = 0)
       | ReturnBlock k \<Rightarrow> False) \<or>
      (case set_block_step A op hs of Inl e \<Rightarrow> False | Inr hs' \<Rightarrow> set_starved A ops hs'))"

fun set_alloc :: "set_block \<Rightarrow> allocation" where
  "set_alloc (p, T, n) = \<lparr>alloc_ptr = p, alloc_request = StlAllocator_request T n\<rparr>"

text \<open>The block of a vector, if it has one.\<close>

definition vec_blocks :: "'a vec \<Rightarrow> allocation list" where
  "vec_blocks v = (if alloc_ptr (v_allocation v) = 0 then [] else [v_allocation v])"

lemma vec_blocks_cong: "v_allocation w = v_allocation v \<Longrightarrow> vec_blocks w = vec_blocks v"
  by (simp add: vec_blocks_def)

lemma construct_allocation:
  "construct_at i x v = Inr w \<Longrightarrow> v_allocation w = v_allocation v"
  by (auto simp: construct_at_def)

lemma destroy_allocation:
  assumes "destroy_at i v = Inr w"
  shows "v_allocation w = v_allocation v"
proof -
  have "set_slots ((slots v)[i := Raw]) v = w"
    using assms unfolding destroy_at_def by (cases "access i v") (simp_all split: if_splits)
  from this [symmetric] show ?thesis by simp
qed

lemma move_loop_allocation:
  "move_loop null i (v, g) = Inr (w, h) \<Longrightarrow> v_allocation w = v_allocation v"
  by (auto simp: move_loop_def move_from_def)

context allocator_chain
begin

lemma holds_all_front:
  "holds_all inv owns sep s (xs @ a # ys) \<longleftrightarrow> holds_all inv owns sep s (a # xs @ ys)"
proof -
  have "sep s b a \<longleftrightarrow> sep s a b" for b using sep_sym by blast
  then show ?thesis by (auto simp: holds_all_def sorted_wrt_append)
qed

lemma holds_all_inv: "holds_all inv owns sep s as \<Longrightarrow> inv s"
  by (simp add: holds_all_def)

lemma take_step:
  assumes hold: "holds_all inv owns sep s (map set_alloc held @ bs)"
    and r: "proper (StlAllocator_request T n)"
    and a: "vt_allocate A (StlAllocator_request T n) s = Inr (a, s1)" "alloc_ptr a \<noteq> 0"
  shows "set_block_step A (TakeBlock T n) (held, s) = Inr ((alloc_ptr a, T, n) # held, s1) \<and>
    holds_all inv owns sep s1 (map set_alloc ((alloc_ptr a, T, n) # held) @ bs) \<and>
    live s1 = Suc (live s)"
proof -
  have "set_alloc (alloc_ptr a, T, n) = a" using rebuilt [OF a(1)] by simp
  then show ?thesis
    using holds_all_allocate [OF hold r a] allocate_live [OF holds_all_inv [OF hold] r a] a
    by (simp add: StlAllocator_allocate_def)
qed

lemma return_step:
  assumes hold: "holds_all inv owns sep s (map set_alloc held @ bs)" and k: "k < length held"
  obtains s1 where "set_block_step A (ReturnBlock k) (held, s) = Inr (take k held @ drop (Suc k) held, s1)"
    "holds_all inv owns sep s1 (map set_alloc (take k held @ drop (Suc k) held) @ bs)"
    "Suc (live s1) = live s"
proof -
  obtain p T n where b: "held ! k = (p, T, n)" by (cases "held ! k")
  have "held = take k held @ (p, T, n) # drop (Suc k) held"
    using id_take_nth_drop [OF k] b by simp
  then have "map set_alloc held @ bs =
      map set_alloc (take k held) @ set_alloc (p, T, n) # map set_alloc (drop (Suc k) held) @ bs"
    by (metis append_Cons append_assoc list.simps(9) map_append)
  then have "holds_all inv owns sep s
      (set_alloc (p, T, n) # map set_alloc (take k held @ drop (Suc k) held) @ bs)"
    using hold holds_all_front by simp
  then obtain s1 where "vt_free A (set_alloc (p, T, n)) s = Inr s1"
    "holds_all inv owns sep s1 (map set_alloc (take k held @ drop (Suc k) held) @ bs)"
    "Suc (live s1) = live s"
    by (rule holds_all_free)
  with that show ?thesis using k b by (simp add: StlAllocator_deallocate_def)
qed

lemma set_run:
  "holds_all inv owns sep s (map set_alloc held @ bs) \<Longrightarrow> plan_ok proper (length held) ops \<Longrightarrow>
   if set_starved A ops (held, s)
   then isl (fold_res (set_block_step A) ops (held, s))
   else \<exists>held' s'. fold_res (set_block_step A) ops (held, s) = Inr (held', s') \<and>
     holds_all inv owns sep s' (map set_alloc held' @ bs) \<and>
     live s' + length held = live s + length held'"
proof (induction ops arbitrary: held s)
  case (Cons op ops)
  have next_op: ?case
    if step: "set_block_step A op (held, s) = Inr (h, s1)"
      and hold: "holds_all inv owns sep s1 (map set_alloc h @ bs)" "plan_ok proper (length h) ops"
      and live: "live s1 + length held = live s + length h"
      and take: "set_starved A (op # ops) (held, s) = set_starved A ops (h, s1)" for h s1
  proof (cases "set_starved A ops (h, s1)")
    case True
    then show ?thesis using Cons.IH [OF hold] step take by simp
  next
    case False
    obtain h' s' where "fold_res (set_block_step A) ops (h, s1) = Inr (h', s')"
      "holds_all inv owns sep s' (map set_alloc h' @ bs)" "live s' + length h = live s1 + length h'"
      using Cons.IH [OF hold] False by auto
    then show ?thesis using step take live False by simp
  qed
  show ?case
  proof (cases op)
    case op: (TakeBlock T n)
    show ?thesis
    proof (cases "\<exists>a s1. vt_allocate A (StlAllocator_request T n) s = Inr (a, s1) \<and> alloc_ptr a \<noteq> 0")
      case True
      then obtain a s1 where a: "vt_allocate A (StlAllocator_request T n) s = Inr (a, s1)"
        "alloc_ptr a \<noteq> 0" by blast
      have r: "proper (StlAllocator_request T n)" using Cons.prems(2) op by simp
      note step = take_step [OF Cons.prems(1) r a]
      show ?thesis
      proof (rule next_op [of "(alloc_ptr a, T, n) # held" s1])
        show run: "set_block_step A op (held, s) = Inr ((alloc_ptr a, T, n) # held, s1)"
          using step op by blast
        show "holds_all inv owns sep s1 (map set_alloc ((alloc_ptr a, T, n) # held) @ bs)"
          using step by blast
        show "plan_ok proper (length ((alloc_ptr a, T, n) # held)) ops"
          using Cons.prems(2) op by simp
        show "live s1 + length held = live s + length ((alloc_ptr a, T, n) # held)"
          using step by simp
        show "set_starved A (op # ops) (held, s) = set_starved A ops ((alloc_ptr a, T, n) # held, s1)"
          using run op a by (simp add: StlAllocator_allocate_def)
      qed
    next
      case False
      then show ?thesis using op
        by (cases "vt_allocate A (StlAllocator_request T n) s")
          (auto simp: StlAllocator_allocate_def isl_def)
    qed
  next
    case op: (ReturnBlock k)
    have k: "k < length held" using Cons.prems(2) op by simp
    obtain s1 where step: "set_block_step A op (held, s) = Inr (take k held @ drop (Suc k) held, s1)"
      "holds_all inv owns sep s1 (map set_alloc (take k held @ drop (Suc k) held) @ bs)"
      "Suc (live s1) = live s"
      using return_step [OF Cons.prems(1) k] op by blast
    have len: "length (take k held @ drop (Suc k) held) = length held - 1" using k by simp
    show ?thesis
    proof (rule next_op [OF step(1,2)])
      show "plan_ok proper (length (take k held @ drop (Suc k) held)) ops"
        unfolding len using Cons.prems(2) op by simp
      show "live s1 + length held = live s + length (take k held @ drop (Suc k) held)"
        unfolding len using step(3) k by simp
      show "set_starved A (op # ops) (held, s) =
          set_starved A ops (take k held @ drop (Suc k) held, s1)"
        using step(1) op by simp
    qed
  qed
qed simp

lemma set_destruct_ok:
  "holds_all inv owns sep s (map set_alloc held @ bs) \<Longrightarrow>
   \<exists>s'. set_destruct A held s = Inr s' \<and> holds_all inv owns sep s' bs \<and>
     live s' + length held = live s"
proof (induction held arbitrary: s)
  case (Cons b held)
  obtain p T n where [simp]: "b = (p, T, n)" by (cases b)
  obtain s1 where "vt_free A (set_alloc b) s = Inr s1"
    "holds_all inv owns sep s1 (map set_alloc held @ bs)" "Suc (live s1) = live s"
    using Cons.prems by (auto elim: holds_all_free)
  with Cons.IH [of s1] show ?case
    by (auto simp: set_destruct_def StlAllocator_deallocate_def)
qed (simp add: set_destruct_def)

end

text \<open>The set's blocks stay live while the vector grows.\<close>

context allocator_chain
begin

lemma vec_ok_blocks:
  "vec_ok inv owns xs (v, s) \<longleftrightarrow> vec_rep v xs \<and> holds_all inv owns sep s (vec_blocks v)"
  by (auto simp: vec_ok_def vec_owned_def vec_blocks_def holds_all_def)

lemma holds_all_right: "holds_all inv owns sep s (as @ bs) \<Longrightarrow> holds_all inv owns sep s bs"
  by (simp add: holds_all_def sorted_wrt_append)

lemma holds_all_left: "holds_all inv owns sep s (as @ bs) \<Longrightarrow> holds_all inv owns sep s as"
  by (simp add: holds_all_def sorted_wrt_append)

lemma vec_blocks_front:
  "holds_all inv owns sep s (as @ vec_blocks v) \<longleftrightarrow> holds_all inv owns sep s (vec_blocks v @ as)"
  using holds_all_front [of s as "v_allocation v" "[]"] by (simp add: vec_blocks_def)

lemma vector_free_blocks:
  assumes "vector_free A v s = Inr (x, t)" "holds_all inv owns sep s (vec_blocks v @ bs)"
  shows "holds_all inv owns sep t bs"
proof -
  obtain y where y: "fold_res destroy_at [0..<unat (v_count v)] v = Inr y"
    using assms(1) by (auto simp: vector_free_def)
  then have "v_allocation y = v_allocation v"
    by (rule fold_res_invariant) (auto dest: destroy_allocation)
  with y assms show ?thesis
    by (auto simp: vector_free_def vec_blocks_def elim: holds_all_free split: if_splits)
qed

lemma reserve_blocks:
  assumes hold: "holds_all inv owns sep s (vec_blocks v @ bs)"
    and fits: "fits proper T n" and mem: "\<not> no_memory A T n v s"
    and run: "vector_reserve A T n v s = Inr (w, t)"
  shows "holds_all inv owns sep t (vec_blocks w @ bs)"
proof (cases "n > v_capacity v")
  case True
  let ?v = "v\<lparr>v_capacity := max (n * 2) 8\<rparr>"
  obtain a s1 where a: "vt_allocate A (vector_request T (max (n * 2) 8)) s = Inr (a, s1)"
    "alloc_ptr a \<noteq> 0"
    using mem True by (auto simp: no_memory_def split: sum.splits)
  then obtain g u h x where m: "fold_res (move_loop False) [0..<unat (v_count v)] (?v, g) = Inr (u, h)"
    and f: "vector_free A u s1 = Inr (x, t)" and w: "v_allocation w = a"
    using run True by (auto simp: vector_reserve_def Let_def)
  have "v_allocation (fst (u, h)) = v_allocation v"
    using m by (rule fold_res_invariant) (auto dest: move_loop_allocation)
  then have u: "vec_blocks u = vec_blocks v" by (simp add: vec_blocks_def)
  have "proper (vector_request T (max (n * 2) 8))" using fits by (simp add: fits_def)
  from holds_all_allocate [OF hold this a]
  have "holds_all inv owns sep s1 (vec_blocks u @ a # bs)"
    using holds_all_front [of s1 "vec_blocks u" a bs] u by simp
  from vector_free_blocks [OF f this] show ?thesis using w a(2) by (simp add: vec_blocks_def)
qed (use assms in \<open>simp add: not_less\<close>)

lemma push_blocks:
  assumes "holds_all inv owns sep s (vec_blocks v @ bs)"
    and "fits proper T (v_count v + 1)" "\<not> no_memory A T (v_count v + 1) v s"
    and "vector_push_back A T (Given x) v s = Inr (w, t)"
  shows "holds_all inv owns sep t (vec_blocks w @ bs)"
proof -
  obtain u y where u: "vector_reserve A T (v_count v + 1) v s = Inr (u, t)"
    "construct_at (unat (v_count u)) x u = Inr y" "v_allocation w = v_allocation y"
    using assms(4) by (auto simp: push_back_given)
  then have "vec_blocks w = vec_blocks u"
    using construct_allocation [OF u(2)] by (intro vec_blocks_cong) simp
  with reserve_blocks [OF assms(1-3) u(1)] show ?thesis by simp
qed

lemma pushes_blocks:
  "vec_ok inv owns xs (v, s) \<Longrightarrow> holds_all inv owns sep s (vec_blocks v @ bs) \<Longrightarrow>
   all_fit proper T d (map PushBack zs) xs \<Longrightarrow> \<not> starved A T d (map PushBack zs) xs (v, s) \<Longrightarrow>
   vec_run A T d (map PushBack zs) (v, s) = Inr (w, t) \<Longrightarrow>
   holds_all inv owns sep t (vec_blocks w @ bs)"
proof (induction zs arbitrary: xs v s)
  case (Cons z zs)
  have "vec_rep v xs" using Cons.prems(1) by (simp add: vec_ok_def)
  then have "of_nat (length xs) = v_count v" by (simp add: vec_repD(2) [symmetric])
  then have c: "1 + of_nat (length xs) = v_count v + 1" by simp
  obtain u s1 where u: "vector_push_back A T (Given z) v s = Inr (u, s1)"
    "vec_run A T d (map PushBack zs) (u, s1) = Inr (w, t)"
    using Cons.prems(5) by (auto simp: vec_run_def)
  have f: "fits proper T (v_count v + 1)" "\<not> no_memory A T (v_count v + 1) v s"
    using Cons.prems(3,4) unfolding c [symmetric] by simp_all
  have "Suc (length xs) < 2 ^ 64" using Cons.prems(3) by simp
  from push_back_ok [OF Cons.prems(1) f this, of z]
  have ok: "vec_ok inv owns (xs @ [z]) (u, s1)" using u(1) by simp
  show ?case
    using Cons.IH [OF ok push_blocks [OF Cons.prems(2) f u(1)]] Cons.prems(3,4) u by simp
qed (simp add: vec_run_def)

lemma add_ok:
  assumes ok: "vec_ok inv owns xs (v, s)" and ys: "vec_rep other ys"
    and zs: "zs = filter (\<lambda>c. c \<notin> set xs) ys"
    and fit: "all_fit proper core_type (Core 0) (map PushBack zs) xs"
    and plan: "plan_ok proper 0 (plan xs)"
  shows "if set_starved A (plan xs) ([], s) then isl (Affinity_add A plan other v s)
    else \<exists>held s1. set_fill A (plan xs) s = Inr (held, s1) \<and>
      (if starved A core_type (Core 0) (map PushBack zs) xs (v, s1)
       then isl (Affinity_add A plan other v s)
       else \<exists>vs. Affinity_add A plan other v s = Inr vs \<and> vec_ok inv owns (sort (xs @ zs)) vs)"
proof -
  have rep: "vec_rep v xs" and hold: "holds_all inv owns sep s (map set_alloc [] @ vec_blocks v)"
    using ok by (simp_all add: vec_ok_blocks)
  have add: "Affinity_add A plan other v s =
      bind_res (set_fill A (plan xs) s) (\<lambda>(held, s).
      bind_res (vec_run A core_type (Core 0) (map PushBack zs) (v, s)) (\<lambda>(v, s).
      bind_res (vector_sort v) (\<lambda>v. bind_res (set_destruct A held s) (\<lambda>s. Inr (v, s)))))"
    using rep ys zs by (simp add: Affinity_add_def read_all_ok add_missing_run)
  show ?thesis
  proof (cases "set_starved A (plan xs) ([], s)")
    case True
    then show ?thesis using set_run [OF hold, of "plan xs"] plan add
      by (auto simp: set_fill_def isl_def)
  next
    case False
    then obtain held s1 where fill: "set_fill A (plan xs) s = Inr (held, s1)"
      and held: "holds_all inv owns sep s1 (vec_blocks v @ map set_alloc held)"
      using set_run [OF hold, of "plan xs"] plan by (auto simp: set_fill_def vec_blocks_front)
    have ok1: "vec_ok inv owns xs (v, s1)"
      using rep holds_all_left [OF held] by (simp add: vec_ok_blocks)
    show ?thesis
    proof (cases "starved A core_type (Core 0) (map PushBack zs) xs (v, s1)")
      case True
      then show ?thesis using vec_run_none [OF ok1 fit] add fill False by auto
    next
      case run: False
      obtain w t where w: "vec_run A core_type (Core 0) (map PushBack zs) (v, s1) = Inr (w, t)"
        "vec_ok inv owns (xs @ zs) (w, t)"
        using vec_run_some [OF ok1 fit list_run_pushes run] by auto
      have rep_w: "vec_rep w (xs @ zs)" using w(2) by (simp add: vec_ok_def)
      obtain x where x: "vector_sort w = Inr x" "vec_rep x (sort (xs @ zs))"
        "v_allocation x = v_allocation w"
        using vector_sort_ok [OF rep_w] by blast
      have "holds_all inv owns sep t (map set_alloc held @ vec_blocks w)"
        using pushes_blocks [OF ok1 held fit run w(1)] vec_blocks_front by blast
      then obtain s2 where "set_destruct A held t = Inr s2"
        "holds_all inv owns sep s2 (vec_blocks x)"
        using set_destruct_ok [of t held "vec_blocks w"] vec_blocks_cong [OF x(3)] by auto
      then show ?thesis using add fill w(1) x False run by (auto simp: vec_ok_blocks)
    qed
  qed
qed

end

subsection \<open>remove\<close>

text \<open>What \<open>remove\<close> does to the list of cores, before the sort.\<close>

function remove_cores :: "'a set \<Rightarrow> nat \<Rightarrow> 'a list \<Rightarrow> 'a list" where
  "remove_cores S i xs =
     (if i < length xs
      then remove_cores S (i + 1) (if xs ! i \<in> S then butlast (xs[i := last xs]) else xs)
      else xs)"
  by pat_completeness auto
termination
  by (relation "measure (\<lambda>(S, i, xs). length xs - i)") (auto split: if_splits)

declare remove_cores.simps [simp del]

lemma remove_turn_ok:
  assumes rep: "vec_rep v xs" and i: "unat i < length xs"
  shows "\<exists>w. remove_turn A S i v s = Inr (w, s) \<and> v_allocation w = v_allocation v \<and>
    vec_rep w (if xs ! unat i \<in> S then butlast (xs[unat i := last xs]) else xs)"
proof -
  note R = vec_repD [OF rep]
  have idx: "vector_index i v = Inr (xs ! unat i)"
    using vec_rep_index [OF rep] i by (simp add: vector_index_def)
  have pred: "unat (v_count v - 1) = length xs - 1"
    using R(2) i by (subst unat_diff_le) simp_all
  then have back_v: "vector_back v = Inr (last xs)"
    using vec_rep_index [OF rep] i last_conv_nth [of xs]
    by (cases "xs = []") (auto simp: vector_back_def)
  let ?u = "set_slots ((slots v)[unat i := Obj (last xs)]) v"
  have "v_count v - 1 \<le> v_capacity ?u" using pred R(3) by (simp add: word_le_nat_alt)
  from vec_rep_resize [OF vec_rep_assign_at(2) [OF rep i] this, of A core_type "Core 0" s]
  obtain w where "vector_resize A core_type (Core 0) (v_count v - 1) ?u s = Inr (w, s)"
    "vec_rep w (list_resize (Core 0) (length xs - 1) (xs[unat i := last xs]))"
    "v_allocation w = v_allocation v"
    unfolding pred by auto
  then show ?thesis
    using idx back_v vec_rep_assign_at(1) [OF rep i] R(2) rep
    by (auto simp: remove_turn_def vector_size_def list_resize_def butlast_conv_take)
qed

lemma remove_loop_ok:
  "vec_rep v xs \<Longrightarrow> unat i = k \<Longrightarrow>
   \<exists>w. remove_loop A S i v s = Inr (w, s) \<and> v_allocation w = v_allocation v \<and>
     vec_rep w (remove_cores S k xs)"
proof (induction S k xs arbitrary: i v rule: remove_cores.induct)
  case (1 S k xs)
  note R = vec_repD [OF "1.prems"(1)]
  show ?case
  proof (cases "k < length xs")
    case True
    let ?ys = "if xs ! k \<in> S then butlast (xs[k := last xs]) else xs"
    obtain u where u: "remove_turn A S i v s = Inr (u, s)" "v_allocation u = v_allocation v"
      "vec_rep u ?ys"
      using remove_turn_ok [OF "1.prems"(1), of i A S s] True unfolding "1.prems"(2) by auto
    have "unat (i + 1) = k + 1"
      using less_2p64 [of "unat i" "v_count v"] True "1.prems"(2) R(2)
      by (simp add: unat_add_no_wrap)
    from "1.IH" [OF True u(3) this] u(2) obtain w where
      "remove_loop A S (i + 1) u s = Inr (w, s)" "v_allocation w = v_allocation v"
      "vec_rep w (remove_cores S (k + 1) ?ys)"
      by auto
    moreover have "i < vector_size v"
      using True R(2) "1.prems"(2) by (simp add: vector_size_def word_less_nat_alt)
    ultimately show ?thesis
      using u(1) remove_loop.simps [of A S i v s] remove_cores.simps [of S k xs] True by simp
  next
    case False
    then have "\<not> i < vector_size v"
      using R(2) "1.prems"(2) by (simp add: vector_size_def word_less_nat_alt)
    then show ?thesis
      using remove_loop.simps [of A S i v s] remove_cores.simps [of S k xs] False "1.prems"(1)
      by simp
  qed
qed

text \<open>Taking out the element at a position: it is the last one, or the last one takes its place.\<close>

lemma swap_out_cases:
  assumes "k < length xs"
  obtains a where "xs = a @ [xs ! k]" "k = length a" "butlast (xs[k := last xs]) = a"
  | a b l where "xs = a @ xs ! k # b @ [l]" "k = length a"
      "butlast (xs[k := last xs]) = a @ l # b"
proof -
  have xs: "xs = take k xs @ xs ! k # drop (Suc k) xs" using assms by (rule id_take_nth_drop)
  show ?thesis
  proof (cases "drop (Suc k) xs" rule: rev_cases)
    case Nil
    with xs have "xs = take k xs @ [xs ! k]" by simp
    moreover from this have "butlast (xs[k := last xs]) = take k xs"
      using assms by (metis append_Nil butlast_snoc last_snoc length_take list_update_length min.absorb4)
    ultimately show ?thesis using that(1) [of "take k xs"] assms by simp
  next
    case (snoc b l)
    with xs have e: "xs = take k xs @ xs ! k # b @ [l]" by simp
    have "butlast ((take k xs @ xs ! k # b @ [l])[k := l]) = take k xs @ l # b"
      using assms by (simp add: list_update_append butlast_append)
    moreover have "last xs = l" by (subst e) simp
    ultimately have "butlast (xs[k := last xs]) = take k xs @ l # b" using e by simp
    then show ?thesis using that(2) [of "take k xs" b l] e assms by simp
  qed
qed

lemma swap_out_mset:
  assumes "k < length xs"
  shows "add_mset (xs ! k) (mset (butlast (xs[k := last xs]))) = mset xs"
proof (rule swap_out_cases [OF assms])
  fix a assume a: "xs = a @ [xs ! k]" "butlast (xs[k := last xs]) = a"
  have "mset xs = mset (a @ [xs ! k])" by (rule arg_cong [OF a(1)])
  then show ?thesis using a(2) by simp
next
  fix a b l assume a: "xs = a @ xs ! k # b @ [l]" "butlast (xs[k := last xs]) = a @ l # b"
  have "mset xs = mset (a @ xs ! k # b @ [l])" by (rule arg_cong [OF a(1)])
  then show ?thesis using a(2) by simp
qed

text \<open>An element of \<open>S\<close> that takes the place of another one is passed over: at most one is left for each that is removed.\<close>

definition left_over :: "'a set \<Rightarrow> nat \<Rightarrow> 'a list \<Rightarrow> nat" where
  "left_over S k xs =
     length (filter (\<lambda>c. c \<in> S) (drop k xs)) + 2 * length (filter (\<lambda>c. c \<in> S) (take k xs))"

lemma swap_out_left_over:
  assumes "k < length xs" "xs ! k \<in> S"
  shows "left_over S (Suc k) (butlast (xs[k := last xs])) \<le> left_over S k xs"
proof (rule swap_out_cases [OF assms(1)])
  fix a assume a: "xs = a @ [xs ! k]" "k = length a" "butlast (xs[k := last xs]) = a"
  have "left_over S k xs = left_over S k (a @ [xs ! k])" by (rule arg_cong [OF a(1)])
  then show ?thesis using a(2,3) assms(2) by (simp add: left_over_def)
next
  fix a b l assume a: "xs = a @ xs ! k # b @ [l]" "k = length a"
    "butlast (xs[k := last xs]) = a @ l # b"
  have "left_over S k xs = left_over S k (a @ xs ! k # b @ [l])" by (rule arg_cong [OF a(1)])
  then show ?thesis using a(2,3) assms(2) by (simp add: left_over_def)
qed

lemma keep_left_over:
  assumes "k < length xs" "xs ! k \<notin> S"
  shows "left_over S (Suc k) xs = left_over S k xs"
  using assms by (simp add: left_over_def take_Suc_conv_app_nth Cons_nth_drop_Suc [symmetric])

lemma remove_cores_kept:
  "mset (filter (\<lambda>c. c \<notin> S) (remove_cores S k xs)) = mset (filter (\<lambda>c. c \<notin> S) xs)"
proof (induction S k xs rule: remove_cores.induct)
  case (1 S k xs)
  have "mset (filter (\<lambda>c. c \<notin> S) (butlast (xs[k := last xs]))) = mset (filter (\<lambda>c. c \<notin> S) xs)"
    if "k < length xs" "xs ! k \<in> S"
    using that(2) by (simp add: mset_filter swap_out_mset [OF that(1), symmetric])
  then show ?case using 1 by (subst remove_cores.simps) simp
qed

lemma remove_cores_subset: "mset (remove_cores S k xs) \<subseteq># mset xs"
proof (induction S k xs rule: remove_cores.induct)
  case (1 S k xs)
  have "mset (butlast (xs[k := last xs])) \<subseteq># mset xs" if "k < length xs"
    using swap_out_mset [OF that] by (metis multi_psub_of_add_self subset_mset.less_imp_le)
  then show ?case using 1 by (subst remove_cores.simps) (auto intro: subset_mset.order_trans)
qed

lemma remove_cores_left: "2 * length (filter (\<lambda>c. c \<in> S) (remove_cores S k xs)) \<le> left_over S k xs"
proof (induction S k xs rule: remove_cores.induct)
  case (1 S k xs)
  then show ?case
    using swap_out_left_over [of k xs S] keep_left_over [of k xs S]
    by (subst remove_cores.simps) (auto simp: left_over_def [of S k xs] intro: order_trans)
qed

subsection \<open>Pushes within the capacity\<close>

lemma push_within:
  assumes "vec_rep v xs" "length xs < unat (v_capacity v)"
  shows "\<exists>w. vector_push_back A T (Given x) v s = Inr (w, s) \<and> vec_rep w (xs @ [x]) \<and>
    v_allocation w = v_allocation v \<and> v_capacity w = v_capacity v"
proof -
  note rep = vec_repD [OF assms(1)]
  have "unat (v_count v + 1) = Suc (length xs)"
    using rep(2) less_2p64 [OF assms(2)] by (simp add: unat_add_no_wrap)
  then have "v_count v + 1 \<le> v_capacity v" using assms(2) by (simp add: word_le_nat_alt)
  then show ?thesis
    using vec_rep_construct [OF assms, of x] rep(2) by (simp add: push_back_given)
qed

lemma pushes_within:
  "vec_rep v xs \<Longrightarrow> length xs + length zs \<le> unat (v_capacity v) \<Longrightarrow>
   \<exists>w. fold_res (\<lambda>x (v, s). vector_push_back A T (Given x) v s) zs (v, s) = Inr (w, s) \<and>
     vec_rep w (xs @ zs) \<and> v_allocation w = v_allocation v \<and> v_capacity w = v_capacity v"
proof (induction zs arbitrary: v xs)
  case (Cons z zs)
  then have "length xs < unat (v_capacity v)" by simp
  from push_within [OF Cons.prems(1) this, of A T z s] obtain w where
    w: "vector_push_back A T (Given z) v s = Inr (w, s)" "vec_rep w (xs @ [z])"
      "v_allocation w = v_allocation v" "v_capacity w = v_capacity v"
    by blast
  from Cons.IH [OF w(2)] Cons.prems(2) w show ?case by simp
qed simp

lemma Affinity_new_rep:
  "vec_rep Affinity_new []" "unat (v_capacity Affinity_new) = 32" "v_capacity Affinity_new = 32"
  "v_count Affinity_new = 0" "alloc_ptr (v_allocation Affinity_new) = 0"
  using vector_new_rep [of 32]
  by (simp_all add: Affinity_new_def vector_new_def default_allocation_def)

lemma no_cores:
  assumes "vec_rep v xs"
  shows "Affinity_count v = 0 \<longleftrightarrow> xs = []"
  using vec_repD(2) [OF assms] unat_eq_0 [of "v_count v"]
  by (auto simp: Affinity_count_def vector_size_def)

text \<open>\<open>affinity[threadId % affinity.count()]\<close>\<close>

lemma pick_core:
  fixes threadId :: u32
  assumes "vec_rep aff xs" "xs \<noteq> []"
  shows "Affinity_index (ucast threadId mod Affinity_count aff) aff =
    Inr (xs ! (unat threadId mod length xs))"
proof -
  have "unat (ucast threadId mod Affinity_count aff) = unat threadId mod length xs"
    using vec_repD(2) [OF assms(1)]
    by (simp add: Affinity_count_def vector_size_def unat_mod_distrib unsigned_ucast_eq
        take_bit_nat_eq_self order_less_trans [OF unat_lt_2p32])
  then show ?thesis using vec_rep_index [OF assms(1)] assms(2)
    by (simp add: Affinity_index_def vector_index_def)
qed

lemma oneOf_get_ok:
  assumes "vec_rep aff xs" "xs \<noteq> []"
  shows "\<exists>w. oneOf_get A aff threadId s = Inr (w, s) \<and>
    vec_rep w [xs ! (unat threadId mod length xs)] \<and> alloc_ptr (v_allocation w) = 0"
proof -
  have "vector_reserve A core_type 1 (vector_new 32) s = Inr (Affinity_new, s)"
    using Affinity_new_rep(3) by (simp add: Affinity_new_def)
  with pushes_within [OF Affinity_new_rep(1), of "[xs ! (unat threadId mod length xs)]" A core_type s]
  show ?thesis
    using no_cores [OF assms(1)] assms(2) pick_core [OF assms] Affinity_new_rep
    by (auto simp: oneOf_get_def Affinity_list_def)
qed

lemma same_group_run:
  "fold_res (same_group A grp) cores vs =
   fold_res (\<lambda>c (v, s). vector_push_back A core_type (Given c) v s)
     (filter (\<lambda>c. windows_group c = grp) cores) vs"
proof (induction cores arbitrary: vs)
  case (Cons c cores)
  then show ?case
    by (cases vs) (auto simp: same_group_def intro!: arg_cong [where f = "bind_res _"])
qed simp

context allocator_contract
begin

lemma anyOf_get_windows_ok:
  assumes inv: "inv s" and rep: "vec_rep aff xs" "xs \<noteq> []"
    and fit: "fits proper core_type (of_nat (length xs))"
    and mem: "\<not> no_memory A core_type (of_nat (length xs)) Affinity_new s"
  shows "\<exists>w s'. anyOf_get_windows A aff threadId s = Inr (w, s') \<and>
    vec_ok inv owns
      (filter (\<lambda>c. windows_group c = windows_group (xs ! (unat threadId mod length xs))) xs) (w, s')"
proof -
  let ?g = "windows_group (xs ! (unat threadId mod length xs))"
  have n: "of_nat (length xs) = Affinity_count aff"
    using vec_repD(2) [OF rep(1), symmetric] by (simp add: Affinity_count_def vector_size_def)
  have "vec_ok inv owns [] (Affinity_new, s)"
    using inv Affinity_new_rep by (simp add: vec_ok_def vec_owned_def)
  then obtain v t where v: "vector_reserve A core_type (Affinity_count aff) Affinity_new s = Inr (v, t)"
    "vec_ok inv owns [] (v, t)" "Affinity_count aff \<le> v_capacity v"
    using reserve_ok [of "[]" Affinity_new s core_type "of_nat (length xs)"] fit mem
    unfolding n by blast
  let ?zs = "filter (\<lambda>c. windows_group c = ?g) xs"
  have "length ?zs \<le> unat (v_capacity v)"
    using v(3) vec_repD(2) [OF rep(1)] length_filter_le [of "\<lambda>c. windows_group c = ?g" xs]
    by (simp add: Affinity_count_def vector_size_def word_le_nat_alt del: length_filter_le)
  moreover have "vec_rep v []" using v(2) by (simp add: vec_ok_def)
  ultimately obtain w where
    "fold_res (\<lambda>c (v, s). vector_push_back A core_type (Given c) v s) ?zs (v, t) = Inr (w, t)"
    "vec_rep w ?zs" "v_allocation w = v_allocation v"
    using pushes_within [of v "[]" ?zs A core_type t] by auto
  then show ?thesis
    using v no_cores [OF rep(1)] rep(2) pick_core [OF rep] read_all_ok [OF rep(1)]
    by (auto simp: anyOf_get_windows_def Let_def same_group_run vec_ok_def vec_owned_def)
qed

end

context allocator_contract
begin

lemma Affinity_copy_ok:
  assumes inv: "inv s" and ys: "vec_rep other ys"
    and fits: "fits proper core_type (v_count other)"
    and mem: "\<not> no_memory A core_type (v_count other) Affinity_new s"
  shows "\<exists>vs. Affinity_copy A other s = Inr vs \<and> vec_ok inv owns ys vs"
proof -
  have ok: "vec_ok inv owns [] (Affinity_new, s)"
    using inv Affinity_new_rep by (simp add: vec_ok_def vec_owned_def)
  have copy: "Affinity_copy A other s = vector_assign A core_type other Affinity_new s"
    by (simp add: Affinity_copy_def vector_copy_def Affinity_new_def)
  show ?thesis
  proof (cases "v_count other \<le> v_capacity Affinity_new")
    case True
    then show ?thesis using assign_within [OF ok ys] Affinity_new_rep(5) copy by simp
  next
    case False
    have "vector_free A Affinity_new s = Inr (Affinity_new, s)"
      using Affinity_new_rep by (simp add: vector_free_def)
    then show ?thesis
      using assign_growing [OF ok ys fits Affinity_new_rep(4)] False mem copy by (simp add: not_le)
  qed
qed

lemma Affinity_move_ok:
  assumes "inv s" "vec_rep other ys" "fits proper core_type (v_count other)"
    "\<not> no_memory A core_type (v_count other) Affinity_new s"
  shows "\<exists>w other' s'. Affinity_move A other s = Inr (w, other', s') \<and>
    vec_ok inv owns ys (w, s') \<and> vec_rep other' [] \<and> v_allocation other' = v_allocation other"
  using move_new_ok [of s other ys 32] assms by (simp add: Affinity_move_def Affinity_new_def)

end

subsection \<open>all\<close>

lemma fold_emplaces:
  "fold_res (\<lambda>i (v, s). vector_emplace_back A T (Given (f i)) v s) is vs =
   vec_run A T d (map EmplaceBack (map f is)) vs"
proof (induction "is" arbitrary: vs)
  case (Cons i "is")
  then show ?case by (cases vs) (auto simp: vec_run_def intro!: arg_cong [where f = "bind_res _"])
qed (simp add: vec_run_def)

text \<open>
  On Linux \<open>all()\<close> holds the numbers below the size of the CPU set, whatever its members are.
\<close>

lemma all_ok:
  assumes "os_inv s" "CPU_COUNT cpus < 2 ^ 60"
    and cs: "cs = map (\<lambda>i. Core (of_nat i)) [0..<CPU_COUNT cpus]"
    and mem: "\<not> starved DefaultAllocator core_type (Core 0) (map EmplaceBack cs) [] (Affinity_new, s)"
  shows "\<exists>vs. Affinity_all DefaultAllocator (Some cpus) s = Inr vs \<and> vec_ok os_inv os_owns cs vs"
proof -
  have "vec_ok os_inv os_owns [] (Affinity_new, s)"
    using assms(1) Affinity_new_rep by (simp add: vec_ok_def vec_owned_def)
  moreover have "all_fit os_proper core_type (Core 0) (map EmplaceBack cs) []"
    using pushes_fit(2) [of "[]" cs] assms(2) cs by simp
  ultimately have "\<exists>vs. vec_run DefaultAllocator core_type (Core 0) (map EmplaceBack cs) (Affinity_new, s)
      = Inr vs \<and> vec_ok os_inv os_owns cs vs"
    using default_alloc.vec_run_some [OF _ _ list_run_emplaces mem] by simp
  then show ?thesis
    using fold_emplaces [of DefaultAllocator core_type "\<lambda>i. Core (of_nat i)"] cs
    by (simp add: Affinity_all_def)
qed

subsection \<open>Properties\<close>

text \<open>
  \<open>add\<close> gives the sorted list of the affinity's own cores and those cores of the
  other one that it does not hold, with the multiplicity they have there, in storage that is live;
  it faults exactly when a block of the set or a push that has to grow the storage gets no memory.
\<close>

theorem affinity_add:
  assumes "vec_ok os_inv os_owns xs (v, s)" "vec_rep other ys" "length xs + length ys < 2 ^ 60"
    and "plan_ok os_proper 0 (plan xs)"
  shows "let zs = filter (\<lambda>c. c \<notin> set xs) ys in
    if set_starved DefaultAllocator (plan xs) ([], s)
    then isl (Affinity_add DefaultAllocator plan other v s)
    else \<exists>held s1. set_fill DefaultAllocator (plan xs) s = Inr (held, s1) \<and>
      (if starved DefaultAllocator core_type (Core 0) (map PushBack zs) xs (v, s1)
       then isl (Affinity_add DefaultAllocator plan other v s)
       else \<exists>vs. Affinity_add DefaultAllocator plan other v s = Inr vs \<and>
         vec_ok os_inv os_owns (sort (xs @ zs)) vs)"
proof -
  have "length xs + length (filter (\<lambda>c. c \<notin> set xs) ys) < 2 ^ 60"
    using assms(3) length_filter_le [of "\<lambda>c. c \<notin> set xs" ys] by linarith
  then show ?thesis unfolding Let_def
    using default_chain.add_ok [OF assms(1,2) refl pushes_fit(1), of plan] assms(4) by blast
qed

lemma Affinity_list_ok:
  assumes "length cs \<le> 32"
  shows "\<exists>w. Affinity_list A cs s = Inr (w, s) \<and> vec_rep w cs \<and> alloc_ptr (v_allocation w) = 0 \<and>
    unat (v_capacity w) = 32"
proof -
  have "(of_nat (length cs) :: 64 word) \<le> v_capacity (vector_new 32)"
    using assms by (simp add: vector_new_def word_le_nat_alt unat_of_nat_64)
  then have "vector_reserve A core_type (of_nat (length cs)) (vector_new 32) s = Inr (vector_new 32 :: core vec, s)"
    by (intro reserve_noop) (simp add: vector_new_def)
  then have "Affinity_list A cs s =
      fold_res (\<lambda>c (v, s). vector_push_back A core_type (Given c) v s) cs (Affinity_new, s)"
    by (simp add: Affinity_list_def Affinity_new_def)
  then show ?thesis
    using pushes_within [OF Affinity_new_rep(1), of cs A core_type s] assms Affinity_new_rep
    by auto
qed

text \<open>
  A library that takes an array of 13 buckets with the first core, and a node of 16 bytes for each.
\<close>

definition node_plan :: "core list \<Rightarrow> set_block_op list" where
  "node_plan cs =
     (if cs = [] then []
      else TakeBlock \<lparr>ty_sizeof = 8, ty_alignof = 8\<rparr> 13 #
        map (\<lambda>_. TakeBlock \<lparr>ty_sizeof = 16, ty_alignof = 8\<rparr> 1) cs)"

lemma node_plan_ok: "plan_ok os_proper 0 (node_plan cs)"
proof -
  have "plan_ok os_proper k (map (\<lambda>_. TakeBlock \<lparr>ty_sizeof = 16, ty_alignof = 8\<rparr> 1) cs)" for k
    by (induction cs arbitrary: k)
      (simp_all add: os_proper_def StlAllocator_request_def default_request_def)
  then show ?thesis
    by (simp add: node_plan_def os_proper_def StlAllocator_request_def default_request_def)
qed

text \<open>The definitions that a concrete fill of the set evaluates.\<close>

lemmas set_evals = set_fill_def node_plan_def StlAllocator_allocate_def StlAllocator_request_def
  DefaultAllocator_def DefaultAllocator_allocate_def alignedMalloc_def default_request_def os_eval

theorem affinity_add_witness:
  "\<exists>v other vs. Affinity_list DefaultAllocator [Core 2, Core 1] (os_fresh [4096, 8192, 12288]) =
      Inr (v, os_fresh [4096, 8192, 12288]) \<and>
    Affinity_list DefaultAllocator [Core 1, Core 3, Core 3] (os_fresh [4096, 8192, 12288]) =
      Inr (other, os_fresh [4096, 8192, 12288]) \<and>
    Affinity_add DefaultAllocator node_plan other v (os_fresh [4096, 8192, 12288]) = Inr vs \<and>
    vec_rep (fst vs) [Core 1, Core 2, Core 3, Core 3]"
proof -
  let ?s = "os_fresh [4096, 8192, 12288]" and ?zs = "[Core 3, Core 3]"
  obtain v other where v: "Affinity_list DefaultAllocator [Core 2, Core 1] ?s = Inr (v, ?s)"
      "vec_rep v [Core 2, Core 1]" "alloc_ptr (v_allocation v) = 0" "unat (v_capacity v) = 32"
    and other: "Affinity_list DefaultAllocator [Core 1, Core 3, Core 3] ?s = Inr (other, ?s)"
      "vec_rep other [Core 1, Core 3, Core 3]"
    using Affinity_list_ok [of "[Core 2, Core 1]" DefaultAllocator ?s]
      Affinity_list_ok [of "[Core 1, Core 3, Core 3]" DefaultAllocator ?s] by auto
  have "vec_ok os_inv os_owns [Core 2, Core 1] (v, ?s)"
    using v by (simp add: vec_ok_def vec_owned_def os_inv_def os_fresh_def)
  note run = affinity_add [where plan = node_plan, OF this other(2) _ node_plan_ok]
  have cap: "v_capacity v = 32" using v(4) by (simp add: word_unat_eq_iff)
  have "\<not> starved DefaultAllocator core_type (Core 0) (map PushBack ?zs) [Core 2, Core 1] (v, t)" for t
  proof -
    obtain w where "vector_push_back DefaultAllocator core_type (Given (Core 3)) v t = Inr (w, t)"
        "v_capacity w = 32"
      using push_within [OF v(2), of DefaultAllocator core_type "Core 3" t] cap by auto
    then show ?thesis using cap by (auto simp: no_memory_def split: sum.splits)
  qed
  moreover have "\<not> set_starved DefaultAllocator (node_plan [Core 2, Core 1]) ([], ?s)"
    by (simp add: set_evals)
  moreover have "sort [Core 2, Core 1, Core 3, Core 3] = [Core 1, Core 2, Core 3, Core 3]"
    by (simp add: less_eq_core_def Core_less_def)
  ultimately show ?thesis using run v(1) other(1) by (auto simp: Let_def vec_ok_def)
qed

text \<open>\<open>remove\<close> on an allocator that keeps the contract.\<close>

context allocator_chain
begin

lemma remove_ok:
  assumes ok: "vec_ok inv owns xs (v, s)" and ys: "vec_rep other ys"
    and plan: "plan_ok proper 0 (plan ys)"
  shows "if set_starved A (plan ys) ([], s) then isl (Affinity_remove A plan other v s)
    else \<exists>w s'. Affinity_remove A plan other v s = Inr (w, s') \<and>
      vec_ok inv owns (sort (remove_cores (set ys) 0 xs)) (w, s') \<and>
      v_allocation w = v_allocation v \<and> live s' = live s"
proof -
  have rep: "vec_rep v xs" and hold: "holds_all inv owns sep s (map set_alloc [] @ vec_blocks v)"
    using ok by (simp_all add: vec_ok_blocks)
  show ?thesis
  proof (cases "set_starved A (plan ys) ([], s)")
    case True
    then show ?thesis using set_run [OF hold, of "plan ys"] plan read_all_ok [OF ys]
      by (auto simp: Affinity_remove_def set_fill_def isl_def)
  next
    case False
    then obtain held s1 where fill: "set_fill A (plan ys) s = Inr (held, s1)"
      "holds_all inv owns sep s1 (map set_alloc held @ vec_blocks v)" "live s1 = live s + length held"
      using set_run [OF hold, of "plan ys"] plan by (auto simp: set_fill_def)
    obtain u where u: "remove_loop A (set ys) 0 v s1 = Inr (u, s1)" "v_allocation u = v_allocation v"
      "vec_rep u (remove_cores (set ys) 0 xs)"
      using remove_loop_ok [OF rep, of 0 0 A "set ys" s1] by auto
    obtain w where w: "vector_sort u = Inr w" "vec_rep w (sort (remove_cores (set ys) 0 xs))"
      "v_allocation w = v_allocation u"
      using vector_sort_ok [OF u(3)] by blast
    obtain s2 where s2: "set_destruct A held s1 = Inr s2" "holds_all inv owns sep s2 (vec_blocks v)"
      "live s2 + length held = live s1"
      using set_destruct_ok [OF fill(2)] by blast
    have "Affinity_remove A plan other v s = Inr (w, s2)"
      using read_all_ok [OF ys] fill(1) u(1) w(1) s2(1) by (simp add: Affinity_remove_def)
    moreover have "vec_blocks w = vec_blocks v"
      using w(3) u(2) by (intro vec_blocks_cong) simp
    ultimately show ?thesis using w(2,3) u(2) s2(2,3) fill(3) False by (simp add: vec_ok_blocks)
  qed
qed

end

text \<open>
  C29. Over the default allocator, \<open>remove\<close> faults exactly when a block of its
  \<open>unordered_set\<close> gets no memory, whatever blocks the library takes for it (as long as
  the requests do not wrap and it returns only blocks it holds): the \<open>StlAllocator\<close> passes a null
  pointer on. Otherwise it gives every block of the set back and
  keeps the affinity's own storage; it keeps every core that the other affinity does not hold, with
  its multiplicity, adds none, and sorts the result; of the occurrences of the other affinity's cores
  at least half are removed, so the result is the exact difference when there is at most one of them.
\<close>

theorem affinity_remove:
  assumes "vec_ok os_inv os_owns xs (v, s)" "vec_rep other ys" "plan_ok os_proper 0 (plan ys)"
  shows "let zs = sort (remove_cores (set ys) 0 xs) in
    (if set_starved DefaultAllocator (plan ys) ([], s)
     then isl (Affinity_remove DefaultAllocator plan other v s)
     else \<exists>w s'. Affinity_remove DefaultAllocator plan other v s = Inr (w, s') \<and>
       vec_ok os_inv os_owns zs (w, s') \<and> v_allocation w = v_allocation v \<and>
       length (os_blocks s') = length (os_blocks s)) \<and>
    filter (\<lambda>c. c \<notin> set ys) zs = sort (filter (\<lambda>c. c \<notin> set ys) xs) \<and> mset zs \<subseteq># mset xs \<and>
    2 * length (filter (\<lambda>c. c \<in> set ys) zs) \<le> length (filter (\<lambda>c. c \<in> set ys) xs)"
proof -
  let ?r = "remove_cores (set ys) 0 xs"
  have "sort (filter (\<lambda>c. c \<notin> set ys) ?r) = sort (filter (\<lambda>c. c \<notin> set ys) xs)"
    by (rule properties_for_sort [THEN sym]) (simp_all add: remove_cores_kept [unfolded mset_filter])
  moreover have "length (filter (\<lambda>c. c \<in> set ys) (sort ?r)) = length (filter (\<lambda>c. c \<in> set ys) ?r)"
    using mset_filter [of "\<lambda>c. c \<in> set ys"] by (metis mset_sort size_mset)
  ultimately show ?thesis
    using default_chain.remove_ok [where plan = plan, OF assms] remove_cores_subset [of "set ys" 0 xs]
      remove_cores_left [of "set ys" 0 xs]
    by (simp add: left_over_def filter_sort Let_def)
qed

text \<open>
  An affinity less itself need not be empty: of two cores the second one stays. Without memory for
  the set there is no result at all.
\<close>

theorem affinity_remove_witness:
  "(\<exists>v w s. Affinity_list DefaultAllocator [Core 1, Core 2] (os_fresh [4096, 8192, 12288]) =
      Inr (v, os_fresh [4096, 8192, 12288]) \<and>
    Affinity_remove DefaultAllocator node_plan v v (os_fresh [4096, 8192, 12288]) = Inr (w, s) \<and>
    vec_rep w [Core 2]) \<and>
   (\<exists>v. Affinity_list DefaultAllocator [Core 1, Core 2] (os_fresh []) = Inr (v, os_fresh []) \<and>
    isl (Affinity_remove DefaultAllocator node_plan v v (os_fresh [])))"
proof -
  let ?s = "os_fresh [4096, 8192, 12288]" and ?cs = "[Core 1, Core 2]"
  have list: "\<exists>v. Affinity_list DefaultAllocator ?cs s = Inr (v, s) \<and>
      vec_rep v ?cs \<and> vec_ok os_inv os_owns ?cs (v, s)" if "os_inv s" for s
    using Affinity_list_ok [of ?cs DefaultAllocator s] that
    by (auto simp: vec_ok_def vec_owned_def)
  have inv: "os_inv (os_fresh ps)" for ps by (simp add: os_inv_def os_fresh_def)
  have "remove_cores (set ?cs) 0 ?cs = [Core 2]"
    by (simp add: remove_cores.simps)
  moreover have "\<not> set_starved DefaultAllocator (node_plan ?cs) ([], ?s)"
    "set_starved DefaultAllocator (node_plan ?cs) ([], os_fresh [])"
    by (simp_all add: set_evals)
  ultimately show ?thesis
    using list [OF inv, of "[4096, 8192, 12288]"] list [OF inv, of "[]"]
      affinity_remove [where plan = node_plan, OF _ _ node_plan_ok, of ?cs _ ?s _ ?cs]
      affinity_remove [where plan = node_plan, OF _ _ node_plan_ok, of ?cs _ "os_fresh []" _ ?cs]
    by (fastforce simp: Let_def vec_ok_def)
qed

end
