(* ===== verification/Thread.thy ===== *)
theory Thread
  imports Affinity
begin

text \<open>
  \<open>Thread\<close> (\<open>include/hfts/thread.hpp\<close>, \<open>src/thread.cpp\<close>): the CPU set that a thread
  asks the operating system for before it calls its function, the processor groups and the group
  affinity of the Windows branch, and the ownership of a \<open>Thread::Impl\<close> by the
  \<open>Thread\<close> objects it is moved between. The start of a thread by the operating system
  succeeds; what the thread does after \<open>setAffinity\<close> is the call of a function, which is a
  type parameter.
\<close>

unbundle bit_operations_syntax

subsection \<open>Affinity of the running thread\<close>

text \<open>glibc's \<open>CPU_SET\<close> ignores a number beyond the \<open>CPU_SETSIZE\<close> bits of the set.\<close>

definition CPU_ZERO :: cpu_set where
  "CPU_ZERO = replicate 1024 False"

definition CPU_SET :: "nat \<Rightarrow> cpu_set \<Rightarrow> cpu_set" where
  "CPU_SET i cpuset = cpuset[i := True]"

definition set_cpu :: "affinity \<Rightarrow> nat \<Rightarrow> cpu_set \<Rightarrow> cpu_set res" where
  "set_cpu aff i cpuset =
     bind_res (Affinity_index (of_nat i) aff) (\<lambda>core.
     Inr (CPU_SET (unat (pthread_index core)) cpuset))"

text \<open>The argument of \<open>pthread_setaffinity_np\<close>, if it is called.\<close>

definition setAffinity :: "affinity \<Rightarrow> cpu_set option res" where
  "setAffinity aff =
     (let count = Affinity_count aff in
      if count = 0 then Inr None
      else bind_res (fold_res (set_cpu aff) [0..<unat count] CPU_ZERO) (\<lambda>cpuset. Inr (Some cpuset)))"

text \<open>On Windows the group and the mask that the attributes of the new thread get, if any.\<close>

definition add_to_mask :: "affinity \<Rightarrow> nat \<Rightarrow> u64 \<Rightarrow> u64 res" where
  "add_to_mask aff i bits =
     bind_res (Affinity_index (of_nat i) aff) (\<lambda>core.
     bind_res (guard_res (unat (windows_index core) < 64) BadShift) (\<lambda>_.
     Inr (bits OR push_bit (unat (windows_index core)) 1)))"

definition group_affinity_windows :: "affinity \<Rightarrow> (byte \<times> u64) option res" where
  "group_affinity_windows aff =
     (let count = Affinity_count aff in
      if count > 0
      then bind_res (Affinity_index 0 aff) (\<lambda>first.
           bind_res (fold_res (add_to_mask aff) [0..<unat count] 0) (\<lambda>bits.
           Inr (Some (windows_group first, bits))))
      else Inr None)"

subsection \<open>Processors\<close>

text \<open>One record of \<open>GetLogicalProcessorInformationEx\<close>: is it about groups, and about which.\<close>

record processor_info =
  about_groups :: bool
  info_groups :: "processor_group list"

definition MaxGroupCount :: nat where
  "MaxGroupCount = 256"

definition add_group :: "processor_group \<Rightarrow> processor_group list \<Rightarrow> processor_group list res" where
  "add_group grp out =
     bind_res (guard_res (length out < MaxGroupCount) OutOfBounds) (\<lambda>_. Inr (out @ [grp]))"

definition getProcessorGroups :: "processor_info list \<Rightarrow> processor_group list res" where
  "getProcessorGroups infos =
     fold_res (\<lambda>info out. if about_groups info then fold_res add_group (info_groups info) out else Inr out)
       infos []"

definition numLogicalCPUs_windows :: "processor_group list \<Rightarrow> u32" where
  "numLogicalCPUs_windows groups = foldl (\<lambda>count grp. count + group_count grp) 0 groups"

text \<open>Elsewhere the answer of \<open>sysconf\<close>, a \<open>long\<close>, cut to an \<open>unsigned int\<close>.\<close>

definition numLogicalCPUs :: "64 word \<Rightarrow> u32" where
  "numLogicalCPUs answer = ucast answer"

subsection \<open>Ownership of the implementation\<close>

text \<open>
  The implementations that exist, by address. A \<open>Thread\<close> is its member \<open>impl\<close>:
  \<open>None\<close> for the null pointer.
\<close>

record 'f thread_impl =
  impl_affinity :: affinity
  impl_func :: 'f
  impl_joinable :: bool      \<comment> \<open>\<open>thread.joinable()\<close>\<close>

record 'f threads =
  impls :: "nat \<Rightarrow> 'f thread_impl option"
  next_impl :: nat

definition no_threads :: "'f threads" where
  "no_threads = \<lparr>impls = (\<lambda>_. None), next_impl = 0\<rparr>"

definition new_impl :: "affinity \<Rightarrow> 'f \<Rightarrow> 'f threads \<Rightarrow> nat \<times> 'f threads" where
  "new_impl aff f ts =
     (next_impl ts,
      ts\<lparr>impls := (impls ts)(next_impl ts := Some \<lparr>impl_affinity = aff, impl_func = f, impl_joinable = True\<rparr>),
         next_impl := next_impl ts + 1\<rparr>)"

text \<open>\<open>delete impl\<close> destroys its \<open>std::thread\<close>, which must not be joinable.\<close>

definition delete_impl :: "nat \<Rightarrow> 'f threads \<Rightarrow> 'f threads res" where
  "delete_impl p ts =
     (case impls ts p of
        None \<Rightarrow> Inl WildAccess
      | Some i \<Rightarrow> if impl_joinable i then Inl Terminated else Inr (ts\<lparr>impls := (impls ts)(p := None)\<rparr>))"

definition join_impl :: "nat \<Rightarrow> 'f threads \<Rightarrow> 'f threads res" where
  "join_impl p ts =
     (case impls ts p of
        None \<Rightarrow> Inl WildAccess
      | Some i \<Rightarrow>
          if impl_joinable i then Inr (ts\<lparr>impls := (impls ts)(p := Some (i\<lparr>impl_joinable := False\<rparr>))\<rparr>)
          else Inl Terminated)"

definition Thread_new ::
  "'s allocator \<Rightarrow> affinity \<Rightarrow> 'f \<Rightarrow> 'f threads \<Rightarrow> 's \<Rightarrow> (nat option \<times> affinity \<times> 'f threads \<times> 's) res" where
  "Thread_new A aff f ts s =
     bind_res (Affinity_move A aff s) (\<lambda>(own, aff, s).
     let (p, ts) = new_impl own f ts in Inr (Some p, aff, ts, s))"

definition Thread_new_all ::
  "'s allocator \<Rightarrow> cpu_set option \<Rightarrow> 'f \<Rightarrow> 'f threads \<Rightarrow> 's \<Rightarrow> (nat option \<times> affinity \<times> 'f threads \<times> 's) res" where
  "Thread_new_all A answer f ts s =
     bind_res (Affinity_all A answer s) (\<lambda>(aff, s). Thread_new A aff f ts s)"

text \<open>The body of the thread: the CPU set it asks for, and the function it calls.\<close>

definition thread_main :: "'f thread_impl \<Rightarrow> (cpu_set option \<times> 'f) res" where
  "thread_main i = bind_res (setAffinity (impl_affinity i)) (\<lambda>cpus. Inr (cpus, impl_func i))"

definition Thread_destruct :: "nat option \<Rightarrow> 'f threads \<Rightarrow> 'f threads" where
  "Thread_destruct this ts = ts"

definition Thread_join :: "nat option \<Rightarrow> 'f threads \<Rightarrow> (nat option \<times> 'f threads) res" where
  "Thread_join this ts =
     (case this of
        None \<Rightarrow> Inl NullDeref
      | Some p \<Rightarrow>
          bind_res (join_impl p ts) (\<lambda>ts.
          bind_res (delete_impl p ts) (\<lambda>ts. Inr (None, ts))))"

definition Thread_move :: "nat option \<Rightarrow> nat option \<times> nat option" where
  "Thread_move rhs = (let this = rhs; rhs = None in (this, rhs))"

text \<open>
  Move assignment between the \<open>Thread\<close> variables \<open>i\<close> and \<open>j\<close>, which may be the same
  one.
\<close>

definition Thread_move_assign ::
  "nat \<Rightarrow> nat \<Rightarrow> nat option list \<Rightarrow> 'f threads \<Rightarrow> (nat option list \<times> 'f threads) res" where
  "Thread_move_assign i j vars ts =
     bind_res
       (case vars ! i of
          None \<Rightarrow> Inr (vars, ts)
        | Some p \<Rightarrow> bind_res (delete_impl p ts) (\<lambda>ts. Inr (vars[i := None], ts)))
       (\<lambda>(vars, ts).
        let vars = vars[i := vars ! j];
            vars = vars[j := None]
        in Inr (vars, ts))"

subsection \<open>Programs over \<open>Thread\<close> variables\<close>

datatype 'f thread_op = Start affinity 'f | Join nat | MoveNew nat | MoveTo nat nat | Leave nat

fun thread_step ::
  "'s allocator \<Rightarrow> 'f thread_op \<Rightarrow> nat option list \<times> 'f threads \<times> 's \<Rightarrow>
   (nat option list \<times> 'f threads \<times> 's) res" where
  "thread_step A (Start aff f) (vars, ts, s) =
     bind_res (Thread_new A aff f ts s) (\<lambda>(this, aff, ts, s). Inr (vars @ [this], ts, s))"
| "thread_step A (Join i) (vars, ts, s) =
     bind_res (Thread_join (vars ! i) ts) (\<lambda>(this, ts). Inr (vars[i := this], ts, s))"
| "thread_step A (MoveNew i) (vars, ts, s) =
     (let (this, rhs) = Thread_move (vars ! i) in Inr (vars[i := rhs] @ [this], ts, s))"
| "thread_step A (MoveTo i j) (vars, ts, s) =
     bind_res (Thread_move_assign i j vars ts) (\<lambda>(vars, ts). Inr (vars, ts, s))"
| "thread_step A (Leave i) (vars, ts, s) =
     Inr (vars[i := None], Thread_destruct (vars ! i) ts, s)"

fun vars_of :: "'f thread_op \<Rightarrow> nat set" where
  "vars_of (Start aff f) = {}"
| "vars_of (Join i) = {i}"
| "vars_of (MoveNew i) = {i}"
| "vars_of (MoveTo i j) = {i, j}"
| "vars_of (Leave i) = {i}"

text \<open>
  Every implementation that a variable points to exists and runs, and no two variables point to the
  same one.
\<close>

definition owned_once :: "nat option list \<Rightarrow> 'f threads \<Rightarrow> bool" where
  "owned_once vars ts \<longleftrightarrow>
     (\<forall>p. Some p \<in> set vars \<longrightarrow> (\<exists>x. impls ts p = Some x \<and> impl_joinable x)) \<and>
     (\<forall>p. count (mset vars) (Some p) \<le> 1) \<and>
     (\<forall>p\<ge>next_impl ts. impls ts p = None)"

subsection \<open>The CPU set of a thread\<close>

lemma of_nat_index:
  assumes "vec_rep aff xs" "i < length xs"
  shows "Affinity_index (of_nat i) aff = Inr (xs ! i)"
proof -
  have "i < 2 ^ 64" using assms vec_repD(2) [OF assms(1)] unat_lt_2p64 [of "v_count aff"] by simp
  then show ?thesis using vec_rep_index [OF assms(1)] assms(2)
    by (simp add: Affinity_index_def vector_index_def unat_of_nat_64)
qed

lemma set_cpu_loop:
  assumes "vec_rep aff xs"
  shows "k \<le> length xs \<Longrightarrow> fold_res (set_cpu aff) [0..<k] cpuset =
    Inr (foldl (\<lambda>cs c. CPU_SET (unat (pthread_index c)) cs) cpuset (take k xs))"
proof (induction k)
  case (Suc k)
  then show ?case using of_nat_index [OF assms, of k]
    by (simp add: fold_res_append set_cpu_def take_Suc_conv_app_nth)
qed simp

lemma CPU_SET_nth: "k < length cpuset \<Longrightarrow> CPU_SET i cpuset ! k \<longleftrightarrow> cpuset ! k \<or> i = k"
  by (cases "i = k") (simp_all add: CPU_SET_def)

lemma length_CPU_SET [simp]: "length (CPU_SET i cpuset) = length cpuset"
  by (simp add: CPU_SET_def)

lemma foldl_CPU_SET:
  "length (foldl (\<lambda>cs c. CPU_SET (unat (pthread_index c)) cs) cpuset xs) = length cpuset"
  "k < length cpuset \<Longrightarrow> foldl (\<lambda>cs c. CPU_SET (unat (pthread_index c)) cs) cpuset xs ! k \<longleftrightarrow>
    cpuset ! k \<or> (\<exists>c\<in>set xs. unat (pthread_index c) = k)"
  by (induction xs arbitrary: cpuset) (auto simp: CPU_SET_nth)

lemma setAffinity_ok:
  assumes "vec_rep aff xs" "xs \<noteq> []"
  shows "\<exists>cpus. setAffinity aff = Inr (Some cpus) \<and> length cpus = 1024 \<and>
    (\<forall>k<1024. cpus ! k \<longleftrightarrow> (\<exists>c\<in>set xs. unat (pthread_index c) = k))"
proof -
  have "unat (Affinity_count aff) = length xs" "Affinity_count aff \<noteq> 0"
    using vec_repD(2) [OF assms(1)] no_cores [OF assms(1)] assms(2)
    by (simp_all add: Affinity_count_def vector_size_def)
  then show ?thesis
    using set_cpu_loop [OF assms(1), of "length xs" CPU_ZERO]
      foldl_CPU_SET(1) [of CPU_ZERO xs] foldl_CPU_SET(2) [of _ CPU_ZERO xs]
    by (auto simp: setAffinity_def Let_def CPU_ZERO_def)
qed

lemma add_to_mask_loop:
  assumes "vec_rep aff xs" "\<forall>c\<in>set xs. unat (windows_index c) < 64"
  shows "k \<le> length xs \<Longrightarrow> fold_res (add_to_mask aff) [0..<k] bits =
    Inr (foldl (\<lambda>m c. m OR push_bit (unat (windows_index c)) 1) bits (take k xs))"
proof (induction k)
  case (Suc k)
  then show ?case using of_nat_index [OF assms(1), of k] assms(2)
    by (simp add: fold_res_append add_to_mask_def take_Suc_conv_app_nth)
qed simp

lemma bit_foldl_mask:
  "bit (foldl (\<lambda>m c. m OR push_bit (unat (windows_index c)) (1 :: u64)) bits xs) k \<longleftrightarrow>
    bit bits k \<or> k < 64 \<and> (\<exists>c\<in>set xs. unat (windows_index c) = k)"
  by (induction xs arbitrary: bits) (auto simp: bit_simps)

lemma group_affinity_ok:
  assumes "vec_rep aff xs" "xs \<noteq> []" "\<forall>c\<in>set xs. unat (windows_index c) < 64"
  shows "\<exists>bits. group_affinity_windows aff = Inr (Some (windows_group (xs ! 0), bits)) \<and>
    (\<forall>k<64. bit bits k \<longleftrightarrow> (\<exists>c\<in>set xs. unat (windows_index c) = k))"
proof -
  have "unat (Affinity_count aff) = length xs" "Affinity_count aff > 0"
    using vec_repD(2) [OF assms(1)] no_cores [OF assms(1)] assms(2)
    by (simp_all add: Affinity_count_def vector_size_def word_gt_0)
  then show ?thesis
    using add_to_mask_loop [OF assms(1,3), of "length xs" 0] of_nat_index [OF assms(1), of 0]
      assms(2) bit_foldl_mask [of 0 xs]
    by (auto simp: group_affinity_windows_def Let_def)
qed

text \<open>A thread that takes over an affinity runs with it.\<close>

lemma Thread_new_ok:
  assumes "os_inv s" "vec_rep aff xs" "length xs < 2 ^ 60"
    and "\<not> no_memory DefaultAllocator core_type (v_count aff) Affinity_new s"
  shows "\<exists>i aff' s'. Thread_new DefaultAllocator aff f ts s =
      Inr (Some (next_impl ts), aff', ts\<lparr>impls := (impls ts)(next_impl ts := Some i),
        next_impl := next_impl ts + 1\<rparr>, s') \<and>
    vec_rep (impl_affinity i) xs \<and> impl_func i = f \<and> impl_joinable i \<and> os_inv s' \<and>
    vec_rep aff' []"
proof -
  have "of_nat (length xs) = v_count aff" using assms(2) by (simp add: vec_repD(2) [symmetric])
  then have "fits os_proper core_type (v_count aff)" using core_fits [OF assms(3)] by metis
  from default_alloc.Affinity_move_ok [OF assms(1,2) this assms(4)] obtain w aff' s' where
    "Affinity_move DefaultAllocator aff s = Inr (w, aff', s')" "vec_ok os_inv os_owns xs (w, s')"
    "vec_rep aff' []" by blast
  then show ?thesis
    by (auto simp: Thread_new_def new_impl_def Let_def vec_ok_def)
qed

text \<open>
  C30. A thread that is started with the affinity that the policy \<open>oneOf\<close> gives for its
  id asks the operating system for exactly one CPU, the one at position \<open>threadId % count\<close> of
  the policy's affinity, and then calls its function; ids that run through the positions use each
  CPU in turn.
\<close>

theorem oneOf_pins_thread:
  assumes "os_inv s" "vec_rep aff xs" "xs \<noteq> []"
  shows "\<exists>w ts' aff' s' i cpus. oneOf_get DefaultAllocator aff threadId s = Inr (w, s) \<and>
    Thread_new DefaultAllocator w f ts s = Inr (Some (next_impl ts), aff', ts', s') \<and>
    impls ts' (next_impl ts) = Some i \<and> thread_main i = Inr (Some cpus, f) \<and> length cpus = 1024 \<and>
    (\<forall>k<1024. cpus ! k \<longleftrightarrow> k = unat (pthread_index (xs ! (unat threadId mod length xs))))"
proof -
  let ?c = "xs ! (unat threadId mod length xs)"
  obtain w where w: "oneOf_get DefaultAllocator aff threadId s = Inr (w, s)" "vec_rep w [?c]"
    using oneOf_get_ok [OF assms(2,3), of DefaultAllocator threadId s] by blast
  have "v_count w = 1" using vec_repD(2) [OF w(2)] by (simp add: word_unat_eq_iff)
  then have mem: "\<not> no_memory DefaultAllocator core_type (v_count w) Affinity_new s"
    using Affinity_new_rep(3) by (simp add: no_memory_def)
  from Thread_new_ok [OF assms(1) w(2) _ mem, of f ts] obtain i aff' s' where
    "Thread_new DefaultAllocator w f ts s = Inr (Some (next_impl ts), aff',
      ts\<lparr>impls := (impls ts)(next_impl ts := Some i), next_impl := next_impl ts + 1\<rparr>, s')"
    "vec_rep (impl_affinity i) [?c]" "impl_func i = f"
    by auto
  with w(1) setAffinity_ok [of "impl_affinity i" "[?c]"] show ?thesis
    by (auto simp: thread_main_def)
qed

theorem oneOf_pins_thread_witness:
  "\<exists>aff w ts' aff' s' i cpus.
    Affinity_list DefaultAllocator [Core 4, Core 7, Core 9] (os_fresh []) = Inr (aff, os_fresh []) \<and>
    oneOf_get DefaultAllocator aff 4 (os_fresh []) = Inr (w, os_fresh []) \<and>
    Thread_new DefaultAllocator w () no_threads (os_fresh []) = Inr (Some 0, aff', ts', s') \<and>
    impls ts' 0 = Some i \<and> thread_main i = Inr (Some cpus, ()) \<and> cpus ! 7 \<and> \<not> cpus ! 4"
proof -
  obtain aff where aff: "Affinity_list DefaultAllocator [Core 4, Core 7, Core 9] (os_fresh []) =
      Inr (aff, os_fresh [])" "vec_rep aff [Core 4, Core 7, Core 9]"
    using Affinity_list_ok [of "[Core 4, Core 7, Core 9]" DefaultAllocator "os_fresh []"] by auto
  have "os_inv (os_fresh [])" by (simp add: os_inv_def os_fresh_def)
  from oneOf_pins_thread [OF this aff(2), of 4 "()" no_threads] aff(1) show ?thesis
    by (auto simp: no_threads_def)
qed

lemma windows_core_of_parts [simp]: "windows_core (windows_group c) (windows_index c) = c"
proof -
  have "windows_core (windows_group c) (windows_index c) =
      Core (ucast (windows_group c) OR push_bit 8 (ucast (windows_index c)))"
    unfolding windows_core_def
    by (rule arg_cong [where f = Core], rule disjunctive_add)
      (auto simp: bit_simps dest: bit_imp_le_length)
  also have "\<dots> = Core (pthread_index c)"
    by (rule arg_cong [where f = Core], rule bit_word_eqI)
      (auto simp: windows_group_def windows_index_def bit_simps)
  finally show ?thesis by simp
qed

text \<open>
  On Windows, where a thread belongs to one processor group, a thread started with the
  affinity that \<open>anyOf\<close> gives for its id gets the group of the core at position
  \<open>threadId % count\<close>, and a mask that has exactly the cores of that group which the policy's
  affinity holds: cores of other groups never end up in the mask.
\<close>

theorem anyOf_windows_group:
  assumes "os_inv s" "vec_rep aff xs" "xs \<noteq> []" "length xs < 2 ^ 60"
    and "\<forall>c\<in>set xs. unat (windows_index c) < 64"
    and "\<not> no_memory DefaultAllocator core_type (of_nat (length xs)) Affinity_new s"
  shows "\<exists>w s' bits. anyOf_get_windows DefaultAllocator aff threadId s = Inr (w, s') \<and> os_inv s' \<and>
    group_affinity_windows w =
      Inr (Some (windows_group (xs ! (unat threadId mod length xs)), bits)) \<and>
    (\<forall>k<64. bit bits k \<longleftrightarrow>
       windows_core (windows_group (xs ! (unat threadId mod length xs))) (of_nat k) \<in> set xs)"
proof -
  let ?c = "xs ! (unat threadId mod length xs)"
  let ?zs = "filter (\<lambda>c. windows_group c = windows_group ?c) xs"
  obtain w s' where w: "anyOf_get_windows DefaultAllocator aff threadId s = Inr (w, s')"
    "vec_ok os_inv os_owns ?zs (w, s')"
    using default_alloc.anyOf_get_windows_ok [OF assms(1-3) core_fits [OF assms(4)] assms(6)] by blast
  have "?c \<in> set ?zs" using assms(3) by simp
  then have zs: "?zs \<noteq> []" by (metis empty_iff empty_set)
  then have "windows_group (?zs ! 0) = windows_group ?c" using nth_mem [of 0 ?zs] by simp
  moreover have "\<forall>c\<in>set ?zs. unat (windows_index c) < 64" using assms(5) by simp
  moreover have "vec_rep w ?zs" using w(2) by (simp add: vec_ok_def)
  ultimately obtain bits where bits: "group_affinity_windows w = Inr (Some (windows_group ?c, bits))"
    "\<forall>k<64. bit bits k \<longleftrightarrow> (\<exists>c\<in>set ?zs. unat (windows_index c) = k)"
    using group_affinity_ok [of w ?zs] zs by auto
  have "(\<exists>c\<in>set ?zs. unat (windows_index c) = k) \<longleftrightarrow> windows_core (windows_group ?c) (of_nat k) \<in> set xs"
    if "k < 64" for k
  proof
    assume "\<exists>c\<in>set ?zs. unat (windows_index c) = k"
    then obtain c where "c \<in> set xs" "windows_group c = windows_group ?c" "of_nat k = windows_index c"
      by auto
    then show "windows_core (windows_group ?c) (of_nat k) \<in> set xs"
      by (metis windows_core_of_parts)
  next
    assume "windows_core (windows_group ?c) (of_nat k) \<in> set xs"
    moreover have "unat (of_nat k :: byte) = k" using that by (simp add: unat_of_nat)
    ultimately show "\<exists>c\<in>set ?zs. unat (windows_index c) = k"
      by (intro bexI [of _ "windows_core (windows_group ?c) (of_nat k)"]) simp_all
  qed
  with bits w show ?thesis by (auto simp: vec_ok_def)
qed

theorem anyOf_windows_group_witness:
  "\<exists>aff w s' bits. Affinity_list DefaultAllocator [windows_core 0 5, windows_core 1 2, windows_core 1 3]
      (os_fresh []) = Inr (aff, os_fresh []) \<and>
    anyOf_get_windows DefaultAllocator aff 4 (os_fresh []) = Inr (w, s') \<and>
    group_affinity_windows w = Inr (Some (1, bits)) \<and> bit bits 3 \<and> \<not> bit bits 5"
proof -
  let ?xs = "[windows_core 0 5, windows_core 1 2, windows_core 1 3]"
  obtain aff where aff: "Affinity_list DefaultAllocator ?xs (os_fresh []) = Inr (aff, os_fresh [])"
    "vec_rep aff ?xs"
    using Affinity_list_ok [of ?xs DefaultAllocator "os_fresh []"] by auto
  have "os_inv (os_fresh [])" by (simp add: os_inv_def os_fresh_def)
  moreover have "\<not> no_memory DefaultAllocator core_type (of_nat (length ?xs)) Affinity_new (os_fresh [])"
    using Affinity_new_rep(3) by (simp add: no_memory_def)
  ultimately obtain w s' bits where
    "anyOf_get_windows DefaultAllocator aff 4 (os_fresh []) = Inr (w, s')"
    "group_affinity_windows w = Inr (Some (1, bits))"
    "\<forall>k<64. bit bits k \<longleftrightarrow> windows_core 1 (of_nat k) \<in> set ?xs"
    using anyOf_windows_group [of "os_fresh []" aff ?xs 4] aff(2) by auto
  moreover have "windows_core 1 5 \<notin> set ?xs"
    by (auto dest: arg_cong [where f = windows_group] arg_cong [where f = windows_index])
  ultimately show ?thesis using aff(1) by fastforce
qed

subsection \<open>Ownership\<close>

definition thread_run ::
  "'s allocator \<Rightarrow> 'f thread_op list \<Rightarrow> nat option list \<times> 'f threads \<times> 's \<Rightarrow>
   (nat option list \<times> 'f threads \<times> 's) res" where
  "thread_run A ops =
     fold_res (\<lambda>op st. bind_res (guard_res (\<forall>i\<in>vars_of op. i < length (fst st)) OutOfBounds)
       (\<lambda>_. thread_step A op st)) ops"

text \<open>When a call faults, in a state where ownership is as it should be.\<close>

fun misused :: "'s allocator \<Rightarrow> 'f thread_op \<Rightarrow> nat option list \<Rightarrow> 's \<Rightarrow> bool" where
  "misused A (Start aff f) vars s = isl (Affinity_move A aff s)"
| "misused A (Join i) vars s = (vars ! i = None)"
| "misused A (MoveTo i j) vars s = (vars ! i \<noteq> None)"
| "misused A _ vars s = False"

lemma ownedD:
  assumes "owned_once vars ts" "Some p \<in> set vars"
  shows "\<exists>x. impls ts p = Some x \<and> impl_joinable x" "p < next_impl ts"
proof -
  show x: "\<exists>x. impls ts p = Some x \<and> impl_joinable x"
    using assms unfolding owned_once_def by blast
  show "p < next_impl ts" using assms(1) x unfolding owned_once_def by (metis not_le option.discI)
qed

text \<open>Copies of a pointer can only become fewer.\<close>

lemma owned_fewer:
  assumes "owned_once vars ts"
    and fewer: "\<And>p. count (mset vars') (Some p) \<le> count (mset vars) (Some p)"
  shows "owned_once vars' ts"
proof -
  have "Some p \<in> set vars" if "Some p \<in> set vars'" for p
    using fewer [of p] that by (metis count_greater_zero_iff leD not_gr_zero set_mset_mset)
  then show ?thesis using assms order_trans [OF fewer] unfolding owned_once_def by metis
qed

lemma count_update:
  "i < length vars \<Longrightarrow> count (mset (vars[i := v])) w =
     count (mset vars) w - (if vars ! i = w then 1 else 0) + (if v = w then 1 else 0)"
  by (simp add: mset_update)

lemma count_nth: "i < length vars \<Longrightarrow> 1 \<le> count (mset vars) (vars ! i)"
  by (simp add: Suc_le_eq)

lemma owned_no_threads: "owned_once [] no_threads"
  by (simp add: owned_once_def no_threads_def)

lemma join_result:
  assumes "owned_once vars ts" "i < length vars" "vars ! i = Some p"
  shows "Thread_join (vars ! i) ts = Inr (None, ts\<lparr>impls := (impls ts)(p := None)\<rparr>)"
  using ownedD(1) [OF assms(1), of p] assms(2,3) nth_mem [OF assms(2)]
  by (auto simp: Thread_join_def join_impl_def delete_impl_def)

lemma move_assign_result:
  assumes "owned_once vars ts" "i < length vars" "j < length vars"
  shows "Thread_move_assign i j vars ts =
    (if vars ! i = None then Inr (vars[i := vars ! j, j := None], ts) else Inl Terminated)"
proof (cases "vars ! i")
  case (Some p)
  then have "Some p \<in> set vars" using nth_mem [OF assms(2)] by simp
  from ownedD(1) [OF assms(1) this] Some show ?thesis
    by (auto simp: Thread_move_assign_def delete_impl_def)
qed (simp add: Thread_move_assign_def)

lemma owned_start:
  assumes "owned_once vars ts"
  shows "owned_once (vars @ [Some (next_impl ts)])
    (ts\<lparr>impls := (impls ts)(next_impl ts := Some \<lparr>impl_affinity = aff, impl_func = f, impl_joinable = True\<rparr>),
       next_impl := next_impl ts + 1\<rparr>)"
proof -
  have "Some (next_impl ts) \<notin> set vars" using ownedD(2) [OF assms] by blast
  moreover from this have "count (mset vars) (Some (next_impl ts)) = 0"
    by (simp add: not_in_iff [symmetric])
  ultimately show ?thesis using assms unfolding owned_once_def by (auto simp: Suc_le_eq)
qed

lemma owned_clear:
  assumes "owned_once vars ts" "i < length vars"
  shows "owned_once (vars[i := None]) ts"
    and "vars ! i = Some p \<Longrightarrow> owned_once (vars[i := None]) (ts\<lparr>impls := (impls ts)(p := None)\<rparr>)"
proof -
  show *: "owned_once (vars[i := None]) ts"
    by (rule owned_fewer [OF assms(1)]) (simp add: count_update [OF assms(2)])
  assume p: "vars ! i = Some p"
  have "count (mset (vars[i := None])) (Some p) = 0"
    using assms(1) p unfolding owned_once_def by (simp add: count_update [OF assms(2)])
  then have "Some p \<notin> set (vars[i := None])" by (metis count_eq_zero_iff set_mset_mset)
  with * show "owned_once (vars[i := None]) (ts\<lparr>impls := (impls ts)(p := None)\<rparr>)"
    unfolding owned_once_def by auto
qed

lemma owned_move_new:
  assumes "owned_once vars ts" "i < length vars"
  shows "owned_once (vars[i := None] @ [vars ! i]) ts"
proof (rule owned_fewer [OF assms(1)])
  fix p show "count (mset (vars[i := None] @ [vars ! i])) (Some p) \<le> count (mset vars) (Some p)"
    using count_nth [OF assms(2)] by (auto simp: count_update [OF assms(2)])
qed

lemma owned_move_to:
  assumes "owned_once vars ts" "i < length vars" "j < length vars" "vars ! i = None"
  shows "owned_once (vars[i := vars ! j, j := None]) ts"
proof (rule owned_fewer [OF assms(1)])
  fix p show "count (mset (vars[i := vars ! j, j := None])) (Some p) \<le> count (mset vars) (Some p)"
    using assms(2-4) count_nth [OF assms(3)]
    by (cases "i = j") (auto simp: count_update)
qed

lemma owned_step:
  assumes "owned_once vars ts" "\<forall>i\<in>vars_of op. i < length vars"
    "thread_step A op (vars, ts, s) = Inr (vars', ts', s')"
  shows "owned_once vars' ts'"
proof (cases op)
  case (Start aff f)
  then show ?thesis using assms owned_start [OF assms(1)]
    by (auto simp: Thread_new_def new_impl_def Let_def)
next
  case (Join i)
  then obtain p where p: "vars ! i = Some p" using assms(3)
    by (cases "vars ! i") (auto simp: Thread_join_def)
  then show ?thesis using Join assms join_result [OF assms(1) _ p] owned_clear(2) [OF assms(1) _ p]
    by auto
next
  case (MoveNew i)
  then show ?thesis using assms owned_move_new [OF assms(1)] by (auto simp: Thread_move_def)
next
  case (MoveTo i j)
  then show ?thesis using assms move_assign_result [OF assms(1)] owned_move_to [OF assms(1)]
    by (auto split: if_splits)
next
  case (Leave i)
  then show ?thesis using assms owned_clear(1) [OF assms(1)] by (auto simp: Thread_destruct_def)
qed

lemma step_faults:
  assumes "owned_once vars ts" "\<forall>i\<in>vars_of op. i < length vars"
  shows "isl (thread_step A op (vars, ts, s)) \<longleftrightarrow> misused A op vars s"
proof (cases op)
  case (Start aff f)
  then show ?thesis
    by (cases "Affinity_move A aff s") (auto simp: Thread_new_def new_impl_def Let_def)
next
  case (Join i)
  show ?thesis
  proof (cases "vars ! i")
    case (Some p)
    then show ?thesis using Join assms join_result [OF assms(1) _ Some] by simp
  qed (simp add: Join Thread_join_def)
next
  case (MoveTo i j)
  then show ?thesis using assms move_assign_result [OF assms(1)] by auto
qed (simp_all add: Thread_move_def)

lemma thread_run_owned:
  assumes "thread_run A ops st = Inr st'" "owned_once (fst st) (fst (snd st))"
  shows "owned_once (fst st') (fst (snd st'))"
  using assms unfolding thread_run_def
  by (rule fold_res_invariant [where P = "\<lambda>st. owned_once (fst st) (fst (snd st))"])
    (auto intro: owned_step)

text \<open>
  C31. However \<open>Thread\<close> objects are started, joined, moved and left, each running
  implementation is pointed to by one of them at most, so none is joined or deleted twice or used
  after its deletion. The only faults are a \<open>join\<close> of an empty object, a move assignment to
  one that still has its thread, which is always fatal, whichever object is assigned (itself
  included), and a start with an affinity that cannot be moved, that is, one with more cores than the
  inline buffer of 32 while there is no memory for them.
\<close>

theorem thread_ownership:
  assumes "thread_run A ops ([], no_threads, s) = Inr (vars, ts, t)"
    and "\<forall>i\<in>vars_of op. i < length vars"
  shows "owned_once vars ts \<and> (isl (thread_step A op (vars, ts, t)) \<longleftrightarrow> misused A op vars t)"
proof -
  have "owned_once vars ts" using thread_run_owned [OF assms(1)] by (simp add: owned_no_threads)
  then show ?thesis using step_faults [OF \<open>owned_once vars ts\<close> assms(2), of A t] by (rule conjI)
qed

text \<open>A thread that is assigned to a variable which still runs one ends the process.\<close>

theorem thread_ownership_witness:
  "\<exists>vars ts t. thread_run DefaultAllocator
      [Start Affinity_new (), Start Affinity_new (), MoveNew 0, Join 2] ([], no_threads, os_fresh []) =
      Inr (vars, ts, t) \<and> vars = [None, Some 1, None] \<and>
    isl (thread_step DefaultAllocator (MoveTo 1 1) (vars, ts, t)) \<and>
    \<not> isl (thread_step DefaultAllocator (MoveTo 0 1) (vars, ts, t))"
proof -
  have move: "Affinity_move DefaultAllocator Affinity_new s = Inr (Affinity_new, Affinity_new, s)" for s
  proof -
    have "vector_resize DefaultAllocator core_type (Core 0) 0 Affinity_new s = Inr (Affinity_new, s)"
      using Affinity_new_rep(4) by (simp add: vector_resize_def)
    moreover have "Affinity_new\<lparr>v_count := 0\<rparr> = Affinity_new"
      using Affinity_new_rep(4) by (cases Affinity_new) simp
    ultimately show ?thesis
      using Affinity_new_rep(3-5)
      by (simp add: Affinity_move_def Affinity_new_def [symmetric] vector_move_assign_def vector_free_def)
  qed
  obtain vars ts t where run: "thread_run DefaultAllocator
      [Start Affinity_new (), Start Affinity_new (), MoveNew 0, Join 2] ([], no_threads, os_fresh []) =
      Inr (vars, ts, t)" "vars = [None, Some 1, None]"
    by (simp add: thread_run_def Thread_new_def new_impl_def move Thread_move_def no_threads_def
        Thread_join_def join_impl_def delete_impl_def Let_def)
  from thread_ownership [OF run(1), of "MoveTo 1 1"] thread_ownership [OF run(1), of "MoveTo 0 1"]
  show ?thesis using run by auto
qed

end
