(* ===== verification/Linked_List.thy ===== *)
theory Linked_List
  imports Memory
begin

text \<open>
  \<open>hfts::containers::list<T>\<close> of \<open>include/hfts/containers.hpp\<close>: a doubly linked list
  that keeps its unused entries in a second linked list and releases memory only in its destructor.
  The heap of entries is explicit, so that the pointer surgery of \<open>unlink\<close> and
  \<open>link\<close> is what the proofs are about. An entry is addressed by the number of the block it
  lies in and its index there.
\<close>

subsection \<open>State\<close>

type_synonym entry_ref = "nat \<times> nat"
type_synonym entry_ptr = "entry_ref option"    \<comment> \<open>\<open>Entry*\<close>, \<open>None\<close> for \<open>nullptr\<close>\<close>

record 'a entry =
  e_data :: "'a option"          \<comment> \<open>\<open>None\<close>: no object is alive in \<open>data\<close>\<close>
  e_next :: entry_ptr
  e_prev :: entry_ptr

type_synonym 'a entry_heap = "entry_ref \<Rightarrow> 'a entry option"

record 'a linked =
  l_heap :: "'a entry_heap"
  l_size :: size_t
  l_capacity :: size_t
  l_allocations :: "allocation list"    \<comment> \<open>the chain, newest first\<close>
  l_free :: entry_ptr
  l_head :: entry_ptr

definition list_new :: "'a linked" where
  "list_new = \<lparr>l_heap = Map.empty, l_size = 0, l_capacity = 0, l_allocations = [],
               l_free = None, l_head = None\<rparr>"

subsection \<open>Access through an \<open>Entry*\<close>\<close>

definition entry_at :: "entry_ptr \<Rightarrow> 'a entry_heap \<Rightarrow> 'a entry res" where
  "entry_at p h =
     (case p of None \<Rightarrow> Inl NullDeref
      | Some r \<Rightarrow> (case h r of None \<Rightarrow> Inl WildAccess | Some e \<Rightarrow> Inr e))"

definition entry_update ::
  "entry_ptr \<Rightarrow> ('a entry \<Rightarrow> 'a entry) \<Rightarrow> 'a entry_heap \<Rightarrow> 'a entry_heap res" where
  "entry_update p f h = bind_res (entry_at p h) (\<lambda>e. Inr (h(the p \<mapsto> f e)))"

subsection \<open>\<open>unlink\<close> and \<open>link\<close>\<close>

text \<open>Both take the list's first pointer by reference; it is the first part of the result.\<close>

definition unlink :: "entry_ptr \<Rightarrow> entry_ptr \<Rightarrow> 'a entry_heap \<Rightarrow> (entry_ptr \<times> 'a entry_heap) res" where
  "unlink entry list h =
     bind_res (if list = entry then bind_res (entry_at list h) (\<lambda>e. Inr (e_next e)) else Inr list)
       (\<lambda>list.
     bind_res (entry_at entry h) (\<lambda>e.
     bind_res (if e_prev e \<noteq> None
               then entry_update (e_prev e) (\<lambda>p. p\<lparr>e_next := e_next e\<rparr>) h else Inr h) (\<lambda>h.
     bind_res (entry_at entry h) (\<lambda>e.
     bind_res (if e_next e \<noteq> None
               then entry_update (e_next e) (\<lambda>n. n\<lparr>e_prev := e_prev e\<rparr>) h else Inr h) (\<lambda>h.
     bind_res (entry_update entry (\<lambda>e. e\<lparr>e_next := None, e_prev := None\<rparr>) h) (\<lambda>h.
     Inr (list, h)))))))"

definition link :: "entry_ptr \<Rightarrow> entry_ptr \<Rightarrow> 'a entry_heap \<Rightarrow> (entry_ptr \<times> 'a entry_heap) res" where
  "link entry list h =
     bind_res (if list \<noteq> None
               then bind_res (entry_update entry (\<lambda>e. e\<lparr>e_next := list\<rparr>) h) (\<lambda>h.
                    entry_update list (\<lambda>l. l\<lparr>e_prev := entry\<rparr>) h)
               else Inr h) (\<lambda>h.
     Inr (entry, h))"

subsection \<open>Growing\<close>

record entry_type =
  ent_sizeof :: size_t       \<comment> \<open>\<open>sizeof(Entry)\<close>\<close>
  ent_alignof :: size_t
  chain_sizeof :: size_t     \<comment> \<open>\<open>sizeof(AllocationChain)\<close>\<close>
  chain_alignof :: size_t

definition list_request :: "entry_type \<Rightarrow> size_t \<Rightarrow> request" where
  "list_request T allocSize =
     default_request\<lparr>req_size := allocSize,
                     req_alignment := max (ent_alignof T) (chain_alignof T), req_usage := List\<rparr>"

text \<open>The body of the loop: entry \<open>i\<close> of the new block, which has room for \<open>room\<close> entries.\<close>

definition grow_step :: "bool \<Rightarrow> nat \<Rightarrow> nat \<Rightarrow> nat \<Rightarrow> 'a linked \<Rightarrow> 'a linked res" where
  "grow_step null room block i l =
     (if null then Inl NullDeref
      else if room \<le> i then Inl OutOfBounds
      else let h = (l_heap l)((block, i) \<mapsto> \<lparr>e_data = None, e_next = l_free l, e_prev = None\<rparr>)
           in bind_res (if l_free l \<noteq> None
                        then entry_update (l_free l) (\<lambda>f. f\<lparr>e_prev := Some (block, i)\<rparr>) h
                        else Inr h) (\<lambda>h.
              Inr (l\<lparr>l_heap := h, l_free := Some (block, i)\<rparr>)))"

definition list_grow ::
  "'s allocator \<Rightarrow> entry_type \<Rightarrow> size_t \<Rightarrow> 'a linked \<Rightarrow> 's \<Rightarrow> ('a linked \<times> 's) res" where
  "list_grow A T count l s =
     (let entriesSize = ent_sizeof T * count
      in bind_res (alignUp entriesSize (chain_alignof T)) (\<lambda>allocChainOffset.
         let allocSize = allocChainOffset + chain_sizeof T
         in bind_res (vt_allocate A (list_request T allocSize) s) (\<lambda>(alloc, s).
            let null = (alloc_ptr alloc = 0);
                room = unat allocSize div unat (ent_sizeof T)
            in bind_res (fold_res (grow_step null room (length (l_allocations l)))
                           [0..<unat count] l) (\<lambda>l.
               bind_res (guard_res (\<not> null) NullDeref) (\<lambda>_.
               bind_res (guard_res (unat allocChainOffset + unat (chain_sizeof T) \<le> unat allocSize)
                           OutOfBounds) (\<lambda>_.
               Inr (l\<lparr>l_allocations := alloc # l_allocations l,
                      l_capacity := l_capacity l + count\<rparr>, s)))))))"

subsection \<open>The operations\<close>

definition list_begin :: "'a linked \<Rightarrow> entry_ptr" where
  "list_begin l = l_head l"

definition list_end :: "'a linked \<Rightarrow> entry_ptr" where
  "list_end l = None"

definition list_size :: "'a linked \<Rightarrow> size_t" where
  "list_size l = l_size l"

definition iterator_deref :: "entry_ptr \<Rightarrow> 'a linked \<Rightarrow> 'a res" where
  "iterator_deref it l =
     bind_res (entry_at it (l_heap l)) (\<lambda>e.
     case e_data e of None \<Rightarrow> Inl NoObject | Some x \<Rightarrow> Inr x)"

definition iterator_incr :: "entry_ptr \<Rightarrow> 'a linked \<Rightarrow> entry_ptr res" where
  "iterator_incr it l = bind_res (entry_at it (l_heap l)) (\<lambda>e. Inr (e_next e))"

definition iterator_eq :: "entry_ptr \<Rightarrow> entry_ptr \<Rightarrow> bool" where
  "iterator_eq it rhs \<longleftrightarrow> it = rhs"

definition list_emplace_front ::
  "'s allocator \<Rightarrow> entry_type \<Rightarrow> 'a \<Rightarrow> 'a linked \<Rightarrow> 's \<Rightarrow> (entry_ptr \<times> 'a linked \<times> 's) res" where
  "list_emplace_front A T x l s =
     bind_res (if l_free l = None then list_grow A T (max (l_capacity l) 8) l s else Inr (l, s))
       (\<lambda>(l, s).
     let entry = l_free l
     in bind_res (unlink entry (l_free l) (l_heap l)) (\<lambda>(free, h).
        bind_res (link entry (l_head l) h) (\<lambda>(head, h).
        bind_res (entry_update entry (\<lambda>e. e\<lparr>e_data := Some x\<rparr>) h) (\<lambda>h.
        Inr (entry, l\<lparr>l_heap := h, l_free := free, l_head := head, l_size := l_size l + 1\<rparr>, s)))))"

text \<open>The destructor call \<open>entry->data.~T()\<close>.\<close>

definition destroy_data :: "entry_ptr \<Rightarrow> 'a entry_heap \<Rightarrow> 'a entry_heap res" where
  "destroy_data p h =
     bind_res (entry_at p h) (\<lambda>e.
     if e_data e = None then Inl NoObject else entry_update p (\<lambda>e. e\<lparr>e_data := None\<rparr>) h)"

definition list_erase :: "entry_ptr \<Rightarrow> 'a linked \<Rightarrow> 'a linked res" where
  "list_erase entry l =
     bind_res (unlink entry (l_head l) (l_heap l)) (\<lambda>(head, h).
     bind_res (link entry (l_free l) h) (\<lambda>(free, h).
     bind_res (destroy_data entry h) (\<lambda>h.
     Inr (l\<lparr>l_heap := h, l_free := free, l_head := head, l_size := l_size l - 1\<rparr>))))"

text \<open>The two loops of the destructor.\<close>

partial_function (option) destroy_loop :: "entry_ptr \<Rightarrow> 'a entry_heap \<Rightarrow> 'a entry_heap res option" where
  "destroy_loop el h =
     (if el = None then Some (Inr h)
      else case bind_res (destroy_data el h) (\<lambda>h. bind_res (entry_at el h) (\<lambda>e. Inr (e_next e, h))) of
             Inl f \<Rightarrow> Some (Inl f)
           | Inr (el, h) \<Rightarrow> destroy_loop el h)"

fun free_chain :: "'s allocator \<Rightarrow> allocation list \<Rightarrow> 's \<Rightarrow> 's res" where
  "free_chain A [] s = Inr s"
| "free_chain A (a # as) s = bind_res (vt_free A a s) (free_chain A as)"

definition list_destruct :: "'s allocator \<Rightarrow> 'a linked \<Rightarrow> 's \<Rightarrow> 's res option" where
  "list_destruct A l s =
     (case destroy_loop (l_head l) (l_heap l) of
        None \<Rightarrow> None
      | Some r \<Rightarrow> Some (bind_res r (\<lambda>_. free_chain A (l_allocations l) s)))"

text \<open>A range-based \<open>for\<close> over the list, as its users write it: the values in order.\<close>

partial_function (option) list_walk :: "entry_ptr \<Rightarrow> 'a linked \<Rightarrow> 'a list \<Rightarrow> 'a list res option" where
  "list_walk it l acc =
     (if iterator_eq it (list_end l) then Some (Inr (rev acc))
      else case bind_res (iterator_deref it l) (\<lambda>x.
                bind_res (iterator_incr it l) (\<lambda>it. Inr (it, x))) of
             Inl f \<Rightarrow> Some (Inl f)
           | Inr (it, x) \<Rightarrow> list_walk it l (x # acc))"

subsection \<open>Linked segments\<close>

text \<open>
  \<open>chain h q xs n\<close>: the entries \<open>xs\<close> are linked in this order, the first one's
  \<open>prev\<close> is \<open>q\<close> and the last one's \<open>next\<close> is \<open>n\<close>.
\<close>

definition first_ptr :: "entry_ref list \<Rightarrow> entry_ptr \<Rightarrow> entry_ptr" where
  "first_ptr xs n = (case xs of [] \<Rightarrow> n | r # _ \<Rightarrow> Some r)"

definition last_ptr :: "entry_ptr \<Rightarrow> entry_ref list \<Rightarrow> entry_ptr" where
  "last_ptr q xs = (if xs = [] then q else Some (last xs))"

fun chain :: "'a entry_heap \<Rightarrow> entry_ptr \<Rightarrow> entry_ref list \<Rightarrow> entry_ptr \<Rightarrow> bool" where
  "chain h q [] n \<longleftrightarrow> True"
| "chain h q (r # rs) n \<longleftrightarrow>
     (\<exists>e. h r = Some e \<and> e_prev e = q \<and> e_next e = first_ptr rs n) \<and> chain h (Some r) rs n"

definition data_at :: "'a entry_heap \<Rightarrow> entry_ref \<Rightarrow> 'a option" where
  "data_at h r = (case h r of None \<Rightarrow> None | Some e \<Rightarrow> e_data e)"

lemma first_ptr_simps [simp]: "first_ptr [] n = n" "first_ptr (r # rs) n = Some r"
  by (simp_all add: first_ptr_def)

lemma last_ptr_simps [simp]:
  "last_ptr q [] = q" "last_ptr q (r # rs) = last_ptr (Some r) rs"
  "last_ptr q (rs @ [r]) = Some r"
  by (simp_all add: last_ptr_def)

lemma first_ptr_append [simp]: "first_ptr (xs @ ys) n = first_ptr xs (first_ptr ys n)"
  by (cases xs) simp_all

lemma chain_append [simp]:
  "chain h q (xs @ ys) n \<longleftrightarrow> chain h q xs (first_ptr ys n) \<and> chain h (last_ptr q xs) ys n"
  by (induction xs arbitrary: q) auto

lemma chain_upd_other [simp]: "r \<notin> set xs \<Longrightarrow> chain (h(r := e)) q xs n = chain h q xs n"
  by (induction xs arbitrary: q) auto

lemma chain_dom: "chain h q xs n \<Longrightarrow> r \<in> set xs \<Longrightarrow> \<exists>e. h r = Some e"
  by (induction xs arbitrary: q) auto

lemma chain_cong: "(\<And>r. r \<in> set xs \<Longrightarrow> h r = k r) \<Longrightarrow> chain h q xs n = chain k q xs n"
  by (induction xs arbitrary: q) auto

text \<open>A chain survives in a heap that agrees outside a set of entries apart from it.\<close>

lemma chain_apart:
  assumes "chain h q xs n" "\<And>y. y \<notin> S \<Longrightarrow> k y = h y" "S \<inter> set xs = {}"
  shows "chain k q xs n"
proof -
  have "k y = h y" if "y \<in> set xs" for y using that assms(3) by (intro assms(2)) blast
  then show ?thesis using assms(1) chain_cong [of xs k h] by blast
qed

lemma data_at_upd: "data_at (h(r \<mapsto> e)) x = (if x = r then e_data e else data_at h x)"
  by (simp add: data_at_def)

lemma entry_at_simps [simp]:
  "entry_at None h = Inl NullDeref" "h r = Some e \<Longrightarrow> entry_at (Some r) h = Inr e"
  "h r = None \<Longrightarrow> entry_at (Some r) h = Inl WildAccess"
  by (simp_all add: entry_at_def)

lemma entry_at_eq_Inr: "entry_at p h = Inr e \<longleftrightarrow> (\<exists>r. p = Some r \<and> h r = Some e)"
  by (auto simp: entry_at_def split: option.splits)

lemma entry_update_simps [simp]:
  "entry_update None f h = Inl NullDeref" "h r = None \<Longrightarrow> entry_update (Some r) f h = Inl WildAccess"
  "h r = Some e \<Longrightarrow> entry_update (Some r) f h = Inr (h(r \<mapsto> f e))"
  by (simp_all add: entry_update_def)

lemma entry_update_eq_Inr:
  "entry_update p f h = Inr k \<longleftrightarrow> (\<exists>r e. p = Some r \<and> h r = Some e \<and> k = h(r \<mapsto> f e))"
  by (auto simp: entry_update_def entry_at_eq_Inr)

text \<open>Changing the \<open>next\<close> of the last entry, or the \<open>prev\<close> of the first.\<close>

lemma chain_set_next:
  assumes "chain h q (xs @ [r]) n" "distinct (xs @ [r])" "h r = Some e"
  shows "chain (h(r \<mapsto> e\<lparr>e_next := n'\<rparr>)) q (xs @ [r]) n'"
  using assms by auto

lemma chain_set_prev:
  assumes "chain h q (r # xs) n" "distinct (r # xs)" "h r = Some e"
  shows "chain (h(r \<mapsto> e\<lparr>e_prev := q'\<rparr>)) q' (r # xs) n"
  using assms by auto

subsection \<open>What \<open>unlink\<close> and \<open>link\<close> do\<close>

text \<open>The entries of \<open>k\<close> are those of \<open>h\<close>, with the same objects alive in them.\<close>

definition same_data :: "'a entry_heap \<Rightarrow> 'a entry_heap \<Rightarrow> bool" where
  "same_data h k \<longleftrightarrow> data_at k = data_at h \<and> dom k = dom h"

lemma same_data_refl [simp]: "same_data h h"
  by (simp add: same_data_def)

lemma same_data_trans: "same_data h k \<Longrightarrow> same_data k m \<Longrightarrow> same_data h m"
  by (simp add: same_data_def)

lemma same_data_update [simp]:
  "h r = Some e \<Longrightarrow> e_data (f e) = e_data e \<Longrightarrow> same_data h (h(r \<mapsto> f e))"
  by (auto simp: same_data_def data_at_def)

lemma same_data_entry_update:
  "entry_update p f h = Inr k \<Longrightarrow> (\<And>e. e_data (f e) = e_data e) \<Longrightarrow> same_data h k"
  by (auto simp: entry_update_eq_Inr)

lemma unlink_same_data: "unlink r list h = Inr (list', k) \<Longrightarrow> same_data h k"
  unfolding unlink_def
  by (auto split: if_splits dest!: same_data_entry_update intro: same_data_trans)

lemma link_same_data: "link r list h = Inr (list', k) \<Longrightarrow> same_data h k"
  unfolding link_def
  by (auto split: if_splits dest!: same_data_entry_update intro: same_data_trans)

lemma unlink_chain:
  assumes "chain h None (as @ r # bs) None" "distinct (as @ r # bs)"
  obtains k where "unlink (Some r) (first_ptr (as @ r # bs) None) h = Inr (first_ptr (as @ bs) None, k)"
    "chain k None (as @ bs) None" "\<exists>e. k r = Some e \<and> e_next e = None \<and> e_prev e = None"
    "\<And>x. x \<notin> set (as @ r # bs) \<Longrightarrow> k x = h x"
proof -
  obtain e where e: "h r = Some e" "e_prev e = last_ptr None as" "e_next e = first_ptr bs None"
    using assms(1) by auto
  have bs: "chain h (Some r) bs None" and as: "chain h None as (Some r)" using assms(1) by simp_all
  show ?thesis
  proof (cases as rule: rev_cases)
    case Nil
    show ?thesis
    proof (cases bs)
      case Nil
      show ?thesis
        by (rule that [of "h(r \<mapsto> e\<lparr>e_next := None, e_prev := None\<rparr>)"])
          (use e Nil \<open>as = []\<close> in \<open>simp_all add: unlink_def\<close>)
    next
      case (Cons b bs')
      obtain d where d: "h b = Some d" using bs Cons by auto
      have "r \<noteq> b" using assms(2) Cons by simp
      then show ?thesis
        using e Cons \<open>as = []\<close> d chain_set_prev [of h "Some r" b bs' None d None] bs assms(2)
        by (intro that [of "h(b \<mapsto> d\<lparr>e_prev := None\<rparr>, r \<mapsto> e\<lparr>e_next := None, e_prev := None\<rparr>)"])
          (auto simp: unlink_def)
    qed
  next
    case (snoc as' a)
    obtain c where c: "h a = Some c" using as snoc by auto
    have ra: "r \<noteq> a" using assms(2) snoc by auto
    have first: "first_ptr (as @ r # bs) None \<noteq> Some r"
      using assms(2) snoc by (cases as') auto
    have as2: "chain (h(a \<mapsto> c\<lparr>e_next := first_ptr bs None\<rparr>)) None (as' @ [a]) (first_ptr bs None)"
      using as assms(2) c unfolding snoc by (intro chain_set_next) auto
    show ?thesis
    proof (cases bs)
      case Nil
      show ?thesis
        using e Nil snoc c ra first as2 assms(2)
        by (intro that [of "h(a \<mapsto> c\<lparr>e_next := None\<rparr>, r \<mapsto> e\<lparr>e_next := None, e_prev := None\<rparr>)"])
          (auto simp: unlink_def)
    next
      case (Cons b bs')
      obtain d where d: "h b = Some d" using bs Cons by auto
      have ne: "r \<noteq> b" "a \<noteq> b" using assms(2) Cons snoc by auto
      have "chain (h(b \<mapsto> d\<lparr>e_prev := Some a\<rparr>)) (Some a) (b # bs') None"
        using bs d assms(2) unfolding Cons by (intro chain_set_prev) auto
      then show ?thesis
        using e Cons snoc c d ra ne first as2 assms(2)
        by (intro that [of "h(a \<mapsto> c\<lparr>e_next := Some b\<rparr>, b \<mapsto> d\<lparr>e_prev := Some a\<rparr>,
              r \<mapsto> e\<lparr>e_next := None, e_prev := None\<rparr>)"])
          (auto simp: unlink_def)
    qed
  qed
qed

lemma link_chain:
  assumes "chain h None xs None" "distinct (r # xs)" "h r = Some e" "e_next e = None" "e_prev e = None"
  obtains k where "link (Some r) (first_ptr xs None) h = Inr (Some r, k)"
    "chain k None (r # xs) None" "\<And>x. x \<notin> set (r # xs) \<Longrightarrow> k x = h x"
proof (cases xs)
  case Nil
  then show ?thesis using assms by (intro that [of h]) (auto simp: link_def)
next
  case (Cons b xs')
  obtain d where d: "h b = Some d" using assms(1) Cons by auto
  have "chain (h(b \<mapsto> d\<lparr>e_prev := Some r\<rparr>)) (Some r) (b # xs') None"
    using assms(1,2) d unfolding Cons by (intro chain_set_prev) auto
  then show ?thesis using assms d Cons
    by (intro that [of "h(r \<mapsto> e\<lparr>e_next := Some b\<rparr>, b \<mapsto> d\<lparr>e_prev := Some r\<rparr>)"])
      (auto simp: link_def)
qed

subsection \<open>The list a state stands for\<close>

text \<open>
  \<open>list_rep l xs\<close>: the iterators of \<open>xs\<close>, in order, hold the values of
  \<open>xs\<close>; every other entry is on the free list and holds no object.
\<close>

definition list_rep_free :: "'a linked \<Rightarrow> (entry_ref \<times> 'a) list \<Rightarrow> entry_ref list \<Rightarrow> bool" where
  "list_rep_free l xs fs \<longleftrightarrow>
     chain (l_heap l) None (map fst xs) None \<and> l_head l = first_ptr (map fst xs) None \<and>
     chain (l_heap l) None fs None \<and> l_free l = first_ptr fs None \<and>
     distinct (map fst xs @ fs) \<and>
     (\<forall>q \<in> set xs. data_at (l_heap l) (fst q) = Some (snd q)) \<and>
     (\<forall>r \<in> set fs. data_at (l_heap l) r = None) \<and>
     dom (l_heap l) = fst ` set xs \<union> set fs \<and>
     (\<forall>r \<in> dom (l_heap l). fst r < length (l_allocations l)) \<and>
     unat (l_size l) = length xs \<and> unat (l_capacity l) = length xs + length fs"

definition list_rep :: "'a linked \<Rightarrow> (entry_ref \<times> 'a) list \<Rightarrow> bool" where
  "list_rep l xs \<longleftrightarrow> (\<exists>fs. list_rep_free l xs fs)"

lemma list_new_rep: "list_rep list_new []"
  unfolding list_rep_def by (rule exI [of _ "[]"]) (simp add: list_rep_free_def list_new_def)

lemma same_data_at: "same_data h k \<Longrightarrow> data_at k = data_at h" "same_data h k \<Longrightarrow> dom k = dom h"
  by (simp_all add: same_data_def)

lemma chain_upd_data [simp]:
  assumes "h r = Some e"
  shows "chain (h(r \<mapsto> e\<lparr>e_data := d\<rparr>)) q xs n = chain h q xs n"
  using assms by (induction xs arbitrary: q) auto

text \<open>Taking the first free entry and making it the first of the list.\<close>

lemma rep_emplace:
  assumes rep: "list_rep_free l xs (r # fs)"
  obtains l' where "list_emplace_front A T x l s = Inr (Some r, l', s)"
    "list_rep_free l' ((r, x) # xs) fs" "l_allocations l' = l_allocations l"
proof -
  let ?h = "l_heap l" and ?rs = "map fst xs"
  note R = rep [unfolded list_rep_free_def]
  have d: "distinct (r # fs)" "distinct (r # ?rs)" "set (r # fs) \<inter> set ?rs = {}" using R by auto
  obtain h1 where h1: "unlink (Some r) (l_free l) ?h = Inr (first_ptr fs None, h1)"
    "chain h1 None fs None" "\<exists>e. h1 r = Some e \<and> e_next e = None \<and> e_prev e = None"
    "\<And>y. y \<notin> set (r # fs) \<Longrightarrow> h1 y = ?h y"
    using unlink_chain [of ?h "[]" r fs] R d(1) by auto
  obtain e where e: "h1 r = Some e" "e_next e = None" "e_prev e = None" using h1(3) by blast
  have "chain ?h None ?rs None" using R by simp
  from chain_apart [OF this h1(4) d(3)] have rs: "chain h1 None ?rs None" .
  then obtain h2 where h2: "link (Some r) (l_head l) h1 = Inr (Some r, h2)"
    "chain h2 None (r # ?rs) None" "\<And>y. y \<notin> set (r # ?rs) \<Longrightarrow> h2 y = h1 y"
    using link_chain [OF rs d(2) e] R by metis
  have fs: "chain h2 None fs None"
    using chain_apart [OF h1(2) h2(3)] d by auto
  have same: "data_at h2 = data_at ?h" "dom h2 = dom ?h"
    using same_data_trans [OF unlink_same_data [OF h1(1)] link_same_data [OF h2(1)]]
    by (simp_all add: same_data_at)
  obtain e2 where e2: "h2 r = Some e2" using h2(2) by auto
  let ?l = "l\<lparr>l_heap := h2(r \<mapsto> e2\<lparr>e_data := Some x\<rparr>), l_free := first_ptr fs None,
              l_head := Some r, l_size := l_size l + 1\<rparr>"
  have "unat (l_size l) < unat (l_capacity l)" using R by simp
  then have size: "unat (l_size l + 1) = Suc (length xs)"
    using R less_2p64 [of "unat (l_size l)" "l_capacity l"] by (simp add: unat_add_no_wrap)
  show ?thesis
  proof (rule that)
    show "list_emplace_front A T x l s = Inr (Some r, ?l, s)"
      using R h1(1) h2(1) e2 by (simp add: list_emplace_front_def Let_def)
    show "list_rep_free ?l ((r, x) # xs) fs"
      using R h2(2) fs e2 same size d
      by (auto simp: list_rep_free_def data_at_upd image_iff simp del: chain.simps)
  qed simp
qed

text \<open>Erasing at a live iterator.\<close>

lemma rep_erase:
  assumes rep: "list_rep_free l (xs @ (r, x) # ys) fs"
  obtains l' where "list_erase (Some r) l = Inr l'" "list_rep_free l' (xs @ ys) (r # fs)"
    "l_allocations l' = l_allocations l"
proof -
  let ?h = "l_heap l" and ?as = "map fst xs" and ?bs = "map fst ys"
  note R = rep [unfolded list_rep_free_def]
  have d: "distinct (?as @ r # ?bs)" "distinct (r # fs)" "set (?as @ r # ?bs) \<inter> set fs = {}"
    using R by auto
  obtain h1 where h1: "unlink (Some r) (l_head l) ?h = Inr (first_ptr (?as @ ?bs) None, h1)"
    "chain h1 None (?as @ ?bs) None" "\<exists>e. h1 r = Some e \<and> e_next e = None \<and> e_prev e = None"
    "\<And>y. y \<notin> set (?as @ r # ?bs) \<Longrightarrow> h1 y = ?h y"
    using unlink_chain [OF _ d(1), of ?h] R by auto
  obtain e where e: "h1 r = Some e" "e_next e = None" "e_prev e = None" using h1(3) by blast
  have "chain ?h None fs None" using R by simp
  from chain_apart [OF this h1(4) d(3)] have fs: "chain h1 None fs None" .
  obtain h2 where h2: "link (Some r) (l_free l) h1 = Inr (Some r, h2)"
    "chain h2 None (r # fs) None" "\<And>y. y \<notin> set (r # fs) \<Longrightarrow> h2 y = h1 y"
    using link_chain [OF fs d(2) e] R by metis
  have "set (r # fs) \<inter> set (?as @ ?bs) = {}" using d by auto
  from chain_apart [OF h1(2) h2(3) this] have heads: "chain h2 None (?as @ ?bs) None" .
  have same: "data_at h2 = data_at ?h" "dom h2 = dom ?h"
    using same_data_trans [OF unlink_same_data [OF h1(1)] link_same_data [OF h2(1)]]
    by (simp_all add: same_data_at)
  obtain e2 where e2: "h2 r = Some e2" using h2(2) by auto
  have "data_at h2 r = Some x" using R same by simp
  then have alive: "e_data e2 = Some x" using e2 by (simp add: data_at_def)
  let ?l = "l\<lparr>l_heap := h2(r \<mapsto> e2\<lparr>e_data := None\<rparr>), l_free := Some r,
              l_head := first_ptr (?as @ ?bs) None, l_size := l_size l - 1\<rparr>"
  have "unat (l_size l) \<ge> unat (1 :: size_t)" using R by simp
  from unat_diff_le [OF this] have size: "unat (l_size l - 1) = length (xs @ ys)" using R by simp
  show ?thesis
  proof (rule that)
    show "list_erase (Some r) l = Inr ?l"
      using h1(1) h2(1) e2 alive by (simp add: list_erase_def destroy_data_def)
    show "list_rep_free ?l (xs @ ys) (r # fs)"
      using R h2(2) heads e2 same size d
      by (auto simp: list_rep_free_def data_at_upd image_iff simp del: chain.simps chain_append)
  qed simp
qed

text \<open>Any other iterator is refused with a fault: no object is alive there.\<close>

lemma unlink_null: "isl (unlink None list h)"
  by (cases "unlink None list h") (auto simp: unlink_def entry_at_def split: if_splits)

lemma unlink_wild: "h r = None \<Longrightarrow> isl (unlink (Some r) list h)"
  by (cases "unlink (Some r) list h") (auto simp: unlink_def entry_at_def split: if_splits)

lemma destroy_dead: "data_at h r = None \<Longrightarrow> isl (destroy_data (Some r) h)"
  by (cases "h r") (auto simp: destroy_data_def data_at_def)

lemma erase_dead:
  assumes "case it of None \<Rightarrow> True | Some r \<Rightarrow> data_at (l_heap l) r = None"
  shows "isl (list_erase it l)"
proof (rule ccontr)
  assume "\<not> isl (list_erase it l)"
  then obtain l' where l': "list_erase it l = Inr l'" by (cases "list_erase it l") auto
  then obtain head h free k m where ops: "unlink it (l_head l) (l_heap l) = Inr (head, h)"
    "link it (l_free l) h = Inr (free, k)" "destroy_data it k = Inr m"
    by (auto simp: list_erase_def)
  show False
  proof (cases it)
    case None
    then show False using ops(1) unlink_null [of "l_head l" "l_heap l"] by simp
  next
    case (Some r)
    have "data_at k r = None"
      using assms Some same_data_trans [OF unlink_same_data [OF ops(1)] link_same_data [OF ops(2)]]
      by (simp add: same_data_at)
    then show False using ops(3) destroy_dead [of k r] Some by simp
  qed
qed

subsection \<open>Growing\<close>

definition block_refs :: "nat \<Rightarrow> nat \<Rightarrow> entry_ref list" where
  "block_refs block n = map (Pair block) (rev [0..<n])"

lemma block_refs_Suc: "block_refs block (Suc n) = (block, n) # block_refs block n"
  by (simp add: block_refs_def)

lemma set_block_refs: "r \<in> set (block_refs block n) \<longleftrightarrow> fst r = block \<and> snd r < n"
  by (cases r) (auto simp: block_refs_def)

lemma distinct_block_refs: "distinct (block_refs block n)"
  by (simp add: block_refs_def distinct_map inj_on_def)

text \<open>The part of the state the loop of \<open>grow\<close> builds, after \<open>n\<close> rounds.\<close>

definition grown ::
  "'a linked \<Rightarrow> nat \<Rightarrow> nat \<Rightarrow> 'a linked \<Rightarrow> bool" where
  "grown l block n l' \<longleftrightarrow>
     (\<exists>h. l' = l\<lparr>l_heap := h, l_free := first_ptr (block_refs block n) None\<rparr> \<and>
          chain h None (block_refs block n) None \<and>
          (\<forall>r \<in> set (block_refs block n). data_at h r = None) \<and>
          (\<forall>r. r \<notin> set (block_refs block n) \<longrightarrow> h r = l_heap l r))"

lemma grow_step_grown:
  assumes "grown l block n l'" "n < room"
  shows "\<exists>m. grow_step False room block n l' = Inr m \<and> grown l block (Suc n) m"
proof -
  let ?b = "block_refs block n" and ?r = "(block, n)"
  obtain h where h: "l' = l\<lparr>l_heap := h, l_free := first_ptr ?b None\<rparr>" "chain h None ?b None"
    "\<forall>r \<in> set ?b. data_at h r = None" "\<And>r. r \<notin> set ?b \<Longrightarrow> h r = l_heap l r"
    using assms(1) by (auto simp: grown_def)
  let ?e = "\<lparr>e_data = None, e_next = first_ptr ?b None, e_prev = None\<rparr> :: 'a entry"
  have new: "?r \<notin> set ?b" by (simp add: set_block_refs)
  show ?thesis
  proof (cases ?b)
    case Nil
    then show ?thesis using h assms(2)
      by (auto simp: grow_step_def Let_def grown_def block_refs_Suc data_at_upd)
  next
    case (Cons c cs)
    obtain d where d: "h c = Some d" using h(2) Cons by auto
    have c: "c \<noteq> ?r" "distinct (c # cs)" "?r \<notin> set cs"
      using new distinct_block_refs [of block n] Cons by auto
    let ?h = "h(?r \<mapsto> ?e, c \<mapsto> d\<lparr>e_prev := Some ?r\<rparr>)"
    have "chain (h(c \<mapsto> d\<lparr>e_prev := Some ?r\<rparr>)) (Some ?r) (c # cs) None"
      using h(2) d c unfolding Cons by (intro chain_set_prev) auto
    then have "chain ?h None (?r # c # cs) None" using c Cons by auto
    moreover have "grow_step False room block n l' =
        Inr (l\<lparr>l_heap := ?h, l_free := Some ?r\<rparr>)"
      using assms(2) d c h(1) Cons by (simp add: grow_step_def Let_def)
    moreover have "data_at h c = e_data d" using d by (simp add: data_at_def)
    ultimately show ?thesis using h c Cons
      by (auto simp: grown_def block_refs_Suc data_at_upd simp del: chain.simps intro!: exI [of _ ?h])
  qed
qed

lemma grow_loop:
  assumes "l_free l = None" "n \<le> room"
  shows "\<exists>m. fold_res (grow_step False room block) [0..<n] l = Inr m \<and> grown l block n m"
  using assms(2)
proof (induction n)
  case 0
  have "l = l\<lparr>l_heap := l_heap l, l_free := None\<rparr>" using assms(1) by simp
  then have "grown l block 0 l"
    unfolding grown_def block_refs_def by (intro exI [of _ "l_heap l"]) simp
  then show ?case by simp
next
  case (Suc n)
  then obtain m where "fold_res (grow_step False room block) [0..<n] l = Inr m" "grown l block n m"
    by auto
  with grow_step_grown [OF this(2), of room] Suc.prems show ?case by (auto simp: fold_res_append)
qed

text \<open>The bytes \<open>grow\<close> asks for, and the condition that this does not wrap.\<close>

definition chunk_size :: "entry_type \<Rightarrow> size_t \<Rightarrow> size_t" where
  "chunk_size T n =
     chain_alignof T * ((ent_sizeof T * n + chain_alignof T - 1) div chain_alignof T) + chain_sizeof T"

definition chunk_fits :: "(request \<Rightarrow> bool) \<Rightarrow> entry_type \<Rightarrow> size_t \<Rightarrow> bool" where
  "chunk_fits proper T n \<longleftrightarrow>
     2 \<le> unat (ent_sizeof T) \<and> chain_alignof T \<noteq> 0 \<and>
     unat (ent_sizeof T) * unat n + unat (chain_alignof T) + unat (chain_sizeof T) < 2 ^ 64 \<and>
     proper (list_request T (chunk_size T n))"

lemma chunk_fitsD:
  assumes "chunk_fits proper T n"
  obtains off where "alignUp (ent_sizeof T * n) (chain_alignof T) = Inr off"
    "chunk_size T n = off + chain_sizeof T"
    "unat off + unat (chain_sizeof T) = unat (chunk_size T n)"
    "unat n \<le> unat (chunk_size T n) div unat (ent_sizeof T)"
proof -
  note F = assms [unfolded chunk_fits_def]
  have prod: "unat (ent_sizeof T * n) = unat (ent_sizeof T) * unat n"
    using F by (intro unat_mult_no_wrap) simp
  obtain off where off: "alignUp (ent_sizeof T * n) (chain_alignof T) = Inr off"
    "unat (ent_sizeof T * n) \<le> unat off" "unat off < unat (ent_sizeof T * n) + unat (chain_alignof T)"
    using F prod alignUp_bounds [of "chain_alignof T" "ent_sizeof T * n"] by auto
  have size: "chunk_size T n = off + chain_sizeof T"
    using off(1) F by (simp add: chunk_size_def alignUp_def)
  have sum: "unat (off + chain_sizeof T) = unat off + unat (chain_sizeof T)"
    using off(3) F prod by (intro unat_add_no_wrap) simp
  have "unat n * unat (ent_sizeof T) \<le> unat (chunk_size T n)"
    using off(2) prod sum size by (simp add: mult.commute)
  then have "unat n \<le> unat (chunk_size T n) div unat (ent_sizeof T)"
    using F by (simp add: less_eq_div_iff_mult_less_eq)
  then show ?thesis using off(1) size sum by (intro that) simp_all
qed

text \<open>A list whose blocks are live, and an \<open>emplace_front\<close> that gets no memory.\<close>

definition list_ok ::
  "('s \<Rightarrow> bool) \<Rightarrow> ('s \<Rightarrow> allocation \<Rightarrow> bool) \<Rightarrow> ('s \<Rightarrow> allocation \<Rightarrow> allocation \<Rightarrow> bool)
    \<Rightarrow> (entry_ref \<times> 'a) list \<Rightarrow> 'a linked \<times> 's \<Rightarrow> bool" where
  "list_ok I own separate xs ls \<longleftrightarrow>
     list_rep (fst ls) xs \<and> holds_all I own separate (snd ls) (l_allocations (fst ls))"

definition no_chunk :: "'s allocator \<Rightarrow> entry_type \<Rightarrow> 'a linked \<Rightarrow> 's \<Rightarrow> bool" where
  "no_chunk A T l s \<longleftrightarrow>
     l_free l = None \<and>
     (case vt_allocate A (list_request T (chunk_size T (max (l_capacity l) 8))) s of
        Inl _ \<Rightarrow> True | Inr (a, _) \<Rightarrow> alloc_ptr a = 0)"

lemma grow_null:
  assumes "0 < n"
  shows "fold_res (grow_step True room block) [0..<n] l = Inl NullDeref"
  using assms by (simp add: upt_conv_Cons grow_step_def)

lemma emplace_no_chunk:
  assumes "no_chunk A T l s" "chunk_fits proper T (max (l_capacity l) 8)"
  shows "isl (list_emplace_front A T x l s)"
proof -
  let ?n = "max (l_capacity l) 8"
  obtain off where off: "alignUp (ent_sizeof T * ?n) (chain_alignof T) = Inr off"
    "chunk_size T ?n = off + chain_sizeof T"
    using chunk_fitsD [OF assms(2)] by metis
  have "(8 :: size_t) \<le> ?n" by simp
  then have "0 < unat ?n" by (simp add: word_le_nat_alt)
  then have "isl (list_grow A T ?n l s)"
    using off assms(1)
    by (auto simp: list_grow_def no_chunk_def Let_def grow_null split: sum.splits)
  then show ?thesis
    using assms(1) by (auto simp: list_emplace_front_def no_chunk_def isl_def)
qed

lemma grown_rep:
  assumes rep: "list_rep_free l xs []" and g: "grown l (length (l_allocations l)) (unat n) m"
    and cap: "unat (l_capacity l) + unat n < 2 ^ 64"
  shows "list_rep_free (m\<lparr>l_allocations := a # l_allocations m, l_capacity := l_capacity m + n\<rparr>) xs
    (block_refs (length (l_allocations l)) (unat n))"
proof -
  let ?k = "length (l_allocations l)"
  let ?B = "block_refs ?k (unat n)"
  obtain h where h: "m = l\<lparr>l_heap := h, l_free := first_ptr ?B None\<rparr>" "chain h None ?B None"
    "\<forall>r \<in> set ?B. data_at h r = None" "\<And>r. r \<notin> set ?B \<Longrightarrow> h r = l_heap l r"
    using g by (auto simp: grown_def)
  note R = rep [unfolded list_rep_free_def]
  have new: "r \<notin> set ?B" if "r \<in> fst ` set xs" for r
  proof -
    have "fst r < ?k" using R that by blast
    then show ?thesis by (simp add: set_block_refs)
  qed
  then have disj: "set ?B \<inter> set (map fst xs) = {}" by auto
  have "chain (l_heap l) None (map fst xs) None" using R by simp
  from chain_apart [OF this h(4) disj] have heads: "chain h None (map fst xs) None" .
  have data: "data_at h (fst q) = Some (snd q)" if "q \<in> set xs" for q
    using R that h(4) [OF new [of "fst q"]] by (simp add: data_at_def)
  have dom: "dom h = fst ` set xs \<union> set ?B"
  proof (rule set_eqI)
    fix r
    have old: "dom (l_heap l) = fst ` set xs" using R by simp
    show "r \<in> dom h \<longleftrightarrow> r \<in> fst ` set xs \<union> set ?B"
    proof (cases "r \<in> set ?B")
      case True
      then show ?thesis using chain_dom [OF h(2) True] by blast
    next
      case False
      then show ?thesis using h(4) [OF False] unfolding old [symmetric] by (simp add: domIff)
    qed
  qed
  have "unat (l_capacity l + n) = unat (l_capacity l) + unat n"
    using cap by (simp add: unat_add_no_wrap)
  moreover have "length ?B = unat n" by (simp add: block_refs_def)
  moreover have "\<forall>r \<in> fst ` set xs \<union> set ?B. fst r < Suc ?k"
  proof
    fix r assume "r \<in> fst ` set xs \<union> set ?B"
    moreover have "fst r < ?k" if "r \<in> fst ` set xs" using R that by blast
    ultimately show "fst r < Suc ?k"
      by (metis Un_iff less_Suc_eq set_block_refs)
  qed
  moreover have "fst ` set xs \<inter> set ?B = {}" using new by blast
  ultimately show ?thesis
    using R h(1-3) heads data dom by (simp add: list_rep_free_def distinct_block_refs)
qed

context allocator_chain
begin

lemma grow_ok:
  assumes rep: "list_rep_free l xs []" and hold: "holds_all inv owns sep s (l_allocations l)"
    and fit: "chunk_fits proper T (max (l_capacity l) 8)" and mem: "\<not> no_chunk A T l s"
  obtains l' s' fs where "list_grow A T (max (l_capacity l) 8) l s = Inr (l', s')"
    "list_rep_free l' xs fs" "fs \<noteq> []" "holds_all inv owns sep s' (l_allocations l')"
    "live s' + length (l_allocations l) = live s + length (l_allocations l')"
    "unat (l_capacity l') = unat (l_capacity l) + max (unat (l_capacity l)) 8"
proof -
  let ?n = "max (l_capacity l) 8" and ?k = "length (l_allocations l)"
  obtain off where off: "alignUp (ent_sizeof T * ?n) (chain_alignof T) = Inr off"
    "chunk_size T ?n = off + chain_sizeof T"
    "unat off + unat (chain_sizeof T) = unat (chunk_size T ?n)"
    "unat ?n \<le> unat (chunk_size T ?n) div unat (ent_sizeof T)"
    using fit by (rule chunk_fitsD)
  have R: "l_free l = None" "unat (l_capacity l) = length xs"
    using rep by (simp_all add: list_rep_free_def)
  obtain a s1 where a: "vt_allocate A (list_request T (chunk_size T ?n)) s = Inr (a, s1)"
    "alloc_ptr a \<noteq> 0"
    using mem R(1) by (auto simp: no_chunk_def split: sum.splits)
  have proper: "proper (list_request T (chunk_size T ?n))" using fit by (simp add: chunk_fits_def)
  obtain m where m: "fold_res (grow_step False (unat (chunk_size T ?n) div unat (ent_sizeof T)) ?k)
      [0..<unat ?n] l = Inr m" "grown l ?k (unat ?n) m"
    using grow_loop [OF R(1) off(4)] by blast
  have max: "unat ?n = max (unat (l_capacity l)) 8" by (simp add: max_def word_le_nat_alt)
  have cap: "unat (l_capacity l) + unat ?n < 2 ^ 64"
  proof -
    have "2 * unat ?n \<le> unat (ent_sizeof T) * unat ?n"
      using fit by (intro mult_le_mono1) (simp add: chunk_fits_def)
    moreover have "unat (l_capacity l) \<le> unat ?n" using max by simp
    moreover have "unat (ent_sizeof T) * unat ?n < 2 ^ 64"
      using fit by (simp only: chunk_fits_def) linarith
    ultimately show ?thesis by linarith
  qed
  let ?m = "m\<lparr>l_allocations := a # l_allocations m, l_capacity := l_capacity m + ?n\<rparr>"
  have fields: "l_allocations m = l_allocations l" "l_capacity m = l_capacity l"
    using m(2) by (auto simp: grown_def)
  have inv: "inv s" using hold by (simp add: holds_all_def)
  have "list_grow A T ?n l s = Inr (?m, s1)"
    using off(1-3) a m(1) by (simp add: list_grow_def Let_def)
  moreover have "list_rep_free ?m xs (block_refs ?k (unat ?n))" by (rule grown_rep [OF rep m(2) cap])
  moreover have "block_refs ?k (unat ?n) \<noteq> []"
    using max by (auto simp: block_refs_def)
  moreover have "holds_all inv owns sep s1 (a # l_allocations l)"
    using holds_all_allocate [OF hold proper a] .
  moreover have "live s1 = Suc (live s)" by (rule allocate_live [OF inv proper a])
  moreover have "unat (l_capacity l + ?n) = unat (l_capacity l) + unat ?n"
    using cap by (simp add: unat_add_no_wrap)
  ultimately show ?thesis using fields max by (intro that [of ?m s1]) simp_all
qed

lemma emplace_ok:
  assumes ok: "list_ok inv owns sep xs (l, s)" and fit: "chunk_fits proper T (max (l_capacity l) 8)"
    and mem: "\<not> no_chunk A T l s"
  obtains r l' s' where "list_emplace_front A T x l s = Inr (Some r, l', s')"
    "list_ok inv owns sep ((r, x) # xs) (l', s')"
    "live s' + length (l_allocations l) = live s + length (l_allocations l')"
    "unat (l_capacity l') \<le> max (unat (l_capacity l)) (8 + 2 * length xs)"
proof -
  obtain fs where rep: "list_rep_free l xs fs" using ok by (auto simp: list_ok_def list_rep_def)
  have hold: "holds_all inv owns sep s (l_allocations l)" using ok by (simp add: list_ok_def)
  show ?thesis
  proof (cases fs)
    case Nil
    then have rep0: "list_rep_free l xs []" using rep by simp
    obtain l1 s1 gs where g: "list_grow A T (max (l_capacity l) 8) l s = Inr (l1, s1)"
      "list_rep_free l1 xs gs" "gs \<noteq> []" "holds_all inv owns sep s1 (l_allocations l1)"
      "live s1 + length (l_allocations l) = live s + length (l_allocations l1)"
      "unat (l_capacity l1) = unat (l_capacity l) + max (unat (l_capacity l)) 8"
      by (rule grow_ok [OF rep0 hold fit mem])
    obtain r gs' where gs: "gs = r # gs'" using g(3) by (cases gs) auto
    obtain l2 where l2: "list_emplace_front A T x l1 s1 = Inr (Some r, l2, s1)"
      "list_rep_free l2 ((r, x) # xs) gs'" "l_allocations l2 = l_allocations l1"
      using rep_emplace g(2) gs by metis
    have "l_free l = None" "l_free l1 = Some r"
      using rep0 g(2) gs by (simp_all add: list_rep_free_def)
    then have "list_emplace_front A T x l s = Inr (Some r, l2, s1)"
      using g(1) l2(1) by (simp add: list_emplace_front_def)
    moreover have "unat (l_capacity l2) = unat (l_capacity l1)"
      using g(2) gs l2(2) by (simp add: list_rep_free_def)
    moreover have "unat (l_capacity l) = length xs" using rep0 by (simp add: list_rep_free_def)
    ultimately show ?thesis using g l2
      by (intro that [of r l2 s1]) (auto simp: list_ok_def list_rep_def)
  next
    case (Cons r fs')
    obtain l2 where l2: "list_emplace_front A T x l s = Inr (Some r, l2, s)"
      "list_rep_free l2 ((r, x) # xs) fs'" "l_allocations l2 = l_allocations l"
      using rep_emplace rep Cons by metis
    moreover have "unat (l_capacity l2) = unat (l_capacity l)"
      using rep Cons l2(2) by (simp add: list_rep_free_def)
    ultimately show ?thesis using hold
      by (intro that [of r l2 s]) (auto simp: list_ok_def list_rep_def)
  qed
qed

end

subsection \<open>Sequences of calls\<close>

text \<open>
  A client keeps the iterators it was given, newest first: it puts a value in front, or erases at
  the iterator in some position (\<open>end()\<close> if it has no iterator there).
\<close>

datatype 'a list_call = EmplaceFront 'a | EraseAt nat

fun list_call_step ::
  "'s allocator \<Rightarrow> entry_type \<Rightarrow> 'a list_call \<Rightarrow> entry_ptr list \<times> 'a linked \<times> 's
    \<Rightarrow> (entry_ptr list \<times> 'a linked \<times> 's) res" where
  "list_call_step A T (EmplaceFront x) (its, l, s) =
     bind_res (list_emplace_front A T x l s) (\<lambda>(it, l, s). Inr (it # its, l, s))"
| "list_call_step A T (EraseAt i) (its, l, s) =
     bind_res (list_erase (if i < length its then its ! i else list_end l) l) (\<lambda>l.
     Inr (take i its @ drop (Suc i) its, l, s))"

definition list_calls ::
  "'s allocator \<Rightarrow> entry_type \<Rightarrow> 'a list_call list \<Rightarrow> entry_ptr list \<times> 'a linked \<times> 's
    \<Rightarrow> (entry_ptr list \<times> 'a linked \<times> 's) res" where
  "list_calls A T cs = fold_res (list_call_step A T) cs"

text \<open>The same calls on the values, and the calls that get no memory.\<close>

fun values_call :: "'a list_call \<Rightarrow> 'a list \<Rightarrow> 'a list option" where
  "values_call (EmplaceFront x) xs = Some (x # xs)"
| "values_call (EraseAt i) xs =
     (if i < length xs then Some (take i xs @ drop (Suc i) xs) else None)"

fun values_run :: "'a list_call list \<Rightarrow> 'a list \<Rightarrow> 'a list option" where
  "values_run [] xs = Some xs"
| "values_run (c # cs) xs = Option.bind (values_call c xs) (values_run cs)"

fun call_starved :: "'s allocator \<Rightarrow> entry_type \<Rightarrow> 'a list_call \<Rightarrow> 'a linked \<times> 's \<Rightarrow> bool" where
  "call_starved A T (EmplaceFront x) (l, s) = no_chunk A T l s"
| "call_starved A T (EraseAt i) (l, s) = False"

fun list_starved ::
  "'s allocator \<Rightarrow> entry_type \<Rightarrow> 'a list_call list \<Rightarrow> entry_ptr list \<times> 'a linked \<times> 's \<Rightarrow> bool" where
  "list_starved A T [] st = False"
| "list_starved A T (c # cs) st =
     (call_starved A T c (snd st) \<or>
      (case list_call_step A T c st of Inl _ \<Rightarrow> False | Inr st' \<Rightarrow> list_starved A T cs st'))"

text \<open>The client's view after some calls, \<open>n\<close> bounding the emplacements so far.\<close>

definition client_ok ::
  "('s \<Rightarrow> bool) \<Rightarrow> ('s \<Rightarrow> allocation \<Rightarrow> bool) \<Rightarrow> ('s \<Rightarrow> allocation \<Rightarrow> allocation \<Rightarrow> bool)
    \<Rightarrow> ('s \<Rightarrow> nat) \<Rightarrow> nat \<Rightarrow> nat \<Rightarrow> 'a list \<Rightarrow> entry_ptr list \<times> 'a linked \<times> 's \<Rightarrow> bool" where
  "client_ok I own separate alive base n ys st \<longleftrightarrow>
     (\<exists>xs. list_ok I own separate xs (snd st) \<and> fst st = map (Some \<circ> fst) xs \<and> ys = map snd xs \<and>
       length xs \<le> n \<and> unat (l_capacity (fst (snd st))) \<le> 8 + 2 * n \<and>
       alive (snd (snd st)) = base + length (l_allocations (fst (snd st))))"

lemma erase_none:
  assumes "length its \<le> i"
  shows "isl (list_call_step A T (EraseAt i) (its, l, s))"
  using assms erase_dead [where it = None and l = l]
  by (cases "list_erase None l") (auto simp: list_end_def)

context allocator_chain
begin

lemma call_some:
  assumes ok: "client_ok inv owns sep live base n ys st" and zs: "values_call c ys = Some zs"
    and fit: "\<And>m. unat m \<le> 8 + 2 * n \<Longrightarrow> chunk_fits proper T m"
    and mem: "\<not> call_starved A T c (snd st)"
  shows "\<exists>st'. list_call_step A T c st = Inr st' \<and> client_ok inv owns sep live base (Suc n) zs st'"
proof -
  obtain its l s where st [simp]: "st = (its, l, s)" by (cases st)
  obtain xs where xs: "list_ok inv owns sep xs (l, s)" "its = map (Some \<circ> fst) xs" "ys = map snd xs"
    "length xs \<le> n" "unat (l_capacity l) \<le> 8 + 2 * n" "live s = base + length (l_allocations l)"
    using ok by (auto simp: client_ok_def)
  show ?thesis
  proof (cases c)
    case (EmplaceFront x)
    have "unat (max (l_capacity l) 8) \<le> 8 + 2 * n" using xs(5) by (simp add: max_def)
    note chunk = fit [OF this]
    have room: "\<not> no_chunk A T l s" using mem EmplaceFront by simp
    obtain r l' s' where
      e: "list_emplace_front A T x l s = Inr (Some r, l', s')"
      "list_ok inv owns sep ((r, x) # xs) (l', s')"
      "live s' + length (l_allocations l) = live s + length (l_allocations l')"
      "unat (l_capacity l') \<le> max (unat (l_capacity l)) (8 + 2 * length xs)"
      by (rule emplace_ok [OF xs(1) chunk room])
    then have "client_ok inv owns sep live base (Suc n) zs (Some r # its, l', s')"
      using xs zs EmplaceFront unfolding client_ok_def
      by (intro exI [of _ "(r, x) # xs"]) auto
    then show ?thesis using EmplaceFront e(1) by simp
  next
    case (EraseAt i)
    then have i: "i < length xs" "zs = take i ys @ drop (Suc i) ys"
      using zs xs(3) by (auto split: if_splits)
    obtain r x where rx: "xs ! i = (r, x)" by fastforce
    have split: "xs = take i xs @ (r, x) # drop (Suc i) xs"
      using id_take_nth_drop [OF i(1)] rx by simp
    obtain fs where "list_rep_free l (take i xs @ (r, x) # drop (Suc i) xs) fs"
      using xs(1) split by (auto simp: list_ok_def list_rep_def)
    then obtain l' where l': "list_erase (Some r) l = Inr l'"
      "list_rep_free l' (take i xs @ drop (Suc i) xs) (r # fs)" "l_allocations l' = l_allocations l"
      by (rule rep_erase)
    have "unat (l_capacity l') = unat (l_capacity l)"
      using l'(2) \<open>list_rep_free l _ fs\<close> by (simp add: list_rep_free_def)
    moreover have "list_ok inv owns sep (take i xs @ drop (Suc i) xs) (l', s)"
      using l'(2,3) xs(1) by (auto simp: list_ok_def list_rep_def)
    ultimately have "client_ok inv owns sep live base (Suc n) zs (take i its @ drop (Suc i) its, l', s)"
      using xs i l'(3) unfolding client_ok_def
      by (intro exI [of _ "take i xs @ drop (Suc i) xs"]) (auto simp: take_map drop_map)
    then show ?thesis using EraseAt l'(1) i(1) rx xs(2) by simp
  qed
qed

lemma call_none:
  assumes ok: "client_ok inv owns sep live base n ys st"
    and fit: "\<And>m. unat m \<le> 8 + 2 * n \<Longrightarrow> chunk_fits proper T m"
    and bad: "values_call c ys = None \<or> call_starved A T c (snd st)"
  shows "isl (list_call_step A T c st)"
proof -
  obtain its l s where st [simp]: "st = (its, l, s)" by (cases st)
  obtain xs where xs: "its = map (Some \<circ> fst) xs" "ys = map snd xs" "unat (l_capacity l) \<le> 8 + 2 * n"
    using ok by (auto simp: client_ok_def)
  show ?thesis
  proof (cases c)
    case (EmplaceFront x)
    have "unat (max (l_capacity l) 8) \<le> 8 + 2 * n" using xs(3) by (simp add: max_def)
    from emplace_no_chunk [OF _ fit [OF this], of A s x] show ?thesis
      using bad EmplaceFront by (auto simp: isl_def)
  next
    case (EraseAt i)
    then show ?thesis using bad xs erase_none [of its i] by (auto split: if_splits)
  qed
qed

lemma calls_some:
  assumes "client_ok inv owns sep live base n ys st" "values_run cs ys = Some zs"
    and "\<And>m. unat m \<le> 8 + 2 * (n + length cs) \<Longrightarrow> chunk_fits proper T m"
    and "\<not> list_starved A T cs st"
  shows "\<exists>st'. list_calls A T cs st = Inr st' \<and> client_ok inv owns sep live base (n + length cs) zs st'"
  using assms
proof (induction cs arbitrary: n ys st)
  case Nil
  then show ?case by (simp add: list_calls_def)
next
  case (Cons c cs)
  obtain ws where ws: "values_call c ys = Some ws" "values_run cs ws = Some zs"
    using Cons.prems(2) by (auto simp: bind_eq_Some_conv)
  have "\<not> call_starved A T c (snd st)" using Cons.prems(4) by simp
  then obtain st' where st': "list_call_step A T c st = Inr st'"
    "client_ok inv owns sep live base (Suc n) ws st'"
    using call_some [OF Cons.prems(1) ws(1), of T] Cons.prems(3) by auto
  then show ?case
    using Cons.IH [OF st'(2) ws(2)] Cons.prems(3,4) by (simp add: list_calls_def)
qed

lemma calls_none:
  assumes "client_ok inv owns sep live base n ys st"
    and "\<And>m. unat m \<le> 8 + 2 * (n + length cs) \<Longrightarrow> chunk_fits proper T m"
    and "values_run cs ys = None \<or> list_starved A T cs st"
  shows "isl (list_calls A T cs st)"
  using assms
proof (induction cs arbitrary: n ys st)
  case (Cons c cs)
  show ?case
  proof (cases "values_call c ys = None \<or> call_starved A T c (snd st)")
    case True
    then have "isl (list_call_step A T c st)"
      using call_none [OF Cons.prems(1), of T c] Cons.prems(2) by simp
    then show ?thesis by (auto simp: list_calls_def isl_def)
  next
    case False
    then obtain ws where ws: "values_call c ys = Some ws" by auto
    obtain st' where st': "list_call_step A T c st = Inr st'"
      "client_ok inv owns sep live base (Suc n) ws st'"
      using call_some [OF Cons.prems(1) ws, of T] False Cons.prems(2) by auto
    then show ?thesis
      using Cons.IH [OF st'(2)] Cons.prems(2,3) ws False by (simp add: list_calls_def)
  qed
qed simp

end

subsection \<open>Iteration and destruction\<close>

lemma iterate_chain:
  assumes "chain (l_heap l) q (map fst xs) None"
    and "\<forall>p \<in> set xs. data_at (l_heap l) (fst p) = Some (snd p)"
  shows "list_walk (first_ptr (map fst xs) None) l acc = Some (Inr (rev acc @ map snd xs))"
  using assms
proof (induction xs arbitrary: q acc)
  case Nil
  then show ?case by (subst list_walk.simps) (simp add: iterator_eq_def list_end_def)
next
  case (Cons p xs)
  obtain e where "l_heap l (fst p) = Some e" "e_next e = first_ptr (map fst xs) None"
    "e_data e = Some (snd p)"
    using Cons.prems by (auto simp: data_at_def)
  then show ?case using Cons.prems Cons.IH [of "Some (fst p)" "snd p # acc"]
    by (subst list_walk.simps) (simp add: iterator_eq_def list_end_def iterator_deref_def iterator_incr_def)
qed

lemma destroy_chain:
  assumes "chain h q rs None" "\<forall>r \<in> set rs. data_at h r \<noteq> None" "distinct rs"
  shows "\<exists>k. destroy_loop (first_ptr rs None) h = Some (Inr k)"
  using assms
proof (induction rs arbitrary: q h)
  case Nil
  then show ?case by (subst destroy_loop.simps) simp
next
  case (Cons r rs)
  obtain e where e: "h r = Some e" "e_next e = first_ptr rs None" "e_data e \<noteq> None"
    using Cons.prems by (auto simp: data_at_def)
  let ?h = "h(r \<mapsto> e\<lparr>e_data := None\<rparr>)"
  have "chain ?h (Some r) rs None" "\<forall>x \<in> set rs. data_at ?h x \<noteq> None" "distinct rs"
    using Cons.prems by (auto simp: data_at_upd)
  from Cons.IH [OF this] obtain k where k: "destroy_loop (first_ptr rs None) ?h = Some (Inr k)" ..
  have "destroy_data (Some r) h = Inr ?h" using e by (simp add: destroy_data_def)
  then have "destroy_loop (Some r) h = Some (Inr k)"
    using e k by (subst destroy_loop.simps) simp
  then show ?case by simp
qed

context allocator_chain
begin

lemma free_chain_all:
  assumes "holds_all inv owns sep s as"
  shows "\<exists>s'. free_chain A as s = Inr s' \<and> inv s' \<and> live s' + length as = live s"
  using assms
proof (induction as arbitrary: s)
  case Nil
  then show ?case by simp
next
  case (Cons a as)
  obtain s1 where s1: "vt_free A a s = Inr s1" "holds_all inv owns sep s1 as" "Suc (live s1) = live s"
    using Cons.prems by (rule holds_all_free)
  from Cons.IH [OF s1(2)] s1 show ?case by auto
qed

lemma client_results:
  assumes "client_ok inv owns sep live base n ys (its, l, s)"
  shows "list_walk (list_begin l) l [] = Some (Inr ys) \<and> unat (list_size l) = length ys \<and>
    (\<exists>s'. list_destruct A l s = Some (Inr s') \<and> inv s' \<and> live s' = base)"
proof -
  obtain xs fs where xs: "list_rep_free l xs fs" "holds_all inv owns sep s (l_allocations l)"
    "ys = map snd xs" "live s = base + length (l_allocations l)"
    using assms by (auto simp: client_ok_def list_ok_def list_rep_def)
  note R = xs(1) [unfolded list_rep_free_def]
  have "list_walk (list_begin l) l [] = Some (Inr ys)"
    using iterate_chain [of l None xs "[]"] R xs(3) by (simp add: list_begin_def)
  moreover have "\<exists>k. destroy_loop (l_head l) (l_heap l) = Some (Inr k)"
    using destroy_chain [of "l_heap l" None "map fst xs"] R by auto
  ultimately show ?thesis
    using free_chain_all [OF xs(2)] R xs(3,4) by (auto simp: list_destruct_def list_size_def)
qed

lemma client_start: "inv s \<Longrightarrow> client_ok inv owns sep live (live s) 0 [] ([], list_new, s)"
  using list_new_rep by (auto simp: client_ok_def list_ok_def list_new_def)

end

lemma os_chunk_fits:
  assumes "2 \<le> unat (ent_sizeof T)" "chain_alignof T \<noteq> 0" "unat n \<le> N"
    and bound: "unat (ent_sizeof T) * N + unat (ent_alignof T) + 2 * unat (chain_alignof T) +
      unat (chain_sizeof T) + 8 < 2 ^ 64"
  shows "chunk_fits os_proper T n"
proof -
  have le: "unat (ent_sizeof T) * unat n \<le> unat (ent_sizeof T) * N" using assms(3) by simp
  then have prod: "unat (ent_sizeof T * n) = unat (ent_sizeof T) * unat n"
    by (intro unat_mult_no_wrap order_le_less_trans [OF le]) (use bound in simp)
  define total where "total = unat (ent_sizeof T) * unat n"
  have total: "unat (ent_sizeof T * n) = total" "total + unat (ent_alignof T) +
      2 * unat (chain_alignof T) + unat (chain_sizeof T) + 8 < 2 ^ 64"
    using prod le bound unfolding total_def by linarith+
  obtain off where off: "alignUp (ent_sizeof T * n) (chain_alignof T) = Inr off"
    "unat off < unat (ent_sizeof T * n) + unat (chain_alignof T)"
    using assms(2) total alignUp_bounds [of "chain_alignof T" "ent_sizeof T * n"] by auto
  have size: "chunk_size T n = off + chain_sizeof T"
    using off(1) assms(2) by (simp add: chunk_size_def alignUp_def)
  have "unat (off + chain_sizeof T) = unat off + unat (chain_sizeof T)"
    using off(2) total by (intro unat_add_no_wrap) simp
  moreover have "unat (max (ent_alignof T) (chain_alignof T)) \<le>
      unat (ent_alignof T) + unat (chain_alignof T)"
    by (simp add: max_def)
  ultimately have "os_proper (list_request T (chunk_size T n))"
    using off(2) total size
    by (simp add: os_proper_def list_request_def default_request_def)
  then show ?thesis using assms(1,2) total by (simp add: chunk_fits_def total_def [symmetric])
qed

text \<open>
  C26. The intrusive list is a list with stable iterators: over the default allocator, any
  sequence of \<open>emplace_front\<close> and \<open>erase\<close> through the iterators obtained so far leaves
  the entries holding exactly the values that the same calls leave in a list, so that iteration
  from \<open>begin()\<close> terminates and yields them, \<open>size()\<close> counts them, and the destructor
  terminates, destroys every element and returns every block; the only faults are an erase at an
  iterator that is not in the list and a block that could not be allocated, and those always fault.
\<close>

theorem list_refines_values:
  assumes "os_inv s" "2 \<le> unat (ent_sizeof T)" "chain_alignof T \<noteq> 0"
    and "unat (ent_sizeof T) * (8 + 2 * length cs) + unat (ent_alignof T) +
      2 * unat (chain_alignof T) + unat (chain_sizeof T) + 8 < 2 ^ 64"
  shows "case values_run cs [] of
      None \<Rightarrow> isl (list_calls DefaultAllocator T cs ([], list_new, s))
    | Some ys \<Rightarrow>
        if list_starved DefaultAllocator T cs ([], list_new, s)
        then isl (list_calls DefaultAllocator T cs ([], list_new, s))
        else \<exists>its l s'. list_calls DefaultAllocator T cs ([], list_new, s) = Inr (its, l, s') \<and>
          list_walk (list_begin l) l [] = Some (Inr ys) \<and> unat (list_size l) = length ys \<and>
          (\<exists>s''. list_destruct DefaultAllocator l s' = Some (Inr s'') \<and> os_inv s'' \<and>
            length (os_blocks s'') = length (os_blocks s))"
proof -
  have fit: "\<And>m. unat m \<le> 8 + 2 * (0 + length cs) \<Longrightarrow> chunk_fits os_proper T m"
    using assms(2-4) by (intro os_chunk_fits [where N = "8 + 2 * length cs"]) simp_all
  note start = default_chain.client_start [OF assms(1)]
  show ?thesis
    using default_chain.calls_none [OF start fit] default_chain.calls_some [OF start _ fit]
      default_chain.client_results
    by (cases "values_run cs []"; cases "list_starved DefaultAllocator T cs ([], list_new, s)") fastforce+
qed

text \<open>Sizes as on the 64-bit target, for a list of pointers.\<close>

definition pointer_entry :: entry_type where
  "pointer_entry = \<lparr>ent_sizeof = 24, ent_alignof = 8, chain_sizeof = 48, chain_alignof = 8\<rparr>"

lemmas list_evals = list_calls_def list_emplace_front_def list_grow_def list_new_def grow_step_def
  unlink_def link_def list_erase_def destroy_data_def DefaultAllocator_def
  DefaultAllocator_allocate_def alignedMalloc_def list_request_def default_request_def

theorem list_refines_values_witness:
  "\<exists>its l s' s''. list_calls DefaultAllocator pointer_entry
      [EmplaceFront 10, EmplaceFront 20, EmplaceFront (30 :: nat), EraseAt 1]
      ([], list_new, os_fresh [4096]) = Inr (its, l, s') \<and>
    list_walk (list_begin l) l [] = Some (Inr [30, 10]) \<and>
    list_destruct DefaultAllocator l s' = Some (Inr s'') \<and> length (os_blocks s'') = 0"
proof -
  let ?cs = "[EmplaceFront 10, EmplaceFront 20, EmplaceFront (30 :: nat), EraseAt 1]"
  let ?st = "([], list_new, os_fresh [4096])"
  have "os_inv (os_fresh [4096])" by (simp add: os_inv_def os_fresh_def)
  note R = list_refines_values [OF this, of pointer_entry ?cs]
  have run: "values_run ?cs [] = Some [30, 10]" by simp
  obtain st where "list_calls DefaultAllocator pointer_entry ?cs ?st = Inr st"
    by (simp add: list_evals pointer_entry_def os_eval upt_rec)
  then have "\<not> isl (list_calls DefaultAllocator pointer_entry ?cs ?st)" by simp
  moreover have "2 \<le> unat (ent_sizeof pointer_entry)" "chain_alignof pointer_entry \<noteq> 0"
    "unat (ent_sizeof pointer_entry) * (8 + 2 * length ?cs) + unat (ent_alignof pointer_entry) +
      2 * unat (chain_alignof pointer_entry) + unat (chain_sizeof pointer_entry) + 8 < 2 ^ 64"
    by (simp_all add: pointer_entry_def)
  ultimately show ?thesis
    using R unfolding run by (auto simp: os_fresh_def split: if_splits)
qed

end
