(* ===== verification/Task.thy ===== *)
theory Task
  imports Prelude
begin

unbundle bit_operations_syntax

text \<open>
  \<open>include/hfts/task.hpp\<close>: a function with a flag that may bind it to the submitting
  thread. \<open>'f\<close> stands for the callable objects; an empty \<open>std::function\<close> is
  \<open>None\<close>.
\<close>

datatype flag = NoFlag | SameThread

text \<open>\<open>static_cast<int>(flag)\<close>\<close>

fun flag_bits :: "flag \<Rightarrow> u32" where
  "flag_bits NoFlag = 0"
| "flag_bits SameThread = 1"

record 'f task =
  func :: "'f option"
  flag :: flag

definition Task_default :: "'f task" where
  "Task_default = \<lparr>func = None, flag = NoFlag\<rparr>"

definition Task_new :: "'f option \<Rightarrow> flag \<Rightarrow> 'f task" where
  "Task_new f fl = \<lparr>func = f, flag = fl\<rparr>"

definition Task_copy :: "'f task \<Rightarrow> 'f task" where
  "Task_copy t = \<lparr>func = func t, flag = flag t\<rparr>"

text \<open>
  A move gives the new task and what is left of the source: its function is in a state that the
  library leaves open (\<open>r\<close>), its flag stays.
\<close>

definition Task_move :: "'f option \<Rightarrow> 'f task \<Rightarrow> 'f task \<times> 'f task" where
  "Task_move r t = (\<lparr>func = func t, flag = flag t\<rparr>, t\<lparr>func := r\<rparr>)"

definition Task_assign :: "'f task \<Rightarrow> 'f task \<Rightarrow> 'f task" where
  "Task_assign t this = this\<lparr>func := func t, flag := flag t\<rparr>"

definition Task_move_assign :: "'f option \<Rightarrow> 'f task \<Rightarrow> 'f task \<Rightarrow> 'f task \<times> 'f task" where
  "Task_move_assign r t this = (this\<lparr>func := func t, flag := flag t\<rparr>, t\<lparr>func := r\<rparr>)"

definition Task_assign_function :: "'f option \<Rightarrow> 'f task \<Rightarrow> 'f task" where
  "Task_assign_function f this = this\<lparr>func := f, flag := NoFlag\<rparr>"

definition Task_bool :: "'f task \<Rightarrow> bool" where
  "Task_bool t \<longleftrightarrow> func t \<noteq> None"

text \<open>The call of a task; an empty function throws \<open>std::bad_function_call\<close>.\<close>

definition Task_call :: "('f \<Rightarrow> 's \<Rightarrow> 's res) \<Rightarrow> 'f task \<Rightarrow> 's \<Rightarrow> 's res" where
  "Task_call run t s = (case func t of None \<Rightarrow> Inl BadCall | Some f \<Rightarrow> run f s)"

definition Task_is :: "flag \<Rightarrow> 'f task \<Rightarrow> bool" where
  "Task_is f t \<longleftrightarrow> flag_bits (flag t) AND flag_bits f = flag_bits f"

text \<open>Only the flag \<open>SameThread\<close> tells tasks apart: every task has the flag \<open>None\<close>.\<close>

lemma Task_is_simps [simp]:
  "Task_is NoFlag t" "Task_is SameThread t \<longleftrightarrow> flag t = SameThread"
  by (simp add: Task_is_def) (cases "flag t"; simp add: Task_is_def)

lemma Task_copies [simp]:
  "Task_copy t = t" "fst (Task_move r t) = t" "Task_assign t u = t"
  "fst (Task_move_assign r t u) = t"
  by (simp_all add: Task_copy_def Task_move_def Task_assign_def Task_move_assign_def)

end
