(* ===== verification/Fiber.thy ===== *)
theory Fiber
  imports Prelude
begin

text \<open>
  The states of a fiber (\<open>include/hfts/fiber.hpp\<close>). A fiber is named by its address; the
  worker that owns it keeps its state.
\<close>

type_synonym fiber = nat

datatype fiber_state = Idle | Waiting | Yielded | Queued | Running

text \<open>The states of all fibers of a worker, with the two setters of \<open>worker.hpp\<close>.\<close>

type_synonym fiber_states = "fiber \<Rightarrow> fiber_state"

definition setFiberState :: "fiber \<Rightarrow> fiber_state \<Rightarrow> fiber_states \<Rightarrow> fiber_states" where
  "setFiberState f to st = st(f := to)"

definition changeFiberState ::
  "fiber \<Rightarrow> fiber_state \<Rightarrow> fiber_state \<Rightarrow> fiber_states \<Rightarrow> fiber_states" where
  "changeFiberState f from to st = st(f := to)"

lemma fiber_state_sets [simp]:
  "setFiberState f to st g = (if g = f then to else st g)"
  "changeFiberState f from to st g = (if g = f then to else st g)"
  by (simp_all add: setFiberState_def changeFiberState_def)

end
