(* ===== verification/Waiting_Fibers.thy ===== *)
theory Waiting_Fibers
  imports Fiber
begin

text \<open>
  \<open>include/hfts/waitingfiber.hpp\<close>: the fibers of a worker that wait with a timeout, kept
  twice, as a set of \<open>Timeout\<close>s ordered by time and then by fiber, and as a map from fibers
  to their times. \<open>std::set\<close> is a strictly sorted list, \<open>std::unordered_map\<close> an
  association list with distinct keys.
\<close>

type_synonym time = int

datatype timeout = Timeout (timepoint: time) (tfiber: fiber)

text \<open>\<open>Timeout::operator<\<close>\<close>

definition Timeout_less :: "timeout \<Rightarrow> timeout \<Rightarrow> bool" where
  "Timeout_less a b \<longleftrightarrow>
     (if timepoint a \<noteq> timepoint b then timepoint a < timepoint b else tfiber a < tfiber b)"

instantiation timeout :: linorder
begin

definition less_timeout :: "timeout \<Rightarrow> timeout \<Rightarrow> bool" where
  "a < b \<longleftrightarrow> Timeout_less a b"

definition less_eq_timeout :: "timeout \<Rightarrow> timeout \<Rightarrow> bool" where
  "a \<le> b \<longleftrightarrow> a = b \<or> Timeout_less a b"

instance
proof
  fix x y z :: timeout
  show "(x < y) = (x \<le> y \<and> \<not> y \<le> x)"
    by (cases x; cases y) (auto simp: less_timeout_def less_eq_timeout_def Timeout_less_def)
  show "x \<le> x" by (simp add: less_eq_timeout_def)
  show "x \<le> y \<Longrightarrow> y \<le> z \<Longrightarrow> x \<le> z"
    by (cases x; cases y; cases z)
      (auto simp: less_eq_timeout_def Timeout_less_def split: if_splits)
  show "x \<le> y \<Longrightarrow> y \<le> x \<Longrightarrow> x = y"
    by (cases x; cases y) (auto simp: less_eq_timeout_def Timeout_less_def split: if_splits)
  show "x \<le> y \<or> y \<le> x"
    by (cases x; cases y) (auto simp: less_eq_timeout_def Timeout_less_def)
qed

end

record waiting_fibers =
  timeouts :: "timeout list"
  wf_fibers :: "(fiber \<times> time) list"

definition WaitingFibers_new :: waiting_fibers where
  "WaitingFibers_new = \<lparr>timeouts = [], wf_fibers = []\<rparr>"

definition WaitingFibers_bool :: "waiting_fibers \<Rightarrow> bool" where
  "WaitingFibers_bool w \<longleftrightarrow> wf_fibers w \<noteq> []"

text \<open>\<open>begin()\<close> of an empty set, dereferenced, is a fault.\<close>

definition timeouts_begin :: "waiting_fibers \<Rightarrow> timeout res" where
  "timeouts_begin w = (case timeouts w of [] \<Rightarrow> Inl EmptyContainer | x # _ \<Rightarrow> Inr x)"

definition WaitingFibers_take :: "time \<Rightarrow> waiting_fibers \<Rightarrow> (fiber option \<times> waiting_fibers) res" where
  "WaitingFibers_take timeout w =
     (if \<not> WaitingFibers_bool w then Inr (None, w)
      else bind_res (timeouts_begin w) (\<lambda>it.
           if timepoint it > timeout then Inr (None, w)
           else Inr (Some (tfiber it),
                     w\<lparr>wf_fibers := filter (\<lambda>p. fst p \<noteq> tfiber it) (wf_fibers w)\<rparr>)))"

definition WaitingFibers_first :: "waiting_fibers \<Rightarrow> time res" where
  "WaitingFibers_first w = bind_res (timeouts_begin w) (\<lambda>it. Inr (timepoint it))"

definition WaitingFibers_add :: "time \<Rightarrow> fiber \<Rightarrow> waiting_fibers \<Rightarrow> waiting_fibers" where
  "WaitingFibers_add timeout f w =
     w\<lparr>timeouts := insort_insert (Timeout timeout f) (timeouts w),
       wf_fibers := (if map_of (wf_fibers w) f = None then (f, timeout) # wf_fibers w
                     else wf_fibers w)\<rparr>"

definition WaitingFibers_erase :: "fiber \<Rightarrow> waiting_fibers \<Rightarrow> waiting_fibers" where
  "WaitingFibers_erase f w =
     (case map_of (wf_fibers w) f of
        None \<Rightarrow> w
      | Some timeout \<Rightarrow> w\<lparr>timeouts := filter (\<lambda>x. x \<noteq> Timeout timeout f) (timeouts w)\<rparr>)"

definition WaitingFibers_contains :: "fiber \<Rightarrow> waiting_fibers \<Rightarrow> bool" where
  "WaitingFibers_contains f w \<longleftrightarrow> map_of (wf_fibers w) f \<noteq> None"

subsection \<open>What the two containers promise\<close>

text \<open>Both containers are well formed, and they hold the same fibers with the same times.\<close>

definition wf_inv :: "waiting_fibers \<Rightarrow> bool" where
  "wf_inv w \<longleftrightarrow> sorted (timeouts w) \<and> distinct (timeouts w) \<and> distinct (map fst (wf_fibers w))"

definition wf_agree :: "waiting_fibers \<Rightarrow> bool" where
  "wf_agree w \<longleftrightarrow>
     wf_inv w \<and> set (timeouts w) = (\<lambda>(f, t). Timeout t f) ` set (wf_fibers w)"

lemma wf_new: "wf_agree WaitingFibers_new"
  by (simp add: wf_agree_def wf_inv_def WaitingFibers_new_def)

lemma filter_sorted: "sorted xs \<Longrightarrow> sorted (filter P xs)"
  by (rule sorted_filter [of id, simplified])

lemma distinct_map_fst_filter: "distinct (map fst xs) \<Longrightarrow> distinct (map fst (filter P xs))"
  by (induction xs) auto

text \<open>Every operation keeps the containers well formed.\<close>

lemma wf_inv_ops:
  assumes "wf_inv w"
  shows "wf_inv (WaitingFibers_add t f w)" and "wf_inv (WaitingFibers_erase f w)"
    and "WaitingFibers_take now w = Inr (r, w') \<Longrightarrow> wf_inv w'"
  using assms
  by (auto simp: wf_inv_def WaitingFibers_add_def WaitingFibers_erase_def WaitingFibers_take_def
      sorted_insort_insert distinct_insort_insert map_of_eq_None_iff filter_sorted
      distinct_map_fst_filter split: option.splits if_splits)

text \<open>\<open>add\<close> of a fiber that does not wait yet keeps them in agreement.\<close>

lemma wf_agree_add:
  "wf_agree w \<Longrightarrow> \<not> WaitingFibers_contains f w \<Longrightarrow> wf_agree (WaitingFibers_add t f w)"
  using wf_inv_ops(1) [of w t f]
  by (auto simp: wf_agree_def WaitingFibers_contains_def WaitingFibers_add_def set_insort_insert)

text \<open>The set gives the earliest deadline first.\<close>

lemma wf_agree_first:
  assumes "wf_agree w" "WaitingFibers_bool w"
  obtains t f xs where "timeouts w = Timeout t f # xs" "(f, t) \<in> set (wf_fibers w)"
    "\<And>g u. (g, u) \<in> set (wf_fibers w) \<Longrightarrow> t \<le> u"
proof -
  have im: "set (timeouts w) = (\<lambda>(f, t). Timeout t f) ` set (wf_fibers w)"
    and sorted: "sorted (timeouts w)"
    using assms(1) by (simp_all add: wf_agree_def wf_inv_def)
  from assms(2) im have "timeouts w \<noteq> []" by (auto simp: WaitingFibers_bool_def)
  then obtain t f xs where xs: "timeouts w = Timeout t f # xs"
    by (metis list.exhaust timeout.exhaust)
  have "Timeout t f \<in> (\<lambda>(f, t). Timeout t f) ` set (wf_fibers w)"
    using xs by (simp add: im [symmetric])
  then have "(f, t) \<in> set (wf_fibers w)" by auto
  moreover have "t \<le> u" if "(g, u) \<in> set (wf_fibers w)" for g u
  proof -
    have "Timeout u g \<in> set (timeouts w)" using that by (auto simp: im)
    then have "Timeout t f \<le> Timeout u g" using xs sorted by auto
    then show ?thesis by (auto simp: less_eq_timeout_def Timeout_less_def split: if_splits)
  qed
  ultimately show ?thesis using that xs by blast
qed

text \<open>What \<open>take\<close> does when the containers agree.\<close>

lemma take_cases:
  assumes "wf_agree w"
  obtains (none) "WaitingFibers_take now w = Inr (None, w)" "\<And>g u. (g, u) \<in> set (wf_fibers w) \<Longrightarrow> now < u"
  | (some) f t where "WaitingFibers_take now w =
        Inr (Some f, w\<lparr>wf_fibers := filter (\<lambda>p. fst p \<noteq> f) (wf_fibers w)\<rparr>)"
      "(f, t) \<in> set (wf_fibers w)" "t \<le> now" "\<And>g u. (g, u) \<in> set (wf_fibers w) \<Longrightarrow> t \<le> u"
      "\<exists>xs. timeouts w = Timeout t f # xs"
proof (cases "WaitingFibers_bool w")
  case True
  then obtain t f xs where *: "timeouts w = Timeout t f # xs" "(f, t) \<in> set (wf_fibers w)"
    "\<And>g u. (g, u) \<in> set (wf_fibers w) \<Longrightarrow> t \<le> u"
    using wf_agree_first [OF assms] by blast
  then show ?thesis
    using True some [of f t] none
    by (cases "t > now") (auto simp: WaitingFibers_take_def timeouts_begin_def order.strict_trans2)
next
  case False
  then show ?thesis using none by (simp add: WaitingFibers_take_def WaitingFibers_bool_def)
qed

text \<open>
  \<open>take\<close> leaves its timeout in the set, so while any other fiber waits, it gives the same
  fiber again.
\<close>

lemma take_again:
  assumes "WaitingFibers_take now w = Inr (Some f, w1)" "WaitingFibers_bool w1"
  shows "WaitingFibers_take now w1 = Inr (Some f, w1)"
proof -
  obtain x xs where x: "timeouts w = x # xs" "tfiber x = f" "\<not> timepoint x > now"
    "w1 = w\<lparr>wf_fibers := filter (\<lambda>p. fst p \<noteq> f) (wf_fibers w)\<rparr>"
    using assms(1)
    by (auto simp: WaitingFibers_take_def timeouts_begin_def split: if_splits list.splits)
  then show ?thesis using assms(2)
    by (auto simp: WaitingFibers_take_def timeouts_begin_def)
qed

text \<open>
  \<open>take\<close> on containers that agree: it gives no fiber exactly when no deadline has passed,
  and otherwise a fiber with the earliest deadline, which it takes out of the map.
\<close>

theorem take_earliest:
  assumes "wf_agree w"
  shows "\<exists>r w'. WaitingFibers_take now w = Inr (r, w') \<and>
    (case r of
       None \<Rightarrow> w' = w \<and> list_all (\<lambda>(g, u). now < u) (wf_fibers w)
     | Some f \<Rightarrow> list_ex (\<lambda>(g, t). g = f \<and> t \<le> now \<and>
           list_all (\<lambda>(h, u). t \<le> u) (wf_fibers w)) (wf_fibers w) \<and>
         \<not> WaitingFibers_contains f w' \<and> timeouts w' = timeouts w)"
  using assms
  by (cases rule: take_cases [where now = now])
    (force simp: list_all_iff list_ex_iff WaitingFibers_contains_def map_of_eq_None_iff)+

theorem take_earliest_witness:
  "\<exists>w'. WaitingFibers_take 6 (WaitingFibers_add 5 11 (WaitingFibers_add 9 10 WaitingFibers_new)) =
     Inr (Some 11, w') \<and> \<not> WaitingFibers_contains 11 w'"
proof -
  let ?w = "WaitingFibers_add 5 11 (WaitingFibers_add 9 10 WaitingFibers_new)"
  have agree: "wf_agree ?w"
    by (intro wf_agree_add wf_new)
      (simp_all add: WaitingFibers_contains_def WaitingFibers_new_def WaitingFibers_add_def)
  obtain w' where "WaitingFibers_take 6 ?w = Inr (Some 11, w')"
    by (simp add: WaitingFibers_take_def WaitingFibers_bool_def WaitingFibers_new_def
        WaitingFibers_add_def timeouts_begin_def insort_insert_key_def less_eq_timeout_def
        Timeout_less_def)
  then show ?thesis using take_earliest [OF agree, of 6] by auto
qed

text \<open>\<open>erase\<close> leaves the fiber in the map.\<close>

lemma erase_contains [simp]:
  "WaitingFibers_contains f (WaitingFibers_erase g w) = WaitingFibers_contains f w"
  "WaitingFibers_bool (WaitingFibers_erase g w) = WaitingFibers_bool w"
  by (auto simp: WaitingFibers_contains_def WaitingFibers_bool_def WaitingFibers_erase_def
      split: option.splits)

text \<open>After \<open>erase\<close> of the only fiber the set is empty and the map is not.\<close>

lemma erase_last:
  assumes "wf_agree w" "wf_fibers w = [(f, t)]"
  shows "WaitingFibers_bool (WaitingFibers_erase f w)"
    and "WaitingFibers_first (WaitingFibers_erase f w) = Inl EmptyContainer"
    and "WaitingFibers_take now (WaitingFibers_erase f w) = Inl EmptyContainer"
proof -
  have set: "set (timeouts w) = {Timeout t f}" and "distinct (timeouts w)"
    using assms by (simp_all add: wf_agree_def wf_inv_def)
  then have "length (timeouts w) = Suc 0" by (simp add: distinct_card [symmetric])
  then have "timeouts w = [Timeout t f]" using set by (auto simp: length_Suc_conv)
  then show "WaitingFibers_bool (WaitingFibers_erase f w)"
    "WaitingFibers_first (WaitingFibers_erase f w) = Inl EmptyContainer"
    "WaitingFibers_take now (WaitingFibers_erase f w) = Inl EmptyContainer"
    using assms(2)
    by (simp_all add: WaitingFibers_bool_def WaitingFibers_erase_def WaitingFibers_first_def
        WaitingFibers_take_def timeouts_begin_def)
qed

end
