(* ===== verification/Worker.thy ===== *)
theory Worker
  imports Task Waiting_Fibers
begin

text \<open>
  The operations of a worker (\<open>include/hfts/worker.hpp\<close>, \<open>src/worker.cpp\<close>). Each
  definition is one piece of straight-line code between two points at which the worker gives up its
  mutex or switches fibers; the theory \<open>Worker_Machine\<close> strings them together.
\<close>

subsection \<open>State\<close>

datatype mode = MultiThreaded | SingleThreaded

text \<open>\<open>Worker::Work\<close>; \<open>locked\<close> says whether some thread holds \<open>work.mutex\<close>.\<close>

record 'f work =
  num :: u64
  numBlockedFibers :: u64
  tasks :: "'f task list"
  fibers :: "fiber list"
  waiting :: waiting_fibers
  notifyAdded :: bool
  locked :: bool

text \<open>
  \<open>idleFibers\<close> is an \<open>unordered_set\<close>: a list without duplicates whose order means
  nothing. A fiber pointer that is null is 0. \<open>state\<close> collects the field \<open>state\<close> of
  the fibers.
\<close>

record 'f worker =
  w_id :: u32
  w_mode :: mode
  mainFiber :: fiber
  currentFiber :: fiber
  work :: "'f work"
  idleFibers :: "fiber list"
  workerFibers :: "fiber list"
  shutdown :: bool
  state :: fiber_states

definition Work_new :: "'f work" where
  "Work_new = \<lparr>num = 0, numBlockedFibers = 0, tasks = [], fibers = [],
     waiting = WaitingFibers_new, notifyAdded = True, locked = False\<rparr>"

definition Worker_new :: "mode \<Rightarrow> u32 \<Rightarrow> 'f worker" where
  "Worker_new m i = \<lparr>w_id = i, w_mode = m, mainFiber = 0, currentFiber = 0, work = Work_new,
     idleFibers = [], workerFibers = [], shutdown = False, state = (\<lambda>_. Running)\<rparr>"

text \<open>\<open>start\<close> makes a fiber of the thread's own stack: the main fiber, with the id 0.\<close>

definition Worker_start :: "fiber \<Rightarrow> 'f worker \<Rightarrow> 'f worker" where
  "Worker_start main w = w\<lparr>mainFiber := main, currentFiber := main\<rparr>"

definition getCurrentFiber :: "'f worker \<Rightarrow> fiber" where
  "getCurrentFiber w = currentFiber w"

definition set_state :: "fiber \<Rightarrow> fiber_state \<Rightarrow> 'f worker \<Rightarrow> 'f worker" where
  "set_state f to w = w\<lparr>state := setFiberState f to (state w)\<rparr>"

definition change_state :: "fiber \<Rightarrow> fiber_state \<Rightarrow> fiber_state \<Rightarrow> 'f worker \<Rightarrow> 'f worker" where
  "change_state f from to w = w\<lparr>state := changeFiberState f from to (state w)\<rparr>"

subsection \<open>The queues\<close>

definition push_fiber :: "fiber \<Rightarrow> 'f work \<Rightarrow> 'f work" where
  "push_fiber f k = k\<lparr>fibers := fibers k @ [f], num := num k + 1\<rparr>"

definition push_task :: "'f task \<Rightarrow> 'f work \<Rightarrow> 'f work" where
  "push_task t k = k\<lparr>tasks := tasks k @ [t], num := num k + 1\<rparr>"

text \<open>\<open>containers::take\<close> of a deque, after the count has been decremented.\<close>

definition take_fiber :: "'f work \<Rightarrow> (fiber \<times> 'f work) res" where
  "take_fiber k =
     (case fibers k of [] \<Rightarrow> Inl EmptyContainer
      | f # fs \<Rightarrow> Inr (f, k\<lparr>num := num k - 1, fibers := fs\<rparr>))"

definition take_task :: "'f work \<Rightarrow> ('f task \<times> 'f work) res" where
  "take_task k =
     (case tasks k of [] \<Rightarrow> Inl EmptyContainer
      | t # ts \<Rightarrow> Inr (t, k\<lparr>num := num k - 1, tasks := ts\<rparr>))"

subsection \<open>Calls from other threads\<close>

text \<open>\<open>enqueue(Fiber*)\<close>; the result says whether \<open>added\<close> is notified.\<close>

definition enqueue_fiber :: "fiber \<Rightarrow> 'f worker \<Rightarrow> bool \<times> 'f worker" where
  "enqueue_fiber f w =
     (if state w f = Running \<or> state w f = Queued then (False, w)
      else let w = (if state w f = Waiting
                    then work_update (\<lambda>k. k\<lparr>waiting := WaitingFibers_erase f (waiting k)\<rparr>) w
                    else w);
               notify = notifyAdded (work w);
               w = work_update (push_fiber f) (set_state f Queued w)
           in (notify, w))"

definition Worker_tryLock :: "'f worker \<Rightarrow> bool \<times> 'f worker" where
  "Worker_tryLock w = (\<not> locked (work w), work_update (\<lambda>k. k\<lparr>locked := True\<rparr>) w)"

definition enqueueAndUnlock :: "'f task \<Rightarrow> 'f worker \<Rightarrow> bool \<times> 'f worker" where
  "enqueueAndUnlock t w =
     (notifyAdded (work w), work_update (\<lambda>k. (push_task t k)\<lparr>locked := False\<rparr>) w)"

text \<open>\<open>enqueue(Task&&)\<close>, once the mutex is free.\<close>

definition enqueue_task :: "'f task \<Rightarrow> 'f worker \<Rightarrow> bool \<times> 'f worker" where
  "enqueue_task t w = enqueueAndUnlock t (work_update (\<lambda>k. k\<lparr>locked := True\<rparr>) w)"

definition steal :: "'f worker \<Rightarrow> ('f task option \<times> 'f worker) res" where
  "steal w =
     (if num (work w) = 0 then Inr (None, w)
      else if locked (work w) then Inr (None, w)
      else if tasks (work w) = [] \<or> Task_is SameThread (hd (tasks (work w))) then Inr (None, w)
      else bind_res (take_task (work w)) (\<lambda>(t, k). Inr (Some t, w\<lparr>work := k\<rparr>)))"

subsection \<open>Switching fibers\<close>

definition switchToFiber :: "fiber \<Rightarrow> 'f worker \<Rightarrow> 'f worker" where
  "switchToFiber to w = (if to = currentFiber w then w else w\<lparr>currentFiber := to\<rparr>)"

text \<open>\<open>fresh\<close> is the address of the fiber that the allocator provides.\<close>

definition createWorkerFiber :: "fiber \<Rightarrow> 'f worker \<Rightarrow> 'f worker" where
  "createWorkerFiber fresh w =
     (set_state fresh Running w)\<lparr>workerFibers := workerFibers w @ [fresh]\<rparr>"

definition createWorkerFiber_id :: "'f worker \<Rightarrow> u32" where
  "createWorkerFiber_id w = of_nat (length (workerFibers w) + 1)"

subsection \<open>\<open>suspend\<close>\<close>

text \<open>Up to \<open>waitForWork\<close>: the current fiber becomes a waiter.\<close>

definition suspend_begin :: "time option \<Rightarrow> 'f worker \<Rightarrow> 'f worker" where
  "suspend_begin timeout w =
     (case timeout of
        Some t \<Rightarrow> work_update (\<lambda>k. k\<lparr>waiting := WaitingFibers_add t (currentFiber w) (waiting k)\<rparr>)
                    (change_state (currentFiber w) Running Waiting w)
      | None \<Rightarrow> change_state (currentFiber w) Running Yielded w)"

text \<open>
  From \<open>waitForWork\<close> to the switch. \<open>pick\<close> is the element that
  \<open>idleFibers.begin()\<close> gives, \<open>fresh\<close> the address of a new fiber.
\<close>

definition suspend_switch :: "fiber \<Rightarrow> fiber \<Rightarrow> 'f worker \<Rightarrow> 'f worker res" where
  "suspend_switch pick fresh w =
     (let w = work_update (\<lambda>k. k\<lparr>numBlockedFibers := numBlockedFibers k + 1\<rparr>) w
      in if fibers (work w) \<noteq> []
         then bind_res (take_fiber (work w)) (\<lambda>(to, k). Inr (switchToFiber to (w\<lparr>work := k\<rparr>)))
         else if idleFibers w \<noteq> []
         then Inr (switchToFiber pick (w\<lparr>idleFibers := remove1 pick (idleFibers w)\<rparr>))
         else Inr (switchToFiber fresh (createWorkerFiber fresh w)))"

text \<open>After the switch back.\<close>

definition suspend_end :: "'f worker \<Rightarrow> 'f worker" where
  "suspend_end w =
     set_state (currentFiber w) Running
       (work_update (\<lambda>k. k\<lparr>numBlockedFibers := numBlockedFibers k - 1\<rparr>) w)"

subsection \<open>\<open>waitForWork\<close>\<close>

text \<open>
  \<open>Work::wait\<close> before it blocks: the deadline it blocks until, if any fiber has one.
\<close>

definition Work_wait_begin :: "'f work \<Rightarrow> (time option \<times> 'f work) res" where
  "Work_wait_begin k =
     (let k = k\<lparr>notifyAdded := True\<rparr>
      in if WaitingFibers_bool (waiting k)
         then bind_res (WaitingFibers_first (waiting k)) (\<lambda>t. Inr (Some t, k))
         else Inr (None, k))"

definition Work_wait_end :: "'f work \<Rightarrow> 'f work" where
  "Work_wait_end k = k\<lparr>notifyAdded := False\<rparr>"

definition waitForWork_pred :: "'f worker \<Rightarrow> bool" where
  "waitForWork_pred w \<longleftrightarrow>
     num (work w) > 0 \<or> (shutdown w \<and> numBlockedFibers (work w) = 0)"

definition run_pred :: "'f worker \<Rightarrow> bool" where
  "run_pred w \<longleftrightarrow> num (work w) > 0 \<or> WaitingFibers_bool (waiting (work w)) \<or> shutdown w"

text \<open>
  The loop of \<open>enqueueFiberTimeouts\<close>; \<open>None\<close> is a loop that does not end.
\<close>

partial_function (option) enqueueFiberTimeouts :: "time \<Rightarrow> 'f work \<Rightarrow> 'f work res option" where
  "enqueueFiberTimeouts now k =
     (case WaitingFibers_take now (waiting k) of
        Inl e \<Rightarrow> Some (Inl e)
      | Inr (None, ws) \<Rightarrow> Some (Inr (k\<lparr>waiting := ws\<rparr>))
      | Inr (Some f, ws) \<Rightarrow> enqueueFiberTimeouts now (push_fiber f (k\<lparr>waiting := ws\<rparr>)))"

text \<open>\<open>waitForWork\<close> after \<open>work.wait\<close> has returned.\<close>

definition waitForWork_end :: "time \<Rightarrow> 'f work \<Rightarrow> 'f work res option" where
  "waitForWork_end now k =
     (let k = Work_wait_end k
      in if WaitingFibers_bool (waiting k) then enqueueFiberTimeouts now k else Some (Inr k))"

text \<open>The two ways out of \<open>spinForWorkAndLock\<close> with work, both with the mutex taken.\<close>

definition spin_found :: "'f worker \<Rightarrow> (bool \<times> 'f worker)" where
  "spin_found w = (num (work w) > 0, work_update (\<lambda>k. k\<lparr>locked := True\<rparr>) w)"

definition spin_stolen :: "'f task \<Rightarrow> 'f worker \<Rightarrow> 'f worker" where
  "spin_stolen t w = work_update (\<lambda>k. push_task t (k\<lparr>locked := True\<rparr>)) w"

subsection \<open>\<open>runUntilIdle\<close> and \<open>runUntilShutdown\<close>\<close>

definition runUntilShutdown_cond :: "'f worker \<Rightarrow> bool" where
  "runUntilShutdown_cond w \<longleftrightarrow>
     \<not> shutdown w \<or> num (work w) > 0 \<or> numBlockedFibers (work w) > 0"

text \<open>Switch to the next ready fiber; the current one becomes idle.\<close>

definition runUntilIdle_fiber :: "'f worker \<Rightarrow> 'f worker res" where
  "runUntilIdle_fiber w =
     bind_res (take_fiber (work w)) (\<lambda>(f, k).
     let w = change_state (currentFiber w) Running Idle (w\<lparr>work := k\<rparr>);
         w = w\<lparr>idleFibers := List.insert (currentFiber w) (idleFibers w)\<rparr>
     in Inr (switchToFiber f w))"

definition runUntilIdle_resumed :: "'f worker \<Rightarrow> 'f worker" where
  "runUntilIdle_resumed w = change_state (currentFiber w) Idle Running w"

text \<open>Take the next task and release the mutex to run it.\<close>

definition runUntilIdle_task :: "'f worker \<Rightarrow> ('f task \<times> 'f worker) res" where
  "runUntilIdle_task w =
     bind_res (take_task (work w)) (\<lambda>(t, k). Inr (t, w\<lparr>work := k\<lparr>locked := False\<rparr>\<rparr>))"

subsection \<open>The counter \<open>num\<close>\<close>

text \<open>\<open>num\<close> is \<open>tasks.size() + fibers.size()\<close>, modulo its 64 bits.\<close>

definition work_count :: "'f work \<Rightarrow> bool" where
  "work_count k \<longleftrightarrow> num k = of_nat (length (tasks k) + length (fibers k))"

lemma work_count_new [simp]: "work_count Work_new"
  by (simp add: work_count_def Work_new_def)

lemma work_count_push [simp]:
  "work_count (push_fiber f k) \<longleftrightarrow> work_count k" "work_count (push_task t k) \<longleftrightarrow> work_count k"
  by (simp_all add: work_count_def push_fiber_def push_task_def)

lemma work_count_take:
  "take_fiber k = Inr (f, k') \<Longrightarrow> work_count k' \<longleftrightarrow> work_count k"
  "take_task k = Inr (t, k') \<Longrightarrow> work_count k' \<longleftrightarrow> work_count k"
  by (auto simp: work_count_def take_fiber_def take_task_def diff_eq_eq split: list.splits)

lemma work_count_fields [simp]:
  "work_count (k\<lparr>waiting := w\<rparr>) \<longleftrightarrow> work_count k"
  "work_count (k\<lparr>locked := b\<rparr>) \<longleftrightarrow> work_count k"
  "work_count (k\<lparr>notifyAdded := b\<rparr>) \<longleftrightarrow> work_count k"
  "work_count (k\<lparr>numBlockedFibers := n\<rparr>) \<longleftrightarrow> work_count k"
  by (simp_all add: work_count_def)

text \<open>The queues are empty exactly when the counter is 0, short of 2^64 entries.\<close>

lemma work_count_zero:
  assumes "work_count k" "length (tasks k) + length (fibers k) < 2 ^ 64"
  shows "num k = 0 \<longleftrightarrow> tasks k = [] \<and> fibers k = []"
proof -
  have "unat (num k) = length (tasks k) + length (fibers k)"
    using assms by (simp add: work_count_def unat_of_nat_64 del: of_nat_add)
  then show ?thesis by (auto simp: unat_eq_0 [symmetric] simp del: unat_eq_0)
qed

subsection \<open>Stealing\<close>

text \<open>A theft takes the first task, which is not bound to its thread, or changes nothing.\<close>

lemma steal_cases:
  assumes "work_count (work w)" "length (tasks (work w)) + length (fibers (work w)) < 2 ^ 64"
  obtains (none) "steal w = Inr (None, w)"
      "locked (work w) \<or> tasks (work w) = [] \<or> flag (hd (tasks (work w))) = SameThread"
  | (some) t ts where "tasks (work w) = t # ts" "flag t = NoFlag" "\<not> locked (work w)"
      "steal w = Inr (Some t, work_update (\<lambda>k. k\<lparr>num := num k - 1, tasks := ts\<rparr>) w)"
proof (cases "locked (work w) \<or> tasks (work w) = [] \<or> flag (hd (tasks (work w))) = SameThread")
  case True
  then show ?thesis using none by (auto simp: steal_def)
next
  case False
  then obtain t ts where t: "tasks (work w) = t # ts" "flag t = NoFlag" "\<not> locked (work w)"
    by (metis flag.exhaust list.sel(1) list.exhaust)
  then have "num (work w) \<noteq> 0" using work_count_zero [OF assms] by simp
  then show ?thesis using t some by (simp add: steal_def take_task_def)
qed

subsection \<open>Expired timeouts\<close>

text \<open>
  The first deadline has passed and some other fiber waits: \<open>take\<close> keeps giving the fiber of
  that deadline.
\<close>

definition timeouts_stuck :: "time \<Rightarrow> waiting_fibers \<Rightarrow> bool" where
  "timeouts_stuck now w \<longleftrightarrow>
     (case timeouts w of
        [] \<Rightarrow> False
      | x # _ \<Rightarrow> timepoint x \<le> now \<and> list_ex (\<lambda>(g, t). g \<noteq> tfiber x) (wf_fibers w))"

lemma stuck_take:
  assumes "timeouts_stuck now w"
  shows "\<exists>f w'. WaitingFibers_take now w = Inr (Some f, w') \<and> timeouts_stuck now w'"
  using assms
  by (auto simp: timeouts_stuck_def WaitingFibers_take_def WaitingFibers_bool_def timeouts_begin_def
      list_ex_iff split: list.splits) force

lemma enqueueFiberTimeouts_returns_not_stuck:
  assumes "enqueueFiberTimeouts now k = Some r"
  shows "\<not> timeouts_stuck now (waiting k)"
proof (rule enqueueFiberTimeouts.raw_induct [OF _ assms])
  fix rec :: "time \<Rightarrow> 'a work \<Rightarrow> 'a work res option" and now k r
  assume IH: "\<And>now k r. rec now k = Some r \<Longrightarrow> \<not> timeouts_stuck now (waiting k)"
    and r: "(case WaitingFibers_take now (waiting k) of
        Inl e \<Rightarrow> Some (Inl e)
      | Inr (None, ws) \<Rightarrow> Some (Inr (k\<lparr>waiting := ws\<rparr>))
      | Inr (Some f, ws) \<Rightarrow> rec now (push_fiber f (k\<lparr>waiting := ws\<rparr>))) = Some r"
  show "\<not> timeouts_stuck now (waiting k)"
  proof
    assume "timeouts_stuck now (waiting k)"
    then obtain f w' where "WaitingFibers_take now (waiting k) = Inr (Some f, w')"
      "timeouts_stuck now w'"
      using stuck_take by blast
    then show False
      using IH [of now "push_fiber f (k\<lparr>waiting := w'\<rparr>)" r] r by (simp add: push_fiber_def)
  qed
qed

text \<open>The loop on any waiting fibers, well formed or not.\<close>

definition timeouts_result :: "time \<Rightarrow> 'f work \<Rightarrow> 'f work res option" where
  "timeouts_result now k =
     (let w = waiting k
      in if \<not> WaitingFibers_bool w then Some (Inr k)
         else case timeouts w of
             [] \<Rightarrow> Some (Inl EmptyContainer)
           | x # _ \<Rightarrow>
               if timepoint x > now then Some (Inr k)
               else if list_ex (\<lambda>(g, t). g \<noteq> tfiber x) (wf_fibers w) then None
               else Some (Inr (push_fiber (tfiber x) (k\<lparr>waiting := w\<lparr>wf_fibers := []\<rparr>\<rparr>))))"

lemma enqueueFiberTimeouts_eq: "enqueueFiberTimeouts now k = timeouts_result now k"
proof (cases "timeouts_stuck now (waiting k)")
  case True
  then have "timeouts_result now k = None"
    by (auto simp: timeouts_result_def timeouts_stuck_def WaitingFibers_bool_def Let_def
        split: list.splits)
  moreover have "enqueueFiberTimeouts now k = None"
    using True enqueueFiberTimeouts_returns_not_stuck by (cases "enqueueFiberTimeouts now k") blast+
  ultimately show ?thesis by simp
next
  case False
  note unroll = enqueueFiberTimeouts.simps [of now]
  show ?thesis
  proof (cases "WaitingFibers_bool (waiting k) \<and> (\<exists>x xs. timeouts (waiting k) = x # xs \<and> timepoint x \<le> now)")
    case True
    then obtain x xs where x: "timeouts (waiting k) = x # xs" "timepoint x \<le> now" by blast
    have no: "\<not> list_ex (\<lambda>(g, t). g \<noteq> tfiber x) (wf_fibers (waiting k))"
      using False x by (simp add: timeouts_stuck_def)
    then have "filter (\<lambda>p. fst p \<noteq> tfiber x) (wf_fibers (waiting k)) = []"
      by (auto simp: filter_empty_conv list_ex_iff)
    then have t1: "WaitingFibers_take now (waiting k) =
        Inr (Some (tfiber x), (waiting k)\<lparr>wf_fibers := []\<rparr>)"
      using True x by (simp add: WaitingFibers_take_def timeouts_begin_def)
    have t2: "WaitingFibers_take now ((waiting k)\<lparr>wf_fibers := []\<rparr>) =
        Inr (None, (waiting k)\<lparr>wf_fibers := []\<rparr>)"
      by (simp add: WaitingFibers_take_def WaitingFibers_bool_def)
    have "enqueueFiberTimeouts now k =
        Some (Inr (push_fiber (tfiber x) (k\<lparr>waiting := (waiting k)\<lparr>wf_fibers := []\<rparr>\<rparr>)))"
      by (subst unroll, subst unroll) (simp add: t1 t2 push_fiber_def)
    then show ?thesis using True x no by (simp add: timeouts_result_def)
  next
    case no: False
    then show ?thesis
      by (subst unroll)
        (auto simp: timeouts_result_def WaitingFibers_take_def timeouts_begin_def Let_def
          split: list.splits)
  qed
qed

text \<open>
  When the loop that collects expired timeouts ends, and with what. It does not end as soon
  as the earliest deadline of the set has passed and the map holds any other fiber; it faults when
  the map is not empty and the set is; in the cases left it moves at most one fiber to the queue.
\<close>

theorem enqueueFiberTimeouts_outcome:
  "enqueueFiberTimeouts now k = timeouts_result now k"
  by (rule enqueueFiberTimeouts_eq)

subsection \<open>Notification\<close>

lemmas enqueue_defs = enqueue_fiber_def set_state_def push_fiber_def Let_def

lemma enqueue_fiber_state: "state (snd (enqueue_fiber f w)) f \<in> {Running, Queued}"
  by (auto simp: enqueue_defs)

text \<open>
  A second notification of a fiber changes nothing: once \<open>enqueue\<close> has queued a fiber,
  another \<open>enqueue\<close> of it returns at once; the first one adds the fiber at the end of the
  queue and counts it, unless it runs or is queued already.
\<close>

theorem enqueue_fiber_once:
  "fibers (work (snd (enqueue_fiber f w))) =
     (if state w f \<in> {Running, Queued} then fibers (work w) else fibers (work w) @ [f]) \<and>
   (work_count (work w) \<longleftrightarrow> work_count (work (snd (enqueue_fiber f w)))) \<and>
   enqueue_fiber f (snd (enqueue_fiber f w)) = (False, snd (enqueue_fiber f w))"
  by (auto simp: enqueue_defs work_count_def)

text \<open>A fiber whose timeout has expired is queued in the state \<open>Waiting\<close>.\<close>

lemma expired_waiting:
  assumes "enqueueFiberTimeouts now (work w) = Some (Inr k)" "fibers k \<noteq> fibers (work w)"
  obtains x xs where "timeouts (waiting (work w)) = x # xs" "timepoint x \<le> now"
    "k = push_fiber (tfiber x) ((work w)\<lparr>waiting := (waiting (work w))\<lparr>wf_fibers := []\<rparr>\<rparr>)"
    "wf_fibers (waiting (work w)) \<noteq> []" "set (map fst (wf_fibers (waiting (work w)))) \<subseteq> {tfiber x}"
proof -
  from assms obtain x xs where "timeouts (waiting (work w)) = x # xs" "timepoint x \<le> now"
    "k = push_fiber (tfiber x) ((work w)\<lparr>waiting := (waiting (work w))\<lparr>wf_fibers := []\<rparr>\<rparr>)"
    "wf_fibers (waiting (work w)) \<noteq> []"
    "\<not> list_ex (\<lambda>(g, t). g \<noteq> tfiber x) (wf_fibers (waiting (work w)))"
    by (auto simp: enqueueFiberTimeouts_eq timeouts_result_def WaitingFibers_bool_def
        Let_def split: if_splits list.splits)
  then show ?thesis by (intro that) (auto simp: list_ex_iff)
qed

text \<open>A worker whose current fiber \<open>f\<close> has just begun to wait until \<open>t\<close>.\<close>

definition one_waiter :: "fiber \<Rightarrow> time \<Rightarrow> nat worker" where
  "one_waiter f t = suspend_begin (Some t) (Worker_start f (Worker_new MultiThreaded 0))"

lemmas one_waiter_defs = one_waiter_def suspend_begin_def Worker_start_def Worker_new_def
  Work_new_def WaitingFibers_new_def WaitingFibers_add_def change_state_def insort_insert_key_def

lemma one_waiter_simps [simp]:
  "waiting (work (one_waiter f t)) = \<lparr>timeouts = [Timeout t f], wf_fibers = [(f, t)]\<rparr>"
  "state (one_waiter f t) f = Waiting" "fibers (work (one_waiter f t)) = []"
  by (simp_all add: one_waiter_defs)

lemma one_waiter_expired:
  "t \<le> now \<Longrightarrow> enqueueFiberTimeouts now (work (one_waiter f t)) =
     Some (Inr (push_fiber f ((work (one_waiter f t))\<lparr>waiting :=
       \<lparr>timeouts = [Timeout t f], wf_fibers = []\<rparr>\<rparr>)))"
  by (simp add: enqueueFiberTimeouts_eq timeouts_result_def WaitingFibers_bool_def)

text \<open>
  A timed wait that has expired and is then notified puts its fiber into the queue twice,
  since collecting the timeout does not set the state \<open>Queued\<close>.
\<close>

theorem expired_then_notified_twice:
  assumes "enqueueFiberTimeouts now (work w) = Some (Inr k)" "fibers k = fibers (work w) @ [f]"
    and "state w f = Waiting"
  shows "fibers (work (snd (enqueue_fiber f (w\<lparr>work := k\<rparr>)))) = fibers (work w) @ [f, f]"
  using assms by (simp add: enqueue_defs)

theorem expired_then_notified_twice_witness:
  "\<exists>k. enqueueFiberTimeouts 7 (work (one_waiter 3 5)) = Some (Inr k) \<and>
     fibers (work (snd (enqueue_fiber 3 ((one_waiter 3 5)\<lparr>work := k\<rparr>)))) = [3, 3]"
proof -
  let ?k = "push_fiber 3 ((work (one_waiter 3 5))\<lparr>waiting :=
    \<lparr>timeouts = [Timeout 5 3], wf_fibers = []\<rparr>\<rparr>)"
  have e: "enqueueFiberTimeouts 7 (work (one_waiter 3 5)) = Some (Inr ?k)"
    by (rule one_waiter_expired) simp
  have "fibers ?k = fibers (work (one_waiter 3 5)) @ [3]" by (simp add: push_fiber_def)
  from expired_then_notified_twice [OF e this] e show ?thesis by simp
qed

text \<open>
  C15. After one timed wait of a worker has expired, the next timed wait of another fiber hangs the
  worker: the expired entry is still the first of the set, so from then on the loop that collects
  timeouts does not end.
\<close>

theorem second_timed_wait_hangs:
  assumes inv: "wf_inv (waiting (work w))"
    and first: "enqueueFiberTimeouts now (work w) = Some (Inr k)" "fibers k = fibers (work w) @ [f]"
    and g: "g \<noteq> f" "now < t" "now \<le> later"
  shows "enqueueFiberTimeouts later (k\<lparr>waiting := WaitingFibers_add t g (waiting k)\<rparr>) = None"
proof -
  obtain x xs where x: "timeouts (waiting (work w)) = x # xs" "timepoint x \<le> now" "tfiber x = f"
    "waiting k = (waiting (work w))\<lparr>wf_fibers := []\<rparr>"
    using first by (elim expired_waiting) (auto simp: push_fiber_def)
  have "x < Timeout t g" using x(2) g(2) by (simp add: less_timeout_def Timeout_less_def)
  moreover have "sorted (x # xs)" using inv x(1) by (simp add: wf_inv_def)
  ultimately have "\<exists>ys. insort_insert (Timeout t g) (x # xs) = x # ys"
    by (auto simp: insort_insert_key_def)
  then show ?thesis using x g
    by (auto simp: enqueueFiberTimeouts_eq timeouts_result_def WaitingFibers_add_def
        WaitingFibers_bool_def)
qed

theorem second_timed_wait_hangs_witness:
  "\<exists>k. enqueueFiberTimeouts 7 (work (one_waiter 3 5)) = Some (Inr k) \<and>
     enqueueFiberTimeouts 8 (k\<lparr>waiting := WaitingFibers_add 100 4 (waiting k)\<rparr>) = None"
proof -
  let ?k = "push_fiber 3 ((work (one_waiter 3 5))\<lparr>waiting :=
    \<lparr>timeouts = [Timeout 5 3], wf_fibers = []\<rparr>\<rparr>)"
  have e: "enqueueFiberTimeouts 7 (work (one_waiter 3 5)) = Some (Inr ?k)"
    by (rule one_waiter_expired) simp
  have "wf_inv (waiting (work (one_waiter 3 5)))"
    "fibers ?k = fibers (work (one_waiter 3 5)) @ [3]"
    by (simp_all add: push_fiber_def wf_inv_def)
  from second_timed_wait_hangs [OF this(1) e this(2), of 4 100 8] e show ?thesis by simp
qed

text \<open>
  C16. A worker whose only timed waiter is notified before its deadline faults the next time it
  waits for work: \<open>erase\<close> empties the set and not the map, and \<open>first\<close> takes
  \<open>begin()\<close> of the empty set.
\<close>

theorem notified_timed_waiter_faults:
  assumes "wf_agree (waiting (work w))" "wf_fibers (waiting (work w)) = [(f, t)]"
    and "state w f = Waiting"
  shows "Work_wait_begin (work (snd (enqueue_fiber f w))) = Inl EmptyContainer"
  using assms erase_last [OF assms(1,2)] by (simp add: enqueue_defs Work_wait_begin_def)

theorem notified_timed_waiter_faults_witness:
  "Work_wait_begin (work (snd (enqueue_fiber 3 (one_waiter 3 5)))) = Inl EmptyContainer"
  by (rule notified_timed_waiter_faults [where t = 5]) (simp_all add: wf_agree_def wf_inv_def)

end
