(* ===== verification/Worker_Machine.thy ===== *)
theory Worker_Machine
  imports Worker
begin

text \<open>
  A worker thread as a state machine: where each of its fibers stands in the code of
  \<open>run\<close>, \<open>runUntilShutdown\<close>, \<open>waitForWork\<close>, \<open>runUntilIdle\<close> and
  \<open>suspend\<close> (\<open>src/worker.cpp\<close>), what the current fiber may do next, and what other
  threads may do to the worker while nobody holds \<open>work.mutex\<close>.
\<close>

subsection \<open>Where a fiber stands\<close>

text \<open>Code above the worker's own: a task, or the thread that bound a single-threaded worker.\<close>

datatype user = TaskCode | ThreadCode

text \<open>The caller of \<open>waitForWork\<close>.\<close>

datatype caller = OfLoop | OfSuspend user

datatype pc =
    NoFiber             \<comment> \<open>no fiber has this address\<close>
  | Created             \<comment> \<open>the thread is created and has not taken the mutex\<close>
  | Start               \<comment> \<open>at the beginning of \<open>run\<close>\<close>
  | InitBlocked         \<comment> \<open>blocked in the first \<open>work.wait\<close> of \<open>run\<close>\<close>
  | Loop                \<comment> \<open>at the condition of \<open>runUntilShutdown\<close>\<close>
  | Spin caller         \<comment> \<open>in \<open>spinForWorkAndLock\<close>\<close>
  | Block caller        \<comment> \<open>before \<open>work.wait\<close> in \<open>waitForWork\<close>\<close>
  | Blocked caller      \<comment> \<open>blocked in that \<open>work.wait\<close>\<close>
  | RunIdle             \<comment> \<open>at the head of the loops of \<open>runUntilIdle\<close>\<close>
  | Switched            \<comment> \<open>in the \<open>switchToFiber\<close> of \<open>runUntilIdle\<close>\<close>
  | User user           \<comment> \<open>in user code\<close>
  | Go user             \<comment> \<open>in \<open>suspend\<close>, after \<open>waitForWork\<close>\<close>
  | Suspended user      \<comment> \<open>in the \<open>switchToFiber\<close> of \<open>suspend\<close>\<close>
  | Finished            \<comment> \<open>\<open>run\<close> has returned\<close>

text \<open>Whether the thread holds \<open>work.mutex\<close> while its current fiber stands there.\<close>

fun holds :: "pc \<Rightarrow> bool" where
  "holds Start = True" | "holds Loop = True" | "holds (Block x) = True"
| "holds RunIdle = True" | "holds Switched = True" | "holds (Go u) = True"
| "holds (Suspended u) = True" | "holds _ = False"

fun is_suspended :: "pc \<Rightarrow> bool" where
  "is_suspended (Suspended u) = True" | "is_suspended _ = False"

text \<open>Inside \<open>suspend\<close>, before the switch.\<close>

fun suspending :: "pc \<Rightarrow> bool" where
  "suspending (Spin (OfSuspend u)) = True" | "suspending (Block (OfSuspend u)) = True"
| "suspending (Blocked (OfSuspend u)) = True" | "suspending (Go u) = True"
| "suspending _ = False"

text \<open>User code is on the fiber's stack, so that somebody may hold the fiber to notify it.\<close>

fun has_user :: "pc \<Rightarrow> bool" where
  "has_user (User u) = True" | "has_user (Suspended u) = True" | "has_user p = suspending p"

fun after_wait :: "caller \<Rightarrow> pc" where
  "after_wait OfLoop = RunIdle" | "after_wait (OfSuspend u) = Go u"

record 'f machine =
  wk :: "'f worker"
  pc :: "fiber \<Rightarrow> pc"

definition move :: "pc \<Rightarrow> 'f worker \<Rightarrow> 'f machine \<Rightarrow> 'f machine" where
  "move p w M = M\<lparr>wk := w, pc := (pc M)(currentFiber (wk M) := p)\<rparr>"

definition lock :: "bool \<Rightarrow> 'f worker \<Rightarrow> 'f worker" where
  "lock b w = work_update (\<lambda>k. k\<lparr>locked := b\<rparr>) w"

subsection \<open>Initial states\<close>

text \<open>
  A multi-threaded worker begins with its thread just created (\<open>start\<close>): the mutex is free, and
  tasks may come before the thread takes it; a single-threaded worker belongs to a thread that runs its
  own code.
\<close>

definition machine_start :: "mode \<Rightarrow> u32 \<Rightarrow> fiber \<Rightarrow> 'f machine" where
  "machine_start m i main =
     \<lparr>wk = Worker_start main (Worker_new m i),
      pc = (\<lambda>_. NoFiber)(main := if m = MultiThreaded then Created else User ThreadCode)\<rparr>"

subsection \<open>Steps\<close>

text \<open>Entering \<open>waitForWork\<close> with the mutex held.\<close>

definition waitForWork_enter :: "caller \<Rightarrow> 'f worker \<Rightarrow> 'f machine \<Rightarrow> 'f machine" where
  "waitForWork_enter x w M =
     (if num (work w) > 0 then move (after_wait x) w M
      else if w_mode w = MultiThreaded then move (Spin x) (lock False w) M
      else move (Block x) w M)"

text \<open>Queues and fibers stay below 2^64, which memory enforces.\<close>

definition room :: "'f worker \<Rightarrow> bool" where
  "room w \<longleftrightarrow> length (tasks (work w)) + length (fibers (work w)) + 1 < 2 ^ 64 \<and>
     length (workerFibers w) + 2 < 2 ^ 64"

text \<open>
  \<open>timed\<close> says whether user code may wait with a timeout. The step \<open>go\<close> gives a new
  fiber an unused address.
\<close>

inductive wstep :: "bool \<Rightarrow> 'f machine \<Rightarrow> 'f machine \<Rightarrow> bool" for timed where
  thread_begin:
    "pc M (currentFiber (wk M)) = Created \<Longrightarrow> \<not> locked (work (wk M)) \<Longrightarrow>
     wstep timed M (move Start (lock True (wk M)) M)"
| start_block:
    "pc M (currentFiber (wk M)) = Start \<Longrightarrow> w_mode (wk M) = MultiThreaded \<Longrightarrow>
     Work_wait_begin (work (wk M)) = Inr (d, k) \<Longrightarrow> \<not> run_pred (wk M) \<Longrightarrow>
     wstep timed M (move InitBlocked (lock False ((wk M)\<lparr>work := k\<rparr>)) M)"
| start_go:
    "pc M (currentFiber (wk M)) = Start \<Longrightarrow> w_mode (wk M) = MultiThreaded \<Longrightarrow>
     Work_wait_begin (work (wk M)) = Inr (d, k) \<Longrightarrow> run_pred (wk M) \<Longrightarrow>
     wstep timed M (move Loop ((wk M)\<lparr>work := Work_wait_end k\<rparr>) M)"
| start_single:
    "pc M (currentFiber (wk M)) = Start \<Longrightarrow> w_mode (wk M) = SingleThreaded \<Longrightarrow>
     wstep timed M (move Loop (wk M) M)"
| init_wake:
    "pc M (currentFiber (wk M)) = InitBlocked \<Longrightarrow> \<not> locked (work (wk M)) \<Longrightarrow> run_pred (wk M) \<Longrightarrow>
     wstep timed M (move Loop (lock True (work_update Work_wait_end (wk M))) M)"
| loop_on:
    "pc M (currentFiber (wk M)) = Loop \<Longrightarrow> runUntilShutdown_cond (wk M) \<Longrightarrow>
     wstep timed M (waitForWork_enter OfLoop (wk M) M)"
| loop_off_main:
    "pc M (currentFiber (wk M)) = Loop \<Longrightarrow> \<not> runUntilShutdown_cond (wk M) \<Longrightarrow>
     currentFiber (wk M) = mainFiber (wk M) \<Longrightarrow>
     wstep timed M (move Finished (lock False (wk M)) M)"
| loop_off:
    "pc M (currentFiber (wk M)) = Loop \<Longrightarrow> \<not> runUntilShutdown_cond (wk M) \<Longrightarrow>
     currentFiber (wk M) \<noteq> mainFiber (wk M) \<Longrightarrow>
     wstep timed M (move Finished (switchToFiber (mainFiber (wk M)) (wk M)) M)"
| spin_end:
    "pc M (currentFiber (wk M)) = Spin x \<Longrightarrow> \<not> locked (work (wk M)) \<Longrightarrow>
     wstep timed M (move (Block x) (lock True (wk M)) M)"
| spin_steal:
    "pc M (currentFiber (wk M)) = Spin x \<Longrightarrow> \<not> locked (work (wk M)) \<Longrightarrow> room (wk M) \<Longrightarrow>
     wstep timed M (move (Block x) (spin_stolen t (wk M)) M)"
| block_pass:
    "pc M (currentFiber (wk M)) = Block x \<Longrightarrow> Work_wait_begin (work (wk M)) = Inr (d, k) \<Longrightarrow>
     waitForWork_pred (wk M) \<Longrightarrow> waitForWork_end now k = Some (Inr k') \<Longrightarrow>
     wstep timed M (move (after_wait x) ((wk M)\<lparr>work := k'\<rparr>) M)"
| block_wait:
    "pc M (currentFiber (wk M)) = Block x \<Longrightarrow> Work_wait_begin (work (wk M)) = Inr (d, k) \<Longrightarrow>
     \<not> waitForWork_pred (wk M) \<Longrightarrow>
     wstep timed M (move (Blocked x) (lock False ((wk M)\<lparr>work := k\<rparr>)) M)"
| blocked_wake:
    "pc M (currentFiber (wk M)) = Blocked x \<Longrightarrow> \<not> locked (work (wk M)) \<Longrightarrow>
     waitForWork_pred (wk M) \<or> WaitingFibers_bool (waiting (work (wk M))) \<Longrightarrow>
     waitForWork_end now (work (wk M)) = Some (Inr k') \<Longrightarrow>
     wstep timed M (move (after_wait x) (lock True ((wk M)\<lparr>work := k'\<rparr>)) M)"
| idle_fiber:
    "pc M (currentFiber (wk M)) = RunIdle \<Longrightarrow> runUntilIdle_fiber (wk M) = Inr w \<Longrightarrow>
     wstep timed M (move Switched w M)"
| idle_task:
    "pc M (currentFiber (wk M)) = RunIdle \<Longrightarrow> fibers (work (wk M)) = [] \<Longrightarrow>
     runUntilIdle_task (wk M) = Inr (t, w) \<Longrightarrow>
     wstep timed M (move (User TaskCode) w M)"
| idle_done:
    "pc M (currentFiber (wk M)) = RunIdle \<Longrightarrow> fibers (work (wk M)) = [] \<Longrightarrow>
     tasks (work (wk M)) = [] \<Longrightarrow> wstep timed M (move Loop (wk M) M)"
| resume_idle:
    "pc M (currentFiber (wk M)) = Switched \<Longrightarrow>
     wstep timed M (move RunIdle (runUntilIdle_resumed (wk M)) M)"
| task_done:
    "pc M (currentFiber (wk M)) = User TaskCode \<Longrightarrow> \<not> locked (work (wk M)) \<Longrightarrow>
     wstep timed M (move RunIdle (lock True (wk M)) M)"
| task_shutdown:
    "pc M (currentFiber (wk M)) = User TaskCode \<Longrightarrow> w_mode (wk M) = MultiThreaded \<Longrightarrow>
     wstep timed M (move (User TaskCode) ((wk M)\<lparr>shutdown := True\<rparr>) M)"
| thread_stop:
    "pc M (currentFiber (wk M)) = User ThreadCode \<Longrightarrow> \<not> locked (work (wk M)) \<Longrightarrow>
     wstep timed M (move Loop (lock True ((wk M)\<lparr>shutdown := True\<rparr>)) M)"
| user_suspend:
    "pc M (currentFiber (wk M)) = User u \<Longrightarrow> \<not> locked (work (wk M)) \<Longrightarrow> timed \<or> timeout = None \<Longrightarrow>
     wstep timed M (waitForWork_enter (OfSuspend u) (suspend_begin timeout (lock True (wk M))) M)"
| go:
    "pc M (currentFiber (wk M)) = Go u \<Longrightarrow> suspend_switch pick fresh (wk M) = Inr w \<Longrightarrow>
     fibers (work (wk M)) \<noteq> [] \<or> pick \<in> set (idleFibers (wk M)) \<Longrightarrow>
     wstep timed M (move (Suspended u) w M)"
| go_fresh:
    "pc M (currentFiber (wk M)) = Go u \<Longrightarrow> suspend_switch pick fresh (wk M) = Inr w \<Longrightarrow>
     fibers (work (wk M)) = [] \<Longrightarrow> idleFibers (wk M) = [] \<Longrightarrow>
     pc M fresh = NoFiber \<Longrightarrow> room (wk M) \<Longrightarrow>
     wstep timed M ((move (Suspended u) w M)\<lparr>pc := (pc M)(currentFiber (wk M) := Suspended u, fresh := Start)\<rparr>)"
| resume_suspended:
    "pc M (currentFiber (wk M)) = Suspended u \<Longrightarrow>
     wstep timed M (move (User u) (lock False (suspend_end (wk M))) M)"
| env_task:
    "\<not> locked (work (wk M)) \<Longrightarrow> room (wk M) \<Longrightarrow>
     wstep timed M (M\<lparr>wk := snd (enqueue_task t (wk M))\<rparr>)"
| env_notify:
    "\<not> locked (work (wk M)) \<Longrightarrow> room (wk M) \<Longrightarrow> has_user (pc M f) \<Longrightarrow>
     wstep timed M (M\<lparr>wk := snd (enqueue_fiber f (wk M))\<rparr>)"
| env_steal:
    "steal (wk M) = Inr (r, w) \<Longrightarrow> wstep timed M (M\<lparr>wk := w\<rparr>)"

definition reachable :: "bool \<Rightarrow> 'f machine \<Rightarrow> bool" where
  "reachable timed M \<longleftrightarrow>
     (\<exists>m i main. (wstep timed)\<^sup>*\<^sup>* (machine_start m i main) M)"

subsection \<open>Simplification\<close>

lemma move_simps [simp]:
  "wk (move p w M) = w" "pc (move p w M) = (pc M)(currentFiber (wk M) := p)"
  by (simp_all add: move_def)

lemma lock_simps [simp]:
  "work (lock b w) = (work w)\<lparr>locked := b\<rparr>" "currentFiber (lock b w) = currentFiber w"
  "mainFiber (lock b w) = mainFiber w" "idleFibers (lock b w) = idleFibers w"
  "workerFibers (lock b w) = workerFibers w" "shutdown (lock b w) = shutdown w"
  "state (lock b w) = state w" "w_mode (lock b w) = w_mode w"
  by (simp_all add: lock_def)

lemma switch_simps [simp]:
  "currentFiber (switchToFiber f w) = f" "work (switchToFiber f w) = work w"
  "mainFiber (switchToFiber f w) = mainFiber w" "idleFibers (switchToFiber f w) = idleFibers w"
  "workerFibers (switchToFiber f w) = workerFibers w" "shutdown (switchToFiber f w) = shutdown w"
  "state (switchToFiber f w) = state w" "w_mode (switchToFiber f w) = w_mode w"
  by (simp_all add: switchToFiber_def)

lemma set_state_simps [simp]:
  "state (set_state f st w) = (state w)(f := st)" "work (set_state f st w) = work w"
  "currentFiber (set_state f st w) = currentFiber w" "mainFiber (set_state f st w) = mainFiber w"
  "idleFibers (set_state f st w) = idleFibers w" "workerFibers (set_state f st w) = workerFibers w"
  "shutdown (set_state f st w) = shutdown w" "w_mode (set_state f st w) = w_mode w"
  by (simp_all add: set_state_def setFiberState_def)

lemma change_state_simps [simp]:
  "change_state f from to w = set_state f to w"
  by (simp add: change_state_def set_state_def changeFiberState_def setFiberState_def)

lemma push_fiber_simps [simp]:
  "fibers (push_fiber f k) = fibers k @ [f]" "tasks (push_fiber f k) = tasks k"
  "waiting (push_fiber f k) = waiting k" "locked (push_fiber f k) = locked k"
  "numBlockedFibers (push_fiber f k) = numBlockedFibers k" "num (push_fiber f k) = num k + 1"
  "notifyAdded (push_fiber f k) = notifyAdded k"
  by (simp_all add: push_fiber_def)

lemma push_task_simps [simp]:
  "fibers (push_task t k) = fibers k" "tasks (push_task t k) = tasks k @ [t]"
  "waiting (push_task t k) = waiting k" "locked (push_task t k) = locked k"
  "numBlockedFibers (push_task t k) = numBlockedFibers k" "num (push_task t k) = num k + 1"
  "notifyAdded (push_task t k) = notifyAdded k"
  by (simp_all add: push_task_def)

lemma suspend_end_simps [simp]:
  "currentFiber (suspend_end w) = currentFiber w" "mainFiber (suspend_end w) = mainFiber w"
  "idleFibers (suspend_end w) = idleFibers w" "workerFibers (suspend_end w) = workerFibers w"
  "state (suspend_end w) = (state w)(currentFiber w := Running)"
  "work (suspend_end w) = (work w)\<lparr>numBlockedFibers := numBlockedFibers (work w) - 1\<rparr>"
  "shutdown (suspend_end w) = shutdown w" "w_mode (suspend_end w) = w_mode w"
  by (simp_all add: suspend_end_def set_state_def setFiberState_def)

text \<open>Without timed waits the timeouts play no part.\<close>

lemma untimed_simps [simp]:
  assumes "waiting k = WaitingFibers_new"
  shows "Work_wait_begin k = Inr (None, k\<lparr>notifyAdded := True\<rparr>)"
    and "waitForWork_end now k = Some (Inr (k\<lparr>notifyAdded := False\<rparr>))"
    and "\<not> WaitingFibers_bool (waiting k)"
  using assms
  by (simp_all add: Work_wait_begin_def waitForWork_end_def Work_wait_end_def Let_def
      WaitingFibers_bool_def WaitingFibers_new_def)

lemma suspending_cases:
  "suspending p \<Longrightarrow> \<exists>u. p \<in> {Spin (OfSuspend u), Block (OfSuspend u), Blocked (OfSuspend u), Go u}"
  by (induction p rule: suspending.induct) auto

lemma is_suspended_cases: "is_suspended p \<Longrightarrow> \<exists>u. p = Suspended u"
  by (cases p) auto

subsection \<open>The invariant of the machine, without timed waits\<close>

text \<open>The current fiber stands in the worker's loops or in user code.\<close>

fun looping :: "pc \<Rightarrow> bool" where
  "looping Created = True" | "looping Start = True" | "looping InitBlocked = True" | "looping Loop = True"
| "looping (Spin x) = (x = OfLoop)" | "looping (Block x) = (x = OfLoop)"
| "looping (Blocked x) = (x = OfLoop)" | "looping RunIdle = True"
| "looping (User u) = True" | "looping _ = False"

definition suspended_fibers :: "'f machine \<Rightarrow> fiber set" where
  "suspended_fibers M = {f. is_suspended (pc M f)}"

text \<open>The fiber waits to be notified, or to be switched to after its notification.\<close>

definition waits :: "'f machine \<Rightarrow> fiber \<Rightarrow> bool" where
  "waits M f \<longleftrightarrow>
     (if f = currentFiber (wk M) then suspending (pc M f) else is_suspended (pc M f))"

text \<open>The main fiber has come back to end the thread.\<close>

definition closing :: "'f machine \<Rightarrow> bool" where
  "closing M \<longleftrightarrow>
     currentFiber (wk M) = mainFiber (wk M) \<and> shutdown (wk M) \<and> suspended_fibers M = {} \<and>
     (pc M (mainFiber (wk M)) = Finished \<or>
      num (work (wk M)) = 0 \<and> pc M (mainFiber (wk M)) \<in> {Switched, RunIdle, Loop})"

definition count_ok :: "'f machine \<Rightarrow> bool" where
  "count_ok M \<longleftrightarrow>
     work_count (work (wk M)) \<and>
     length (tasks (work (wk M))) + length (fibers (work (wk M))) < 2 ^ 64 \<and>
     numBlockedFibers (work (wk M)) = of_nat (card (suspended_fibers M)) \<and>
     waiting (work (wk M)) = WaitingFibers_new"

definition queue_ok :: "'f machine \<Rightarrow> bool" where
  "queue_ok M \<longleftrightarrow>
     distinct (fibers (work (wk M))) \<and> (\<forall>f\<in>set (fibers (work (wk M))). waits M f) \<and>
     (\<forall>f. waits M f \<longrightarrow>
        state (wk M) f = (if f \<in> set (fibers (work (wk M))) then Queued else Yielded))"

definition idle_ok :: "'f machine \<Rightarrow> bool" where
  "idle_ok M \<longleftrightarrow>
     distinct (idleFibers (wk M)) \<and>
     (\<forall>f. f \<noteq> currentFiber (wk M) \<longrightarrow>
        (f \<in> set (idleFibers (wk M)) \<longleftrightarrow> pc M f = Switched) \<and>
        (pc M f = Switched \<longrightarrow> state (wk M) f = Idle)) \<and>
     (currentFiber (wk M) \<in> set (idleFibers (wk M)) \<longrightarrow> closing M)"

definition fibers_ok :: "'f machine \<Rightarrow> bool" where
  "fibers_ok M \<longleftrightarrow>
     {f. pc M f \<noteq> NoFiber} = insert (mainFiber (wk M)) (set (workerFibers (wk M))) \<and>
     distinct (mainFiber (wk M) # workerFibers (wk M)) \<and>
     length (workerFibers (wk M)) + 1 < 2 ^ 64 \<and>
     pc M (currentFiber (wk M)) \<noteq> NoFiber \<and>
     (\<forall>f. f \<noteq> currentFiber (wk M) \<longrightarrow>
        is_suspended (pc M f) \<or> pc M f \<in> {NoFiber, Switched, Finished}) \<and>
     (\<forall>f. pc M f = Finished \<longrightarrow> closing M)"

definition current_ok :: "'f machine \<Rightarrow> bool" where
  "current_ok M \<longleftrightarrow>
     locked (work (wk M)) = holds (pc M (currentFiber (wk M))) \<and>
     (looping (pc M (currentFiber (wk M))) \<longrightarrow> state (wk M) (currentFiber (wk M)) = Running)"

definition minv :: "'f machine \<Rightarrow> bool" where
  "minv M \<longleftrightarrow> count_ok M \<and> queue_ok M \<and> idle_ok M \<and> fibers_ok M \<and> current_ok M"

lemma finite_suspended:
  assumes "fibers_ok M"
  shows "finite (suspended_fibers M)"
    and "card (suspended_fibers M) \<le> length (workerFibers (wk M)) + 1"
proof -
  have sub: "suspended_fibers M \<subseteq> insert (mainFiber (wk M)) (set (workerFibers (wk M)))"
    using assms by (auto simp: suspended_fibers_def fibers_ok_def)
  then show "finite (suspended_fibers M)" using finite_subset by blast
  have "card (suspended_fibers M) \<le> card (insert (mainFiber (wk M)) (set (workerFibers (wk M))))"
    using sub by (intro card_mono) simp_all
  also have "\<dots> \<le> length (workerFibers (wk M)) + 1"
    by (simp add: card_insert_if card_length le_SucI)
  finally show "card (suspended_fibers M) \<le> length (workerFibers (wk M)) + 1" .
qed

text \<open>The start of a worker.\<close>

lemma minv_start: "minv (machine_start m i main)"
  by (auto simp: minv_def count_ok_def queue_ok_def idle_ok_def fibers_ok_def current_ok_def
      machine_start_def Worker_start_def Worker_new_def Work_new_def work_count_def
      suspended_fibers_def waits_def)

subsection \<open>Steps that leave the queues alone\<close>

text \<open>A worker without its mutex, its flag \<open>notifyAdded\<close> and \<open>shutdown\<close>.\<close>

definition core :: "'f worker \<Rightarrow> 'f worker" where
  "core w = w\<lparr>work := (work w)\<lparr>locked := False, notifyAdded := False\<rparr>, shutdown := False\<rparr>"

lemma core_fields:
  assumes "core w' = core w"
  shows "currentFiber w' = currentFiber w" "mainFiber w' = mainFiber w"
    "idleFibers w' = idleFibers w" "workerFibers w' = workerFibers w" "state w' = state w"
    "num (work w') = num (work w)" "tasks (work w') = tasks (work w)"
    "fibers (work w') = fibers (work w)" "waiting (work w') = waiting (work w)"
    "numBlockedFibers (work w') = numBlockedFibers (work w)"
proof -
  have "currentFiber (core w') = currentFiber (core w)" "mainFiber (core w') = mainFiber (core w)"
    "idleFibers (core w') = idleFibers (core w)" "workerFibers (core w') = workerFibers (core w)"
    "state (core w') = state (core w)" and work: "work (core w') = work (core w)"
    using assms by simp_all
  then show "currentFiber w' = currentFiber w" "mainFiber w' = mainFiber w"
    "idleFibers w' = idleFibers w" "workerFibers w' = workerFibers w" "state w' = state w"
    by (simp_all add: core_def)
  have "num (work (core w')) = num (work (core w))" "tasks (work (core w')) = tasks (work (core w))"
    "fibers (work (core w')) = fibers (work (core w))"
    "waiting (work (core w')) = waiting (work (core w))"
    "numBlockedFibers (work (core w')) = numBlockedFibers (work (core w))"
    using work by simp_all
  then show "num (work w') = num (work w)" "tasks (work w') = tasks (work w)"
    "fibers (work w') = fibers (work w)" "waiting (work w') = waiting (work w)"
    "numBlockedFibers (work w') = numBlockedFibers (work w)"
    by (simp_all add: core_def)
qed

lemma not_both:
  "looping p \<Longrightarrow> \<not> suspending p \<and> \<not> is_suspended p \<and> p \<notin> {NoFiber, Switched, Finished}"
  "suspending p \<Longrightarrow> \<not> looping p \<and> \<not> is_suspended p \<and> p \<notin> {NoFiber, Switched, Finished}"
  by (cases p; auto)+

lemma suspended_fibers_upd:
  "{f. is_suspended ((P(c := p)) f)} =
     (if is_suspended p then insert c {f. is_suspended (P f)} else {f. is_suspended (P f)} - {c})"
  by auto

lemma minv_move:
  assumes inv: "minv M" and w: "core w' = core (wk M)" "shutdown (wk M) \<Longrightarrow> shutdown w'"
    "locked (work w') = holds p"
    and p: "looping (pc M (currentFiber (wk M))) \<and> looping p \<or>
      suspending (pc M (currentFiber (wk M))) \<and> suspending p"
    and closing: "closing M \<Longrightarrow> p \<in> {RunIdle, Loop}"
  shows "minv (move p w' M)"
proof -
  let ?c = "currentFiber (wk M)" and ?M = "move p w' M"
  note F [simp] = core_fields [OF w(1)]
  have np: "\<not> is_suspended p" "\<not> is_suspended (pc M ?c)"
    "p \<notin> {NoFiber, Switched, Finished}" "pc M ?c \<notin> {NoFiber, Switched, Finished}"
    "suspending p \<longleftrightarrow> suspending (pc M ?c)" "looping p \<longleftrightarrow> looping (pc M ?c)"
    using p not_both by blast+
  have S [simp]: "suspended_fibers ?M = suspended_fibers M"
    using np(1,2) by (auto simp: suspended_fibers_def)
  have W [simp]: "waits ?M = waits M"
    using np(5) by (auto simp: waits_def fun_eq_iff)
  have C: "closing ?M" if "closing M"
    using that closing w(2) np(4) by (auto simp: closing_def)
  have "count_ok ?M" using inv by (simp add: minv_def count_ok_def work_count_def)
  moreover have "queue_ok ?M" using inv by (simp add: minv_def queue_ok_def)
  moreover have "idle_ok ?M" using inv C by (auto simp: minv_def idle_ok_def)
  moreover have "fibers_ok ?M"
  proof -
    have "{f. pc ?M f \<noteq> NoFiber} = {f. pc M f \<noteq> NoFiber}" using np(3,4) by auto
    then show ?thesis using inv C np(3) by (auto simp: minv_def fibers_ok_def)
  qed
  moreover have "current_ok ?M" using inv w(3) np(6) by (simp add: minv_def current_ok_def)
  ultimately show ?thesis by (simp add: minv_def)
qed

subsection \<open>Consequences of the invariant\<close>

lemma minvD:
  assumes "minv M"
  shows "count_ok M" "queue_ok M" "idle_ok M" "fibers_ok M" "current_ok M"
  using assms by (simp_all add: minv_def)

lemma count_zero:
  assumes "count_ok M" "num (work (wk M)) = 0"
  shows "tasks (work (wk M)) = []" "fibers (work (wk M)) = []"
  using assms work_count_zero [of "work (wk M)"] by (simp_all add: count_ok_def)

lemma blocked_zero:
  assumes "minv M"
  shows "numBlockedFibers (work (wk M)) = 0 \<longleftrightarrow> suspended_fibers M = {}"
proof -
  have "card (suspended_fibers M) < 2 ^ 64"
    using finite_suspended(2) [of M] minvD(4) [OF assms] by (auto simp: fibers_ok_def)
  then have "unat (of_nat (card (suspended_fibers M)) :: u64) = card (suspended_fibers M)"
    by (simp add: unat_of_nat_64)
  then have "(of_nat (card (suspended_fibers M)) :: u64) = 0 \<longleftrightarrow> card (suspended_fibers M) = 0"
    using unat_eq_0 [of "of_nat (card (suspended_fibers M)) :: u64"] by simp
  then show ?thesis
    using minvD(1) [OF assms] finite_suspended(1) [of M] minvD(4) [OF assms]
    by (simp add: count_ok_def)
qed

text \<open>A current fiber that is not on the way out is no idle fiber, and no fiber has finished.\<close>

lemma open_facts:
  assumes "minv M" "\<not> closing M"
  shows "currentFiber (wk M) \<notin> set (idleFibers (wk M))" "pc M f \<noteq> Finished"
  using assms by (auto simp: minv_def idle_ok_def fibers_ok_def)

lemma idle_switched:
  assumes "minv M" "\<not> closing M" "f \<in> set (idleFibers (wk M))"
  shows "f \<noteq> currentFiber (wk M)" "pc M f = Switched" "state (wk M) f = Idle"
proof -
  show f: "f \<noteq> currentFiber (wk M)" using open_facts(1) [OF assms(1,2)] assms(3) by auto
  show "pc M f = Switched" using assms(1,3) f by (simp add: minv_def idle_ok_def)
  then show "state (wk M) f = Idle" using assms(1) f by (simp add: minv_def idle_ok_def)
qed

lemma closing_pc:
  "closing M \<Longrightarrow> pc M (currentFiber (wk M)) \<in> {Finished, Switched, RunIdle, Loop}"
  by (auto simp: closing_def)

lemma closing_queues:
  assumes "minv M" "closing M" "pc M (currentFiber (wk M)) \<noteq> Finished"
  shows "tasks (work (wk M)) = []" "fibers (work (wk M)) = []" "num (work (wk M)) = 0"
  using assms count_zero [OF minvD(1) [OF assms(1)]] by (auto simp: closing_def)

lemma queued_waits:
  "minv M \<Longrightarrow> f \<in> set (fibers (work (wk M))) \<Longrightarrow> waits M f \<and> state (wk M) f = Queued"
  by (auto simp: minv_def queue_ok_def)

text \<open>Changes of the task queue, by the worker itself or by another thread.\<close>

lemma minv_tasks:
  assumes inv: "minv M"
    and w: "w = (wk M)\<lparr>work := (work (wk M))\<lparr>num := n, tasks := ts, locked := l\<rparr>\<rparr>"
    and n: "n = of_nat (length ts + length (fibers (work (wk M))))"
      "length ts + length (fibers (work (wk M))) < 2 ^ 64"
    and p: "looping p \<and> looping (pc M (currentFiber (wk M))) \<or>
      suspending p \<and> suspending (pc M (currentFiber (wk M))) \<or> p = pc M (currentFiber (wk M))"
    and l: "l = holds p"
    and closing: "\<not> closing M \<or> p = Finished \<and> pc M (currentFiber (wk M)) = Finished"
  shows "minv (move p w M)"
proof -
  let ?c = "currentFiber (wk M)" and ?M = "move p w M"
  have W [simp]: "currentFiber w = ?c" "mainFiber w = mainFiber (wk M)"
    "idleFibers w = idleFibers (wk M)" "workerFibers w = workerFibers (wk M)"
    "state w = state (wk M)" "fibers (work w) = fibers (work (wk M))" "tasks (work w) = ts"
    "waiting (work w) = waiting (work (wk M))" "num (work w) = n" "shutdown w = shutdown (wk M)"
    "numBlockedFibers (work w) = numBlockedFibers (work (wk M))" "locked (work w) = l"
    using w by simp_all
  have np: "is_suspended p \<longleftrightarrow> is_suspended (pc M ?c)" "suspending p \<longleftrightarrow> suspending (pc M ?c)"
    "p = NoFiber \<longleftrightarrow> pc M ?c = NoFiber" "p = Finished \<longleftrightarrow> pc M ?c = Finished"
    "looping p \<longleftrightarrow> looping (pc M ?c)"
    using p not_both [of p] not_both [of "pc M ?c"] by auto
  have S [simp]: "suspended_fibers ?M = suspended_fibers M"
    using np(1) by (auto simp: suspended_fibers_def)
  have A [simp]: "waits ?M = waits M" using np(2) by (auto simp: waits_def fun_eq_iff)
  have C: "closing ?M" if "closing M" using that closing S by (auto simp: closing_def)
  have "count_ok ?M" using inv n by (simp add: minv_def count_ok_def work_count_def)
  moreover have "queue_ok ?M" using inv by (simp add: minv_def queue_ok_def)
  moreover have "idle_ok ?M" using inv C by (auto simp: minv_def idle_ok_def)
  moreover have "fibers_ok ?M"
  proof -
    have "{f. pc ?M f \<noteq> NoFiber} = {f. pc M f \<noteq> NoFiber}" using np(3) by auto
    then show ?thesis using inv C np(3,4) by (auto simp: minv_def fibers_ok_def)
  qed
  moreover have "current_ok ?M" using inv l np(5) by (simp add: minv_def current_ok_def)
  ultimately show ?thesis by (simp add: minv_def)
qed

subsection \<open>Switches\<close>

text \<open>The next ready fiber; the current one, in the loop, becomes idle.\<close>

lemma minv_idle_fiber:
  assumes inv: "minv M" and c: "pc M (currentFiber (wk M)) = RunIdle"
    and w: "runUntilIdle_fiber (wk M) = Inr w"
  shows "minv (move Switched w M)"
proof -
  let ?c = "currentFiber (wk M)" and ?M = "move Switched w M"
  obtain f fs where q: "fibers (work (wk M)) = f # fs"
    using w by (auto simp: runUntilIdle_fiber_def take_fiber_def split: list.splits)
  then have "w = switchToFiber f ((set_state ?c Idle ((wk M)\<lparr>
      work := (work (wk M))\<lparr>num := num (work (wk M)) - 1, fibers := fs\<rparr>\<rparr>))\<lparr>
      idleFibers := List.insert ?c (idleFibers (wk M))\<rparr>)"
    using w by (simp add: runUntilIdle_fiber_def take_fiber_def Let_def set_state_def)
  then have W [simp]: "currentFiber w = f" "mainFiber w = mainFiber (wk M)"
    "idleFibers w = List.insert ?c (idleFibers (wk M))" "workerFibers w = workerFibers (wk M)"
    "state w = (state (wk M))(?c := Idle)" "fibers (work w) = fs"
    "tasks (work w) = tasks (work (wk M))" "waiting (work w) = waiting (work (wk M))"
    "num (work w) = num (work (wk M)) - 1" "locked (work w) = locked (work (wk M))"
    "numBlockedFibers (work w) = numBlockedFibers (work (wk M))"
    by simp_all
  have f: "waits M f" "f \<noteq> ?c" "is_suspended (pc M f)"
    using queued_waits [OF inv, of f] q c by (auto simp: waits_def split: if_splits)
  have cl: "\<not> closing M" using closing_queues(2) [OF inv] c q by force
  have S [simp]: "suspended_fibers ?M = suspended_fibers M" using c by (auto simp: suspended_fibers_def)
  have A: "waits ?M g \<longleftrightarrow> waits M g \<and> g \<noteq> f" for g
    using c f(2,3) by (auto simp: waits_def dest: is_suspended_cases)
  have nc: "\<not> waits M ?c" using c by (simp add: waits_def)
  have "count_ok ?M"
    using inv q by (auto simp: minv_def count_ok_def work_count_def)
  moreover have "queue_ok ?M"
    using inv q nc by (auto simp: minv_def queue_ok_def A)
  moreover have "idle_ok ?M"
    using inv c f(2,3) open_facts(1) [OF inv cl] by (auto simp: minv_def idle_ok_def)
  moreover have "fibers_ok ?M"
  proof -
    have "{f. pc ?M f \<noteq> NoFiber} = {f. pc M f \<noteq> NoFiber}" using c by auto
    then show ?thesis using inv f(2,3) open_facts(2) [OF inv cl]
      by (auto simp: minv_def fibers_ok_def)
  qed
  moreover have "current_ok ?M"
    using inv c f(2,3) by (auto simp: minv_def current_ok_def dest: is_suspended_cases)
  ultimately show ?thesis by (simp add: minv_def)
qed

text \<open>An idle fiber that is switched to.\<close>

lemma minv_resume_idle:
  assumes inv: "minv M" and c: "pc M (currentFiber (wk M)) = Switched"
  shows "minv (move RunIdle (runUntilIdle_resumed (wk M)) M)"
proof -
  let ?c = "currentFiber (wk M)" and ?M = "move RunIdle (set_state (currentFiber (wk M)) Running (wk M)) M"
  have S [simp]: "suspended_fibers ?M = suspended_fibers M" using c by (auto simp: suspended_fibers_def)
  have A [simp]: "waits ?M = waits M" using c by (auto simp: waits_def fun_eq_iff)
  have nc: "\<not> waits M ?c" using c by (simp add: waits_def)
  have C: "closing ?M" if "closing M" using that c S by (auto simp: closing_def)
  have "count_ok ?M" using inv by (simp add: minv_def count_ok_def)
  moreover have "queue_ok ?M" using inv nc by (auto simp: minv_def queue_ok_def)
  moreover have "idle_ok ?M" using inv C by (auto simp: minv_def idle_ok_def)
  moreover have "fibers_ok ?M"
  proof -
    have "{f. pc ?M f \<noteq> NoFiber} = {f. pc M f \<noteq> NoFiber}" using c by auto
    then show ?thesis using inv C by (auto simp: minv_def fibers_ok_def)
  qed
  moreover have "current_ok ?M" using inv c by (simp add: minv_def current_ok_def)
  ultimately show ?thesis by (simp add: minv_def runUntilIdle_resumed_def)
qed

text \<open>The current fiber begins to wait.\<close>

lemma minv_suspend:
  assumes inv: "minv M" and c: "looping (pc M (currentFiber (wk M)))" and cl: "\<not> closing M"
    and w: "core w = core (set_state (currentFiber (wk M)) Yielded (wk M))" "locked (work w) = holds p"
    and p: "suspending p"
  shows "minv (move p w M)"
proof -
  let ?c = "currentFiber (wk M)" and ?M = "move p w M"
  note F [simp] = core_fields [OF w(1)]
  have np: "\<not> is_suspended p" "\<not> is_suspended (pc M ?c)" "\<not> suspending (pc M ?c)" "\<not> looping p"
    "p \<notin> {NoFiber, Switched, Finished}" "pc M ?c \<notin> {NoFiber, Switched, Finished}"
    using p c not_both [of p] not_both [of "pc M ?c"] by auto
  have S [simp]: "suspended_fibers ?M = suspended_fibers M"
    using np(1,2) by (auto simp: suspended_fibers_def)
  have A: "waits ?M g \<longleftrightarrow> waits M g \<or> g = ?c" for g
    using p by (auto simp: waits_def)
  have nc: "\<not> waits M ?c" using np(3) by (simp add: waits_def)
  then have cq: "?c \<notin> set (fibers (work (wk M)))" using queued_waits [OF inv] by blast
  have "count_ok ?M" using inv by (simp add: minv_def count_ok_def work_count_def)
  moreover have "queue_ok ?M" using inv nc cq by (auto simp: minv_def queue_ok_def A)
  moreover have "idle_ok ?M"
    using inv open_facts(1) [OF inv cl] by (auto simp: minv_def idle_ok_def)
  moreover have "fibers_ok ?M"
  proof -
    have "{f. pc ?M f \<noteq> NoFiber} = {f. pc M f \<noteq> NoFiber}" using np(5,6) by auto
    then show ?thesis using inv np(5) open_facts(2) [OF inv cl] by (auto simp: minv_def fibers_ok_def)
  qed
  moreover have "current_ok ?M" using w(2) np(4) by (simp add: current_ok_def)
  ultimately show ?thesis by (simp add: minv_def)
qed

text \<open>The switch of \<open>suspend\<close>: to a ready fiber, possibly the current one itself.\<close>

lemma suspended_more:
  assumes "minv M" "\<not> is_suspended (pc M c)"
    "numBlockedFibers (work (wk M')) = numBlockedFibers (work (wk M)) + 1"
    "suspended_fibers M' = insert c (suspended_fibers M)"
  shows "numBlockedFibers (work (wk M')) = of_nat (card (suspended_fibers M'))"
proof -
  have "finite (suspended_fibers M)" "c \<notin> suspended_fibers M"
    using finite_suspended(1) minvD(4) [OF assms(1)] assms(2) by (auto simp: suspended_fibers_def)
  then show ?thesis using assms(1,3,4) by (simp add: minv_def count_ok_def)
qed

lemma minv_go_ready:
  assumes inv: "minv M" and c: "pc M (currentFiber (wk M)) = Go u"
    and w: "suspend_switch pick fresh (wk M) = Inr w" and q: "fibers (work (wk M)) = f # fs"
  shows "minv (move (Suspended u) w M)"
proof -
  let ?c = "currentFiber (wk M)" and ?M = "move (Suspended u) w M"
  have W [simp]: "currentFiber w = f" "mainFiber w = mainFiber (wk M)"
    "idleFibers w = idleFibers (wk M)" "workerFibers w = workerFibers (wk M)"
    "state w = state (wk M)" "fibers (work w) = fs" "shutdown w = shutdown (wk M)"
    "tasks (work w) = tasks (work (wk M))" "waiting (work w) = waiting (work (wk M))"
    "num (work w) = num (work (wk M)) - 1" "locked (work w) = locked (work (wk M))"
    "numBlockedFibers (work w) = numBlockedFibers (work (wk M)) + 1"
    using w q by (auto simp: suspend_switch_def take_fiber_def Let_def)
  have cl: "\<not> closing M" using closing_pc [of M] c by auto
  have S: "suspended_fibers ?M = insert ?c (suspended_fibers M)" by (auto simp: suspended_fibers_def)
  have f: "f = ?c \<or> is_suspended (pc M f)"
    using queued_waits [OF inv, of f] q by (auto simp: waits_def split: if_splits)
  have A: "waits ?M g \<longleftrightarrow> waits M g \<and> g \<noteq> f" for g
    using c f by (auto simp: waits_def dest: is_suspended_cases)
  have fi: "f \<notin> set (idleFibers (wk M))"
    using f idle_switched [OF inv cl, of f] by auto
  have "numBlockedFibers (work w) = of_nat (card (suspended_fibers ?M))"
    using suspended_more [OF inv, of ?c ?M] c S by simp
  then have "count_ok ?M" using inv q by (auto simp: minv_def count_ok_def work_count_def)
  moreover have "queue_ok ?M" using inv q by (auto simp: minv_def queue_ok_def A)
  moreover have "idle_ok ?M"
    using inv c fi open_facts(1) [OF inv cl] by (auto simp: minv_def idle_ok_def)
  moreover have "fibers_ok ?M"
  proof -
    have "{g. pc ?M g \<noteq> NoFiber} = {g. pc M g \<noteq> NoFiber}" using c by auto
    then show ?thesis using inv f open_facts(2) [OF inv cl] by (auto simp: minv_def fibers_ok_def)
  qed
  moreover have "current_ok ?M"
    using inv c f by (auto simp: minv_def current_ok_def dest: is_suspended_cases)
  ultimately show ?thesis by (simp add: minv_def)
qed

lemma minv_go_idle:
  assumes inv: "minv M" and c: "pc M (currentFiber (wk M)) = Go u"
    and w: "suspend_switch pick fresh (wk M) = Inr w" and q: "fibers (work (wk M)) = []"
    and pick: "pick \<in> set (idleFibers (wk M))"
  shows "minv (move (Suspended u) w M)"
proof -
  let ?c = "currentFiber (wk M)" and ?M = "move (Suspended u) w M"
  have ne: "idleFibers (wk M) \<noteq> []" using pick by auto
  have W [simp]: "currentFiber w = pick" "mainFiber w = mainFiber (wk M)"
    "idleFibers w = remove1 pick (idleFibers (wk M))" "workerFibers w = workerFibers (wk M)"
    "state w = state (wk M)" "fibers (work w) = []" "shutdown w = shutdown (wk M)"
    "tasks (work w) = tasks (work (wk M))" "waiting (work w) = waiting (work (wk M))"
    "num (work w) = num (work (wk M))" "locked (work w) = locked (work (wk M))"
    "numBlockedFibers (work w) = numBlockedFibers (work (wk M)) + 1"
    using w q ne by (auto simp: suspend_switch_def Let_def)
  have cl: "\<not> closing M" using closing_pc [of M] c by auto
  have S: "suspended_fibers ?M = insert ?c (suspended_fibers M)" by (auto simp: suspended_fibers_def)
  have f: "pick \<noteq> ?c" "pc M pick = Switched"
    using idle_switched [OF inv cl pick] by simp_all
  have A: "waits ?M g \<longleftrightarrow> waits M g" for g using c f by (auto simp: waits_def)
  have "numBlockedFibers (work w) = of_nat (card (suspended_fibers ?M))"
    using suspended_more [OF inv, of ?c ?M] c S by simp
  then have "count_ok ?M" using inv q by (auto simp: minv_def count_ok_def work_count_def)
  moreover have "queue_ok ?M" using inv q by (auto simp: minv_def queue_ok_def A)
  moreover have "idle_ok ?M"
    using inv c f open_facts(1) [OF inv cl] by (auto simp: minv_def idle_ok_def)
  moreover have "fibers_ok ?M"
  proof -
    have "{g. pc ?M g \<noteq> NoFiber} = {g. pc M g \<noteq> NoFiber}" using c by auto
    then show ?thesis using inv f open_facts(2) [OF inv cl] by (auto simp: minv_def fibers_ok_def)
  qed
  moreover have "current_ok ?M" using inv c f by (auto simp: minv_def current_ok_def)
  ultimately show ?thesis by (simp add: minv_def)
qed

lemma minv_go_fresh:
  assumes inv: "minv M" and c: "pc M (currentFiber (wk M)) = Go u"
    and w: "suspend_switch pick fresh (wk M) = Inr w" and q: "fibers (work (wk M)) = []"
    and idle: "idleFibers (wk M) = []" and fresh: "pc M fresh = NoFiber" and room: "room (wk M)"
  shows "minv ((move (Suspended u) w M)
    \<lparr>pc := (pc M)(currentFiber (wk M) := Suspended u, fresh := Start)\<rparr>)"
proof -
  let ?c = "currentFiber (wk M)"
  let ?M = "(move (Suspended u) w M)\<lparr>pc := (pc M)(?c := Suspended u, fresh := Start)\<rparr>"
  have W [simp]: "currentFiber w = fresh" "mainFiber w = mainFiber (wk M)"
    "idleFibers w = []" "workerFibers w = workerFibers (wk M) @ [fresh]"
    "state w = (state (wk M))(fresh := Running)" "fibers (work w) = []"
    "tasks (work w) = tasks (work (wk M))" "waiting (work w) = waiting (work (wk M))"
    "num (work w) = num (work (wk M))" "locked (work w) = locked (work (wk M))"
    "numBlockedFibers (work w) = numBlockedFibers (work (wk M)) + 1"
    using w q idle by (auto simp: suspend_switch_def Let_def createWorkerFiber_def)
  have cl: "\<not> closing M" using closing_pc [of M] c by auto
  have f: "fresh \<noteq> ?c" using fresh c by auto
  have S: "suspended_fibers ?M = insert ?c (suspended_fibers M)"
    using fresh f by (auto simp: suspended_fibers_def)
  have A: "waits ?M g \<longleftrightarrow> waits M g" for g using c f fresh by (auto simp: waits_def)
  have nf: "\<not> waits M fresh" using f fresh by (simp add: waits_def)
  have "numBlockedFibers (work w) = of_nat (card (suspended_fibers ?M))"
    using suspended_more [OF inv, of ?c ?M] c S by simp
  then have "count_ok ?M" using inv q by (auto simp: minv_def count_ok_def work_count_def)
  moreover have "queue_ok ?M" using inv q nf by (auto simp: minv_def queue_ok_def A)
  moreover have "idle_ok ?M" using inv c f idle by (auto simp: minv_def idle_ok_def)
  moreover have "fibers_ok ?M"
  proof -
    have "{g. pc ?M g \<noteq> NoFiber} = insert fresh {g. pc M g \<noteq> NoFiber}" using c by auto
    moreover have "fresh \<notin> {g. pc M g \<noteq> NoFiber}" using fresh by simp
    ultimately show ?thesis using inv f room fresh open_facts(2) [OF inv cl]
      by (auto simp: minv_def fibers_ok_def room_def)
  qed
  moreover have "current_ok ?M" using inv c f by (auto simp: minv_def current_ok_def)
  ultimately show ?thesis by (simp add: minv_def)
qed

text \<open>The rest of \<open>suspend\<close> after the switch back.\<close>

lemma minv_resume_suspended:
  assumes inv: "minv M" and c: "pc M (currentFiber (wk M)) = Suspended u"
  shows "minv (move (User u) (lock False (suspend_end (wk M))) M)"
proof -
  let ?c = "currentFiber (wk M)" and ?w = "lock False (suspend_end (wk M))"
  let ?M = "move (User u) ?w M"
  have W [simp]: "currentFiber ?w = ?c" "mainFiber ?w = mainFiber (wk M)"
    "idleFibers ?w = idleFibers (wk M)" "workerFibers ?w = workerFibers (wk M)"
    "state ?w = (state (wk M))(?c := Running)" "fibers (work ?w) = fibers (work (wk M))"
    "tasks (work ?w) = tasks (work (wk M))" "waiting (work ?w) = waiting (work (wk M))"
    "num (work ?w) = num (work (wk M))" "locked (work ?w) = False"
    "numBlockedFibers (work ?w) = numBlockedFibers (work (wk M)) - 1"
    by simp_all
  have cl: "\<not> closing M" using closing_pc [of M] c by auto
  have S: "suspended_fibers ?M = suspended_fibers M - {?c}" by (auto simp: suspended_fibers_def)
  have "?c \<in> suspended_fibers M" "finite (suspended_fibers M)"
    using c finite_suspended(1) [OF minvD(4) [OF inv]] by (auto simp: suspended_fibers_def)
  then have "card (suspended_fibers M) = Suc (card (suspended_fibers ?M))"
    using S by (simp only: card.remove)
  then have b: "numBlockedFibers (work ?w) = of_nat (card (suspended_fibers ?M))"
    using inv by (simp only: W minv_def count_ok_def) simp
  have A: "waits ?M = waits M" using c by (auto simp: waits_def fun_eq_iff)
  have nc: "\<not> waits M ?c" using c by (simp add: waits_def)
  have "count_ok ?M"
    using inv b unfolding minv_def count_ok_def work_count_def move_simps W by blast
  moreover have "queue_ok ?M"
    using inv nc unfolding minv_def queue_ok_def move_simps W A by auto
  moreover have "idle_ok ?M"
    using inv open_facts(1) [OF inv cl] unfolding minv_def idle_ok_def move_simps W by auto
  moreover have "fibers_ok ?M"
  proof -
    have "{f. pc ?M f \<noteq> NoFiber} = {f. pc M f \<noteq> NoFiber}" using c by auto
    then show ?thesis using inv open_facts(2) [OF inv cl]
      unfolding minv_def fibers_ok_def move_simps W by auto
  qed
  moreover have "current_ok ?M" unfolding current_ok_def move_simps W by simp
  ultimately show ?thesis by (simp add: minv_def)
qed

text \<open>The end of \<open>runUntilShutdown\<close>: nothing is left to do.\<close>

lemma loop_ends:
  assumes inv: "minv M" and c: "pc M (currentFiber (wk M)) = Loop"
    and off: "\<not> runUntilShutdown_cond (wk M)"
  shows "shutdown (wk M)" "num (work (wk M)) = 0" "suspended_fibers M = {}"
    "tasks (work (wk M)) = []" "fibers (work (wk M)) = []"
    "currentFiber (wk M) \<noteq> mainFiber (wk M) \<Longrightarrow> pc M (mainFiber (wk M)) = Switched"
proof -
  show s: "shutdown (wk M)" "num (work (wk M)) = 0" and e: "suspended_fibers M = {}"
    using off blocked_zero [OF inv] by (auto simp: runUntilShutdown_cond_def word_gt_0)
  show "tasks (work (wk M)) = []" "fibers (work (wk M)) = []"
    using count_zero [OF minvD(1) [OF inv] s(2)] by simp_all
  assume ne: "currentFiber (wk M) \<noteq> mainFiber (wk M)"
  then have "\<not> closing M" by (simp add: closing_def)
  moreover have "pc M (mainFiber (wk M)) \<noteq> NoFiber" "\<not> is_suspended (pc M (mainFiber (wk M)))"
    using inv e by (auto simp: minv_def fibers_ok_def suspended_fibers_def)
  moreover have "is_suspended (pc M (mainFiber (wk M))) \<or>
      pc M (mainFiber (wk M)) \<in> {NoFiber, Switched, Finished}"
    using inv ne [symmetric] by (simp add: minv_def fibers_ok_def)
  ultimately show "pc M (mainFiber (wk M)) = Switched"
    using open_facts(2) [OF inv] by auto
qed

lemma minv_loop_off:
  assumes inv: "minv M" and c: "pc M (currentFiber (wk M)) = Loop"
    and off: "\<not> runUntilShutdown_cond (wk M)"
    and w: "w = (if currentFiber (wk M) = mainFiber (wk M) then lock False (wk M)
                 else switchToFiber (mainFiber (wk M)) (wk M))"
  shows "minv (move Finished w M)"
proof -
  let ?c = "currentFiber (wk M)" and ?main = "mainFiber (wk M)" and ?M = "move Finished w M"
  note E = loop_ends [OF inv c off]
  have W [simp]: "currentFiber w = ?main" "mainFiber w = ?main"
    "idleFibers w = idleFibers (wk M)" "workerFibers w = workerFibers (wk M)"
    "state w = state (wk M)" "fibers (work w) = []" "shutdown w"
    "tasks (work w) = []" "waiting (work w) = waiting (work (wk M))" "num (work w) = 0"
    "locked (work w) \<longleftrightarrow> ?c \<noteq> ?main" "numBlockedFibers (work w) = numBlockedFibers (work (wk M))"
    using w E c inv by (auto simp: minv_def current_ok_def)
  have S [simp]: "suspended_fibers ?M = {}" using E(3) by (auto simp: suspended_fibers_def)
  have C: "closing ?M" using E(6) by (cases "?c = ?main") (auto simp: closing_def)
  have none: "\<not> waits ?M f" for f
    using E(3,6) c by (auto simp: waits_def suspended_fibers_def)
  have "count_ok ?M" using inv E(3) by (simp add: minv_def count_ok_def work_count_def)
  moreover have "queue_ok ?M" using none by (simp add: queue_ok_def)
  moreover have "idle_ok ?M"
  proof -
    have "?c \<notin> set (idleFibers (wk M))" if "?c \<noteq> ?main"
      using that inv by (auto simp: minv_def idle_ok_def closing_def)
    then show ?thesis using inv C c by (auto simp: minv_def idle_ok_def)
  qed
  moreover have "fibers_ok ?M"
  proof -
    have "{f. pc ?M f \<noteq> NoFiber} = {f. pc M f \<noteq> NoFiber}" using c by auto
    then show ?thesis using inv C E(6) by (auto simp: minv_def fibers_ok_def)
  qed
  moreover have "current_ok ?M" using E(6) c by (auto simp: current_ok_def)
  ultimately show ?thesis by (simp add: minv_def)
qed

text \<open>A notification from another thread.\<close>

lemma minv_notify:
  assumes inv: "minv M" and free: "\<not> locked (work (wk M))" and room: "room (wk M)"
    and f: "has_user (pc M f)"
  shows "minv (M\<lparr>wk := snd (enqueue_fiber f (wk M))\<rparr>)"
proof (cases "waits M f")
  case False
  then have "looping (pc M f) \<and> f = currentFiber (wk M)"
    using f inv free by (cases "pc M f") (auto simp: waits_def minv_def fibers_ok_def current_ok_def
        split: if_splits)
  then have "enqueue_fiber f (wk M) = (False, wk M)"
    using inv by (auto simp: minv_def current_ok_def enqueue_fiber_def)
  then show ?thesis using inv by simp
next
  case True
  let ?k = "work (wk M)"
  show ?thesis
  proof (cases "f \<in> set (fibers ?k)")
    case True
    then have "enqueue_fiber f (wk M) = (False, wk M)"
      using queued_waits [OF inv True] by (simp add: enqueue_fiber_def)
    then show ?thesis using inv by simp
  next
    case new: False
    have st: "state (wk M) f = Yielded" using inv True new by (simp add: minv_def queue_ok_def)
    let ?w = "work_update (push_fiber f) (set_state f Queued (wk M))"
    let ?M = "M\<lparr>wk := ?w\<rparr>"
    have E: "snd (enqueue_fiber f (wk M)) = ?w" using st by (simp add: enqueue_fiber_def Let_def)
    have S [simp]: "suspended_fibers ?M = suspended_fibers M" by (simp add: suspended_fibers_def)
    have A [simp]: "waits ?M = waits M" by (simp add: waits_def fun_eq_iff)
    have nc: "\<not> (closing M \<and> pc M (mainFiber (wk M)) \<noteq> Finished)"
      using free inv by (auto simp: closing_def minv_def current_ok_def)
    have C: "closing ?M" if "closing M" using that nc by (auto simp: closing_def)
    have nl: "\<not> (looping (pc M f) \<and> f = currentFiber (wk M))" "pc M f \<noteq> Switched"
      using True not_both(2) [of "pc M f"] by (auto simp: waits_def dest: is_suspended_cases split: if_splits)
    have "count_ok ?M" using inv room by (simp add: minv_def count_ok_def room_def)
    moreover have "queue_ok ?M" using inv True new by (auto simp: minv_def queue_ok_def)
    moreover have "idle_ok ?M" using inv C nl(2) by (auto simp: minv_def idle_ok_def)
    moreover have "fibers_ok ?M" using inv C by (auto simp: minv_def fibers_ok_def)
    moreover have "current_ok ?M" using inv nl(1) by (auto simp: minv_def current_ok_def)
    ultimately show ?thesis by (simp add: minv_def E)
  qed
qed

subsection \<open>Every step keeps the invariant\<close>

lemma core_simps [simp]:
  "core (lock b w) = core w" "core (w\<lparr>shutdown := b\<rparr>) = core w"
  "core (w\<lparr>work := (work w)\<lparr>notifyAdded := b\<rparr>\<rparr>) = core w"
  "core (work_update Work_wait_end w) = core w"
  "core (set_state f st (lock b w)) = core (set_state f st w)"
  by (simp_all add: core_def lock_def Work_wait_end_def set_state_def)

lemma core_lock_work [simp]:
  "core (w\<lparr>work := (work w)\<lparr>notifyAdded := b\<rparr>\<rparr>) = core w"
  by (simp add: core_def)

lemma move_same: "M\<lparr>wk := w\<rparr> = move (pc M (currentFiber (wk M))) w M"
  by (simp add: move_def)

lemma current_locked: "minv M \<Longrightarrow> locked (work (wk M)) = holds (pc M (currentFiber (wk M)))"
  by (simp add: minv_def current_ok_def)

lemma untimed_waiting: "minv M \<Longrightarrow> waiting (work (wk M)) = WaitingFibers_new"
  by (simp add: minv_def count_ok_def)

lemma closing_free:
  assumes "minv M" "\<not> locked (work (wk M))" "closing M"
  shows "pc M (currentFiber (wk M)) = Finished"
  using assms current_locked [OF assms(1)] by (auto simp: closing_def)

lemma minv_enter:
  assumes inv: "minv M" and c: "looping (pc M (currentFiber (wk M)))" "\<not> closing M"
    and l: "locked (work (wk M))"
  shows "minv (waitForWork_enter OfLoop (wk M) M)"
  using assms by (auto simp: waitForWork_enter_def intro!: minv_move)

lemma minv_enter_suspend:
  assumes inv: "minv M" and c: "looping (pc M (currentFiber (wk M)))" "\<not> closing M"
  shows "minv (waitForWork_enter (OfSuspend u) (suspend_begin None (lock True (wk M))) M)"
  using assms by (auto simp: waitForWork_enter_def suspend_begin_def intro!: minv_suspend)

lemma minv_env_task:
  assumes inv: "minv M" and free: "\<not> locked (work (wk M))" and room: "room (wk M)"
  shows "minv (M\<lparr>wk := snd (enqueue_task t (wk M))\<rparr>)"
proof -
  let ?k = "work (wk M)"
  have "minv (move (pc M (currentFiber (wk M)))
    ((wk M)\<lparr>work := ?k\<lparr>num := num ?k + 1, tasks := tasks ?k @ [t], locked := False\<rparr>\<rparr>) M)"
    using inv room free current_locked [OF inv] closing_free [OF inv free]
    by (intro minv_tasks [OF inv refl]) (auto simp: minv_def count_ok_def work_count_def room_def)
  moreover have "snd (enqueue_task t (wk M)) =
      (wk M)\<lparr>work := ?k\<lparr>num := num ?k + 1, tasks := tasks ?k @ [t], locked := False\<rparr>\<rparr>"
    by (cases "wk M") (simp add: enqueue_task_def enqueueAndUnlock_def push_task_def)
  ultimately show ?thesis by (simp only: move_same)
qed

lemma minv_env_steal:
  assumes inv: "minv M" and w: "steal (wk M) = Inr (r, w)"
  shows "minv (M\<lparr>wk := w\<rparr>)"
proof -
  let ?k = "work (wk M)"
  have "work_count ?k" "length (tasks ?k) + length (fibers ?k) < 2 ^ 64"
    using inv by (simp_all add: minv_def count_ok_def)
  then show ?thesis
  proof (cases rule: steal_cases)
    case none
    then show ?thesis using w inv by simp
  next
    case (some t ts)
    have "minv (move (pc M (currentFiber (wk M)))
      ((wk M)\<lparr>work := ?k\<lparr>num := num ?k - 1, tasks := ts, locked := False\<rparr>\<rparr>) M)"
      using inv some current_locked [OF inv] closing_free [OF inv some(3)]
      by (intro minv_tasks [OF inv refl]) (auto simp: minv_def count_ok_def work_count_def)
    moreover have "w = (wk M)\<lparr>work := ?k\<lparr>num := num ?k - 1, tasks := ts, locked := False\<rparr>\<rparr>"
      using w some(3,4) by (cases "wk M"; cases ?k) auto
    ultimately show ?thesis by (simp only: move_same)
  qed
qed

lemma minv_spin_steal:
  assumes inv: "minv M" and c: "pc M (currentFiber (wk M)) = Spin x" and room: "room (wk M)"
  shows "minv (move (Block x) (spin_stolen t (wk M)) M)"
proof -
  let ?k = "work (wk M)"
  have "\<not> closing M" using closing_pc [of M] c by auto
  then have "minv (move (Block x)
    ((wk M)\<lparr>work := ?k\<lparr>num := num ?k + 1, tasks := tasks ?k @ [t], locked := True\<rparr>\<rparr>) M)"
    using inv room c
    by (intro minv_tasks [OF inv refl])
      (cases x; auto simp: minv_def count_ok_def work_count_def room_def)+
  moreover have "spin_stolen t (wk M) =
      (wk M)\<lparr>work := ?k\<lparr>num := num ?k + 1, tasks := tasks ?k @ [t], locked := True\<rparr>\<rparr>"
    by (cases "wk M") (simp add: spin_stolen_def push_task_def)
  ultimately show ?thesis by simp
qed

lemma minv_idle_task:
  assumes inv: "minv M" and c: "pc M (currentFiber (wk M)) = RunIdle"
    and w: "runUntilIdle_task (wk M) = Inr (t, w)"
  shows "minv (move (User TaskCode) w M)"
proof -
  let ?k = "work (wk M)"
  obtain ts where ts: "tasks ?k = t # ts"
    "w = (wk M)\<lparr>work := ?k\<lparr>num := num ?k - 1, tasks := ts, locked := False\<rparr>\<rparr>"
    using w by (auto simp: runUntilIdle_task_def take_task_def split: list.splits)
  have "\<not> closing M" using closing_queues(1) [OF inv] c ts(1) by force
  then have "minv (move (User TaskCode)
    ((wk M)\<lparr>work := ?k\<lparr>num := num ?k - 1, tasks := ts, locked := False\<rparr>\<rparr>) M)"
    using inv ts c
    by (intro minv_tasks [OF inv refl]) (auto simp: minv_def count_ok_def work_count_def)
  then show ?thesis using ts(2) by simp
qed

lemma after_wait_kind:
  "looping (Block x) \<and> looping (after_wait x) \<or> suspending (Block x) \<and> suspending (after_wait x)"
  "looping (Blocked x) \<and> looping (after_wait x) \<or> suspending (Blocked x) \<and> suspending (after_wait x)"
  "looping (Block x) \<and> looping (Blocked x) \<or> suspending (Block x) \<and> suspending (Blocked x)"
  "looping (Spin x) \<and> looping (Block x) \<or> suspending (Spin x) \<and> suspending (Block x)"
  "holds (after_wait x)"
  by (cases x; simp)+

lemma minv_step:
  assumes "wstep False M M'" "minv M"
  shows "minv M'"
  using assms
proof (cases rule: wstep.cases)
  case thread_begin
  with assms(2) show ?thesis by (auto intro!: minv_move dest: closing_pc)
next
  case (start_block d k)
  with assms(2) untimed_waiting [OF assms(2)] show ?thesis
    by (auto intro!: minv_move dest: closing_pc)
next
  case (start_go d k)
  with assms(2) untimed_waiting [OF assms(2)] current_locked [OF assms(2)] show ?thesis
    by (auto simp: Work_wait_end_def intro!: minv_move dest: closing_pc)
next
  case start_single
  with assms(2) current_locked [OF assms(2)] show ?thesis
    by (auto intro!: minv_move dest: closing_pc)
next
  case init_wake
  with assms(2) show ?thesis by (auto intro!: minv_move dest: closing_pc)
next
  case loop_on
  moreover have "\<not> closing M"
    using loop_on blocked_zero [OF assms(2)] by (auto simp: closing_def runUntilShutdown_cond_def)
  ultimately show ?thesis using assms(2) current_locked [OF assms(2)] by (simp add: minv_enter)
next
  case loop_off_main
  with assms(2) show ?thesis by (auto intro: minv_loop_off)
next
  case loop_off
  with assms(2) show ?thesis by (auto intro: minv_loop_off)
next
  case (spin_end x)
  with assms(2) after_wait_kind(4) [of x] show ?thesis
    by (auto intro!: minv_move dest: closing_pc)
next
  case (spin_steal x t)
  with assms(2) show ?thesis by (auto intro: minv_spin_steal)
next
  case (block_pass x d k now k')
  with assms(2) untimed_waiting [OF assms(2)] current_locked [OF assms(2)] after_wait_kind [of x]
  show ?thesis by (auto intro!: minv_move dest: closing_pc)
next
  case (block_wait x d k)
  with assms(2) untimed_waiting [OF assms(2)] after_wait_kind(3) [of x] show ?thesis
    by (auto intro!: minv_move dest: closing_pc)
next
  case (blocked_wake x now k')
  with assms(2) untimed_waiting [OF assms(2)] after_wait_kind [of x] show ?thesis
    by (auto intro!: minv_move dest: closing_pc)
next
  case (idle_fiber w)
  with assms(2) show ?thesis by (auto intro: minv_idle_fiber)
next
  case (idle_task t w)
  with assms(2) show ?thesis by (auto intro: minv_idle_task)
next
  case idle_done
  with assms(2) current_locked [OF assms(2)] show ?thesis by (auto intro!: minv_move)
next
  case resume_idle
  with assms(2) show ?thesis by (auto intro: minv_resume_idle)
next
  case task_done
  with assms(2) show ?thesis by (auto intro!: minv_move dest: closing_pc)
next
  case task_shutdown
  with assms(2) current_locked [OF assms(2)] show ?thesis
    by (auto intro!: minv_move dest: closing_pc)
next
  case thread_stop
  with assms(2) show ?thesis by (auto intro!: minv_move dest: closing_pc)
next
  case (user_suspend u timeout)
  moreover have "\<not> closing M" using closing_pc [of M] user_suspend by auto
  ultimately show ?thesis using assms(2) by (auto intro: minv_enter_suspend)
next
  case (go u pick fresh w)
  show ?thesis
  proof (cases "fibers (work (wk M))")
    case Nil
    then show ?thesis using go assms(2) by (auto intro: minv_go_idle)
  next
    case (Cons f fs)
    then show ?thesis using go assms(2) by (auto intro: minv_go_ready)
  qed
next
  case (go_fresh u pick fresh w)
  with assms(2) show ?thesis by (auto intro: minv_go_fresh)
next
  case (resume_suspended u)
  with assms(2) show ?thesis by (auto intro: minv_resume_suspended)
next
  case (env_task t)
  with assms(2) show ?thesis by (auto intro: minv_env_task)
next
  case (env_notify f)
  with assms(2) show ?thesis by (auto intro: minv_notify)
next
  case (env_steal r w)
  with assms(2) show ?thesis by (auto intro: minv_env_steal)
qed

lemma reachable_minv:
  assumes "reachable False M"
  shows "minv M"
proof -
  obtain m i main where "(wstep False)\<^sup>*\<^sup>* (machine_start m i main) M"
    using assms by (auto simp: reachable_def)
  then show ?thesis
    by (induction rule: rtranclp_induct) (auto intro: minv_start minv_step)
qed

lemma reachable_start: "reachable timed (machine_start m i main)"
  by (auto simp: reachable_def)

lemma reachable_step: "reachable timed M \<Longrightarrow> wstep timed M M' \<Longrightarrow> reachable timed M'"
  by (auto simp: reachable_def intro: rtranclp.rtrancl_into_rtrancl)

subsection \<open>What the invariant gives\<close>

text \<open>
  Runs for the witnesses: a thread with its own worker enqueues a task, suspends, and its worker
  makes a new fiber for the task.
\<close>

definition run_0 :: "nat machine" where
  "run_0 = machine_start SingleThreaded 7 1"

definition run_1 :: "nat machine" where
  "run_1 = run_0\<lparr>wk := snd (enqueue_task (Task_new (Some 5) NoFlag) (wk run_0))\<rparr>"

definition run_2 :: "nat machine" where
  "run_2 = waitForWork_enter (OfSuspend ThreadCode) (suspend_begin None (lock True (wk run_1))) run_1"

definition run_3_worker :: "nat worker" where
  "run_3_worker = switchToFiber 2 (createWorkerFiber 2
     (work_update (\<lambda>k. k\<lparr>numBlockedFibers := numBlockedFibers k + 1\<rparr>) (wk run_2)))"

definition run_3 :: "nat machine" where
  "run_3 = (move (Suspended ThreadCode) run_3_worker run_2)
     \<lparr>pc := (pc run_2)(1 := Suspended ThreadCode, 2 := Start)\<rparr>"

lemmas run_defs = run_0_def run_1_def run_2_def machine_start_def Worker_start_def Worker_new_def
  Work_new_def enqueue_task_def enqueueAndUnlock_def push_task_def waitForWork_enter_def
  suspend_begin_def lock_def change_state_def changeFiberState_def move_def

lemma run_0_simps [simp]:
  "pc run_0 = (\<lambda>_. NoFiber)(1 := User ThreadCode)" "currentFiber (wk run_0) = 1"
  "\<not> locked (work (wk run_0))" "room (wk run_0)" "shutdown (wk run_0) = False"
  by (simp_all add: run_defs room_def)

lemma run_1_simps [simp]:
  "pc run_1 = (\<lambda>_. NoFiber)(1 := User ThreadCode)" "currentFiber (wk run_1) = 1"
  "\<not> locked (work (wk run_1))"
  by (simp_all add: run_defs)

lemma run_2_simps [simp]:
  "pc run_2 = (\<lambda>_. NoFiber)(1 := Go ThreadCode)" "currentFiber (wk run_2) = 1"
  "fibers (work (wk run_2)) = []" "idleFibers (wk run_2) = []" "room (wk run_2)"
  "mainFiber (wk run_2) = 1" "workerFibers (wk run_2) = []" "state (wk run_2) 1 = Yielded"
  by (simp_all add: run_defs room_def)

lemma run_reachable: "reachable False run_0" "reachable False run_1" "reachable False run_2"
proof -
  show r0: "reachable False run_0" by (simp add: run_0_def reachable_start)
  show r1: "reachable False run_1"
    unfolding run_1_def by (rule reachable_step [OF r0 env_task]) simp_all
  show "reachable False run_2"
    unfolding run_2_def by (rule reachable_step [OF r1 user_suspend]) simp_all
qed

lemma run_3_step: "wstep False run_2 run_3"
proof -
  have "suspend_switch 0 2 (wk run_2) = Inr run_3_worker"
    by (simp add: suspend_switch_def run_3_worker_def Let_def)
  then show ?thesis
    using go_fresh [of run_2 ThreadCode 0 2 run_3_worker False] by (simp add: run_3_def)
qed

lemma run_3_simps [simp]:
  "pc run_3 = (\<lambda>_. NoFiber)(1 := Suspended ThreadCode, 2 := Start)"
  "wk run_3 = run_3_worker" "currentFiber run_3_worker = 2" "mainFiber run_3_worker = 1"
  "workerFibers run_3_worker = [2]" "fibers (work run_3_worker) = []"
  by (auto simp: run_3_def run_3_worker_def createWorkerFiber_def)

text \<open>
  C2. Every fiber of a worker is in exactly one place, as long as user code does not wait with
  timeouts: the counter \<open>num\<close> counts the queued tasks and fibers, \<open>numBlockedFibers\<close>
  the fibers inside \<open>suspend\<close>, and a fiber that is not running and has not ended is idle
  exactly when it is in \<open>idleFibers\<close>, ready exactly when it is in the queue, and otherwise
  suspended and waiting for a notification.
\<close>

theorem fibers_in_one_place:
  assumes "reachable False M"
  shows "num (work (wk M)) = of_nat (length (tasks (work (wk M))) + length (fibers (work (wk M)))) \<and>
    numBlockedFibers (work (wk M)) = of_nat (card {f. is_suspended (pc M f)}) \<and>
    distinct (fibers (work (wk M))) \<and> distinct (idleFibers (wk M)) \<and>
    (\<forall>f\<in>set (mainFiber (wk M) # workerFibers (wk M)).
       f = currentFiber (wk M) \<or> pc M f = Finished \<or>
       state (wk M) f \<in> {Idle, Queued, Yielded} \<and>
       (state (wk M) f = Idle \<longleftrightarrow> f \<in> set (idleFibers (wk M))) \<and>
       (state (wk M) f = Queued \<longleftrightarrow> f \<in> set (fibers (work (wk M)))) \<and>
       (state (wk M) f \<noteq> Idle \<longleftrightarrow> is_suspended (pc M f)))"
proof -
  note inv = reachable_minv [OF assms]
  have "state (wk M) f \<in> {Idle, Queued, Yielded} \<and>
      (state (wk M) f = Idle \<longleftrightarrow> f \<in> set (idleFibers (wk M))) \<and>
      (state (wk M) f = Queued \<longleftrightarrow> f \<in> set (fibers (work (wk M)))) \<and>
      (state (wk M) f \<noteq> Idle \<longleftrightarrow> is_suspended (pc M f))"
    if "f \<in> set (mainFiber (wk M) # workerFibers (wk M))" "f \<noteq> currentFiber (wk M)"
      "pc M f \<noteq> Finished" for f
  proof -
    have "f \<in> {f. pc M f \<noteq> NoFiber}" using that(1) inv by (simp add: minv_def fibers_ok_def)
    then have p: "is_suspended (pc M f) \<or> pc M f = Switched"
      using that(2,3) inv by (auto simp: minv_def fibers_ok_def)
    have idle: "f \<in> set (idleFibers (wk M)) \<longleftrightarrow> pc M f = Switched"
      "pc M f = Switched \<Longrightarrow> state (wk M) f = Idle"
      using that(2) inv by (simp_all add: minv_def idle_ok_def)
    have w: "waits M f \<longleftrightarrow> is_suspended (pc M f)" using that(2) by (simp add: waits_def)
    show ?thesis
    proof (cases "is_suspended (pc M f)")
      case True
      then have "state (wk M) f = (if f \<in> set (fibers (work (wk M))) then Queued else Yielded)"
        using w inv by (simp add: minv_def queue_ok_def)
      then show ?thesis using True idle by (auto dest: is_suspended_cases)
    next
      case False
      then show ?thesis using p idle w queued_waits [OF inv] by auto
    qed
  qed
  then show ?thesis
    using inv by (auto simp: minv_def count_ok_def work_count_def queue_ok_def idle_ok_def
        suspended_fibers_def)
qed

theorem fibers_in_one_place_witness:
  "state (wk run_3) 1 = Yielded \<and> numBlockedFibers (work (wk run_3)) = 1"
proof -
  have "state (wk run_3) 1 \<in> {Idle, Queued, Yielded} \<and>
      (state (wk run_3) 1 = Queued \<longleftrightarrow> 1 \<in> set (fibers (work (wk run_3)))) \<and>
      (state (wk run_3) 1 \<noteq> Idle \<longleftrightarrow> is_suspended (pc run_3 1))"
    "numBlockedFibers (work (wk run_3)) = of_nat (card {f. is_suspended (pc run_3 f)})"
    using fibers_in_one_place [OF reachable_step [OF run_reachable(3) run_3_step]] by auto
  moreover have "{f. is_suspended (pc run_3 f)} = {1}" by auto
  ultimately show ?thesis by auto
qed

text \<open>
  C3. As long as user code does not wait with timeouts, a worker stops only when nothing is left: when the loop of \<open>runUntilShutdown\<close> ends on
  any fiber, no task and no fiber is queued and no fiber is suspended, and if it ends on a worker
  fiber, the main fiber it switches to is an idle one that can take over.
\<close>

theorem shutdown_loses_nothing:
  assumes "reachable False M" "pc M (currentFiber (wk M)) = Loop" "\<not> runUntilShutdown_cond (wk M)"
  shows "tasks (work (wk M)) = [] \<and> fibers (work (wk M)) = [] \<and> (\<nexists>f. is_suspended (pc M f)) \<and>
    (currentFiber (wk M) = mainFiber (wk M) \<or> pc M (mainFiber (wk M)) = Switched)"
  using loop_ends [OF reachable_minv [OF assms(1)] assms(2,3)]
  by (auto simp: suspended_fibers_def)

theorem shutdown_loses_nothing_witness:
  "\<exists>M :: nat machine. reachable False M \<and> pc M (currentFiber (wk M)) = Loop \<and>
     tasks (work (wk M)) = [] \<and> (\<nexists>f. is_suspended (pc M f))"
proof -
  let ?M = "move Loop (lock True ((wk run_0)\<lparr>shutdown := True\<rparr>)) run_0"
  have r: "reachable False ?M" by (rule reachable_step [OF run_reachable(1) thread_stop]) simp_all
  have "pc ?M (currentFiber (wk ?M)) = Loop" "\<not> runUntilShutdown_cond (wk ?M)"
    by simp (simp add: runUntilShutdown_cond_def run_defs)
  from shutdown_loses_nothing [OF r this] r this(1) show ?thesis by blast
qed

lemma switch_shapes:
  "currentFiber (wk (waitForWork_enter x w M)) = currentFiber w"
  "currentFiber (suspend_begin t w) = currentFiber w"
  "currentFiber (snd (enqueue_task t' w)) = currentFiber w"
  "currentFiber (snd (enqueue_fiber f w)) = currentFiber w"
  "currentFiber (spin_stolen t' w) = currentFiber w"
  "currentFiber (runUntilIdle_resumed w) = currentFiber w"
  by (auto simp: waitForWork_enter_def suspend_begin_def enqueue_task_def enqueueAndUnlock_def
      enqueue_fiber_def set_state_def change_state_def spin_stolen_def Let_def
      runUntilIdle_resumed_def split: option.splits)

lemma switch_none:
  "steal w = Inr (r, w') \<Longrightarrow> currentFiber w' = currentFiber w"
  "runUntilIdle_task w = Inr (t, w') \<Longrightarrow> currentFiber w' = currentFiber w"
  by (auto simp: steal_def runUntilIdle_task_def split: if_splits)

text \<open>
  C7. As long as user code does not wait with timeouts, fibers are switched safely: a step that changes the current fiber goes to a fiber that is
  suspended and was queued, to an idle one, or to a new one that begins with \<open>run\<close>; never to
  one that has ended.
\<close>

theorem switch_targets:
  assumes "reachable False M" "wstep False M M'"
    and "currentFiber (wk M') \<noteq> currentFiber (wk M)"
  shows "is_suspended (pc M (currentFiber (wk M'))) \<and>
      currentFiber (wk M') \<in> set (fibers (work (wk M))) \<or>
    pc M (currentFiber (wk M')) = Switched \<or>
    pc M (currentFiber (wk M')) = NoFiber \<and> pc M' (currentFiber (wk M')) = Start"
proof -
  note inv = reachable_minv [OF assms(1)]
  show ?thesis
    using assms(2)
  proof (cases rule: wstep.cases)
    case loop_off
    then show ?thesis using loop_ends(6) [OF inv] by simp
  next
    case (idle_fiber w)
    then obtain f fs where q: "fibers (work (wk M)) = f # fs" "currentFiber w = f"
      by (auto simp: runUntilIdle_fiber_def take_fiber_def Let_def split: list.splits)
    then show ?thesis using queued_waits [OF inv, of f] idle_fiber assms(3)
      by (auto simp: waits_def)
  next
    case (go u pick fresh w)
    have cl: "\<not> closing M" using closing_pc [of M] go by auto
    show ?thesis
    proof (cases "fibers (work (wk M))")
      case Nil
      then have "idleFibers (wk M) \<noteq> []" "pick \<in> set (idleFibers (wk M))" using go by auto
      then show ?thesis using go Nil idle_switched(2) [OF inv cl, of pick]
        by (auto simp: suspend_switch_def Let_def)
    next
      case (Cons f fs)
      then have "currentFiber w = f" using go by (auto simp: suspend_switch_def take_fiber_def Let_def)
      then show ?thesis using queued_waits [OF inv, of f] go Cons assms(3)
        by (auto simp: waits_def)
    qed
  next
    case (go_fresh u pick fresh w)
    then have "currentFiber w = fresh" by (auto simp: suspend_switch_def Let_def)
    then show ?thesis using go_fresh by simp
  qed (use assms(3) in \<open>auto simp: switch_shapes dest: switch_none\<close>)
qed

theorem switch_targets_witness:
  "pc run_2 (currentFiber (wk run_3)) = NoFiber \<and> pc run_3 (currentFiber (wk run_3)) = Start"
  using switch_targets [OF run_reachable(3) run_3_step] by simp

subsection \<open>No lost wake-up\<close>

text \<open>The thread sleeps in \<open>work.wait\<close>.\<close>

fun sleeping :: "pc \<Rightarrow> bool" where
  "sleeping InitBlocked = True" | "sleeping (Blocked x) = True" | "sleeping _ = False"

definition sleep_ok :: "'f machine \<Rightarrow> bool" where
  "sleep_ok M \<longleftrightarrow>
     (\<forall>f. sleeping (pc M f) \<longrightarrow> f = currentFiber (wk M) \<and> notifyAdded (work (wk M)))"

lemma sleep_ok_move:
  assumes "sleep_ok M" "sleeping p \<Longrightarrow> currentFiber w = currentFiber (wk M) \<and> notifyAdded (work w)"
  shows "sleep_ok (move p w M)"
  using assms by (auto simp: sleep_ok_def)

lemma sleep_ok_same:
  assumes "sleep_ok M" "currentFiber w = currentFiber (wk M)"
    "notifyAdded (work w) = notifyAdded (work (wk M))"
  shows "sleep_ok (M\<lparr>wk := w\<rparr>)"
  using assms by (simp add: sleep_ok_def)

lemma notifyAdded_env:
  "notifyAdded (work (snd (enqueue_task t w))) = notifyAdded (work w)"
  "notifyAdded (work (snd (enqueue_fiber f w))) = notifyAdded (work w)"
  "steal w = Inr (r, w') \<Longrightarrow> notifyAdded (work w') = notifyAdded (work w)"
  by (auto simp: enqueue_task_def enqueueAndUnlock_def enqueue_fiber_def set_state_def steal_def
      take_task_def Let_def split: if_splits list.splits)

lemma wait_begin_notify: "Work_wait_begin k = Inr (d, k') \<Longrightarrow> notifyAdded k'"
  by (auto simp: Work_wait_begin_def Let_def split: if_splits)

lemma after_wait_awake [simp]: "\<not> sleeping (after_wait x)"
  by (cases x) simp_all

lemma sleep_ok_step:
  assumes "wstep timed M M'" "sleep_ok M"
  shows "sleep_ok M'"
  using assms
proof (cases rule: wstep.cases)
  case (go_fresh u pick fresh w)
  then show ?thesis using assms(2) by (auto simp: sleep_ok_def)
qed (auto simp: waitForWork_enter_def switch_shapes notifyAdded_env
    intro!: sleep_ok_move sleep_ok_same dest: wait_begin_notify switch_none)

lemma reachable_sleep_ok:
  assumes "reachable timed M"
  shows "sleep_ok M"
proof -
  obtain m i main where "(wstep timed)\<^sup>*\<^sup>* (machine_start m i main) M"
    using assms by (auto simp: reachable_def)
  moreover have "sleep_ok (machine_start m i main)"
    by (simp add: sleep_ok_def machine_start_def)
  ultimately show ?thesis
    by (induction rule: rtranclp_induct) (auto intro: sleep_ok_step)
qed

text \<open>
  C6. No wake-up is lost: whenever the worker thread sleeps, with or without timed waits, a task
  that another thread enqueues notifies its condition variable and makes the condition it waits
  for true.
\<close>

theorem enqueue_wakes_sleeper:
  assumes "reachable timed M" "sleeping (pc M (currentFiber (wk M)))"
    and "num (work (wk M)) = 0"
  shows "fst (enqueue_task t (wk M)) \<and> run_pred (snd (enqueue_task t (wk M))) \<and>
    waitForWork_pred (snd (enqueue_task t (wk M)))"
  using reachable_sleep_ok [OF assms(1)] assms(2,3)
  by (simp add: sleep_ok_def enqueue_task_def enqueueAndUnlock_def run_pred_def waitForWork_pred_def
      word_gt_0)

text \<open>A worker thread that has found nothing to do.\<close>

definition awake :: "nat machine" where
  "awake = move Start (lock True (wk (machine_start MultiThreaded 0 1))) (machine_start MultiThreaded 0 1)"

definition asleep :: "nat machine" where
  "asleep = move InitBlocked (lock False ((wk awake)\<lparr>work := (work (wk awake))\<lparr>notifyAdded := True\<rparr>\<rparr>)) awake"

lemma asleep_reachable: "reachable False asleep"
proof -
  have "reachable False awake"
    unfolding awake_def by (rule reachable_step [OF reachable_start thread_begin]) (simp_all add: run_defs)
  moreover have "wstep False awake asleep"
    unfolding asleep_def
  proof (rule start_block)
    show "Work_wait_begin (work (wk awake)) = Inr (None, (work (wk awake))\<lparr>notifyAdded := True\<rparr>)"
      by (rule untimed_simps) (simp add: awake_def run_defs)
    show "\<not> run_pred (wk awake)"
      by (simp add: run_pred_def awake_def run_defs WaitingFibers_bool_def WaitingFibers_new_def)
  qed (simp_all add: awake_def run_defs)
  ultimately show ?thesis by (rule reachable_step)
qed

theorem enqueue_wakes_sleeper_witness:
  "sleeping (pc asleep (currentFiber (wk asleep))) \<and>
   fst (enqueue_task (Task_new (Some 3) NoFlag) (wk asleep))"
proof -
  have "sleeping (pc asleep (currentFiber (wk asleep)))" "num (work (wk asleep)) = 0"
    by (simp_all add: asleep_def awake_def run_defs)
  then show ?thesis using enqueue_wakes_sleeper [OF asleep_reachable] by blast
qed

subsection \<open>Progress\<close>

lemma fresh_address:
  assumes "minv M"
  obtains f where "pc M f = NoFiber"
proof -
  have "finite {f. pc M f \<noteq> NoFiber}" using assms by (simp add: minv_def fibers_ok_def)
  then obtain f where "f \<notin> {f. pc M f \<noteq> NoFiber}" using infinite_UNIV_nat by (meson ex_new_if_finite)
  then show ?thesis using that by blast
qed

text \<open>The current fiber makes a step to another place.\<close>

definition goes_on :: "'f machine \<Rightarrow> bool" where
  "goes_on M \<longleftrightarrow> (\<exists>M'. wstep False M M' \<and> pc M' (currentFiber (wk M)) \<noteq> pc M (currentFiber (wk M)))"

lemma goes_onI: "wstep False M (move p w M) \<Longrightarrow> p \<noteq> pc M (currentFiber (wk M)) \<Longrightarrow> goes_on M"
  unfolding goes_on_def by (intro exI [of _ "move p w M"]) simp

lemma start_goes_on:
  assumes "minv M" "pc M (currentFiber (wk M)) = Start"
  shows "goes_on M"
  using goes_onI [OF start_block [OF assms(2)]] goes_onI [OF start_go [OF assms(2)]]
    goes_onI [OF start_single [OF assms(2)]] untimed_simps(1) [OF untimed_waiting [OF assms(1)]] assms(2)
  by (cases "w_mode (wk M)"; cases "run_pred (wk M)") auto

lemma loop_goes_on:
  assumes "pc M (currentFiber (wk M)) = Loop"
  shows "goes_on M"
proof (cases "runUntilShutdown_cond (wk M)")
  case True
  then show ?thesis using loop_on [OF assms] assms unfolding goes_on_def
    by (intro exI [of _ "waitForWork_enter OfLoop (wk M) M"]) (auto simp: waitForWork_enter_def)
next
  case False
  then show ?thesis using goes_onI [OF loop_off_main [OF assms]] goes_onI [OF loop_off [OF assms]] assms
    by (cases "currentFiber (wk M) = mainFiber (wk M)") auto
qed

lemma block_goes_on:
  assumes "minv M" "pc M (currentFiber (wk M)) = Block x"
  shows "goes_on M"
proof -
  note free = untimed_waiting [OF assms(1)]
  have "waiting ((work (wk M))\<lparr>notifyAdded := True\<rparr>) = WaitingFibers_new" using free by simp
  note E = untimed_simps(2) [OF this]
  show ?thesis
    using goes_onI [OF block_wait [OF assms(2) untimed_simps(1) [OF free]]]
      goes_onI [OF block_pass [OF assms(2) untimed_simps(1) [OF free] _ E]] assms(2)
    by (cases "waitForWork_pred (wk M)"; cases x) auto
qed

lemma idle_goes_on:
  assumes "pc M (currentFiber (wk M)) = RunIdle"
  shows "goes_on M"
proof (cases "fibers (work (wk M))")
  case no_fiber: Nil
  show ?thesis
  proof (cases "tasks (work (wk M))")
    case Nil
    then show ?thesis using goes_onI [OF idle_done [OF assms]] no_fiber assms by simp
  next
    case (Cons t ts)
    then obtain w where "runUntilIdle_task (wk M) = Inr (t, w)"
      by (simp add: runUntilIdle_task_def take_task_def)
    then show ?thesis using goes_onI [OF idle_task [OF assms]] no_fiber assms by simp
  qed
next
  case (Cons f fs)
  then obtain w where "runUntilIdle_fiber (wk M) = Inr w"
    by (simp add: runUntilIdle_fiber_def take_fiber_def Let_def)
  then show ?thesis using goes_onI [OF idle_fiber [OF assms]] assms by simp
qed

lemma go_goes_on:
  assumes "minv M" "room (wk M)" and Go: "pc M (currentFiber (wk M)) = Go u"
  shows "goes_on M"
proof -
  obtain fresh where fresh: "pc M fresh = NoFiber" using fresh_address [OF assms(1)] by blast
  let ?pick = "hd (idleFibers (wk M))"
  obtain w where w: "suspend_switch ?pick fresh (wk M) = Inr w"
    by (cases "fibers (work (wk M))"; cases "idleFibers (wk M) = []")
      (simp_all add: suspend_switch_def take_fiber_def Let_def)
  show ?thesis
  proof (cases "fibers (work (wk M)) = [] \<and> idleFibers (wk M) = []")
    case True
    have "fresh \<noteq> currentFiber (wk M)" using fresh Go by auto
    then show ?thesis unfolding goes_on_def
      using go_fresh [OF Go w _ _ fresh assms(2)] True Go by (intro exI conjI) auto
  next
    case False
    then have "fibers (work (wk M)) \<noteq> [] \<or> ?pick \<in> set (idleFibers (wk M))" by auto
    then show ?thesis using goes_onI [OF go [OF Go w]] Go by simp
  qed
qed

lemma worker_goes_on:
  assumes "reachable False M" "room (wk M)"
    and "pc M (currentFiber (wk M)) \<noteq> Finished" "\<nexists>u. pc M (currentFiber (wk M)) = User u"
    and "pc M (currentFiber (wk M)) = InitBlocked \<Longrightarrow> run_pred (wk M)"
    and "\<And>x. pc M (currentFiber (wk M)) = Blocked x \<Longrightarrow> waitForWork_pred (wk M)"
  shows "goes_on M"
proof -
  note inv = reachable_minv [OF assms(1)]
  note end_wait = untimed_simps(2) [OF untimed_waiting [OF inv]] and L = current_locked [OF inv]
  show ?thesis
  proof (cases "pc M (currentFiber (wk M))")
    case NoFiber
    then show ?thesis using inv by (simp add: minv_def fibers_ok_def)
  next
    case Created
    then show ?thesis using goes_onI [OF thread_begin [OF Created]] L by simp
  next
    case InitBlocked
    then show ?thesis using goes_onI [OF init_wake [OF InitBlocked]] L assms(5) by simp
  next
    case (Spin x)
    then show ?thesis using goes_onI [OF spin_end [OF Spin]] L by simp
  next
    case (Blocked x)
    then show ?thesis
      using goes_onI [OF blocked_wake [OF Blocked _ _ end_wait]] L assms(6) [OF Blocked] by (cases x) auto
  next
    case Switched
    then show ?thesis using goes_onI [OF resume_idle [OF Switched]] by simp
  next
    case (Suspended u)
    then show ?thesis using goes_onI [OF resume_suspended [OF Suspended]] by simp
  qed (use inv assms(2-4) start_goes_on loop_goes_on block_goes_on idle_goes_on go_goes_on in auto)
qed

text \<open>
  C4. Without timed waits the worker never gets stuck: in every reachable state in which its
  current fiber is not in user code, has not ended the thread and does not sleep for lack of work,
  the worker's own code can make its next step, without a fault.
\<close>

theorem worker_progress:
  assumes "reachable False M" "room (wk M)"
    and "pc M (currentFiber (wk M)) \<noteq> Finished" "\<nexists>u. pc M (currentFiber (wk M)) = User u"
    and "pc M (currentFiber (wk M)) = InitBlocked \<Longrightarrow> run_pred (wk M)"
    and "\<And>x. pc M (currentFiber (wk M)) = Blocked x \<Longrightarrow> waitForWork_pred (wk M)"
  shows "\<exists>M'. wstep False M M' \<and> pc M' (currentFiber (wk M)) \<noteq> pc M (currentFiber (wk M))"
  using worker_goes_on [OF assms] unfolding goes_on_def .

theorem worker_progress_witness:
  "\<exists>M'. wstep False run_2 M' \<and> pc M' 1 \<noteq> pc run_2 1"
  using worker_progress [OF run_reachable(3)] by simp

end
