(* ===== verification/Scheduler.thy ===== *)
theory Scheduler
  imports Worker
begin

text \<open>
  The distribution of tasks over the workers (\<open>include/hfts/scheduler.hpp\<close>,
  \<open>src/scheduler.cpp\<close>): the stack of spinning workers, the round robin over all workers,
  the loop of \<open>enqueue\<close>, \<open>stealWork\<close>, and the single-threaded workers by thread.
\<close>

subsection \<open>State\<close>

type_synonym tid = nat

text \<open>The worker a thread runs: one of the worker threads, or the thread's own.\<close>

datatype worker_ref = Multi nat | Single tid

text \<open>
  \<open>cfg_count\<close> is the \<open>int\<close> \<open>cfg.workerThread.count\<close>. The array
  \<open>spinningWorkers\<close> has 256 entries, of which the constructor sets the first
  \<open>count\<close>. The thread-local variables \<open>bound\<close> and \<open>currentWorker\<close> are
  maps from threads.
\<close>

record 'f scheduler =
  cfg_count :: u32
  spinningWorkers :: "int list"
  nextSpinningWorkerIdx :: u32
  nextEnqueueIndex :: u32
  workerThreads :: "'f worker option list"
  byTid :: "(tid \<times> 'f worker) list"
  bound :: "tid \<Rightarrow> bool"
  currentWorker :: "tid \<Rightarrow> worker_ref option"

definition MaxWorkerThreads :: nat where
  "MaxWorkerThreads = 256"

text \<open>Access to a \<open>std::array\<close>.\<close>

definition array_get :: "nat \<Rightarrow> 'a list \<Rightarrow> 'a res" where
  "array_get i xs = (if i < length xs then Inr (xs ! i) else Inl OutOfBounds)"

definition array_set :: "nat \<Rightarrow> 'a \<Rightarrow> 'a list \<Rightarrow> 'a list res" where
  "array_set i x xs = (if i < length xs then Inr (xs[i := x]) else Inl OutOfBounds)"

text \<open>
  The constructor. The arrays start with any contents (\<open>spin0\<close>) and with null pointers; the
  loop counter is compared with the signed count. Starting the threads is left to
  \<open>Worker_start\<close>.
\<close>

definition Scheduler_new_step ::
  "nat \<Rightarrow> int list \<times> 'f worker option list \<Rightarrow> (int list \<times> 'f worker option list) res" where
  "Scheduler_new_step i = (\<lambda>(spin, ws).
     bind_res (array_set i (- 1) spin) (\<lambda>spin.
     bind_res (array_set i (Some (Worker_new MultiThreaded (of_nat i))) ws) (\<lambda>ws.
     Inr (spin, ws))))"

definition Scheduler_new :: "u32 \<Rightarrow> int list \<Rightarrow> 'f scheduler res" where
  "Scheduler_new count spin0 =
     bind_res (fold_res Scheduler_new_step [0..<nat (sint count)]
       (spin0, replicate MaxWorkerThreads None)) (\<lambda>(spin, ws).
     Inr \<lparr>cfg_count = count, spinningWorkers = spin, nextSpinningWorkerIdx = 0x8000000,
          nextEnqueueIndex = 0, workerThreads = ws, byTid = [], bound = (\<lambda>_. False),
          currentWorker = (\<lambda>_. None)\<rparr>)"

subsection \<open>The stack of spinning workers\<close>

text \<open>\<open>x % count\<close> of an \<open>unsigned int\<close>.\<close>

definition mod_count :: "u32 \<Rightarrow> 'f scheduler \<Rightarrow> u32 res" where
  "mod_count x s = (if cfg_count s = 0 then Inl DivByZero else Inr (x mod cfg_count s))"

definition onBeginSpinning :: "int \<Rightarrow> 'f scheduler \<Rightarrow> 'f scheduler res" where
  "onBeginSpinning workerId s =
     bind_res (mod_count (nextSpinningWorkerIdx s) s) (\<lambda>idx.
     bind_res (array_set (unat idx) workerId (spinningWorkers s)) (\<lambda>spin.
     Inr (s\<lparr>nextSpinningWorkerIdx := nextSpinningWorkerIdx s + 1, spinningWorkers := spin\<rparr>)))"

text \<open>The worker that one turn of the loop of \<open>enqueue\<close> tries.\<close>

definition pick_worker :: "'f scheduler \<Rightarrow> (int \<times> 'f scheduler) res" where
  "pick_worker s =
     (let s = s\<lparr>nextSpinningWorkerIdx := nextSpinningWorkerIdx s - 1\<rparr>
      in bind_res (mod_count (nextSpinningWorkerIdx s) s) (\<lambda>i.
         bind_res (array_get (unat i) (spinningWorkers s)) (\<lambda>idx.
         let s = s\<lparr>spinningWorkers := (spinningWorkers s)[unat i := - 1]\<rparr>
         in if idx < 0
            then bind_res (mod_count (nextEnqueueIndex s) s) (\<lambda>j.
                 Inr (sint j, s\<lparr>nextEnqueueIndex := nextEnqueueIndex s + 1\<rparr>))
            else Inr (idx, s))))"

definition worker_at :: "int \<Rightarrow> 'f scheduler \<Rightarrow> 'f worker res" where
  "worker_at i s =
     (if i < 0 then Inl OutOfBounds
      else bind_res (array_get (nat i) (workerThreads s)) (\<lambda>w.
           case w of None \<Rightarrow> Inl NullDeref | Some w \<Rightarrow> Inr w))"

definition set_worker :: "int \<Rightarrow> 'f worker \<Rightarrow> 'f scheduler \<Rightarrow> 'f scheduler" where
  "set_worker i w s = s\<lparr>workerThreads := (workerThreads s)[nat i := Some w]\<rparr>"

subsection \<open>\<open>enqueue\<close>\<close>

text \<open>
  One turn: pick a worker and try its mutex. \<open>busy\<close> says whose mutex some other thread
  holds at this moment.
\<close>

definition enqueue_turn ::
  "'f task \<Rightarrow> (nat \<Rightarrow> bool) \<Rightarrow> 'f scheduler \<Rightarrow> (nat option \<times> 'f scheduler) res" where
  "enqueue_turn t busy s =
     bind_res (pick_worker s) (\<lambda>(i, s).
     bind_res (worker_at i s) (\<lambda>w.
     if busy (nat i) then Inr (None, s)
     else Inr (Some (nat i), set_worker i (snd (enqueueAndUnlock t (snd (Worker_tryLock w)))) s)))"

text \<open>
  The loop, against the sequence of the states of the mutexes at each turn; \<open>None\<close> when the
  sequence ends and no worker has been locked yet. Between two turns the other threads change the
  mutexes only: \<open>spinningWorkers\<close> and the two counters are as the last turn left them. The turns
  of different threads are interleaved in \<open>System\<close>.
\<close>

fun enqueue_loop ::
  "'f task \<Rightarrow> (nat \<Rightarrow> bool) list \<Rightarrow> 'f scheduler \<Rightarrow> (nat option \<times> 'f scheduler) res" where
  "enqueue_loop t [] s = Inr (None, s)"
| "enqueue_loop t (busy # rest) s =
     bind_res (enqueue_turn t busy s) (\<lambda>(r, s).
     case r of None \<Rightarrow> enqueue_loop t rest s | Some i \<Rightarrow> Inr (Some i, s))"

text \<open>The worker that a thread runs, and its replacement.\<close>

definition current_worker :: "tid \<Rightarrow> 'f scheduler \<Rightarrow> 'f worker option" where
  "current_worker me s =
     (case currentWorker s me of
        None \<Rightarrow> None
      | Some (Multi i) \<Rightarrow> (if i < length (workerThreads s) then workerThreads s ! i else None)
      | Some (Single t) \<Rightarrow> map_of (byTid s) t)"

definition set_current_worker :: "tid \<Rightarrow> 'f worker \<Rightarrow> 'f scheduler \<Rightarrow> 'f scheduler" where
  "set_current_worker me w s =
     (case currentWorker s me of
        None \<Rightarrow> s
      | Some (Multi i) \<Rightarrow> set_worker (int i) w s
      | Some (Single t) \<Rightarrow>
          s\<lparr>byTid := map (\<lambda>(u, v). if u = t then (u, w) else (u, v)) (byTid s)\<rparr>)"

text \<open>
  \<open>enqueue\<close>: a task bound to the thread, or any task when there are no worker threads, goes
  to the current worker, if there is one. The result says which worker thread got the task.
\<close>

definition Scheduler_enqueue ::
  "tid \<Rightarrow> 'f task \<Rightarrow> (nat \<Rightarrow> bool) list \<Rightarrow> 'f scheduler \<Rightarrow> (nat option \<times> 'f scheduler) res" where
  "Scheduler_enqueue me t turns s =
     (if Task_is SameThread t \<or> cfg_count s = 0
      then (case current_worker me s of
              None \<Rightarrow> Inr (None, s)
            | Some w \<Rightarrow> Inr (None, set_current_worker me (snd (enqueue_task t w)) s))
      else enqueue_loop t turns s)"

subsection \<open>\<open>stealWork\<close>\<close>

definition stealWork :: "nat \<Rightarrow> u64 \<Rightarrow> 'f scheduler \<Rightarrow> ('f task option \<times> 'f scheduler) res" where
  "stealWork thief from s =
     (if sint (cfg_count s) > 0
      then let i = uint (from mod ucast (cfg_count s))
           in if nat i = thief then Inr (None, s)
              else bind_res (worker_at i s) (\<lambda>w.
                   bind_res (steal w) (\<lambda>(t, w).
                   Inr (t, set_worker i w s)))
      else Inr (None, s))"

subsection \<open>Binding threads\<close>

text \<open>\<open>emplace\<close> into \<open>byTid\<close> does nothing when the thread is bound already.\<close>

definition Scheduler_bind :: "tid \<Rightarrow> fiber \<Rightarrow> 'f scheduler \<Rightarrow> 'f scheduler" where
  "Scheduler_bind me main s =
     (let w = Worker_start main (Worker_new SingleThreaded (- 1))
      in s\<lparr>bound := (bound s)(me := True),
           currentWorker := (currentWorker s)(me := Some (Single me)),
           byTid := (if map_of (byTid s) me = None then (me, w) # byTid s else byTid s)\<rparr>)"

text \<open>
  \<open>unbind\<close> after \<open>worker->stop()\<close> has returned and reset the current worker; the
  result says whether the waiting destructor is notified.
\<close>

definition Scheduler_unbind_end :: "tid \<Rightarrow> 'f scheduler \<Rightarrow> (bool \<times> 'f scheduler) res" where
  "Scheduler_unbind_end me s =
     bind_res (guard_res (map_of (byTid s) me \<noteq> None) WildAccess) (\<lambda>_.
     let rest = filter (\<lambda>p. fst p \<noteq> me) (byTid s)
     in Inr (rest = [], s\<lparr>byTid := rest, bound := (bound s)(me := False),
                          currentWorker := (currentWorker s)(me := None)\<rparr>))"

subsection \<open>Well-formed schedulers\<close>

text \<open>
  At least one worker thread and at most 256; every used entry of \<open>spinningWorkers\<close> is -1
  or a worker's id, and every used entry of \<open>workerThreads\<close> is a worker.
\<close>

definition n_workers :: "'f scheduler \<Rightarrow> nat" where
  "n_workers s = unat (cfg_count s)"

definition sched_inv :: "'f scheduler \<Rightarrow> bool" where
  "sched_inv s \<longleftrightarrow>
     0 < n_workers s \<and> n_workers s \<le> 256 \<and>
     length (spinningWorkers s) = 256 \<and> length (workerThreads s) = 256 \<and>
     (\<forall>i<n_workers s. - 1 \<le> spinningWorkers s ! i \<and> spinningWorkers s ! i < int (n_workers s)) \<and>
     (\<forall>i<n_workers s. workerThreads s ! i \<noteq> None)"

lemma sched_invD:
  assumes "sched_inv s"
  shows "0 < n_workers s" "n_workers s \<le> 256" "cfg_count s \<noteq> 0"
    "length (spinningWorkers s) = 256" "length (workerThreads s) = 256"
    "i < n_workers s \<Longrightarrow> spinningWorkers s ! i < int (n_workers s)"
    "i < n_workers s \<Longrightarrow> \<exists>w. workerThreads s ! i = Some w"
  using assms by (auto simp: sched_inv_def n_workers_def)

lemma sched_inv_count:
  assumes "sched_inv s"
  shows "sint (cfg_count s) = int (n_workers s)"
  using sched_invD(2) [OF assms] unfolding n_workers_def by (intro sint_small) linarith

lemma mod_count_ok:
  assumes "sched_inv s"
  shows "mod_count x s = Inr (x mod cfg_count s)"
    and "unat (x mod cfg_count s) = unat x mod n_workers s"
    and "sint (x mod cfg_count s) = int (unat x mod n_workers s)"
proof -
  note inv = sched_invD [OF assms]
  show "mod_count x s = Inr (x mod cfg_count s)" using inv(3) by (simp add: mod_count_def)
  show m: "unat (x mod cfg_count s) = unat x mod n_workers s"
    unfolding n_workers_def by (rule unat_mod_distrib)
  have "unat x mod n_workers s < n_workers s" using inv(1) by simp
  then have "unat (x mod cfg_count s) < 2147483648" using m inv(2) by linarith
  from sint_small [OF this] m show "sint (x mod cfg_count s) = int (unat x mod n_workers s)"
    by (simp only:)
qed

text \<open>What one turn picks: the entry below the top of the stack, or the next in turn.\<close>

definition stack_slot :: "'f scheduler \<Rightarrow> nat" where
  "stack_slot s = unat (nextSpinningWorkerIdx s - 1) mod n_workers s"

definition round_robin :: "'f scheduler \<Rightarrow> nat" where
  "round_robin s = unat (nextEnqueueIndex s) mod n_workers s"

lemma slot_less:
  assumes "sched_inv s"
  shows "stack_slot s < n_workers s" "round_robin s < n_workers s" "stack_slot s < 256"
proof -
  show "stack_slot s < n_workers s" "round_robin s < n_workers s"
    using sched_invD(1) [OF assms] by (simp_all add: stack_slot_def round_robin_def)
  then show "stack_slot s < 256" using sched_invD(2) [OF assms] by linarith
qed

text \<open>The scheduler after a turn that found a spinning worker, and after one that did not.\<close>

definition popped :: "'f scheduler \<Rightarrow> 'f scheduler" where
  "popped s = s\<lparr>nextSpinningWorkerIdx := nextSpinningWorkerIdx s - 1,
                spinningWorkers := (spinningWorkers s)[stack_slot s := - 1]\<rparr>"

definition advanced :: "'f scheduler \<Rightarrow> 'f scheduler" where
  "advanced s = s\<lparr>nextEnqueueIndex := nextEnqueueIndex s + 1\<rparr>"

lemma pick_worker_eq:
  assumes "sched_inv s"
  shows "pick_worker s =
    (if spinningWorkers s ! stack_slot s < 0
     then Inr (int (round_robin s), advanced (popped s))
     else Inr (spinningWorkers s ! stack_slot s, popped s))"
  using mod_count_ok [OF assms] slot_less(3) [OF assms] sched_invD(3,4) [OF assms]
  by (simp add: pick_worker_def mod_count_def array_get_def Let_def stack_slot_def
      round_robin_def popped_def advanced_def)

lemma popped_fields [simp]:
  "n_workers (popped s) = n_workers s" "workerThreads (popped s) = workerThreads s"
  "nextEnqueueIndex (popped s) = nextEnqueueIndex s" "cfg_count (popped s) = cfg_count s"
  "n_workers (advanced s) = n_workers s" "workerThreads (advanced s) = workerThreads s"
  "spinningWorkers (popped s) = (spinningWorkers s)[stack_slot s := - 1]"
  "spinningWorkers (advanced s) = spinningWorkers s" "cfg_count (advanced s) = cfg_count s"
  by (simp_all add: popped_def advanced_def n_workers_def)

lemma popped_inv: "sched_inv s \<Longrightarrow> sched_inv (popped s)"
  using slot_less(3) [of s] by (auto simp: sched_inv_def nth_list_update)

lemma advanced_inv [simp]: "sched_inv (advanced s) \<longleftrightarrow> sched_inv s"
  by (simp add: sched_inv_def)

lemma pick_worker_inv:
  assumes "sched_inv s" "pick_worker s = Inr (i, s')"
  shows "sched_inv s'" "0 \<le> i" "nat i < n_workers s" "cfg_count s' = cfg_count s"
    "workerThreads s' = workerThreads s"
  using assms popped_inv [OF assms(1)] slot_less [OF assms(1)]
    sched_invD(6) [OF assms(1) slot_less(1) [OF assms(1)]]
  by (auto simp: pick_worker_eq split: if_splits)

definition pushed :: "int \<Rightarrow> 'f scheduler \<Rightarrow> 'f scheduler" where
  "pushed i s = s\<lparr>nextSpinningWorkerIdx := nextSpinningWorkerIdx s + 1,
     spinningWorkers :=
       (spinningWorkers s)[unat (nextSpinningWorkerIdx s) mod n_workers s := i]\<rparr>"

lemma pushed_fields [simp]:
  "n_workers (pushed i s) = n_workers s" "workerThreads (pushed i s) = workerThreads s"
  "nextSpinningWorkerIdx (pushed i s) = nextSpinningWorkerIdx s + 1"
  "spinningWorkers (pushed i s) =
     (spinningWorkers s)[unat (nextSpinningWorkerIdx s) mod n_workers s := i]"
  by (simp_all add: pushed_def n_workers_def)

lemma top_less: "sched_inv s \<Longrightarrow> unat (nextSpinningWorkerIdx s) mod n_workers s < 256"
  using sched_invD(1,2) [of s] by (meson mod_less_divisor order_less_le_trans)

lemma begin_spinning_eq: "sched_inv s \<Longrightarrow> onBeginSpinning i s = Inr (pushed i s)"
  using mod_count_ok(1,2) [of s] sched_invD(4) [of s] top_less [of s]
  by (simp add: onBeginSpinning_def array_set_def pushed_def)

lemma pushed_inv:
  "sched_inv s \<Longrightarrow> 0 \<le> i \<Longrightarrow> i < int (n_workers s) \<Longrightarrow> sched_inv (pushed i s)"
  using top_less [of s] by (auto simp: sched_inv_def nth_list_update)

subsection \<open>The constructor\<close>

lemma new_step:
  "i < length spin \<Longrightarrow> i < length ws \<Longrightarrow> Scheduler_new_step i (spin, ws) =
     Inr (spin[i := - 1], ws[i := Some (Worker_new MultiThreaded (of_nat i))])"
  by (simp add: Scheduler_new_step_def array_set_def)

lemma new_loop:
  assumes "n \<le> 256" "length spin = 256" "length ws = 256"
  shows "\<exists>spin' ws'. fold_res Scheduler_new_step [0..<n] (spin, ws) = Inr (spin', ws') \<and>
    length spin' = 256 \<and> length ws' = 256 \<and>
    (\<forall>i<n. spin' ! i = - 1) \<and> (\<forall>i<n. ws' ! i = Some (Worker_new MultiThreaded (of_nat i)))"
  using assms(1)
proof (induction n)
  case 0
  then show ?case using assms by simp
next
  case (Suc n)
  then obtain spin' ws' where "fold_res Scheduler_new_step [0..<n] (spin, ws) = Inr (spin', ws')"
    "length spin' = 256" "length ws' = 256" "\<forall>i<n. spin' ! i = - 1"
    "\<forall>i<n. ws' ! i = Some (Worker_new MultiThreaded (of_nat i))" by auto
  then show ?case using Suc.prems
    by (simp add: fold_res_append new_step nth_list_update less_Suc_eq)
qed

lemma upt_split: "m < n \<Longrightarrow> [0..<n] = [0..<m] @ m # [Suc m..<n]"
  using upt_add_eq_append [of 0 m "n - m"] by (simp add: upt_conv_Cons)

lemma new_loop_fault:
  assumes "256 < n" "length spin = 256" "length ws = 256"
  shows "fold_res Scheduler_new_step [0..<n] (spin, ws) = Inl OutOfBounds"
proof -
  obtain spin' ws' where *: "fold_res Scheduler_new_step [0..<256] (spin, ws) = Inr (spin', ws')"
    "length spin' = 256" using new_loop [of 256 spin ws] assms by auto
  have "[0..<n] = [0..<256] @ 256 # [Suc 256..<n]" by (rule upt_split) (fact assms(1))
  moreover have "Scheduler_new_step 256 (spin', ws') = Inl OutOfBounds"
    using *(2) by (simp add: Scheduler_new_step_def array_set_def)
  ultimately show ?thesis using *(1) by (simp only: fold_res_append fold_res.simps bind_res_Inr bind_res_Inl)
qed

lemma Scheduler_new_ok:
  assumes "length spin0 = 256" "0 < sint count" "unat count \<le> 256"
  obtains s :: "'f scheduler" where "Scheduler_new count spin0 = Inr s" "sched_inv s"
    "n_workers s = unat count" "\<forall>i<unat count. spinningWorkers s ! i = - 1"
    "\<forall>i<unat count. workerThreads s ! i = Some (Worker_new MultiThreaded (of_nat i))"
proof -
  obtain spin and ws :: "'f worker option list" where
    l: "fold_res Scheduler_new_step [0..<unat count] (spin0, replicate 256 None) = Inr (spin, ws)" "length spin = 256" "length ws = 256"
    "\<forall>i<unat count. spin ! i = - 1"
    "\<forall>i<unat count. ws ! i = Some (Worker_new MultiThreaded (of_nat i))"
    using new_loop [OF assms(3,1), of "replicate 256 None"] by auto
  let ?s = "\<lparr>cfg_count = count, spinningWorkers = spin, nextSpinningWorkerIdx = 0x8000000,
    nextEnqueueIndex = 0, workerThreads = ws, byTid = [], bound = (\<lambda>_. False),
    currentWorker = (\<lambda>_. None)\<rparr>"
  have new: "Scheduler_new count spin0 = Inr ?s"
    using l(1) sint_pos_unat [OF assms(2)] by (simp add: Scheduler_new_def MaxWorkerThreads_def)
  have n: "n_workers ?s = unat count" by (simp add: n_workers_def)
  have "0 < unat count" using sint_pos_unat [OF assms(2)] assms(2) by linarith
  moreover have "- 1 < uint count" by (rule order.strict_trans2 [of _ 0]) simp_all
  ultimately have "sched_inv ?s" using l assms(3) unfolding sched_inv_def n by simp
  with new n l(4,5) that [of ?s] show ?thesis by simp
qed

lemma Scheduler_new_fault:
  assumes "length spin0 = 256" "0 < sint count" "256 < unat count"
  shows "Scheduler_new count spin0 = (Inl OutOfBounds :: 'f scheduler res)"
  using new_loop_fault [of "unat count" spin0 "replicate 256 None :: 'f worker option list"] assms
    sint_pos_unat [OF assms(2)]
  by (simp add: Scheduler_new_def MaxWorkerThreads_def)

text \<open>
  The constructor makes a well-formed scheduler, in which no worker is spinning, for 1 to 256
  worker threads, and writes past the end of its arrays for any greater count.
\<close>

theorem Scheduler_new_bounds:
  assumes "length spin0 = 256" "0 < sint count"
  shows "if unat count \<le> 256
    then \<exists>s :: 'f scheduler. Scheduler_new count spin0 = Inr s \<and> sched_inv s \<and> n_workers s = unat count \<and>
      (\<forall>i<unat count. spinningWorkers s ! i = - 1)
    else Scheduler_new count spin0 = (Inl OutOfBounds :: 'f scheduler res)"
  using Scheduler_new_ok [OF assms] Scheduler_new_fault [OF assms] by (metis linorder_not_le)

theorem Scheduler_new_bounds_witness:
  "Scheduler_new 257 (replicate 256 0) = (Inl OutOfBounds :: nat scheduler res)"
  using Scheduler_new_bounds [of "replicate 256 0" 257] by simp

subsection \<open>The spinning workers are a stack\<close>

text \<open>A worker that begins to spin is the one that the next turn picks.\<close>

lemma pushed_slot [simp]: "stack_slot (pushed i s) = unat (nextSpinningWorkerIdx s) mod n_workers s"
  by (simp add: stack_slot_def)

lemma pick_pushed:
  assumes "sched_inv s" "0 \<le> i" "i < int (n_workers s)"
  shows "\<exists>s'. pick_worker (pushed i s) = Inr (i, s') \<and> popped (pushed i s) = s' \<and>
    nextSpinningWorkerIdx s' = nextSpinningWorkerIdx s"
  using pick_worker_eq [OF pushed_inv [OF assms]] top_less [OF assms(1)] sched_invD(4) [OF assms(1)]
    assms(2)
  by (simp add: popped_def)

text \<open>Workers that begin to spin one after the other, and turns one after the other.\<close>

fun spin_all :: "nat list \<Rightarrow> 'f scheduler \<Rightarrow> 'f scheduler res" where
  "spin_all [] s = Inr s"
| "spin_all (i # is) s = bind_res (onBeginSpinning (int i) s) (spin_all is)"

fun pick_many :: "nat \<Rightarrow> 'f scheduler \<Rightarrow> (int list \<times> 'f scheduler) res" where
  "pick_many 0 s = Inr ([], s)"
| "pick_many (Suc n) s =
     bind_res (pick_worker s) (\<lambda>(i, s).
     bind_res (pick_many n s) (\<lambda>(is, s). Inr (i # is, s)))"

text \<open>
  The stack holds \<open>is\<close> (the top first) in the slots below \<open>next\<close>; the slots are distinct
  because there are at most as many as workers, and no slot number wraps.
\<close>

definition stack_holds :: "nat list \<Rightarrow> 'f scheduler \<Rightarrow> bool" where
  "stack_holds is s \<longleftrightarrow>
     length is \<le> unat (nextSpinningWorkerIdx s) \<and> length is \<le> n_workers s \<and>
     (\<forall>k<length is. spinningWorkers s ! ((unat (nextSpinningWorkerIdx s) - 1 - k) mod n_workers s) =
        int (is ! k))"

lemma stack_slot_pos:
  assumes "0 < unat (nextSpinningWorkerIdx s)"
  shows "stack_slot s = (unat (nextSpinningWorkerIdx s) - 1) mod n_workers s"
    and "unat (nextSpinningWorkerIdx s - 1) = unat (nextSpinningWorkerIdx s) - 1"
proof -
  have "nextSpinningWorkerIdx s \<noteq> 0" using assms by auto
  then show "unat (nextSpinningWorkerIdx s - 1) = unat (nextSpinningWorkerIdx s) - 1"
    by (simp add: unat_minus_one)
  then show "stack_slot s = (unat (nextSpinningWorkerIdx s) - 1) mod n_workers s"
    by (simp add: stack_slot_def)
qed

text \<open>Two numbers less than \<open>n\<close> apart have different remainders.\<close>

lemma mod_apart:
  assumes "a < b" "b < a + n"
  shows "a mod n \<noteq> b mod (n :: nat)"
proof
  assume "a mod n = b mod n"
  then have "n dvd b - a" using assms(1) by (metis less_imp_le mod_eq_dvd_iff_nat)
  moreover have "0 < b - a" "b - a < n" using assms by linarith+
  ultimately show False by (auto dest: dvd_imp_le)
qed

lemma stack_holds_pick:
  assumes inv: "sched_inv s" and st: "stack_holds (i # is) s"
  shows "pick_worker s = Inr (int i, popped s) \<and> stack_holds is (popped s)"
proof -
  let ?p = "unat (nextSpinningWorkerIdx s)" and ?n = "n_workers s"
  have pos: "0 < ?p" and len: "Suc (length is) \<le> ?p" "Suc (length is) \<le> ?n"
    using st by (auto simp: stack_holds_def)
  note slot = stack_slot_pos [OF pos]
  have top: "spinningWorkers s ! stack_slot s = int i"
    using st slot(1) by (auto simp: stack_holds_def)
  have nxt: "unat (nextSpinningWorkerIdx (popped s)) = ?p - 1"
    using slot(2) by (simp add: popped_def)
  have "spinningWorkers (popped s) ! ((?p - 1 - 1 - k) mod ?n) = int (is ! k)"
    if "k < length is" for k
  proof -
    have "(?p - 1 - 1 - k) mod ?n \<noteq> (?p - 1) mod ?n"
      using len that by (intro mod_apart) linarith+
    moreover have "spinningWorkers s ! ((?p - 1 - Suc k) mod ?n) = int (is ! k)"
      using st that by (auto simp: stack_holds_def)
    ultimately show ?thesis using slot(1) by simp
  qed
  then show ?thesis
    using top nxt len pick_worker_eq [OF inv] by (simp add: stack_holds_def)
qed

lemma stack_holds_push:
  assumes inv: "sched_inv s" and st: "stack_holds is s" and "length is < n_workers s"
    and p: "unat (nextSpinningWorkerIdx s) + 1 < 2 ^ 32"
  shows "stack_holds (i # is) (pushed (int i) s)"
proof -
  let ?p = "unat (nextSpinningWorkerIdx s)" and ?n = "n_workers s"
  have nxt: "unat (nextSpinningWorkerIdx s + 1) = ?p + 1" using p by (simp add: unat_word_ariths)
  have "spinningWorkers (pushed (int i) s) ! ((?p - k) mod ?n) = int ((i # is) ! k)"
    if "k < Suc (length is)" for k
  proof (cases k)
    case 0
    then show ?thesis using top_less [OF inv] sched_invD(4) [OF inv] by simp
  next
    case (Suc j)
    then have "(?p - k) mod ?n \<noteq> ?p mod ?n"
      using assms(2,3) that by (intro mod_apart) (auto simp: stack_holds_def)
    then show ?thesis using Suc that st by (auto simp: stack_holds_def)
  qed
  then show ?thesis using assms nxt by (auto simp: stack_holds_def)
qed

lemma spin_all_holds:
  assumes "sched_inv s" "stack_holds js s" "length is + length js \<le> n_workers s"
    "\<forall>i\<in>set is. i < n_workers s" "unat (nextSpinningWorkerIdx s) + length is < 2 ^ 32"
  shows "\<exists>s1. spin_all is s = Inr s1 \<and> sched_inv s1 \<and> stack_holds (rev is @ js) s1 \<and>
    nextSpinningWorkerIdx s1 = nextSpinningWorkerIdx s + of_nat (length is)"
  using assms
proof (induction "is" arbitrary: s js)
  case Nil
  then show ?case by simp
next
  case (Cons i "is")
  have p: "unat (nextSpinningWorkerIdx s) + 1 < 2 ^ 32" using Cons.prems(5) by simp
  have "sched_inv (pushed (int i) s)" "stack_holds (i # js) (pushed (int i) s)"
    using Cons.prems p by (auto intro!: pushed_inv stack_holds_push)
  moreover have "unat (nextSpinningWorkerIdx s + 1) = unat (nextSpinningWorkerIdx s) + 1"
    using p by (simp add: unat_word_ariths)
  ultimately show ?case
    using Cons.IH [of "pushed (int i) s" "i # js"] Cons.prems
    by (auto simp: begin_spinning_eq algebra_simps)
qed

lemma pick_many_holds:
  assumes "sched_inv s" "stack_holds is s"
  shows "\<exists>s'. pick_many (length is) s = Inr (map int is, s') \<and> sched_inv s' \<and>
    nextSpinningWorkerIdx s' = nextSpinningWorkerIdx s - of_nat (length is)"
  using assms
proof (induction "is" arbitrary: s)
  case Nil
  then show ?case by simp
next
  case (Cons i "is")
  then obtain s' where "pick_many (length is) (popped s) = Inr (map int is, s')" "sched_inv s'"
    "nextSpinningWorkerIdx s' = nextSpinningWorkerIdx (popped s) - of_nat (length is)"
    using stack_holds_pick [OF Cons.prems] popped_inv by blast
  then show ?case
    using stack_holds_pick [OF Cons.prems] by (simp add: popped_def algebra_simps)
qed

text \<open>
  The spinning workers are a stack: when workers begin to spin one after the other, the same
  number of turns of \<open>enqueue\<close> picks them in the reverse order and leaves the stack
  pointer where it was, as long as the pointer does not pass 2^32.
\<close>

theorem spinning_lifo:
  assumes "sched_inv s" "length is \<le> n_workers s" "\<forall>i\<in>set is. i < n_workers s"
    and "unat (nextSpinningWorkerIdx s) + length is < 2 ^ 32"
  shows "\<exists>s1 s2. spin_all is s = Inr s1 \<and>
    pick_many (length is) s1 = Inr (map int (rev is), s2) \<and>
    nextSpinningWorkerIdx s2 = nextSpinningWorkerIdx s"
proof -
  have "stack_holds [] s" by (simp add: stack_holds_def)
  then obtain s1 where "spin_all is s = Inr s1" "sched_inv s1" "stack_holds (rev is) s1"
    "nextSpinningWorkerIdx s1 = nextSpinningWorkerIdx s + of_nat (length is)"
    using spin_all_holds [of s "[]" "is"] assms by auto
  then show ?thesis using pick_many_holds [of s1 "rev is"] by auto
qed

text \<open>A scheduler for the witnesses: three idle worker threads, none of them spinning.\<close>

definition three_workers :: "nat scheduler" where
  "three_workers = \<lparr>cfg_count = 3, spinningWorkers = replicate 256 (- 1),
     nextSpinningWorkerIdx = 0x8000000, nextEnqueueIndex = 0,
     workerThreads = replicate 256 (Some (Worker_new MultiThreaded 0)), byTid = [],
     bound = (\<lambda>_. False), currentWorker = (\<lambda>_. None)\<rparr>"

lemma three_workers_inv [simp]: "sched_inv three_workers" "n_workers three_workers = 3"
  by (simp_all add: sched_inv_def n_workers_def three_workers_def)

theorem spinning_lifo_witness:
  "\<exists>s1 s2. spin_all [2, 0, 1] three_workers = Inr s1 \<and> pick_many 3 s1 = Inr ([1, 0, 2], s2)"
proof -
  have "unat (nextSpinningWorkerIdx three_workers) + length [2, 0, 1] < 2 ^ 32"
    by (simp add: three_workers_def)
  from spinning_lifo [OF three_workers_inv(1) _ _ this] show ?thesis by (auto simp: numeral_3_eq_3)
qed

subsection \<open>Round robin\<close>

definition none_spinning :: "'f scheduler \<Rightarrow> bool" where
  "none_spinning s \<longleftrightarrow> (\<forall>i<n_workers s. spinningWorkers s ! i = - 1)"

lemma none_spinning_pick:
  assumes "sched_inv s" "none_spinning s"
  shows "pick_worker s = Inr (int (round_robin s), advanced (popped s))"
    and "none_spinning (advanced (popped s))"
  using assms pick_worker_eq [OF assms(1)] slot_less(1,3) [OF assms(1)] sched_invD(4) [OF assms(1)]
  by (auto simp: none_spinning_def nth_list_update)

lemma pick_many_round_robin:
  assumes "sched_inv s" "none_spinning s" "unat (nextEnqueueIndex s) + k < 2 ^ 32"
  shows "\<exists>s'. pick_many k s =
    Inr (map (\<lambda>j. int ((unat (nextEnqueueIndex s) + j) mod n_workers s)) [0..<k], s')"
  using assms
proof (induction k arbitrary: s)
  case 0
  then show ?case by simp
next
  case (Suc k)
  let ?s = "advanced (popped s)"
  have n: "unat (nextEnqueueIndex ?s) = unat (nextEnqueueIndex s) + 1"
    using Suc.prems(3) by (simp add: advanced_def unat_word_ariths)
  have "\<exists>s'. pick_many k ?s =
      Inr (map (\<lambda>j. int ((unat (nextEnqueueIndex ?s) + j) mod n_workers ?s)) [0..<k], s')"
    using Suc.prems none_spinning_pick(2) [OF Suc.prems(1,2)] popped_inv n by (intro Suc.IH) auto
  then obtain s' where "pick_many k ?s =
      Inr (map (\<lambda>j. int ((unat (nextEnqueueIndex s) + Suc j) mod n_workers s)) [0..<k], s')"
    using n by auto
  moreover have "[0..<Suc k] = 0 # map Suc [0..<k]" by (simp add: map_Suc_upt upt_conv_Cons)
  ultimately show ?case
    using none_spinning_pick(1) [OF Suc.prems(1,2)]
    by (simp add: round_robin_def o_def del: upt_Suc)
qed

lemma round_robin_distinct: "distinct (map (\<lambda>j. (r + j) mod n) [0..<n :: nat])"
proof (simp add: distinct_map, rule inj_onI)
  fix a b assume "a \<in> {0..<n}" "b \<in> {0..<n}" "(r + a) mod n = (r + b) mod n"
  then show "a = b"
    using mod_apart [of "r + a" "r + b" n] mod_apart [of "r + b" "r + a" n]
    by (cases a b rule: linorder_cases) auto
qed

text \<open>
  Without spinning workers tasks are dealt out fairly: of as many turns as there are workers,
  each worker gets exactly one.
\<close>

theorem round_robin_fair:
  assumes "sched_inv s" "none_spinning s" "unat (nextEnqueueIndex s) + n_workers s < 2 ^ 32"
  shows "\<exists>is s'. pick_many (n_workers s) s = Inr (map int is, s') \<and>
    distinct is \<and> set is = {..<n_workers s}"
proof -
  let ?is = "map (\<lambda>j. (unat (nextEnqueueIndex s) + j) mod n_workers s) [0..<n_workers s]"
  have "set ?is \<subseteq> {..<n_workers s}" using sched_invD(1) [OF assms(1)] by auto
  moreover have "card (set ?is) = card {..<n_workers s}"
    using distinct_card [OF round_robin_distinct [of "unat (nextEnqueueIndex s)" "n_workers s"]] by simp
  ultimately have "set ?is = {..<n_workers s}" by (intro card_subset_eq) simp_all
  moreover obtain s' where "pick_many (n_workers s) s = Inr (map int ?is, s')"
    using pick_many_round_robin [OF assms] by (auto simp: o_def)
  ultimately show ?thesis using round_robin_distinct by blast
qed

theorem round_robin_fair_witness:
  "\<exists>is s'. pick_many 3 three_workers = Inr (map int is, s') \<and> distinct is \<and> set is = {..<3}"
proof -
  have "none_spinning three_workers"
    by (simp add: none_spinning_def) (simp add: three_workers_def)
  moreover have "unat (nextEnqueueIndex three_workers) + n_workers three_workers < 2 ^ 32"
    by simp (simp add: three_workers_def)
  ultimately show ?thesis using round_robin_fair [OF three_workers_inv(1)] by simp
qed

subsection \<open>Delivery\<close>

lemma worker_at_ok:
  assumes "sched_inv s" "0 \<le> i" "nat i < n_workers s"
  shows "\<exists>w. worker_at i s = Inr w \<and> workerThreads s ! nat i = Some w"
  using assms sched_invD(2,5) [OF assms(1)] sched_invD(7) [OF assms(1,3)]
  by (auto simp: worker_at_def array_get_def)

lemma set_worker_fields [simp]:
  "n_workers (set_worker i w s) = n_workers s" "cfg_count (set_worker i w s) = cfg_count s"
  "spinningWorkers (set_worker i w s) = spinningWorkers s"
  "nextEnqueueIndex (set_worker i w s) = nextEnqueueIndex s"
  "workerThreads (set_worker i w s) = (workerThreads s)[nat i := Some w]"
  by (simp_all add: set_worker_def n_workers_def)

lemma set_worker_inv: "sched_inv s \<Longrightarrow> sched_inv (set_worker i w s)"
  by (cases "nat i < 256") (auto simp: sched_inv_def nth_list_update list_update_beyond)

text \<open>The worker threads after worker \<open>i\<close> has got the task \<open>t\<close>.\<close>

definition delivered :: "'f task \<Rightarrow> nat \<Rightarrow> 'f scheduler \<Rightarrow> 'f worker option list" where
  "delivered t i s =
     (workerThreads s)[i := map_option (work_update (\<lambda>k. (push_task t k)\<lparr>locked := False\<rparr>))
                              (workerThreads s ! i)]"

lemma enqueue_turn_cases:
  assumes inv: "sched_inv s"
  obtains i s1 where "pick_worker s = Inr (int i, s1)" "i < n_workers s" "sched_inv s1"
    "busy i" "enqueue_turn t busy s = Inr (None, s1)" "workerThreads s1 = workerThreads s"
  | i s1 s2 where "pick_worker s = Inr (int i, s1)" "i < n_workers s" "\<not> busy i" "sched_inv s2"
    "enqueue_turn t busy s = Inr (Some i, s2)" "workerThreads s2 = delivered t i s"
proof -
  obtain i s1 where p: "pick_worker s = Inr (i, s1)"
    using pick_worker_eq [OF inv] by (auto split: if_splits)
  note P = pick_worker_inv [OF inv p]
  have n: "n_workers s1 = n_workers s" using P(4) by (simp add: n_workers_def)
  obtain w where w: "worker_at i s1 = Inr w" "workerThreads s ! nat i = Some w"
    using worker_at_ok [OF P(1,2)] P(3,5) n by auto
  have i: "i = int (nat i)" using P(2) by simp
  show ?thesis
  proof (cases "busy (nat i)")
    case True
    then show ?thesis using that(1) [of "nat i" s1] p w P i by (simp add: enqueue_turn_def)
  next
    case False
    let ?s2 = "set_worker i (snd (enqueueAndUnlock t (snd (Worker_tryLock w)))) s1"
    have "workerThreads ?s2 = delivered t (nat i) s"
      using w(2) P(5)
      by (simp add: delivered_def enqueueAndUnlock_def Worker_tryLock_def push_task_def o_def)
    then show ?thesis
      using that(2) [of "nat i" s1 ?s2] p w P i False set_worker_inv [OF P(1)]
      by (simp add: enqueue_turn_def)
  qed
qed

lemma enqueue_loop_result:
  assumes "sched_inv s"
  shows "\<exists>r s'. enqueue_loop t turns s = Inr (r, s') \<and> sched_inv s' \<and>
    (case r of None \<Rightarrow> workerThreads s' = workerThreads s
     | Some i \<Rightarrow> i < n_workers s \<and> workerThreads s' = delivered t i s)"
  using assms
proof (induction turns arbitrary: s)
  case Nil
  then show ?case by simp
next
  case (Cons busy turns)
  from Cons.prems show ?case
  proof (cases rule: enqueue_turn_cases [where busy = busy and t = t])
    case (1 i s1)
    then have n: "n_workers s1 = n_workers s"
      using pick_worker_inv(4) [OF Cons.prems 1(1)] by (simp add: n_workers_def)
    have "delivered t j s1 = delivered t j s" for j using 1(6) by (simp add: delivered_def)
    moreover obtain r s' where "enqueue_loop t turns s1 = Inr (r, s')" "sched_inv s'"
      "case r of None \<Rightarrow> workerThreads s' = workerThreads s1
       | Some i \<Rightarrow> i < n_workers s1 \<and> workerThreads s' = delivered t i s1"
      using Cons.IH [OF 1(3)] by blast
    ultimately show ?thesis using 1(5,6) n by (intro exI [of _ r] exI [of _ s']) (simp split: option.splits)
  next
    case (2 i s1 s2)
    then show ?thesis by simp
  qed
qed

text \<open>
  C19. A task that \<open>enqueue\<close> hands to the worker threads is never lost or duplicated and no
  array is accessed out of its bounds: either exactly one worker gets it, at the end of its task
  queue, with its counter incremented and its mutex free, or the loop is still turning and no worker
  has changed.
\<close>

theorem enqueue_delivers_once:
  assumes "sched_inv s" "\<not> Task_is SameThread t"
  shows "\<exists>r s'. Scheduler_enqueue me t turns s = Inr (r, s') \<and> sched_inv s' \<and>
    (case r of None \<Rightarrow> workerThreads s' = workerThreads s
     | Some i \<Rightarrow> i < n_workers s \<and> workerThreads s' = delivered t i s)"
  using enqueue_loop_result [OF assms(1)] assms sched_invD(3) [OF assms(1)]
  by (simp add: Scheduler_enqueue_def)

theorem enqueue_delivers_once_witness:
  "\<exists>r s'. Scheduler_enqueue 0 (Task_new (Some 7) NoFlag) [\<lambda>i. i = 0] three_workers = Inr (r, s') \<and>
     sched_inv s'"
proof -
  have "\<not> Task_is SameThread (Task_new (Some (7 :: nat)) NoFlag)" by (simp add: Task_new_def)
  from enqueue_delivers_once [OF three_workers_inv(1) this] show ?thesis by blast
qed

text \<open>
  The number of entries of spinning workers: every turn that finds one uses it up.
\<close>

definition spinning_slots :: "'f scheduler \<Rightarrow> nat set" where
  "spinning_slots s = {i. i < n_workers s \<and> 0 \<le> spinningWorkers s ! i}"

lemma finite_spinning_slots [simp]: "finite (spinning_slots s)"
  by (simp add: spinning_slots_def)

lemma spinning_slots_le: "card (spinning_slots s) \<le> n_workers s"
proof -
  have "spinning_slots s \<subseteq> {..<n_workers s}" by (auto simp: spinning_slots_def)
  then show ?thesis using card_mono [of "{..<n_workers s}"] by simp
qed

lemma spinning_slots_popped:
  assumes "sched_inv s"
  shows "spinning_slots (popped s) = spinning_slots s - {stack_slot s}"
  using slot_less(3) [OF assms] sched_invD(4) [OF assms]
  by (auto simp: spinning_slots_def nth_list_update split: if_splits)

lemma spinning_slots_advanced [simp]: "spinning_slots (advanced s) = spinning_slots s"
  by (simp add: spinning_slots_def)

lemma enqueue_loop_succeeds:
  assumes "sched_inv s" "\<forall>busy\<in>set turns. \<not> busy j"
    "(unat (nextEnqueueIndex s) + k) mod n_workers s = j" "unat (nextEnqueueIndex s) + k < 2 ^ 32"
    "card (spinning_slots s) + k < length turns"
  shows "\<exists>i s'. enqueue_loop t turns s = Inr (Some i, s')"
  using assms
proof (induction turns arbitrary: s k)
  case Nil
  then show ?case by simp
next
  case (Cons busy turns)
  from Cons.prems(1) show ?case
  proof (cases rule: enqueue_turn_cases [where busy = busy and t = t])
    case (1 i s1)
    show ?thesis
    proof (cases "spinningWorkers s ! stack_slot s < 0")
      case True
      then have s1: "i = round_robin s" "s1 = advanced (popped s)"
        using 1(1) by (simp_all add: pick_worker_eq [OF Cons.prems(1)])
      have "k \<noteq> 0"
      proof
        assume "k = 0"
        then have "j = i" using Cons.prems(3) s1(1) by (simp add: round_robin_def)
        then show False using 1(4) Cons.prems(2) by simp
      qed
      then obtain k' where k: "k = Suc k'" by (cases k) auto
      then have "unat (nextEnqueueIndex s1) = Suc (unat (nextEnqueueIndex s))"
        using Cons.prems(4) s1(2) by (simp add: advanced_def unat_word_ariths)
      moreover have "card (spinning_slots s1) \<le> card (spinning_slots s)"
        using spinning_slots_popped [OF Cons.prems(1)] s1(2) by (simp add: card_mono)
      ultimately show ?thesis
        using Cons.IH [of s1 k'] Cons.prems k 1(3,5) s1(2) by auto
    next
      case False
      then have s1: "s1 = popped s"
        using 1(1) by (simp add: pick_worker_eq [OF Cons.prems(1)])
      have "stack_slot s \<in> spinning_slots s"
        using False slot_less(1) [OF Cons.prems(1)] by (simp add: spinning_slots_def)
      then have "card (spinning_slots s1) < card (spinning_slots s)"
        using card_Diff1_less [OF finite_spinning_slots]
        by (simp only: spinning_slots_popped [OF Cons.prems(1)] s1)
      then show ?thesis
        using Cons.IH [of s1 k] Cons.prems 1(3,5) s1 by auto
    qed
  next
    case (2 i s1 s2)
    then show ?thesis by simp
  qed
qed

text \<open>
  C18. \<open>enqueue\<close> terminates when some worker's mutex stays free: twice as many turns as
  there are workers are enough for the task to be handed over, whatever happens to the mutexes of
  the other workers, as long as \<open>nextEnqueueIndex\<close> plus the number of workers is below 2^32 (past it
  the round robin may skip a worker) and no other thread changes \<open>spinningWorkers\<close> or the two
  counters between the turns.
\<close>

theorem enqueue_terminates:
  assumes inv: "sched_inv s" and t: "\<not> Task_is SameThread t"
    and free: "j < n_workers s" "\<forall>busy\<in>set turns. \<not> busy j"
    and turns: "2 * n_workers s \<le> length turns"
    and nowrap: "unat (nextEnqueueIndex s) + n_workers s < 2 ^ 32"
  shows "\<exists>i s'. Scheduler_enqueue me t turns s = Inr (Some i, s')"
proof -
  let ?n = "n_workers s" and ?e = "unat (nextEnqueueIndex s)"
  define k where "k = (?n + j - ?e mod ?n) mod ?n"
  have "?e mod ?n < ?n" using sched_invD(1) [OF inv] by simp
  then have "?e mod ?n + (?n + j - ?e mod ?n) = ?n + j" by linarith
  then have "(?e mod ?n + (?n + j - ?e mod ?n)) mod ?n = j" using free(1) by simp
  then have "(?e + k) mod ?n = j" unfolding k_def by (simp add: mod_simps)
  moreover have "k < ?n" using sched_invD(1) [OF inv] by (simp add: k_def)
  ultimately have "\<exists>i s'. enqueue_loop t turns s = Inr (Some i, s')"
    using inv free nowrap turns spinning_slots_le [of s]
    by (intro enqueue_loop_succeeds [of s turns j k]) auto
  then show ?thesis using t sched_invD(3) [OF inv] by (simp add: Scheduler_enqueue_def)
qed

theorem enqueue_terminates_witness:
  "\<exists>i s'. Scheduler_enqueue 0 (Task_new (Some (7 :: nat)) NoFlag) (replicate 6 (\<lambda>i. i < 2))
     three_workers = Inr (Some i, s')"
proof (rule enqueue_terminates [of three_workers _ 2])
  show "unat (nextEnqueueIndex three_workers) + n_workers three_workers < 2 ^ 32"
    by simp (simp add: three_workers_def)
qed (simp_all add: Task_new_def)

subsection \<open>Stealing and lost tasks\<close>

text \<open>The worker that a thief looks at.\<close>

definition victim :: "u64 \<Rightarrow> 'f scheduler \<Rightarrow> nat" where
  "victim from s = unat from mod n_workers s"

lemma victim_eq:
  assumes "sched_inv s"
  shows "nat (uint (from mod (ucast (cfg_count s) :: u64))) = victim from s"
    and "victim from s < n_workers s"
proof -
  have "unat (ucast (cfg_count s) :: u64) = n_workers s"
    by (simp add: n_workers_def unsigned_ucast_eq take_bit_nat_eq_self order.strict_trans [OF unat_lt_2p32])
  then show "nat (uint (from mod (ucast (cfg_count s) :: u64))) = victim from s"
    by (simp add: victim_def unat_mod_distrib flip: unat_eq_nat_uint)
  show "victim from s < n_workers s" using sched_invD(1) [OF assms] by (simp add: victim_def)
qed

lemma stealWork_ok:
  assumes "sched_inv s" "workerThreads s ! victim from s = Some w"
    and "work_count (work w)" "length (tasks (work w)) + length (fibers (work w)) < 2 ^ 64"
  shows "\<exists>r s'. stealWork thief from s = Inr (r, s') \<and> sched_inv s' \<and>
    (case r of
       None \<Rightarrow> workerThreads s' = workerThreads s
     | Some t \<Rightarrow> victim from s \<noteq> thief \<and> flag t = NoFlag \<and> \<not> locked (work w) \<and>
         tasks (work w) = t # tl (tasks (work w)) \<and>
         workerThreads s' = (workerThreads s)[victim from s :=
           Some (work_update (\<lambda>k. k\<lparr>num := num k - 1, tasks := tl (tasks k)\<rparr>) w)])"
proof -
  let ?v = "victim from s"
  have v: "nat (uint (from mod (ucast (cfg_count s) :: u64))) = ?v" "?v < n_workers s"
    using victim_eq [OF assms(1)] by blast+
  have pos: "0 < sint (cfg_count s)"
    using sched_inv_count [OF assms(1)] sched_invD(1) [OF assms(1)] by linarith
  have at: "worker_at (uint (from mod (ucast (cfg_count s) :: u64))) s = Inr w"
    using worker_at_ok [OF assms(1), of "uint (from mod (ucast (cfg_count s) :: u64))"] v assms(2)
    by auto
  have same: "(workerThreads s)[?v := Some w] = workerThreads s"
    using assms(2) by (metis list_update_id)
  show ?thesis
  proof (cases "?v = thief")
    case True
    then show ?thesis using pos v(1) assms(1) by (simp add: stealWork_def)
  next
    case False
    from assms(3,4) show ?thesis
    proof (cases rule: steal_cases)
      case none
      then have "stealWork thief from s =
          Inr (None, set_worker (uint (from mod (ucast (cfg_count s) :: u64))) w s)"
        using False pos v(1) at by (simp add: stealWork_def Let_def)
      then show ?thesis using assms(1) v(1) same by (simp add: set_worker_inv)
    next
      case (some t ts)
      let ?w = "work_update (\<lambda>k. k\<lparr>num := num k - 1, tasks := ts\<rparr>) w"
      have tl: "?w = work_update (\<lambda>k. k\<lparr>num := num k - 1, tasks := tl (tasks k)\<rparr>) w"
        using some(1) by (cases w) simp
      have "stealWork thief from s =
          Inr (Some t, set_worker (uint (from mod (ucast (cfg_count s) :: u64))) ?w s)"
        using False pos v(1) at some by (simp add: stealWork_def Let_def)
      then show ?thesis using assms(1) v(1) False some(1-3) tl by (simp add: set_worker_inv)
    qed
  qed
qed

text \<open>
  A theft takes at most one task: the first of another worker's queue, not bound to its
  thread, from a worker whose mutex is free, and it counts it; otherwise nothing changes. A worker
  never steals from itself, and no array is accessed out of its bounds.
\<close>

theorem stealWork_safe:
  assumes "sched_inv s" "workerThreads s ! victim from s = Some w"
    and "work_count (work w)" "length (tasks (work w)) + length (fibers (work w)) < 2 ^ 64"
  shows "\<exists>r s'. stealWork thief from s = Inr (r, s') \<and> sched_inv s' \<and>
    (case r of
       None \<Rightarrow> workerThreads s' = workerThreads s
     | Some t \<Rightarrow> victim from s \<noteq> thief \<and> flag t = NoFlag \<and> \<not> locked (work w) \<and>
         tasks (work w) = t # tl (tasks (work w)) \<and>
         workerThreads s' = (workerThreads s)[victim from s :=
           Some (work_update (\<lambda>k. k\<lparr>num := num k - 1, tasks := tl (tasks k)\<rparr>) w)])"
  by (rule stealWork_ok [OF assms])

theorem stealWork_safe_witness:
  "\<exists>r s'. stealWork 0 7 three_workers = Inr (r, s') \<and> sched_inv s'"
proof -
  have "victim 7 three_workers = 1" by (simp add: victim_def)
  then have "workerThreads three_workers ! victim 7 three_workers = Some (Worker_new MultiThreaded 0)"
    by (simp add: three_workers_def)
  moreover have "work_count (work (Worker_new MultiThreaded 0 :: nat worker))"
    "length (tasks (work (Worker_new MultiThreaded 0 :: nat worker))) +
     length (fibers (work (Worker_new MultiThreaded 0 :: nat worker))) < 2 ^ 64"
    by (simp_all add: Worker_new_def) (simp_all add: Work_new_def)
  ultimately show ?thesis using stealWork_safe [OF three_workers_inv(1)] by blast
qed

text \<open>
  A task that must go to the current worker is lost when the thread has none: nothing changes, and
  the caller is not told.
\<close>

lemma enqueue_without_worker:
  "current_worker me s = None \<Longrightarrow> Task_is SameThread t \<or> cfg_count s = 0 \<Longrightarrow>
   Scheduler_enqueue me t turns s = Inr (None, s)"
  by (auto simp: Scheduler_enqueue_def)

end
