(* ===== verification/Condition_Variable.thy ===== *)
theory Condition_Variable
  imports Linked_List Worker
begin

text \<open>
  \<open>hfts::ConditionVariable\<close> of \<open>include/hfts/conditionvariable.hpp\<close>: the state and
  the operations, over the interface of the container of waiting fibers, then a machine in which
  fibers and ordinary threads wait on one condition variable and one predicate while others make the
  predicate true and notify.
\<close>

subsection \<open>The container of waiting fibers\<close>

text \<open>What the condition variable calls of \<open>containers::list<Fiber*>\<close>.\<close>

record ('q, 'i) waiting_ops =
  wo_emplace :: "fiber \<Rightarrow> 'q \<Rightarrow> ('i \<times> 'q) res"
  wo_erase :: "'i \<Rightarrow> 'q \<Rightarrow> 'q res"
  wo_size :: "'q \<Rightarrow> size_t"
  wo_front :: "'q \<Rightarrow> fiber res"                  \<comment> \<open>\<open>*waiting.begin()\<close>\<close>
  wo_walk :: "'q \<Rightarrow> fiber list res option"        \<comment> \<open>a range-based \<open>for\<close>\<close>

definition hfts_list ::
  "'s allocator \<Rightarrow> entry_type \<Rightarrow> (fiber linked \<times> 's, entry_ptr) waiting_ops" where
  "hfts_list A T =
     \<lparr>wo_emplace = (\<lambda>f (l, s). bind_res (list_emplace_front A T f l s) (\<lambda>(it, l, s). Inr (it, l, s))),
      wo_erase = (\<lambda>it (l, s). bind_res (list_erase it l) (\<lambda>l. Inr (l, s))),
      wo_size = (\<lambda>(l, s). list_size l),
      wo_front = (\<lambda>(l, s). iterator_deref (list_begin l) l),
      wo_walk = (\<lambda>(l, s). list_walk (list_begin l) l [])\<rparr>"

subsection \<open>State and operations\<close>

record 'q cond_var =
  cv_waiting :: 'q
  waitingNum :: u32               \<comment> \<open>\<open>std::atomic<int>\<close>\<close>
  waitingOnConditionNum :: u32

definition ConditionVariable_new :: "'q \<Rightarrow> 'q cond_var" where
  "ConditionVariable_new q = \<lparr>cv_waiting = q, waitingNum = 0, waitingOnConditionNum = 0\<rparr>"

text \<open>
  The fibers that are notified, in order, and whether the \<open>std::condition_variable\<close> is.
\<close>

definition notify_one :: "('q, 'i) waiting_ops \<Rightarrow> 'q cond_var \<Rightarrow> (fiber list \<times> bool) res" where
  "notify_one W c =
     (if waitingNum c = 0 then Inr ([], False)
      else if wo_size W (cv_waiting c) > 0
      then bind_res (wo_front W (cv_waiting c)) (\<lambda>f. Inr ([f], False))
      else Inr ([], 0 <s waitingOnConditionNum c))"

definition notify_all_fibers :: "('q, 'i) waiting_ops \<Rightarrow> 'q cond_var \<Rightarrow> fiber list res option" where
  "notify_all_fibers W c = wo_walk W (cv_waiting c)"

definition notify_all :: "('q, 'i) waiting_ops \<Rightarrow> 'q cond_var \<Rightarrow> (fiber list \<times> bool) res option" where
  "notify_all W c =
     (if waitingNum c = 0 then Some (Inr ([], False))
      else case notify_all_fibers W c of
             None \<Rightarrow> None
           | Some r \<Rightarrow> Some (bind_res r (\<lambda>fs. Inr (fs, 0 <s waitingOnConditionNum c))))"

text \<open>
  The pieces of \<open>wait\<close> and \<open>wait_until\<close> around the blocking call: the counter, then the
  entry in the list for a fiber, the second counter for an ordinary thread.
\<close>

definition wait_count :: "'q cond_var \<Rightarrow> 'q cond_var" where
  "wait_count c = c\<lparr>waitingNum := waitingNum c + 1\<rparr>"

definition wait_list :: "('q, 'i) waiting_ops \<Rightarrow> fiber \<Rightarrow> 'q cond_var \<Rightarrow> ('i \<times> 'q cond_var) res" where
  "wait_list W f c =
     bind_res (wo_emplace W f (cv_waiting c)) (\<lambda>(it, q). Inr (it, c\<lparr>cv_waiting := q\<rparr>))"

definition wait_unlist :: "('q, 'i) waiting_ops \<Rightarrow> 'i \<Rightarrow> 'q cond_var \<Rightarrow> 'q cond_var res" where
  "wait_unlist W it c = bind_res (wo_erase W it (cv_waiting c)) (\<lambda>q. Inr (c\<lparr>cv_waiting := q\<rparr>))"

definition wait_on_condition :: "'q cond_var \<Rightarrow> 'q cond_var" where
  "wait_on_condition c = c\<lparr>waitingOnConditionNum := waitingOnConditionNum c + 1\<rparr>"

definition wait_off_condition :: "'q cond_var \<Rightarrow> 'q cond_var" where
  "wait_off_condition c = c\<lparr>waitingOnConditionNum := waitingOnConditionNum c - 1\<rparr>"

definition wait_uncount :: "'q cond_var \<Rightarrow> 'q cond_var" where
  "wait_uncount c = c\<lparr>waitingNum := waitingNum c - 1\<rparr>"

subsection \<open>The contract of the container\<close>

text \<open>
  \<open>holds q xs\<close>: the container \<open>q\<close> has the iterators and fibers \<open>xs\<close>, from the
  front; \<open>room q\<close>: another entry stays within the address space.
\<close>

locale waiting_list =
  fixes W :: "('q, 'i) waiting_ops"
    and holds :: "'q \<Rightarrow> ('i \<times> fiber) list \<Rightarrow> bool"
    and room :: "'q \<Rightarrow> bool"
  assumes emplace: "holds q xs \<Longrightarrow> room q \<Longrightarrow> wo_emplace W f q = Inr (i, q') \<Longrightarrow>
      holds q' ((i, f) # xs)"
    and iterators: "holds q xs \<Longrightarrow> distinct (map fst xs)"
    and erase: "holds q (xs @ (i, f) # ys) \<Longrightarrow> \<exists>q'. wo_erase W i q = Inr q' \<and> holds q' (xs @ ys)"
    and size: "holds q xs \<Longrightarrow> unat (wo_size W q) = length xs"
    and front: "holds q ((i, f) # xs) \<Longrightarrow> wo_front W q = Inr f"
    and walk: "holds q xs \<Longrightarrow> wo_walk W q = Some (Inr (map snd xs))"
begin

lemma notify_all_notifies:
  assumes "holds (cv_waiting c) xs" "waitingNum c \<noteq> 0"
  shows "notify_all W c = Some (Inr (map snd xs, 0 <s waitingOnConditionNum c))"
  using assms walk by (simp add: notify_all_def notify_all_fibers_def)

lemma notify_one_front:
  assumes "holds (cv_waiting c) ((i, f) # xs)" "waitingNum c \<noteq> 0"
  shows "notify_one W c = Inr ([f], False)"
proof -
  have "wo_size W (cv_waiting c) > 0" using size [OF assms(1)] by (auto simp: word_less_nat_alt)
  then show ?thesis using front [OF assms(1)] assms(2) by (simp add: notify_one_def)
qed

lemma notify_one_condition:
  assumes "holds (cv_waiting c) []" "waitingNum c \<noteq> 0"
  shows "notify_one W c = Inr ([], 0 <s waitingOnConditionNum c)"
  using size [OF assms(1)] assms(2) by (simp add: notify_one_def word_less_nat_alt)

lemma erase_one:
  assumes "holds q xs" "(i, f) \<in> set xs"
  obtains q' where "wo_erase W i q = Inr q'" "holds q' (remove1 (i, f) xs)"
proof -
  obtain ys zs where split: "xs = ys @ (i, f) # zs" "(i, f) \<notin> set ys"
    using split_list_first [OF assms(2)] by blast
  with erase [of q ys i f zs] assms(1) show ?thesis
    by (auto simp: remove1_append intro: that)
qed

end

text \<open>The container of the code keeps the contract over the default allocator.\<close>

definition list_holds :: "fiber linked \<times> os \<Rightarrow> (entry_ptr \<times> fiber) list \<Rightarrow> bool" where
  "list_holds q xs \<longleftrightarrow>
     (\<exists>ys. xs = map (\<lambda>(r, f). (Some r, f)) ys \<and> list_ok os_inv os_owns os_sep ys q)"

definition list_room :: "fiber linked \<times> os \<Rightarrow> bool" where
  "list_room q \<longleftrightarrow> unat (l_capacity (fst q)) < 2 ^ 58"

lemma pointer_entry_fits:
  assumes "unat n \<le> 2 ^ 58"
  shows "chunk_fits os_proper pointer_entry n"
  using assms by (intro os_chunk_fits [where N = "2 ^ 58"]) (simp_all add: pointer_entry_def)

lemma list_emplace_holds:
  assumes q: "list_holds q xs" and room: "list_room q"
    and e: "wo_emplace (hfts_list DefaultAllocator pointer_entry) f q = Inr (i, q')"
  shows "list_holds q' ((i, f) # xs)"
proof -
  obtain l s where [simp]: "q = (l, s)" by (cases q)
  obtain ys where ys: "xs = map (\<lambda>(r, f). (Some r, f)) ys" "list_ok os_inv os_owns os_sep ys (l, s)"
    using q by (auto simp: list_holds_def)
  have "unat (max (l_capacity l) 8) \<le> 2 ^ 58" using room by (simp add: list_room_def max_def)
  note fit = pointer_entry_fits [OF this]
  obtain l' s' where r: "list_emplace_front DefaultAllocator pointer_entry f l s = Inr (i, l', s')"
    "q' = (l', s')"
    using e by (auto simp: hfts_list_def)
  have mem: "\<not> no_chunk DefaultAllocator pointer_entry l s"
    using emplace_no_chunk [OF _ fit, of DefaultAllocator s f] r(1) by auto
  obtain rf l2 s2 where "list_emplace_front DefaultAllocator pointer_entry f l s = Inr (Some rf, l2, s2)"
    "list_ok os_inv os_owns os_sep ((rf, f) # ys) (l2, s2)"
    by (rule default_chain.emplace_ok [OF ys(2) fit mem])
  then show ?thesis using r ys(1)
    by (auto simp: list_holds_def intro!: exI [of _ "(rf, f) # ys"])
qed

lemma list_holds_append:
  assumes "list_holds q (xs @ (i, f) # ys)"
  obtains r as bs where "i = Some r" "xs = map (\<lambda>(r, f). (Some r, f)) as"
    "ys = map (\<lambda>(r, f). (Some r, f)) bs" "list_ok os_inv os_owns os_sep (as @ (r, f) # bs) q"
  using assms by (auto simp: list_holds_def append_eq_map_conv Cons_eq_map_conv)

lemma list_holds_rep:
  assumes "list_holds (l, s) xs"
  obtains ys fs where "xs = map (\<lambda>(r, f). (Some r, f)) ys" "list_rep_free l ys fs"
  using assms by (auto simp: list_holds_def list_ok_def list_rep_def)

interpretation hfts_waiting: waiting_list "hfts_list DefaultAllocator pointer_entry" list_holds list_room
proof
  fix q xs i f q' ys
  show "list_holds q xs \<Longrightarrow> list_room q \<Longrightarrow>
      wo_emplace (hfts_list DefaultAllocator pointer_entry) f q = Inr (i, q') \<Longrightarrow>
      list_holds q' ((i, f) # xs)"
    by (rule list_emplace_holds)
  obtain l s where q_eq [simp]: "q = (l, s)" by (cases q)
  show "distinct (map fst xs)" if qx: "list_holds q xs"
  proof -
    obtain ys fs where ys: "xs = map (\<lambda>(r, f). (Some r, f)) ys" "list_rep_free l ys fs"
      by (rule list_holds_rep [OF qx [unfolded q_eq]])
    have "map fst xs = map Some (map fst ys)" using ys(1) by (simp add: split_def)
    moreover have "distinct (map fst ys)" using ys(2) by (simp add: list_rep_free_def)
    ultimately show ?thesis by (simp only: distinct_map inj_Some simp_thms)
  qed
  show "\<exists>q'. wo_erase (hfts_list DefaultAllocator pointer_entry) i q = Inr q' \<and> list_holds q' (xs @ ys)"
    if q: "list_holds q (xs @ (i, f) # ys)"
  proof -
    obtain r as bs where r: "i = Some r" "xs = map (\<lambda>(r, f). (Some r, f)) as"
      "ys = map (\<lambda>(r, f). (Some r, f)) bs" "list_ok os_inv os_owns os_sep (as @ (r, f) # bs) (l, s)"
      by (rule list_holds_append [OF q [unfolded q_eq]])
    obtain fs where rep: "list_rep_free l (as @ (r, f) # bs) fs"
      using r(4) by (auto simp: list_ok_def list_rep_def)
    obtain l' where "list_erase (Some r) l = Inr l'" "list_rep_free l' (as @ bs) (r # fs)"
      "l_allocations l' = l_allocations l"
      using rep by (rule rep_erase)
    then show ?thesis using r
      by (auto simp: hfts_list_def list_holds_def list_ok_def list_rep_def intro!: exI [of _ "as @ bs"])
  qed
  show "unat (wo_size (hfts_list DefaultAllocator pointer_entry) q) = length xs" if "list_holds q xs"
    using that by (auto simp: hfts_list_def list_size_def list_rep_free_def elim: list_holds_rep)
  show "wo_walk (hfts_list DefaultAllocator pointer_entry) q = Some (Inr (map snd xs))"
    if qx: "list_holds q xs"
  proof -
    obtain ys fs where "xs = map (\<lambda>(r, f). (Some r, f)) ys" "list_rep_free l ys fs"
      by (rule list_holds_rep [OF qx [unfolded q_eq]])
    then show ?thesis using iterate_chain [of l None ys "[]"]
      by (auto simp: hfts_list_def list_rep_free_def list_begin_def split_def)
  qed
  show "wo_front (hfts_list DefaultAllocator pointer_entry) q = Inr f" if q: "list_holds q ((i, f) # xs)"
  proof -
    obtain ys fs where "(i, f) # xs = map (\<lambda>(r, f). (Some r, f)) ys" "list_rep_free l ys fs"
      by (rule list_holds_rep [OF q [unfolded q_eq]])
    then show ?thesis
      by (auto simp: hfts_list_def list_rep_free_def list_begin_def iterator_deref_def
          entry_at_def data_at_def Cons_eq_map_conv split: option.splits)
  qed
qed

end
