(* ===== verification/Wait_Machine.thy ===== *)
theory Wait_Machine
  imports Condition_Variable
begin

text \<open>
  Fibers and ordinary threads on one condition variable (\<open>include/hfts/conditionvariable.hpp\<close>),
  one user mutex and one predicate: where each of them stands in \<open>wait\<close>,
  \<open>wait_until\<close>, \<open>Worker::wait\<close> and \<open>notify_all\<close>, and the steps they take. A
  notifier makes the predicate true before or after it takes the user mutex and notifies with the
  mutex held, as \<open>Event::Shared::signal\<close> and \<open>WaitGroup::done\<close> do.
\<close>

subsection \<open>Where an actor stands\<close>

datatype 'i place =
    Away               \<comment> \<open>does not use the condition variable\<close>
  | Holding            \<comment> \<open>holds the user mutex\<close>
  | Counted            \<comment> \<open>in \<open>wait\<close>, after \<open>waitingNum++\<close>\<close>
  | AtPred 'i          \<comment> \<open>at \<open>while (!pred())\<close> of \<open>Worker::wait\<close>\<close>
  | Suspending 'i      \<comment> \<open>\<open>pred()\<close> was false; the user mutex is still held\<close>
  | Asleep 'i          \<comment> \<open>suspended, not queued\<close>
  | Ready 'i           \<comment> \<open>queued or resumed, about to take the user mutex again\<close>
  | Leaving 'i bool    \<comment> \<open>\<open>Worker::wait\<close> has returned this\<close>
  | OnCondition        \<comment> \<open>a thread at the predicate of \<open>std::condition_variable\<close>\<close>
  | Blocking           \<comment> \<open>the predicate was false\<close>
  | Blocked            \<comment> \<open>blocked, the user mutex released\<close>
  | Unblocked          \<comment> \<open>woken, about to take the user mutex again\<close>
  | OffCondition bool  \<comment> \<open>the wait on the \<open>std::condition_variable\<close> has returned this\<close>
  | Uncount bool       \<comment> \<open>before \<open>waitingNum--\<close>\<close>
  | Setter             \<comment> \<open>made the predicate true, about to take the user mutex\<close>
  | Notifying          \<comment> \<open>at the beginning of \<open>notify_all\<close>\<close>
  | NotifyCondition    \<comment> \<open>the fibers are notified, the threads are not\<close>

fun holds_lock :: "'i place \<Rightarrow> bool" where
  "holds_lock Away = False" | "holds_lock (Asleep i) = False" | "holds_lock (Ready i) = False"
| "holds_lock Blocked = False" | "holds_lock Unblocked = False" | "holds_lock Setter = False"
| "holds_lock _ = True"

fun iterator :: "'i place \<Rightarrow> 'i option" where
  "iterator (AtPred i) = Some i" | "iterator (Suspending i) = Some i" | "iterator (Asleep i) = Some i"
| "iterator (Ready i) = Some i" | "iterator (Leaving i b) = Some i" | "iterator _ = None"

fun on_condition :: "'i place \<Rightarrow> bool" where
  "on_condition OnCondition = True" | "on_condition Blocking = True" | "on_condition Blocked = True"
| "on_condition Unblocked = True" | "on_condition (OffCondition b) = True" | "on_condition _ = False"

text \<open>Counted in \<open>waitingNum\<close>, but neither listed nor on the condition.\<close>

fun in_transit :: "'i place \<Rightarrow> bool" where
  "in_transit Counted = True" | "in_transit (Uncount b) = True" | "in_transit _ = False"

definition counted :: "'i place \<Rightarrow> bool" where
  "counted p \<longleftrightarrow> in_transit p \<or> iterator p \<noteq> None \<or> on_condition p"

fun fiber_rests :: "'i place \<Rightarrow> bool" where
  "fiber_rests (Suspending i) = True" | "fiber_rests (Asleep i) = True" | "fiber_rests _ = False"

fun thread_rests :: "'i place \<Rightarrow> bool" where
  "thread_rests Blocking = True" | "thread_rests Blocked = True" | "thread_rests _ = False"

fun will_notify :: "'i place \<Rightarrow> bool" where
  "will_notify Setter = True" | "will_notify Notifying = True" | "will_notify _ = False"

text \<open>What a notification does: \<open>enqueue\<close> queues a suspended fiber and leaves any other.\<close>

fun notified :: "'i place \<Rightarrow> 'i place" where
  "notified (Asleep i) = Ready i" | "notified p = p"

fun unblocked :: "'i place \<Rightarrow> 'i place" where
  "unblocked Blocked = Unblocked" | "unblocked p = p"

definition notify_places :: "fiber list \<Rightarrow> (nat \<Rightarrow> 'i place) \<Rightarrow> nat \<Rightarrow> 'i place" where
  "notify_places fs pl = (\<lambda>f. if f \<in> set fs then notified (pl f) else pl f)"

record ('q, 'i) cv_machine =
  m_cv :: "'q cond_var"
  m_pred :: bool                \<comment> \<open>the value of the predicate\<close>
  m_lock :: "nat option"        \<comment> \<open>who holds the user mutex\<close>
  m_place :: "nat \<Rightarrow> 'i place"

definition cv_start :: "'q \<Rightarrow> bool \<Rightarrow> ('q, 'i) cv_machine" where
  "cv_start q b = \<lparr>m_cv = ConditionVariable_new q, m_pred = b, m_lock = None, m_place = (\<lambda>_. Away)\<rparr>"

abbreviation goes :: "nat \<Rightarrow> 'i place \<Rightarrow> ('q, 'i) cv_machine \<Rightarrow> ('q, 'i) cv_machine" where
  "goes a p M \<equiv> M\<lparr>m_place := (m_place M)(a := p)\<rparr>"

subsection \<open>Steps\<close>

text \<open>
  \<open>isf a\<close>: actor \<open>a\<close> is a fiber, named by its address; there are \<open>n\<close> actors. Each
  critical section of the condition variable's own mutex is one step.
\<close>

inductive cstep ::
  "('q, 'i) waiting_ops \<Rightarrow> ('q \<Rightarrow> bool) \<Rightarrow> (nat \<Rightarrow> bool) \<Rightarrow> nat
    \<Rightarrow> ('q, 'i) cv_machine \<Rightarrow> ('q, 'i) cv_machine \<Rightarrow> bool" for W rm isf n where
  acquire:
    "a < n \<Longrightarrow> m_place M a = Away \<Longrightarrow> m_lock M = None \<Longrightarrow>
     cstep W rm isf n M (goes a Holding (M\<lparr>m_lock := Some a\<rparr>))"
| release:
    "a < n \<Longrightarrow> m_place M a = Holding \<Longrightarrow> cstep W rm isf n M (goes a Away (M\<lparr>m_lock := None\<rparr>))"
| count:
    "a < n \<Longrightarrow> m_place M a = Holding \<Longrightarrow> \<not> m_pred M \<Longrightarrow>
     cstep W rm isf n M (goes a Counted (M\<lparr>m_cv := wait_count (m_cv M)\<rparr>))"
| enlist:
    "a < n \<Longrightarrow> m_place M a = Counted \<Longrightarrow> isf a \<Longrightarrow> rm (cv_waiting (m_cv M)) \<Longrightarrow>
     wait_list W a (m_cv M) = Inr (i, c) \<Longrightarrow>
     cstep W rm isf n M (goes a (AtPred i) (M\<lparr>m_cv := c\<rparr>))"
| fiber_done:
    "a < n \<Longrightarrow> m_place M a = AtPred i \<Longrightarrow> m_pred M \<Longrightarrow>
     cstep W rm isf n M (goes a (Leaving i True) M)"
| fiber_suspends:
    "a < n \<Longrightarrow> m_place M a = AtPred i \<Longrightarrow> \<not> m_pred M \<Longrightarrow>
     cstep W rm isf n M (goes a (Suspending i) M)"
| fiber_sleeps:
    "a < n \<Longrightarrow> m_place M a = Suspending i \<Longrightarrow>
     cstep W rm isf n M (goes a (Asleep i) (M\<lparr>m_lock := None\<rparr>))"
| fiber_expires:
    "a < n \<Longrightarrow> m_place M a = Asleep i \<Longrightarrow> cstep W rm isf n M (goes a (Ready i) M)"
| fiber_resumes:
    "a < n \<Longrightarrow> m_place M a = Ready i \<Longrightarrow> m_lock M = None \<Longrightarrow>
     cstep W rm isf n M (goes a (AtPred i) (M\<lparr>m_lock := Some a\<rparr>))"
| fiber_timed_out:
    "a < n \<Longrightarrow> m_place M a = Ready i \<Longrightarrow> m_lock M = None \<Longrightarrow>
     cstep W rm isf n M (goes a (Leaving i False) (M\<lparr>m_lock := Some a\<rparr>))"
| unlist:
    "a < n \<Longrightarrow> m_place M a = Leaving i b \<Longrightarrow> wait_unlist W i (m_cv M) = Inr c \<Longrightarrow>
     cstep W rm isf n M (goes a (Uncount b) (M\<lparr>m_cv := c\<rparr>))"
| thread_waits:
    "a < n \<Longrightarrow> m_place M a = Counted \<Longrightarrow> \<not> isf a \<Longrightarrow>
     cstep W rm isf n M (goes a OnCondition (M\<lparr>m_cv := wait_on_condition (m_cv M)\<rparr>))"
| thread_done:
    "a < n \<Longrightarrow> m_place M a = OnCondition \<Longrightarrow> m_pred M \<Longrightarrow>
     cstep W rm isf n M (goes a (OffCondition True) M)"
| thread_blocks:
    "a < n \<Longrightarrow> m_place M a = OnCondition \<Longrightarrow> \<not> m_pred M \<Longrightarrow>
     cstep W rm isf n M (goes a Blocking M)"
| thread_blocked:
    "a < n \<Longrightarrow> m_place M a = Blocking \<Longrightarrow>
     cstep W rm isf n M (goes a Blocked (M\<lparr>m_lock := None\<rparr>))"
| thread_wakes:
    "a < n \<Longrightarrow> m_place M a = Blocked \<Longrightarrow> cstep W rm isf n M (goes a Unblocked M)"
| thread_resumes:
    "a < n \<Longrightarrow> m_place M a = Unblocked \<Longrightarrow> m_lock M = None \<Longrightarrow>
     cstep W rm isf n M (goes a OnCondition (M\<lparr>m_lock := Some a\<rparr>))"
| thread_timed_out:
    "a < n \<Longrightarrow> m_place M a = Unblocked \<Longrightarrow> m_lock M = None \<Longrightarrow>
     cstep W rm isf n M (goes a (OffCondition (m_pred M)) (M\<lparr>m_lock := Some a\<rparr>))"
| thread_leaves:
    "a < n \<Longrightarrow> m_place M a = OffCondition b \<Longrightarrow>
     cstep W rm isf n M (goes a (Uncount b) (M\<lparr>m_cv := wait_off_condition (m_cv M)\<rparr>))"
| uncount:
    "a < n \<Longrightarrow> m_place M a = Uncount b \<Longrightarrow>
     cstep W rm isf n M (goes a Holding (M\<lparr>m_cv := wait_uncount (m_cv M)\<rparr>))"
| set_unlocked:
    "a < n \<Longrightarrow> m_place M a = Away \<Longrightarrow> cstep W rm isf n M (goes a Setter (M\<lparr>m_pred := True\<rparr>))"
| setter_locks:
    "a < n \<Longrightarrow> m_place M a = Setter \<Longrightarrow> m_lock M = None \<Longrightarrow>
     cstep W rm isf n M (goes a Notifying (M\<lparr>m_lock := Some a\<rparr>))"
| set_locked:
    "a < n \<Longrightarrow> m_place M a = Holding \<Longrightarrow> cstep W rm isf n M (goes a Notifying (M\<lparr>m_pred := True\<rparr>))"
| unset:
    "cstep W rm isf n M (M\<lparr>m_pred := False\<rparr>)"
| notify_nobody:
    "a < n \<Longrightarrow> m_place M a = Notifying \<Longrightarrow> waitingNum (m_cv M) = 0 \<Longrightarrow>
     cstep W rm isf n M (goes a Holding M)"
| notify_fibers:
    "a < n \<Longrightarrow> m_place M a = Notifying \<Longrightarrow> waitingNum (m_cv M) \<noteq> 0 \<Longrightarrow>
     notify_all_fibers W (m_cv M) = Some (Inr fs) \<Longrightarrow>
     cstep W rm isf n M (M\<lparr>m_place := (notify_places fs (m_place M))(a := NotifyCondition)\<rparr>)"
| notify_threads:
    "a < n \<Longrightarrow> m_place M a = NotifyCondition \<Longrightarrow> 0 <s waitingOnConditionNum (m_cv M) \<Longrightarrow>
     cstep W rm isf n M (M\<lparr>m_place := (unblocked \<circ> m_place M)(a := Holding)\<rparr>)"
| notify_no_threads:
    "a < n \<Longrightarrow> m_place M a = NotifyCondition \<Longrightarrow> \<not> 0 <s waitingOnConditionNum (m_cv M) \<Longrightarrow>
     cstep W rm isf n M (goes a Holding M)"

inductive_cases cstepE [consumes 1]: "cstep W rm isf n M M'"

subsection \<open>Counting actors\<close>

definition actors :: "('i place \<Rightarrow> bool) \<Rightarrow> (nat \<Rightarrow> 'i place) \<Rightarrow> nat \<Rightarrow> nat" where
  "actors P pl n = card {a. a < n \<and> P (pl a)}"

lemma actors_upd:
  assumes "a < n"
  shows "actors P (pl(a := p)) n + of_bool (P (pl a)) = actors P pl n + of_bool (P p)"
proof -
  let ?S = "{b. b < n \<and> b \<noteq> a \<and> P (pl b)}"
  have old: "{b. b < n \<and> P (pl b)} = (if P (pl a) then insert a ?S else ?S)"
    and new: "{b. b < n \<and> P ((pl(a := p)) b)} = (if P p then insert a ?S else ?S)"
    using assms by auto
  show ?thesis unfolding actors_def old new by simp
qed

lemma actors_cong: "(\<And>a. P (pl a) = P (pl' a)) \<Longrightarrow> actors P pl n = actors P pl' n"
  by (simp add: actors_def)

lemma actors_0: "actors P pl n = 0 \<longleftrightarrow> (\<forall>a<n. \<not> P (pl a))"
  by (auto simp: actors_def)

lemma actors_le: "actors P pl n \<le> n"
proof -
  have "actors P pl n \<le> card {..<n}" unfolding actors_def by (intro card_mono) auto
  then show ?thesis by simp
qed

lemma actors_same [simp]:
  "a < n \<Longrightarrow> P p = P (pl a) \<Longrightarrow> actors P (pl(a := p)) n = actors P pl n"
  using actors_upd [of a n P pl p] by simp

lemma actors_more [simp]:
  "a < n \<Longrightarrow> P p \<Longrightarrow> \<not> P (pl a) \<Longrightarrow> actors P (pl(a := p)) n = Suc (actors P pl n)"
  using actors_upd [of a n P pl p] by simp

lemma actors_less:
  "a < n \<Longrightarrow> \<not> P p \<Longrightarrow> P (pl a) \<Longrightarrow> actors P pl n = Suc (actors P (pl(a := p)) n)"
  using actors_upd [of a n P pl p] by simp

lemma place_kept [simp]:
  "holds_lock (notified p) = holds_lock p" "iterator (notified p) = iterator p"
  "on_condition (notified p) = on_condition p" "in_transit (notified p) = in_transit p"
  "thread_rests (notified p) = thread_rests p" "will_notify (notified p) = will_notify p"
  "holds_lock (unblocked p) = holds_lock p" "iterator (unblocked p) = iterator p"
  "on_condition (unblocked p) = on_condition p" "in_transit (unblocked p) = in_transit p"
  "fiber_rests (unblocked p) = fiber_rests p" "will_notify (unblocked p) = will_notify p"
  "notified p = NotifyCondition \<longleftrightarrow> p = NotifyCondition"
  "unblocked p = NotifyCondition \<longleftrightarrow> p = NotifyCondition"
  by (cases p; simp)+

lemma notify_places_kept [simp]:
  "holds_lock (notify_places fs pl a) = holds_lock (pl a)"
  "iterator (notify_places fs pl a) = iterator (pl a)"
  "on_condition (notify_places fs pl a) = on_condition (pl a)"
  "in_transit (notify_places fs pl a) = in_transit (pl a)"
  "notify_places fs pl a = Away \<longleftrightarrow> pl a = Away"
  by (cases "pl a"; simp add: notify_places_def)+

subsection \<open>The invariant\<close>

text \<open>Who holds the user mutex, and who is a fiber.\<close>

definition lock_inv :: "(nat \<Rightarrow> bool) \<Rightarrow> nat \<Rightarrow> ('q, 'i) cv_machine \<Rightarrow> bool" where
  "lock_inv isf n M \<longleftrightarrow>
     (\<forall>a. m_lock M = Some a \<longleftrightarrow> holds_lock (m_place M a)) \<and>
     (\<forall>a\<ge>n. m_place M a = Away) \<and>
     (\<forall>a. (iterator (m_place M a) \<noteq> None \<longrightarrow> isf a) \<and> (on_condition (m_place M a) \<longrightarrow> \<not> isf a))"

text \<open>The two counters count what they are meant to.\<close>

definition count_inv :: "nat \<Rightarrow> ('q, 'i) cv_machine \<Rightarrow> bool" where
  "count_inv n M \<longleftrightarrow>
     waitingNum (m_cv M) = of_nat (actors counted (m_place M) n) \<and>
     waitingOnConditionNum (m_cv M) = of_nat (actors on_condition (m_place M) n)"

text \<open>The container has one entry for each fiber that waits, with the iterator it keeps.\<close>

definition list_inv :: "('q \<Rightarrow> ('i \<times> fiber) list \<Rightarrow> bool) \<Rightarrow> ('q, 'i) cv_machine \<Rightarrow> bool" where
  "list_inv H M \<longleftrightarrow>
     (\<exists>xs. H (cv_waiting (m_cv M)) xs \<and> distinct (map snd xs) \<and>
       (\<forall>i a. (i, a) \<in> set xs \<longleftrightarrow> iterator (m_place M a) = Some i))"

text \<open>Nobody rests while the predicate is true, unless somebody is still going to notify.\<close>

definition wake_inv :: "('q, 'i) cv_machine \<Rightarrow> bool" where
  "wake_inv M \<longleftrightarrow>
     (m_pred M \<longrightarrow>
       ((\<exists>a. fiber_rests (m_place M a)) \<longrightarrow> (\<exists>b. will_notify (m_place M b))) \<and>
       ((\<exists>a. thread_rests (m_place M a)) \<longrightarrow>
          (\<exists>b. will_notify (m_place M b) \<or> m_place M b = NotifyCondition)))"

definition cv_inv ::
  "('q \<Rightarrow> ('i \<times> fiber) list \<Rightarrow> bool) \<Rightarrow> (nat \<Rightarrow> bool) \<Rightarrow> nat \<Rightarrow> ('q, 'i) cv_machine \<Rightarrow> bool" where
  "cv_inv H isf n M \<longleftrightarrow> lock_inv isf n M \<and> count_inv n M \<and> list_inv H M \<and> wake_inv M"

lemmas cv_inv_defs = lock_inv_def count_inv_def list_inv_def wake_inv_def cv_inv_def

lemmas wait_defs = wait_count_def wait_list_def wait_unlist_def wait_on_condition_def
  wait_off_condition_def wait_uncount_def

lemma one_holder:
  assumes "lock_inv isf n M" "holds_lock (m_place M a)" "holds_lock (m_place M b)"
  shows "a = b"
proof -
  have "m_lock M = Some a" "m_lock M = Some b" using assms by (simp_all add: lock_inv_def)
  then show ?thesis by simp
qed

lemma lock_inv_step:
  assumes inv: "lock_inv isf n M" and step: "cstep W rm isf n M M'"
  shows "lock_inv isf n M'"
proof -
  note one = one_holder [OF inv]
  show ?thesis using step inv
    by (cases rule: cstep.cases) (auto simp: lock_inv_def dest: one split: if_splits)
qed

lemma count_inv_step:
  assumes inv: "count_inv n M" and step: "cstep W rm isf n M M'"
  shows "count_inv n M'"
  using step
proof (cases rule: cstep.cases)
  case (notify_fibers a fs)
  have "actors counted (m_place M') n = actors counted (m_place M) n"
    "actors on_condition (m_place M') n = actors on_condition (m_place M) n"
    using notify_fibers(1,3) by (auto intro!: actors_cong simp: counted_def split: if_splits)
  then show ?thesis using inv notify_fibers(1) by (simp add: count_inv_def)
next
  case (notify_threads a)
  have "actors counted (m_place M') n = actors counted (m_place M) n"
    "actors on_condition (m_place M') n = actors on_condition (m_place M) n"
    using notify_threads(1,3) by (auto intro!: actors_cong simp: counted_def split: if_splits)
  then show ?thesis using inv notify_threads(1) by (simp add: count_inv_def)
next
  case (thread_leaves a b)
  then show ?thesis
    using inv actors_less [of a n on_condition "Uncount b" "m_place M"]
    by (simp add: count_inv_def wait_defs counted_def)
next
  case (uncount a b)
  then show ?thesis
    using inv actors_less [of a n counted Holding "m_place M"]
    by (simp add: count_inv_def wait_defs counted_def)
qed (use inv in \<open>auto simp: count_inv_def wait_defs counted_def\<close>)

text \<open>The counters are 0 exactly when nobody is counted, up to 2^31 actors.\<close>

lemma of_nat_small: "k \<le> n \<Longrightarrow> n < 2 ^ 31 \<Longrightarrow> unat (of_nat k :: 32 word) = k"
  by (simp add: unat_of_nat)

lemma pos_count:
  assumes "k \<le> n" "n < 2 ^ 31"
  shows "0 <s (of_nat k :: 32 word) \<longleftrightarrow> 0 < k"
proof -
  have "sint (of_nat k :: 32 word) = int k"
    using assms by (simp add: signed_of_nat signed_take_bit_int_eq_self)
  then show ?thesis by (simp add: word_sless_alt)
qed

lemma counters:
  assumes "count_inv n M" "n < 2 ^ 31"
  shows "unat (waitingNum (m_cv M)) = actors counted (m_place M) n"
    "unat (waitingOnConditionNum (m_cv M)) = actors on_condition (m_place M) n"
    "0 <s waitingOnConditionNum (m_cv M) \<longleftrightarrow> 0 < actors on_condition (m_place M) n"
  using assms of_nat_small [OF actors_le assms(2)] pos_count [OF actors_le assms(2)]
  by (simp_all add: count_inv_def)

lemma rests_counted:
  "fiber_rests p \<Longrightarrow> counted p" "thread_rests p \<Longrightarrow> on_condition p"
  "on_condition p \<Longrightarrow> counted p" "fiber_rests p \<Longrightarrow> \<exists>i. iterator p = Some i"
  by (cases p; simp add: counted_def)+

lemma wake_inv_no_threads:
  assumes "wake_inv M" "m_pred M' = m_pred M" "\<And>b. \<not> thread_rests (m_place M' b)"
    and "\<And>b. will_notify (m_place M b) \<Longrightarrow> will_notify (m_place M' b)"
    and "\<And>b. fiber_rests (m_place M' b) \<Longrightarrow> fiber_rests (m_place M b)"
  shows "wake_inv M'"
  using assms unfolding wake_inv_def by blast

text \<open>A step of one actor that announces a notification, or neither ends one nor puts it to rest.\<close>

lemma wake_inv_goes:
  assumes "wake_inv M" "m_place M' = (m_place M)(a := p)"
    and "will_notify p \<or> \<not> m_pred M' \<or>
      m_pred M \<and> \<not> will_notify (m_place M a) \<and> m_place M a \<noteq> NotifyCondition \<and>
      (fiber_rests p \<longrightarrow> fiber_rests (m_place M a)) \<and> (thread_rests p \<longrightarrow> thread_rests (m_place M a))"
  shows "wake_inv M'"
  using assms(3)
proof (elim disjE)
  assume "will_notify p"
  then have "will_notify (m_place M' a)" by (simp add: assms(2))
  then show ?thesis unfolding wake_inv_def by blast
next
  assume keep: "m_pred M \<and> \<not> will_notify (m_place M a) \<and> m_place M a \<noteq> NotifyCondition \<and>
      (fiber_rests p \<longrightarrow> fiber_rests (m_place M a)) \<and> (thread_rests p \<longrightarrow> thread_rests (m_place M a))"
  have "fiber_rests (m_place M b)" if "fiber_rests (m_place M' b)" for b
    using that keep by (cases "b = a") (simp_all add: assms(2))
  moreover have "thread_rests (m_place M b)" if "thread_rests (m_place M' b)" for b
    using that keep by (cases "b = a") (simp_all add: assms(2))
  moreover have "will_notify (m_place M' b)" if "will_notify (m_place M b)" for b
    using that keep by (cases "b = a") (simp_all add: assms(2))
  moreover have "m_place M' b = NotifyCondition" if "m_place M b = NotifyCondition" for b
    using that keep by (cases "b = a") (simp_all add: assms(2))
  ultimately show ?thesis using assms(1) keep unfolding wake_inv_def by blast
qed (simp add: wake_inv_def)

context waiting_list
begin

lemma list_inv_step:
  assumes inv: "list_inv holds M" and step: "cstep W room isf n M M'"
  shows "list_inv holds M'"
proof -
  obtain xs where xs: "holds (cv_waiting (m_cv M)) xs" "distinct (map snd xs)"
    "\<And>i a. (i, a) \<in> set xs \<longleftrightarrow> iterator (m_place M a) = Some i"
    using inv by (auto simp: list_inv_def)
  from step show ?thesis
  proof (cases rule: cstep.cases)
    case (enlist a i c)
    then obtain q where q: "wo_emplace W a (cv_waiting (m_cv M)) = Inr (i, q)"
      "c = (m_cv M)\<lparr>cv_waiting := q\<rparr>"
      by (auto simp: wait_list_def)
    have "holds q ((i, a) # xs)" using emplace [OF xs(1) enlist(5) q(1)] .
    moreover have "a \<notin> snd ` set xs" using xs(3) enlist(3) by auto
    ultimately show ?thesis
      using xs(2,3) enlist(1,3) q(2) by (auto simp: list_inv_def intro!: exI [of _ "(i, a) # xs"])
  next
    case (unlist a i b c)
    have mem: "(i, a) \<in> set xs" using xs(3) unlist(3) by simp
    obtain q where q: "wo_erase W i (cv_waiting (m_cv M)) = Inr q" "holds q (remove1 (i, a) xs)"
      by (rule erase_one [OF xs(1) mem])
    have "distinct xs" using xs(2) by (simp add: distinct_map)
    then have "set (remove1 (i, a) xs) = set xs - {(i, a)}" by simp
    moreover have "distinct (map snd (remove1 (i, a) xs))" using xs(2)
      by (simp add: distinct_map inj_on_diff \<open>distinct xs\<close>)
    ultimately show ?thesis using q unlist(1,3,4) xs(3)
      by (auto simp: list_inv_def wait_unlist_def intro!: exI [of _ "remove1 (i, a) xs"])
  next
    case (notify_fibers a fs)
    then show ?thesis using xs
      by (auto simp: list_inv_def intro!: exI [of _ xs])
  next
    case (notify_threads a)
    then show ?thesis using xs
      by (auto simp: list_inv_def intro!: exI [of _ xs])
  qed (use xs in \<open>auto simp: list_inv_def wait_defs intro!: exI [of _ xs]\<close>)
qed

lemma wake_inv_step:
  assumes wake: "wake_inv M" and lock: "lock_inv isf n M" and count: "count_inv n M"
    and list: "list_inv holds M" and step: "cstep W room isf n M M'" and n: "n < 2 ^ 31"
  shows "wake_inv M'"
proof -
  note one = one_holder [OF lock]
  have away: "m_place M a = Away" if "\<not> a < n" for a
    using lock that by (simp add: lock_inv_def)
  from step show ?thesis
  proof (cases rule: cstep.cases)
    case (notify_nobody a)
    have "actors counted (m_place M) n = 0" using counters(1) [OF count n] notify_nobody(4) by simp
    then have none: "\<not> counted (m_place M b)" for b
      using away [of b] by (cases "b < n") (simp_all add: actors_0 counted_def)
    have "\<not> fiber_rests (m_place M b)" "\<not> thread_rests (m_place M b)" for b
      using none [of b] rests_counted by blast+
    then show ?thesis using notify_nobody(1) by (auto simp: wake_inv_def)
  next
    case (notify_fibers a fs)
    obtain xs where xs: "holds (cv_waiting (m_cv M)) xs"
      "\<And>i a. (i, a) \<in> set xs \<longleftrightarrow> iterator (m_place M a) = Some i"
      using list by (auto simp: list_inv_def)
    have fs: "fs = map snd xs" using notify_fibers(5) walk [OF xs(1)] by (simp add: notify_all_fibers_def)
    have "\<not> fiber_rests (m_place M' b)" for b
    proof
      assume b: "fiber_rests (m_place M' b)"
      then have "b \<noteq> a" using notify_fibers(1) by auto
      then obtain i where i: "m_place M b = Suspending i \<or> m_place M b = Asleep i \<and> b \<notin> set fs"
        using b notify_fibers(1) by (cases "m_place M b") (auto simp: notify_places_def split: if_splits)
      moreover have "m_place M b \<noteq> Suspending i" using one [of a b] notify_fibers(3) \<open>b \<noteq> a\<close> by auto
      moreover have "b \<in> set fs" if "m_place M b = Asleep i"
        using xs(2) [of i b] that fs by force
      ultimately show False by blast
    qed
    then show ?thesis using notify_fibers(1) by (auto simp: wake_inv_def)
  next
    case (notify_threads a)
    have "\<not> thread_rests (m_place M' b)" for b
    proof
      assume b: "thread_rests (m_place M' b)"
      then have "b \<noteq> a" "m_place M b = Blocking"
        using notify_threads(1) by (auto split: if_splits, cases "m_place M b") auto
      then show False using one [of a b] notify_threads(3) by auto
    qed
    then show ?thesis using notify_threads(1,3)
      by (intro wake_inv_no_threads [OF wake]) (auto split: if_splits)
  next
    case (notify_no_threads a)
    have "actors on_condition (m_place M) n = 0" using counters(3) [OF count n] notify_no_threads(4) by simp
    then have none: "\<not> on_condition (m_place M b)" for b
      using away [of b] by (cases "b < n") (simp_all add: actors_0)
    then have "\<not> thread_rests (m_place M b)" for b using rests_counted by blast
    then show ?thesis using notify_no_threads(1,3)
      by (intro wake_inv_no_threads [OF wake]) (auto split: if_splits)
  next
    case unset
    then show ?thesis by (simp add: wake_inv_def)
  qed (rule wake_inv_goes [OF wake], simp, simp)+
qed

end

context waiting_list
begin

lemma cv_inv_start:
  assumes "holds q []"
  shows "cv_inv holds isf n (cv_start q b)"
proof -
  have "actors P (\<lambda>_. Away :: 'i place) n = 0" if "\<not> P Away" for P
    using that by (simp add: actors_0)
  moreover have "\<not> counted (Away :: 'i place)" by (simp add: counted_def)
  ultimately show ?thesis using assms
    by (auto simp: cv_inv_defs cv_start_def ConditionVariable_new_def)
qed

lemma cv_inv_step:
  assumes "cv_inv holds isf n M" "cstep W room isf n M M'" "n < 2 ^ 31"
  shows "cv_inv holds isf n M'"
  using assms lock_inv_step [OF _ assms(2)] count_inv_step [OF _ assms(2)] list_inv_step [OF _ assms(2)]
    wake_inv_step [OF _ _ _ _ assms(2,3)]
  by (simp add: cv_inv_def)

lemma cv_inv_reachable:
  assumes "(cstep W room isf n)\<^sup>*\<^sup>* (cv_start q b) M" "holds q []" "n < 2 ^ 31"
  shows "cv_inv holds isf n M"
  using assms(1) by induction (use assms(2,3) cv_inv_start cv_inv_step in blast)+

text \<open>What the invariant says of \<open>waitingNum\<close>.\<close>

lemma actors_iterators:
  assumes lock: "lock_inv isf n M" and xs: "distinct (map snd xs)"
    "\<And>i a. (i, a) \<in> set xs \<longleftrightarrow> iterator (m_place M a) = Some i"
  shows "actors (\<lambda>p. iterator p \<noteq> None) (m_place M) n = length xs"
proof -
  have bound: "a < n" if "iterator (m_place M a) = Some i" for a i
    using lock that by (metis lock_inv_def iterator.simps(6) not_le option.distinct(1))
  have "{a. a < n \<and> iterator (m_place M a) \<noteq> None} = set (map snd xs)"
  proof (rule set_eqI)
    fix a
    have "(\<exists>i. (i, a) \<in> set xs) \<longleftrightarrow> a \<in> set (map snd xs)" by force
    then show "a \<in> {a. a < n \<and> iterator (m_place M a) \<noteq> None} \<longleftrightarrow> a \<in> set (map snd xs)"
      using xs(2) bound by auto
  qed
  then show ?thesis using distinct_card [OF xs(1)] by (simp add: actors_def)
qed

lemma actors_counted:
  "actors counted pl n =
     actors (\<lambda>p. iterator p \<noteq> None) pl n + actors on_condition pl n + actors in_transit pl n"
proof -
  have apart: "in_transit p \<Longrightarrow> iterator p = None \<and> \<not> on_condition p"
    "on_condition p \<Longrightarrow> iterator p = None" for p :: "'k place"
    by (cases p; simp)+
  let ?A = "\<lambda>P. {a. a < n \<and> P (pl a)}"
  have "?A counted = (?A (\<lambda>p. iterator p \<noteq> None) \<union> ?A on_condition) \<union> ?A in_transit"
    by (auto simp: counted_def)
  also have "card \<dots> = card (?A (\<lambda>p. iterator p \<noteq> None) \<union> ?A on_condition) + card (?A in_transit)"
    by (intro card_Un_disjoint) (auto dest: apart)
  also have "card (?A (\<lambda>p. iterator p \<noteq> None) \<union> ?A on_condition) =
      card (?A (\<lambda>p. iterator p \<noteq> None)) + card (?A on_condition)"
    by (intro card_Un_disjoint) (auto dest: apart)
  finally show ?thesis by (simp add: actors_def)
qed

lemma counters_exact:
  assumes "cv_inv holds isf n M" "n < 2 ^ 31"
  shows "\<exists>xs. holds (cv_waiting (m_cv M)) xs \<and> distinct (map snd xs) \<and>
    (\<forall>i a. (i, a) \<in> set xs \<longleftrightarrow> iterator (m_place M a) = Some i) \<and>
    unat (waitingNum (m_cv M)) =
      length xs + unat (waitingOnConditionNum (m_cv M)) + actors in_transit (m_place M) n"
proof -
  have inv: "lock_inv isf n M" "count_inv n M" "list_inv holds M" using assms(1) by (simp_all add: cv_inv_def)
  then obtain xs where xs: "holds (cv_waiting (m_cv M)) xs" "distinct (map snd xs)"
    "\<forall>i a. (i, a) \<in> set xs \<longleftrightarrow> iterator (m_place M a) = Some i"
    by (auto simp: list_inv_def)
  then show ?thesis
    using counters [OF inv(2) assms(2)] actors_counted [of "m_place M" n]
      actors_iterators [OF inv(1) xs(2)] by auto
qed

lemma operations_ok:
  assumes "cv_inv holds isf n M" "n < 2 ^ 31"
  shows "(m_place M a = Leaving i b \<longrightarrow> (\<exists>c. wait_unlist W i (m_cv M) = Inr c)) \<and>
    (\<exists>r. notify_all W (m_cv M) = Some (Inr r)) \<and> (\<exists>r. notify_one W (m_cv M) = Inr r)"
proof -
  obtain xs where xs: "holds (cv_waiting (m_cv M)) xs"
    "\<And>i a. (i, a) \<in> set xs \<longleftrightarrow> iterator (m_place M a) = Some i"
    using assms(1) by (auto simp: cv_inv_defs)
  have "\<exists>c. wait_unlist W i (m_cv M) = Inr c" if "m_place M a = Leaving i b"
  proof -
    have "(i, a) \<in> set xs" using xs(2) that by simp
    from erase_one [OF xs(1) this] show ?thesis by (auto simp: wait_unlist_def)
  qed
  moreover have "\<exists>r. notify_all W (m_cv M) = Some (Inr r)"
    using notify_all_notifies [OF xs(1)] by (cases "waitingNum (m_cv M) = 0") (auto simp: notify_all_def)
  moreover have "\<exists>r. notify_one W (m_cv M) = Inr r"
  proof (cases "waitingNum (m_cv M) = 0")
    case True
    then have "notify_one W (m_cv M) = Inr ([], False)" by (simp add: notify_one_def)
    then show ?thesis by blast
  next
    case False
    then show ?thesis using xs(1) notify_one_front notify_one_condition by (cases xs) force+
  qed
  ultimately show ?thesis by blast
qed

end

subsection \<open>The code's condition variable\<close>

definition hfts_steps ::
  "(nat \<Rightarrow> bool) \<Rightarrow> nat \<Rightarrow> (fiber linked \<times> os, entry_ptr) cv_machine
    \<Rightarrow> (fiber linked \<times> os, entry_ptr) cv_machine \<Rightarrow> bool" where
  "hfts_steps isf n = (cstep (hfts_list DefaultAllocator pointer_entry) list_room isf n)\<^sup>*\<^sup>*"

lemma hfts_inv:
  assumes "hfts_steps isf n (cv_start (list_new, s) b) M" "os_inv s" "n < 2 ^ 31"
  shows "cv_inv list_holds isf n M"
proof -
  have "list_ok os_inv os_owns os_sep [] (list_new, s)"
    using assms(2) list_new_rep by (simp add: list_ok_def list_new_def)
  then have "list_holds (list_new, s) []" by (simp add: list_holds_def)
  from hfts_waiting.cv_inv_reachable [OF _ this assms(3)] assms(1)
  show ?thesis by (simp add: hfts_steps_def)
qed

lemma steps_more:
  "hfts_steps isf n S M \<Longrightarrow> cstep (hfts_list DefaultAllocator pointer_entry) list_room isf n M M' \<Longrightarrow>
   hfts_steps isf n S M'"
  unfolding hfts_steps_def by (rule rtranclp.rtrancl_into_rtrancl)

text \<open>A run in which fiber 0 goes to sleep, and thread 1 then makes the predicate true.\<close>

definition one_asleep :: "entry_ptr \<Rightarrow> (fiber linked \<times> os) cond_var \<Rightarrow> (fiber linked \<times> os, entry_ptr) cv_machine" where
  "one_asleep i c = \<lparr>m_cv = c, m_pred = False, m_lock = None, m_place = (\<lambda>_. Away)(0 := Asleep i)\<rparr>"

lemma one_asleep_reached:
  obtains i c where "hfts_steps (\<lambda>a. a = 0) 2 (cv_start (list_new, os_fresh [4096]) False) (one_asleep i c)"
    "list_holds (cv_waiting c) [(i, 0)]" "waitingNum c = 1" "waitingOnConditionNum c = 0"
proof -
  let ?W = "hfts_list DefaultAllocator pointer_entry" and ?q = "(list_new, os_fresh [4096])"
  let ?step = "cstep ?W list_room (\<lambda>a. a = 0) 2" and ?S = "cv_start ?q False"
  let ?c1 = "wait_count (ConditionVariable_new ?q)"
  obtain i q where e: "wo_emplace ?W 0 ?q = Inr (i, q)"
    by (simp add: hfts_list_def list_evals pointer_entry_def os_eval upt_rec)
  have "list_holds ?q []"
    using list_new_rep by (simp add: list_holds_def list_ok_def list_new_def os_inv_def os_fresh_def)
  from hfts_waiting.emplace [OF this _ e] have held: "list_holds q [(i, 0)]"
    by (simp add: list_room_def list_new_def)
  let ?c = "?c1\<lparr>cv_waiting := q\<rparr>"
  let ?M = "\<lambda>l c p. \<lparr>m_cv = c, m_pred = False, m_lock = l, m_place = (\<lambda>_. Away)(0 := p)\<rparr>"
  have s0: "hfts_steps (\<lambda>a. a = 0) 2 ?S ?S" by (simp add: hfts_steps_def)
  have "?step ?S (?M (Some 0) (ConditionVariable_new ?q) Holding)"
    using cstep.acquire [of 0 2 ?S ?W list_room "\<lambda>a. a = 0"] by (simp add: cv_start_def)
  note s1 = steps_more [OF s0 this]
  have "?step (?M (Some 0) (ConditionVariable_new ?q) Holding) (?M (Some 0) ?c1 Counted)"
    using cstep.count [of 0 2 "?M (Some 0) (ConditionVariable_new ?q) Holding" ?W list_room "\<lambda>a. a = 0"]
    by simp
  note s2 = steps_more [OF s1 this]
  have "?step (?M (Some 0) ?c1 Counted) (?M (Some 0) ?c (AtPred i))"
  proof -
    have q: "cv_waiting ?c1 = ?q" by (simp add: wait_defs ConditionVariable_new_def)
    have "list_room (cv_waiting ?c1)" unfolding q by (simp add: list_room_def list_new_def)
    moreover have "wait_list ?W 0 ?c1 = Inr (i, ?c)" by (simp only: wait_list_def q e bind_res_Inr prod.case)
    ultimately show ?thesis
      using cstep.enlist [of 0 2 "?M (Some 0) ?c1 Counted" "\<lambda>a. a = 0" list_room ?W i ?c] by simp
  qed
  note s3 = steps_more [OF s2 this]
  have "?step (?M (Some 0) ?c (AtPred i)) (?M (Some 0) ?c (Suspending i))"
    using cstep.fiber_suspends [of 0 2 "?M (Some 0) ?c (AtPred i)" i ?W list_room "\<lambda>a. a = 0"] by simp
  note s4 = steps_more [OF s3 this]
  have "?step (?M (Some 0) ?c (Suspending i)) (?M None ?c (Asleep i))"
    using cstep.fiber_sleeps [of 0 2 "?M (Some 0) ?c (Suspending i)" i ?W list_room "\<lambda>a. a = 0"] by simp
  note s5 = steps_more [OF s4 this]
  show ?thesis
    by (rule that [of i ?c]) (use s5 held in \<open>simp_all add: one_asleep_def wait_defs ConditionVariable_new_def\<close>)
qed

lemma one_woken:
  obtains i M where "hfts_steps (\<lambda>a. a = 0) 2 (cv_start (list_new, os_fresh [4096]) False) M"
    "m_pred M" "m_place M = (\<lambda>_. Away)(0 := Ready i, 1 := Holding)"
proof -
  let ?W = "hfts_list DefaultAllocator pointer_entry"
  let ?step = "cstep ?W list_room (\<lambda>a. a = 0) 2" and ?isf = "\<lambda>a. a = (0 :: nat)"
  obtain i c where r: "hfts_steps ?isf 2 (cv_start (list_new, os_fresh [4096]) False) (one_asleep i c)"
    and c: "list_holds (cv_waiting c) [(i, 0)]" "waitingNum c = 1" "waitingOnConditionNum c = 0"
    by (rule one_asleep_reached)
  let ?M = "\<lambda>l p q. \<lparr>m_cv = c, m_pred = True, m_lock = l, m_place = (\<lambda>_. Away)(0 := p, 1 := q)\<rparr>"
  have "?step (one_asleep i c) (?M None (Asleep i) Setter)"
    using cstep.set_unlocked [of 1 2 "one_asleep i c" ?W list_room ?isf] by (simp add: one_asleep_def)
  note s1 = steps_more [OF r this]
  have "?step (?M None (Asleep i) Setter) (?M (Some 1) (Asleep i) Notifying)"
    using cstep.setter_locks [of 1 2 "?M None (Asleep i) Setter" ?W list_room ?isf] by simp
  note s2 = steps_more [OF s1 this]
  have walk: "notify_all_fibers ?W c = Some (Inr [0])"
    using hfts_waiting.walk [OF c(1)] by (simp add: notify_all_fibers_def)
  have "(notify_places [0] ((\<lambda>_. Away)(0 := Asleep i, 1 := Notifying)))(1 := NotifyCondition) =
      (\<lambda>_. Away)(0 := Ready i, 1 := NotifyCondition)"
    by (auto simp: fun_eq_iff notify_places_def)
  then have "?step (?M (Some 1) (Asleep i) Notifying) (?M (Some 1) (Ready i) NotifyCondition)"
    using cstep.notify_fibers [of 1 2 "?M (Some 1) (Asleep i) Notifying" ?W "[0]" list_room ?isf] walk c
    by simp
  note s3 = steps_more [OF s2 this]
  have "?step (?M (Some 1) (Ready i) NotifyCondition) (?M (Some 1) (Ready i) Holding)"
    using cstep.notify_no_threads [of 1 2 "?M (Some 1) (Ready i) NotifyCondition" ?W list_room ?isf] c
    by simp
  note s4 = steps_more [OF s3 this]
  show ?thesis by (rule that [OF s4]) simp_all
qed

text \<open>Who rests while the predicate is true and nobody is still to notify: no one.\<close>

lemma nobody_rests:
  assumes "hfts_steps isf n (cv_start (list_new, s) b) M" "os_inv s" "n < 2 ^ 31"
    and "m_pred M" "\<And>a. \<not> will_notify (m_place M a) \<and> m_place M a \<noteq> NotifyCondition"
  shows "m_place M a \<noteq> Asleep i \<and> m_place M a \<noteq> Blocked"
proof -
  have "wake_inv M" using hfts_inv [OF assms(1-3)] by (simp add: cv_inv_def)
  then have "\<not> fiber_rests (m_place M a)" "\<not> thread_rests (m_place M a)"
    using assms(4,5) by (auto simp: wake_inv_def)
  then show ?thesis by auto
qed

text \<open>
  C20. No lost wake-up: in every reachable state in which the predicate is true and every notifier
  has finished its \<open>notify_all\<close>, no fiber is suspended and no thread is blocked on the
  condition variable, whatever the interleaving of the waits, the timeouts, the changes of the
  predicate and the notifications.
\<close>

theorem no_lost_wakeup:
  assumes "hfts_steps isf n (cv_start (list_new, s) b) M" "os_inv s" "n < 2 ^ 31"
    and "m_pred M" "\<And>a. \<not> will_notify (m_place M a) \<and> m_place M a \<noteq> NotifyCondition"
  shows "m_place M a \<noteq> Asleep i \<and> m_place M a \<noteq> Blocked"
  by (rule nobody_rests [OF assms])

theorem no_lost_wakeup_witness:
  "\<exists>M i. hfts_steps (\<lambda>a. a = 0) 2 (cv_start (list_new, os_fresh [4096]) False) M \<and>
    m_place M 0 = Ready i \<and> (\<forall>a j. m_place M a \<noteq> Asleep j)"
proof -
  obtain i M where M: "hfts_steps (\<lambda>a. a = 0) 2 (cv_start (list_new, os_fresh [4096]) False) M"
    "m_pred M" "m_place M = (\<lambda>_. Away)(0 := Ready i, 1 := Holding)"
    by (rule one_woken)
  have "m_place M a \<noteq> Asleep j" for a j
    using no_lost_wakeup [OF M(1) _ _ M(2), of a j] M(3) by (simp add: os_inv_def os_fresh_def)
  then show ?thesis using M(1,3) by auto
qed

text \<open>
  What the counters count: \<open>waiting\<close> holds exactly one entry for every fiber that waits,
  and \<open>waitingNum\<close> is the size of \<open>waiting\<close> plus \<open>waitingOnConditionNum\<close>,
  plus the actors that have incremented it and not entered, or left and not decremented it. The
  comment in the class leaves these out.
\<close>

theorem waiting_counters:
  assumes "hfts_steps isf n (cv_start (list_new, s) b) M" "os_inv s" "n < 2 ^ 31"
  shows "\<exists>xs. list_holds (cv_waiting (m_cv M)) xs \<and> distinct (map snd xs) \<and>
    (\<forall>i a. (i, a) \<in> set xs \<longleftrightarrow> iterator (m_place M a) = Some i) \<and>
    unat (waitingNum (m_cv M)) =
      length xs + unat (waitingOnConditionNum (m_cv M)) + actors in_transit (m_place M) n"
  by (rule hfts_waiting.counters_exact [OF hfts_inv [OF assms] assms(3)])

theorem waiting_counters_witness:
  "\<exists>M i xs. hfts_steps (\<lambda>a. a = 0) 2 (cv_start (list_new, os_fresh [4096]) False) M \<and>
    m_place M 0 = Asleep i \<and> list_holds (cv_waiting (m_cv M)) xs \<and> (i, 0) \<in> set xs"
proof -
  obtain i c where r: "hfts_steps (\<lambda>a. a = 0) 2 (cv_start (list_new, os_fresh [4096]) False) (one_asleep i c)"
    by (rule one_asleep_reached)
  have "os_inv (os_fresh [4096])" by (simp add: os_inv_def os_fresh_def)
  from waiting_counters [OF r this] obtain xs where "list_holds (cv_waiting (m_cv (one_asleep i c))) xs"
    "\<forall>j a. (j, a) \<in> set xs \<longleftrightarrow> iterator (m_place (one_asleep i c) a) = Some j"
    by auto
  moreover have "m_place (one_asleep i c) 0 = Asleep i" by (simp add: one_asleep_def)
  ultimately show ?thesis using r
    by (intro exI [of _ "one_asleep i c"] exI [of _ i] exI [of _ xs]) simp
qed

text \<open>
  C34. The operations of the condition variable do not fault, and its counters are exact: in every
  reachable state a fiber that leaves \<open>wait\<close> erases an iterator that is still in the list,
  \<open>notify_one\<close> and \<open>notify_all\<close> return, the list holds exactly one entry for every fiber
  that waits, and \<open>waitingNum\<close> is its length plus \<open>waitingOnConditionNum\<close>, plus the actors
  that have incremented it and not entered, or left and not decremented it. The comment in the class
  leaves these out.
\<close>

theorem condition_variable_safe:
  assumes "hfts_steps isf n (cv_start (list_new, s) b) M" "os_inv s" "n < 2 ^ 31"
  shows "(m_place M a = Leaving i r \<longrightarrow>
      (\<exists>c. wait_unlist (hfts_list DefaultAllocator pointer_entry) i (m_cv M) = Inr c)) \<and>
    (\<exists>r. notify_all (hfts_list DefaultAllocator pointer_entry) (m_cv M) = Some (Inr r)) \<and>
    (\<exists>r. notify_one (hfts_list DefaultAllocator pointer_entry) (m_cv M) = Inr r) \<and>
    (\<exists>xs. list_holds (cv_waiting (m_cv M)) xs \<and> distinct (map snd xs) \<and>
      (\<forall>i a. (i, a) \<in> set xs \<longleftrightarrow> iterator (m_place M a) = Some i) \<and>
      unat (waitingNum (m_cv M)) =
        length xs + unat (waitingOnConditionNum (m_cv M)) + actors in_transit (m_place M) n)"
  using hfts_waiting.operations_ok [OF hfts_inv [OF assms] assms(3), of a i r] waiting_counters [OF assms]
  by blast

theorem condition_variable_safe_witness:
  "\<exists>M i r xs. hfts_steps (\<lambda>a. a = 0) 2 (cv_start (list_new, os_fresh [4096]) False) M \<and>
    m_place M 0 = Ready i \<and>
    notify_one (hfts_list DefaultAllocator pointer_entry) (m_cv M) = Inr r \<and>
    list_holds (cv_waiting (m_cv M)) xs \<and> (i, 0) \<in> set xs"
proof -
  obtain i M where M: "hfts_steps (\<lambda>a. a = 0) 2 (cv_start (list_new, os_fresh [4096]) False) M"
    "m_pred M" "m_place M = (\<lambda>_. Away)(0 := Ready i, 1 := Holding)"
    by (rule one_woken)
  have "os_inv (os_fresh [4096])" by (simp add: os_inv_def os_fresh_def)
  from condition_variable_safe [OF M(1) this, of 0 i True] obtain r xs where
    "notify_one (hfts_list DefaultAllocator pointer_entry) (m_cv M) = Inr r"
    "list_holds (cv_waiting (m_cv M)) xs" "\<forall>j a. (j, a) \<in> set xs \<longleftrightarrow> iterator (m_place M a) = Some j"
    by auto
  moreover have "m_place M 0 = Ready i" using M(3) by simp
  ultimately show ?thesis using M(1) by (intro exI [of _ M] exI [of _ i] exI [of _ r] exI [of _ xs]) simp
qed

subsection \<open>\<open>notify_one\<close> before the woken fiber has run\<close>

lemma enqueue_again:
  assumes "state w f = Yielded"
  shows "((snd \<circ> enqueue_fiber f) ^^ Suc k) w = snd (enqueue_fiber f w)"
  by (induction k) (auto simp: enqueue_defs)

text \<open>
  Repeated calls of \<open>notify_one\<close> wake one fiber: the fiber at the front of the list stays
  there until it has run and erased itself, so every call before that notifies this fiber again,
  which queues it once and leaves every other waiting fiber as it was.
\<close>

theorem notify_one_repeated:
  assumes "list_holds (cv_waiting c) ((i, f) # xs)" "waitingNum c \<noteq> 0" "state w f = Yielded"
  shows "notify_one (hfts_list DefaultAllocator pointer_entry) c = Inr ([f], False) \<and>
    fibers (work (((snd \<circ> enqueue_fiber f) ^^ Suc k) w)) = fibers (work w) @ [f] \<and>
    (\<forall>g. g \<noteq> f \<longrightarrow> state (((snd \<circ> enqueue_fiber f) ^^ Suc k) w) g = state w g)"
  unfolding enqueue_again [OF assms(3)]
  using hfts_waiting.notify_one_front [OF assms(1,2)] assms(3) by (simp add: enqueue_defs)

theorem notify_one_repeated_witness:
  "\<exists>c :: (fiber linked \<times> os) cond_var. \<exists>w :: nat worker.
    notify_one (hfts_list DefaultAllocator pointer_entry) c = Inr ([0], False) \<and>
    fibers (work (((snd \<circ> enqueue_fiber 0) ^^ Suc 1) w)) = [0] \<and>
    state (((snd \<circ> enqueue_fiber 0) ^^ Suc 1) w) 1 = Yielded"
proof -
  obtain i c where "hfts_steps (\<lambda>a. a = 0) 2 (cv_start (list_new, os_fresh [4096]) False) (one_asleep i c)"
    and c: "list_holds (cv_waiting c) [(i, 0)]" "waitingNum c = 1" "waitingOnConditionNum c = 0"
    by (rule one_asleep_reached)
  let ?w = "set_state 0 Yielded (set_state 1 Yielded (Worker_new MultiThreaded 0)) :: nat worker"
  have w: "state ?w 0 = Yielded" "state ?w 1 = Yielded" "fibers (work ?w) = []"
    by (simp_all add: set_state_def Worker_new_def Work_new_def)
  have "waitingNum c \<noteq> 0" using c(2) by simp
  from notify_one_repeated [OF c(1) this w(1), of 1] w show ?thesis
    by (intro exI [of _ c] exI [of _ ?w]) simp
qed

end
