(* ===== verification/Event.thy ===== *)
theory Event
  imports Condition_Variable
begin

text \<open>
  \<open>hfts::Event\<close> of \<open>include/hfts/event.hpp\<close>. The \<open>Shared\<close> objects are a
  list, a \<open>std::shared_ptr\<close> is a position in it. \<open>signal\<close> locks an event, signals the
  events that depend on it and unlocks it; the model runs these calls with an explicit stack, so that
  locking an event that is locked already, which blocks the thread forever, is a result.
\<close>

subsection \<open>State\<close>

datatype event_mode = Auto | Manual

record 'q shared =
  sh_locked :: bool                \<comment> \<open>\<open>mutex\<close>\<close>
  sh_cv :: "'q cond_var"
  sh_deps :: "nat list"
  sh_mode :: event_mode
  sh_signalled :: bool

definition Shared_new :: "'q \<Rightarrow> event_mode \<Rightarrow> bool \<Rightarrow> 'q shared" where
  "Shared_new q mode initialState =
     \<lparr>sh_locked = False, sh_cv = ConditionVariable_new q, sh_deps = [], sh_mode = mode,
      sh_signalled = initialState\<rparr>"

definition Event_new :: "'q \<Rightarrow> event_mode \<Rightarrow> bool \<Rightarrow> 'q shared list \<Rightarrow> nat \<times> 'q shared list" where
  "Event_new q mode initialState es = (length es, es @ [Shared_new q mode initialState])"

subsection \<open>\<open>signal\<close>\<close>

text \<open>A call of \<open>signal\<close> that is still to be made, or an unlock at the end of one.\<close>

datatype frame = Signal nat | Unlock nat

text \<open>Whom \<open>signal\<close> notifies.\<close>

record notice =
  n_event :: nat
  n_fibers :: "fiber list"
  n_condition :: bool

definition Shared_notify :: "('q, 'i) waiting_ops \<Rightarrow> nat \<Rightarrow> 'q shared \<Rightarrow> notice res option" where
  "Shared_notify W d e =
     (case sh_mode e of
        Auto \<Rightarrow> Some (bind_res (notify_one W (sh_cv e)) (\<lambda>(fs, b). Inr \<lparr>n_event = d, n_fibers = fs, n_condition = b\<rparr>))
      | Manual \<Rightarrow>
          (case notify_all W (sh_cv e) of
             None \<Rightarrow> None
           | Some r \<Rightarrow> Some (bind_res r (\<lambda>(fs, b). Inr \<lparr>n_event = d, n_fibers = fs, n_condition = b\<rparr>))))"

definition unsignalled :: "'q shared list \<Rightarrow> nat" where
  "unsignalled es = length (filter (Not \<circ> sh_signalled) es)"

text \<open>\<open>None\<close>: the thread blocks forever.\<close>

function (sequential) signal_run ::
  "('q, 'i) waiting_ops \<Rightarrow> frame list \<Rightarrow> 'q shared list \<Rightarrow> notice list
    \<Rightarrow> (notice list \<times> 'q shared list) res option" where
  "signal_run W [] es ns = Some (Inr (ns, es))"
| "signal_run W (Unlock d # fs) es ns =
     signal_run W fs (es[d := (es ! d)\<lparr>sh_locked := False\<rparr>]) ns"
| "signal_run W (Signal d # fs) es ns =
     (if length es \<le> d then Some (Inl WildAccess)
      else if sh_locked (es ! d) then None
      else if sh_signalled (es ! d) then signal_run W fs es ns
      else case Shared_notify W d (es ! d) of
             None \<Rightarrow> None
           | Some (Inl x) \<Rightarrow> Some (Inl x)
           | Some (Inr notice) \<Rightarrow>
               signal_run W (map Signal (sh_deps (es ! d)) @ Unlock d # fs)
                 (es[d := (es ! d)\<lparr>sh_locked := True, sh_signalled := True\<rparr>]) (ns @ [notice]))"
  by pat_completeness auto

lemma unsignalled_update:
  assumes "d < length es"
  shows "unsignalled (es[d := e]) + of_bool (\<not> sh_signalled (es ! d)) =
    unsignalled es + of_bool (\<not> sh_signalled e)"
proof -
  have "es = take d es @ es ! d # drop (Suc d) es" using assms by (rule id_take_nth_drop)
  then have "unsignalled es = unsignalled (take d es @ es ! d # drop (Suc d) es)" by simp
  moreover have "es[d := e] = take d es @ e # drop (Suc d) es" using assms by (rule upd_conv_take_nth_drop)
  ultimately show ?thesis by (simp add: unsignalled_def)
qed

lemma unsignalled_unlock: "unsignalled (es[d := (es ! d)\<lparr>sh_locked := b\<rparr>]) = unsignalled es"
  using unsignalled_update [of d es "(es ! d)\<lparr>sh_locked := b\<rparr>"]
  by (cases "d < length es") (simp_all add: list_update_beyond)

lemma unsignalled_mark:
  assumes "d < length es" "\<not> sh_signalled (es ! d)"
  shows "unsignalled (es[d := (es ! d)\<lparr>sh_locked := True, sh_signalled := True\<rparr>]) < unsignalled es"
  using unsignalled_update [OF assms(1), of "(es ! d)\<lparr>sh_locked := True, sh_signalled := True\<rparr>"] assms(2)
  by simp

termination signal_run
  by (relation "measures [\<lambda>(W, fs, es, ns). unsignalled es, \<lambda>(W, fs, es, ns). length fs]")
    (auto simp: unsignalled_unlock unsignalled_mark)

definition Event_signal ::
  "('q, 'i) waiting_ops \<Rightarrow> nat \<Rightarrow> 'q shared list \<Rightarrow> (notice list \<times> 'q shared list) res option" where
  "Event_signal W d es = signal_run W [Signal d] es []"

subsection \<open>The other operations\<close>

text \<open>A section under \<open>lock(shared->mutex)\<close> of one event.\<close>

definition with_event :: "nat \<Rightarrow> ('q shared \<Rightarrow> 'r \<times> 'q shared) \<Rightarrow> 'q shared list \<Rightarrow> ('r \<times> 'q shared list) res option" where
  "with_event d f es =
     (if length es \<le> d then Some (Inl WildAccess)
      else if sh_locked (es ! d) then None
      else let (r, e) = f (es ! d) in Some (Inr (r, es[d := e])))"

definition Event_clear :: "nat \<Rightarrow> 'q shared list \<Rightarrow> (unit \<times> 'q shared list) res option" where
  "Event_clear d = with_event d (\<lambda>e. ((), e\<lparr>sh_signalled := False\<rparr>))"

text \<open>What \<open>wait\<close>, the timed waits and \<open>test\<close> do once the event is signalled.\<close>

definition auto_reset :: "'q shared \<Rightarrow> 'q shared" where
  "auto_reset e = (if sh_mode e = Auto then e\<lparr>sh_signalled := False\<rparr> else e)"

definition Event_test :: "nat \<Rightarrow> 'q shared list \<Rightarrow> (bool \<times> 'q shared list) res option" where
  "Event_test d =
     with_event d (\<lambda>e. if \<not> sh_signalled e then (False, e) else (True, auto_reset e))"

definition Event_isSignalled :: "nat \<Rightarrow> 'q shared list \<Rightarrow> (bool \<times> 'q shared list) res option" where
  "Event_isSignalled d = with_event d (\<lambda>e. (sh_signalled e, e))"

text \<open>The rest of \<open>wait\<close> when \<open>cv.wait\<close> has returned, with the event's mutex held.\<close>

definition Shared_wait_end :: "'q shared \<Rightarrow> 'q shared" where
  "Shared_wait_end e = auto_reset e"

text \<open>The same for \<open>wait_for\<close> and \<open>wait_until\<close>; \<open>r\<close> is what the timed wait returned.\<close>

definition Shared_wait_until_end :: "bool \<Rightarrow> 'q shared \<Rightarrow> bool \<times> 'q shared" where
  "Shared_wait_until_end r e = (if \<not> r then (False, e) else (True, auto_reset e))"

text \<open>The body of the loop of \<open>any\<close>, for the event \<open>s\<close>; \<open>a\<close> is the new event.\<close>

definition any_step ::
  "('q, 'i) waiting_ops \<Rightarrow> nat \<Rightarrow> nat \<Rightarrow> 'q shared list \<Rightarrow> 'q shared list res option" where
  "any_step W a s es =
     (if length es \<le> s then Some (Inl WildAccess)
      else if sh_locked (es ! s) then None
      else let es = es[s := (es ! s)\<lparr>sh_locked := True\<rparr>]
           in case (if sh_signalled (es ! s) then Event_signal W a es else Some (Inr ([], es))) of
                None \<Rightarrow> None
              | Some (Inl x) \<Rightarrow> Some (Inl x)
              | Some (Inr (ns, es)) \<Rightarrow>
                  Some (Inr (es[s := (es ! s)\<lparr>sh_locked := False, sh_deps := sh_deps (es ! s) @ [a]\<rparr>])))"

fun any_loop ::
  "('q, 'i) waiting_ops \<Rightarrow> nat \<Rightarrow> nat list \<Rightarrow> 'q shared list \<Rightarrow> 'q shared list res option" where
  "any_loop W a [] es = Some (Inr es)"
| "any_loop W a (s # ss) es =
     (case any_step W a s es of
        Some (Inr es) \<Rightarrow> any_loop W a ss es | r \<Rightarrow> r)"

definition Event_any ::
  "('q, 'i) waiting_ops \<Rightarrow> 'q \<Rightarrow> event_mode \<Rightarrow> nat list \<Rightarrow> 'q shared list
    \<Rightarrow> (nat \<times> 'q shared list) res option" where
  "Event_any W q mode ss es =
     (let (a, es) = Event_new q mode False es
      in case any_loop W a ss es of
           None \<Rightarrow> None
         | Some r \<Rightarrow> Some (bind_res r (\<lambda>es. Inr (a, es))))"

definition Event_any_auto ::
  "('q, 'i) waiting_ops \<Rightarrow> 'q \<Rightarrow> nat list \<Rightarrow> 'q shared list \<Rightarrow> (nat \<times> 'q shared list) res option" where
  "Event_any_auto W q = Event_any W q Auto"

subsection \<open>What \<open>signal\<close> reaches\<close>

text \<open>
  The events that a signal of \<open>d\<close> reaches: those that are not signalled, through dependents
  that are not signalled.
\<close>

inductive reaches :: "'q shared list \<Rightarrow> nat \<Rightarrow> nat \<Rightarrow> bool" for es d where
  self: "d < length es \<Longrightarrow> \<not> sh_signalled (es ! d) \<Longrightarrow> reaches es d d"
| dep: "reaches es d j \<Longrightarrow> k \<in> set (sh_deps (es ! j)) \<Longrightarrow> k < length es \<Longrightarrow>
    \<not> sh_signalled (es ! k) \<Longrightarrow> reaches es d k"

inductive_cases reachesE: "reaches es d j"

lemma reaches_less: "reaches es d j \<Longrightarrow> j < length es \<and> \<not> sh_signalled (es ! j) \<and> d < length es \<and> \<not> sh_signalled (es ! d)"
  by (induction rule: reaches.induct) auto

lemma reaches_trans:
  assumes "reaches es j k" "reaches es d j"
  shows "reaches es d k"
  using assms by (induction rule: reaches.induct) (auto intro: reaches.dep)

text \<open>Marking \<open>d\<close> as signalled cuts the search at \<open>d\<close>.\<close>

definition mark :: "nat \<Rightarrow> 'q shared list \<Rightarrow> 'q shared list" where
  "mark d es = es[d := (es ! d)\<lparr>sh_locked := True, sh_signalled := True\<rparr>]"

lemma mark_nth [simp]:
  "length (mark d es) = length es"
  "d < length es \<Longrightarrow> sh_signalled (mark d es ! j) \<longleftrightarrow> j = d \<or> sh_signalled (es ! j)"
  "sh_deps (mark d es ! j) = sh_deps (es ! j)" "sh_cv (mark d es ! j) = sh_cv (es ! j)"
  "sh_mode (mark d es ! j) = sh_mode (es ! j)"
  by (cases "d < length es"; simp add: mark_def nth_list_update list_update_beyond)+

lemma reaches_mark:
  assumes "reaches (mark d es) a j" "d < length es"
  shows "reaches es a j"
  using assms(1) by (induction rule: reaches.induct) (use assms(2) in \<open>auto intro: reaches.intros\<close>)

lemma reaches_split:
  assumes "reaches es a j" "d < length es"
  shows "j = d \<or> reaches (mark d es) a j \<or> (\<exists>k \<in> set (sh_deps (es ! d)). reaches (mark d es) k j)"
  using assms(1)
proof (induction rule: reaches.induct)
  case self
  then show ?case using assms(2) by (auto intro!: reaches.self)
next
  case (dep j k)
  have "reaches (mark d es) k k" if "k \<noteq> d" using that dep assms(2) by (auto intro!: reaches.self)
  moreover have "reaches (mark d es) b k" if "k \<noteq> d" "reaches (mark d es) b j" for b
    using that dep assms(2) by (intro reaches.dep [OF that(2)]) auto
  ultimately show ?case using dep by blast
qed

lemma reaches_mark_iff:
  assumes "d < length es" "\<not> sh_signalled (es ! d)"
  shows "(\<exists>a \<in> insert d A. reaches es a j) \<longleftrightarrow>
    j = d \<or> (\<exists>a \<in> set (sh_deps (es ! d)) \<union> A. reaches (mark d es) a j)"
proof
  assume "\<exists>a \<in> insert d A. reaches es a j"
  then obtain a where a: "a \<in> insert d A" "reaches es a j" by blast
  have "\<not> reaches (mark d es) d j" using reaches_less [of "mark d es" d j] assms(1) by auto
  with reaches_split [OF a(2) assms(1)] a(1)
  show "j = d \<or> (\<exists>a \<in> set (sh_deps (es ! d)) \<union> A. reaches (mark d es) a j)" by blast
next
  assume "j = d \<or> (\<exists>a \<in> set (sh_deps (es ! d)) \<union> A. reaches (mark d es) a j)"
  moreover have self: "reaches es d d" using assms by (rule reaches.self)
  moreover have "reaches es d j" if "k \<in> set (sh_deps (es ! d))" "reaches (mark d es) k j" for k
  proof -
    have k: "reaches es k j" using reaches_mark [OF that(2) assms(1)] .
    then have "reaches es d k" using self that(1) reaches_less [OF k] by (blast intro: reaches.dep)
    with k show ?thesis by (rule reaches_trans)
  qed
  ultimately show "\<exists>a \<in> insert d A. reaches es a j"
    using reaches_mark [OF _ assms(1)] by blast
qed

subsection \<open>The stack\<close>

text \<open>Dependents are newer than the events they depend on.\<close>

definition deps_ok :: "'q shared list \<Rightarrow> bool" where
  "deps_ok es \<longleftrightarrow> (\<forall>d<length es. \<forall>k \<in> set (sh_deps (es ! d)). d < k \<and> k < length es)"

text \<open>An event is on the stack to be unlocked at most once, below newer ones.\<close>

fun stack_ok :: "nat \<Rightarrow> frame list \<Rightarrow> bool" where
  "stack_ok n [] = True"
| "stack_ok n (Signal d # fs) \<longleftrightarrow> d < n \<and> (\<forall>l. Unlock l \<in> set fs \<longrightarrow> l < d) \<and> stack_ok n fs"
| "stack_ok n (Unlock l # fs) \<longleftrightarrow> Unlock l \<notin> set fs \<and> stack_ok n fs"

definition locks_ok :: "frame list \<Rightarrow> 'q shared list \<Rightarrow> bool" where
  "locks_ok fs es \<longleftrightarrow> (\<forall>d<length es. sh_locked (es ! d) \<longleftrightarrow> Unlock d \<in> set fs)"

definition signals :: "frame list \<Rightarrow> nat set" where
  "signals fs = {d. Signal d \<in> set fs}"

lemma signals_simps [simp]:
  "signals [] = {}" "signals (Signal d # fs) = insert d (signals fs)"
  "signals (Unlock l # fs) = signals fs" "signals (map Signal ds @ fs) = set ds \<union> signals fs"
  by (auto simp: signals_def)

lemma stack_ok_push:
  assumes "stack_ok n fs" "\<forall>k \<in> set ds. d < k \<and> k < n" "\<forall>l. Unlock l \<in> set fs \<longrightarrow> l < d"
  shows "stack_ok n (map Signal ds @ Unlock d # fs)"
  using assms(2) by (induction ds) (use assms(1,3) in \<open>auto dest: order.strict_trans\<close>)

lemma Unlock_push: "Unlock l \<in> set (map Signal ds @ Unlock d # fs) \<longleftrightarrow> l = d \<or> Unlock l \<in> set fs"
  by auto

text \<open>What a call leaves alone.\<close>

definition same_shape :: "'q shared list \<Rightarrow> 'q shared list \<Rightarrow> bool" where
  "same_shape es es' \<longleftrightarrow>
     length es' = length es \<and>
     (\<forall>j<length es. sh_cv (es' ! j) = sh_cv (es ! j) \<and> sh_deps (es' ! j) = sh_deps (es ! j) \<and>
       sh_mode (es' ! j) = sh_mode (es ! j))"

lemma same_shape_trans: "same_shape es es1 \<Longrightarrow> same_shape es1 es2 \<Longrightarrow> same_shape es es2"
  by (simp add: same_shape_def)

lemma same_shapeD:
  assumes "same_shape es es'"
  shows "length es' = length es" "d < length es \<Longrightarrow> sh_deps (es' ! d) = sh_deps (es ! d)"
    "d < length es \<Longrightarrow> sh_mode (es' ! d) = sh_mode (es ! d)"
    "d < length es \<Longrightarrow> sh_cv (es' ! d) = sh_cv (es ! d)"
  using assms by (simp_all add: same_shape_def)

lemma same_shape_deps:
  assumes "same_shape es es'" "deps_ok es"
  shows "deps_ok es'"
  unfolding deps_ok_def same_shapeD(1) [OF assms(1)]
proof (intro allI impI)
  fix d assume "d < length es"
  then show "\<forall>k \<in> set (sh_deps (es' ! d)). d < k \<and> k < length es"
    using assms(2) unfolding deps_ok_def same_shapeD(2) [OF assms(1) \<open>d < length es\<close>] by blast
qed

lemma Shared_notify_cong:
  "sh_mode e' = sh_mode e \<Longrightarrow> sh_cv e' = sh_cv e \<Longrightarrow> Shared_notify W d e' = Shared_notify W d e"
  by (simp add: Shared_notify_def split: event_mode.split)

lemma same_shape_notify: "same_shape es es' \<Longrightarrow> d < length es \<Longrightarrow> Shared_notify W d (es' ! d) = Shared_notify W d (es ! d)"
  by (intro Shared_notify_cong same_shapeD)

lemma same_shape_mark: "same_shape es (mark d es)"
  by (simp add: same_shape_def)

lemma same_shape_unlock: "same_shape es (es[d := (es ! d)\<lparr>sh_locked := b\<rparr>])"
  by (cases "d < length es") (simp_all add: same_shape_def nth_list_update list_update_beyond)

text \<open>The containers of the events' condition variables are in order.\<close>

definition cvs_ok :: "('q \<Rightarrow> ('i \<times> fiber) list \<Rightarrow> bool) \<Rightarrow> 'q shared list \<Rightarrow> bool" where
  "cvs_ok H es \<longleftrightarrow> (\<forall>d<length es. \<exists>xs. H (cv_waiting (sh_cv (es ! d))) xs)"

lemma same_shape_cvs: "same_shape es es' \<Longrightarrow> cvs_ok H es \<Longrightarrow> cvs_ok H es'"
  by (simp add: cvs_ok_def same_shapeD)

text \<open>
  What a run of the stack achieves: the events reached are signalled, each of them notified once, and
  the mutexes are free.
\<close>

definition signalled_all ::
  "('q, 'i) waiting_ops \<Rightarrow> nat set \<Rightarrow> 'q shared list \<Rightarrow> notice list \<Rightarrow> 'q shared list \<Rightarrow> bool" where
  "signalled_all W A es ns es' \<longleftrightarrow>
     same_shape es es' \<and> locks_ok [] es' \<and>
     (\<forall>j<length es. sh_signalled (es' ! j) \<longleftrightarrow> sh_signalled (es ! j) \<or> (\<exists>a\<in>A. reaches es a j)) \<and>
     distinct (map n_event ns) \<and> set (map n_event ns) = {j. \<exists>a\<in>A. reaches es a j} \<and>
     (\<forall>x\<in>set ns. Shared_notify W (n_event x) (es ! n_event x) = Some (Inr x))"

lemma unlocked_again:
  assumes "\<not> sh_locked e"
  shows "e\<lparr>sh_signalled := b, sh_locked := False\<rparr> = e\<lparr>sh_signalled := b\<rparr>"
    "e\<lparr>sh_locked := False, sh_deps := ds\<rparr> = e\<lparr>sh_deps := ds\<rparr>"
  using assms by (cases e; simp)+

context waiting_list
begin

lemma notify_returns:
  assumes "cvs_ok holds es" "d < length es"
  obtains x where "Shared_notify W d (es ! d) = Some (Inr x)" "n_event x = d"
proof -
  obtain xs where xs: "holds (cv_waiting (sh_cv (es ! d))) xs" using assms by (auto simp: cvs_ok_def)
  let ?c = "sh_cv (es ! d)"
  have "\<exists>fs b. notify_one W ?c = Inr (fs, b)"
  proof (cases "waitingNum ?c = 0")
    case True
    then have "notify_one W ?c = Inr ([], False)" by (simp add: notify_one_def)
    then show ?thesis by blast
  next
    case False
    then show ?thesis using xs notify_one_front notify_one_condition by (cases xs) force+
  qed
  moreover have "\<exists>fs b. notify_all W ?c = Some (Inr (fs, b))"
    using notify_all_notifies [OF xs] by (cases "waitingNum ?c = 0") (auto simp: notify_all_def)
  ultimately show ?thesis
    by (cases "sh_mode (es ! d)") (auto simp: Shared_notify_def intro: that)
qed

lemma signalled_all_unlock:
  assumes "signalled_all W A (es[d := (es ! d)\<lparr>sh_locked := b\<rparr>]) ns es'"
  shows "signalled_all W A es ns es'"
proof -
  let ?es = "es[d := (es ! d)\<lparr>sh_locked := b\<rparr>]"
  have sig: "sh_signalled (?es ! j) = sh_signalled (es ! j)" and dps: "sh_deps (?es ! j) = sh_deps (es ! j)" for j
    by (cases "d < length es"; simp add: nth_list_update list_update_beyond)+
  have "reaches ?es a j \<Longrightarrow> reaches es a j" for a j
    by (induction rule: reaches.induct) (auto simp: sig dps intro: reaches.intros)
  moreover have "reaches es a j \<Longrightarrow> reaches ?es a j" for a j
    by (induction rule: reaches.induct) (auto simp: sig dps intro: reaches.intros)
  ultimately have r: "reaches ?es = reaches es" by (auto simp: fun_eq_iff)
  have shape: "same_shape es ?es" by (rule same_shape_unlock)
  have notify: "Shared_notify W k (?es ! k) = Shared_notify W k (es ! k)" for k
    by (intro Shared_notify_cong; cases "d < length es"; simp add: nth_list_update list_update_beyond)
  show ?thesis
    using assms same_shape_trans [OF shape] by (simp add: signalled_all_def r sig notify)
qed

lemma signalled_all_mark:
  assumes rest: "signalled_all W (set (sh_deps (es ! d)) \<union> A) (mark d es) ns es'"
    and d: "d < length es" "\<not> sh_signalled (es ! d)"
    and x: "Shared_notify W d (es ! d) = Some (Inr x)" "n_event x = d"
  shows "signalled_all W (insert d A) es (x # ns) es'"
proof -
  note S = rest [unfolded signalled_all_def]
  have iff: "(\<exists>a \<in> insert d A. reaches es a j) \<longleftrightarrow>
      j = d \<or> (\<exists>a \<in> set (sh_deps (es ! d)) \<union> A. reaches (mark d es) a j)" for j
    using d by (rule reaches_mark_iff)
  have "\<not> (\<exists>a \<in> set (sh_deps (es ! d)) \<union> A. reaches (mark d es) a d)"
    using reaches_less d(1) by fastforce
  then have "d \<notin> set (map n_event ns)" using S by blast
  moreover have "set (map n_event (x # ns)) = {j. \<exists>a \<in> insert d A. reaches es a j}"
    using S x(2) iff by auto
  moreover have "Shared_notify W (n_event y) (es ! n_event y) = Some (Inr y)" if "y \<in> set ns" for y
  proof -
    have "n_event y \<in> set (map n_event ns)" using that by simp
    then obtain a where "reaches (mark d es) a (n_event y)" using S by blast
    then have "n_event y < length es" using reaches_less by fastforce
    moreover have "Shared_notify W (n_event y) (mark d es ! n_event y) = Some (Inr y)"
      using S that by blast
    ultimately show ?thesis by (simp add: same_shape_notify [OF same_shape_mark])
  qed
  moreover have "sh_signalled (es' ! j) \<longleftrightarrow> sh_signalled (es ! j) \<or> (\<exists>a \<in> insert d A. reaches es a j)"
    if "j < length es" for j
    using S that d(1) iff [of j] by auto
  moreover have "same_shape es es'" using S same_shape_trans [OF same_shape_mark] by blast
  ultimately show ?thesis
    using S x by (simp add: signalled_all_def del: bex_simps)
qed

lemma signal_run_all:
  assumes "deps_ok es" "cvs_ok holds es" "stack_ok (length es) fs" "locks_ok fs es"
  shows "\<exists>ns' es'. signal_run W fs es ns = Some (Inr (ns @ ns', es')) \<and>
    signalled_all W (signals fs) es ns' es'"
proof -
  have "V = W \<Longrightarrow> deps_ok es \<Longrightarrow> cvs_ok holds es \<Longrightarrow> stack_ok (length es) fs \<Longrightarrow> locks_ok fs es \<Longrightarrow>
    \<exists>ns' es'. signal_run V fs es ns = Some (Inr (ns @ ns', es')) \<and>
      signalled_all W (signals fs) es ns' es'" for V
  proof (induction V fs es ns rule: signal_run.induct)
    case (1 V es ns)
    then show ?case by (auto simp: signalled_all_def same_shape_def intro!: exI [of _ "[]"])
  next
    case (2 V d fs es ns)
    let ?es = "es[d := (es ! d)\<lparr>sh_locked := False\<rparr>]"
    have shape: "same_shape es ?es" by (rule same_shape_unlock)
    have locks: "locks_ok fs ?es"
      using 2(5,6) by (cases "d < length es") (auto simp: locks_ok_def nth_list_update list_update_beyond)
    have "stack_ok (length ?es) fs" using 2(5) by simp
    from 2(1) [OF 2(2) same_shape_deps [OF shape 2(3)] same_shape_cvs [OF shape 2(4)] this locks]
    obtain ns' es' where run: "signal_run V fs ?es ns = Some (Inr (ns @ ns', es'))"
      "signalled_all W (signals fs) ?es ns' es'"
      by blast
    show ?case using run(1) signalled_all_unlock [OF run(2)]
      by (intro exI [of _ ns'] exI [of _ es']) simp
  next
    case (3 V d fs es ns)
    have d: "d < length es" and free: "Unlock d \<notin> set fs" using 3(6) by auto
    have unlocked: "\<not> sh_locked (es ! d)" using 3(7) d free by (simp add: locks_ok_def)
    show ?case
    proof (cases "sh_signalled (es ! d)")
      case True
      have "\<not> reaches es d j" for j using True reaches_less by blast
      then have same: "signalled_all W (signals (Signal d # fs)) es ns' es' = signalled_all W (signals fs) es ns' es'"
        for ns' es' by (simp add: signalled_all_def)
      have rest: "locks_ok fs es" "stack_ok (length es) fs" using 3(6,7) by (simp_all add: locks_ok_def)
      have "\<not> length es \<le> d" using d by simp
      from 3(1) [OF this unlocked True 3(3-5) rest(2,1)] show ?thesis
        unfolding same using d unlocked True by simp
    next
      case False
      obtain x where x: "Shared_notify W d (es ! d) = Some (Inr x)" "n_event x = d"
        by (rule notify_returns [OF 3(5) d])
      let ?fs = "map Signal (sh_deps (es ! d)) @ Unlock d # fs"
      have newer: "\<forall>k \<in> set (sh_deps (es ! d)). d < k \<and> k < length es"
        using 3(4) d unfolding deps_ok_def by blast
      have "stack_ok (length es) fs" "\<forall>l. Unlock l \<in> set fs \<longrightarrow> l < d" using 3(6) by simp_all
      then have stack: "stack_ok (length (mark d es)) ?fs"
        unfolding mark_nth(1) by (intro stack_ok_push newer)
      have locks: "locks_ok ?fs (mark d es)"
        using 3(7) d unfolding locks_ok_def Unlock_push by (auto simp: mark_def nth_list_update)
      have rest: "deps_ok (mark d es)" "cvs_ok holds (mark d es)"
        using 3(4,5) same_shape_deps same_shape_cvs same_shape_mark by blast+
      have xV: "Shared_notify V d (es ! d) = Some (Inr x)" using x(1) 3(3) by simp
      have "\<not> length es \<le> d" using d by simp
      from 3(2) [OF this unlocked False xV refl 3(3), folded mark_def, OF rest stack locks]
      obtain ns' es' where run: "signal_run V ?fs (mark d es) (ns @ [x]) = Some (Inr ((ns @ [x]) @ ns', es'))"
        "signalled_all W (signals ?fs) (mark d es) ns' es'"
        by blast
      have "signalled_all W (signals (Signal d # fs)) es (x # ns') es'"
        using signalled_all_mark [OF _ d False x] run(2) by simp
      moreover have "signal_run V (Signal d # fs) es ns = Some (Inr (ns @ (x # ns'), es'))"
        using run(1) d unlocked False xV by (simp add: mark_def)
      ultimately show ?thesis by blast
    qed
  qed
  then show ?thesis using assms by blast
qed

text \<open>Signalling an event without dependents.\<close>

lemma signal_leaf:
  assumes "cvs_ok holds es" "a < length es" "\<not> sh_locked (es ! a)" "sh_deps (es ! a) = []"
  shows "\<exists>ns. Event_signal W a es = Some (Inr (ns, es[a := (es ! a)\<lparr>sh_signalled := True\<rparr>]))"
proof (cases "sh_signalled (es ! a)")
  case True
  then have "es[a := (es ! a)\<lparr>sh_signalled := True\<rparr>] = es" by (simp add: list_update_same_conv [OF assms(2)])
  then show ?thesis using assms True by (simp add: Event_signal_def)
next
  case False
  obtain x where "Shared_notify W a (es ! a) = Some (Inr x)" "n_event x = a"
    by (rule notify_returns [OF assms(1,2)])
  then show ?thesis using assms False by (simp add: Event_signal_def unlocked_again)
qed

end

subsection \<open>\<open>any\<close>\<close>

text \<open>The events before and the new one after the loop over \<open>ss\<close>.\<close>

definition any_result :: "nat list \<Rightarrow> 'q shared list \<Rightarrow> 'q shared \<Rightarrow> 'q shared list" where
  "any_result ss es e =
     map (\<lambda>j. (es ! j)\<lparr>sh_deps := sh_deps (es ! j) @ replicate (count_list ss j) (length es)\<rparr>) [0..<length es] @
     [e\<lparr>sh_signalled := sh_signalled e \<or> (\<exists>s \<in> set ss. sh_signalled (es ! s))\<rparr>]"

lemma any_result_Nil: "any_result [] es e = es @ [e]"
  by (simp add: any_result_def map_nth)

lemma any_result_Cons:
  assumes "s < length es"
  shows "any_result (s # ss) es e =
    any_result ss (es[s := (es ! s)\<lparr>sh_deps := sh_deps (es ! s) @ [length es]\<rparr>])
      (e\<lparr>sh_signalled := sh_signalled e \<or> sh_signalled (es ! s)\<rparr>)"
proof -
  have "sh_signalled (es[s := (es ! s)\<lparr>sh_deps := ds\<rparr>] ! j) = sh_signalled (es ! j)" for j ds
    by (cases "j = s") (use assms in simp_all)
  then show ?thesis using assms
    by (auto simp: any_result_def nth_list_update)
qed

context waiting_list
begin

lemma any_step_result:
  assumes "cvs_ok holds (es @ [e])" "s < length es" "\<forall>j<length es. \<not> sh_locked (es ! j)"
    "\<not> sh_locked e" "sh_deps e = []"
  shows "any_step W (length es) s (es @ [e]) =
    Some (Inr (es[s := (es ! s)\<lparr>sh_deps := sh_deps (es ! s) @ [length es]\<rparr>] @
      [e\<lparr>sh_signalled := sh_signalled e \<or> sh_signalled (es ! s)\<rparr>]))"
proof -
  let ?n = "length es" and ?es = "es[s := (es ! s)\<lparr>sh_locked := True\<rparr>] @ [e]"
  have s: "(es @ [e]) ! s = es ! s" "\<not> sh_locked (es ! s)" using assms(2,3) by (simp_all add: nth_append)
  have upd: "(es @ [e])[s := (es ! s)\<lparr>sh_locked := True\<rparr>] = ?es" using assms(2) by (simp add: list_update_append)
  note unlock = unlocked_again(2) [OF s(2)]
  have "same_shape (es @ [e]) ?es" using same_shape_unlock [of "es @ [e]" s True] s(1) upd by simp
  then have "cvs_ok holds ?es" using assms(1) same_shape_cvs by blast
  from signal_leaf [OF this, of ?n] obtain ns where sig:
    "Event_signal W ?n ?es = Some (Inr (ns, es[s := (es ! s)\<lparr>sh_locked := True\<rparr>] @ [e\<lparr>sh_signalled := True\<rparr>]))"
    using assms(4,5) by (auto simp: nth_append list_update_append)
  show ?thesis
  proof (cases "sh_signalled (es ! s)")
    case True
    then show ?thesis using sig assms(2) s upd
      by (simp add: any_step_def nth_append list_update_append unlock)
  next
    case False
    have "e\<lparr>sh_signalled := sh_signalled e\<rparr> = e" by simp
    then show ?thesis using False assms(2) s upd
      by (simp add: any_step_def nth_append list_update_append unlock)
  qed
qed

lemma any_loop_result:
  assumes "cvs_ok holds (es @ [e])" "\<forall>s\<in>set ss. s < length es" "\<forall>j<length es. \<not> sh_locked (es ! j)"
    "\<not> sh_locked e" "sh_deps e = []"
  shows "any_loop W (length es) ss (es @ [e]) = Some (Inr (any_result ss es e))"
  using assms
proof (induction ss arbitrary: es e)
  case Nil
  then show ?case by (simp add: any_result_Nil)
next
  case (Cons s ss)
  let ?es = "es[s := (es ! s)\<lparr>sh_deps := sh_deps (es ! s) @ [length es]\<rparr>]"
  let ?e = "e\<lparr>sh_signalled := sh_signalled e \<or> sh_signalled (es ! s)\<rparr>"
  have s: "s < length es" using Cons.prems(2) by simp
  have "cvs_ok holds (?es @ [?e])"
    using Cons.prems(1) s by (auto simp: cvs_ok_def nth_append nth_list_update less_Suc_eq)
  moreover have "\<forall>j<length ?es. \<not> sh_locked (?es ! j)"
    using Cons.prems(3) s by (auto simp: nth_list_update)
  ultimately have "any_loop W (length ?es) ss (?es @ [?e]) = Some (Inr (any_result ss ?es ?e))"
    using Cons.prems(2,4,5) by (intro Cons.IH) simp_all
  then show ?case
    using any_step_result [OF Cons.prems(1) s Cons.prems(3-5)] any_result_Cons [OF s, of ss e] by simp
qed

end

subsection \<open>Properties\<close>

text \<open>The events of a program between its calls, over the code's list of waiting fibers.\<close>

definition events_ok :: "(fiber linked \<times> os) shared list \<Rightarrow> bool" where
  "events_ok es \<longleftrightarrow> deps_ok es \<and> cvs_ok list_holds es \<and> locks_ok [] es"

abbreviation hfts_waiters :: "(fiber linked \<times> os, entry_ptr) waiting_ops" where
  "hfts_waiters \<equiv> hfts_list DefaultAllocator pointer_entry"

lemma Event_signal_all:
  assumes "events_ok es" "d < length es"
  shows "\<exists>ns es'. Event_signal hfts_waiters d es = Some (Inr (ns, es')) \<and>
    signalled_all hfts_waiters {d} es ns es'"
  using hfts_waiting.signal_run_all [of es "[Signal d]" "[]"] assms
  by (simp add: events_ok_def locks_ok_def Event_signal_def)

lemma signalled_all_ok: "signalled_all W A es ns es' \<Longrightarrow> events_ok es \<Longrightarrow> events_ok es'"
  unfolding signalled_all_def events_ok_def using same_shape_deps same_shape_cvs by blast

text \<open>
  C35. \<open>signal\<close> terminates without locking a mutex twice, and signals exactly the events it
  reaches: the event and, through dependents that were not signalled, every dependent that was not
  signalled; each of them notifies its condition variable once (one waiter in the mode
  \<open>Auto\<close>, all of them in the mode \<open>Manual\<close>), all others stay as they were, and every
  mutex is free again.
\<close>

theorem signal_reaches:
  assumes "events_ok es" "d < length es"
  shows "\<exists>ns es'. Event_signal hfts_waiters d es = Some (Inr (ns, es')) \<and> events_ok es' \<and>
    (\<forall>j<length es. sh_signalled (es' ! j) \<longleftrightarrow> sh_signalled (es ! j) \<or> reaches es d j) \<and>
    distinct (map n_event ns) \<and> set (map n_event ns) = {j. reaches es d j} \<and>
    (\<forall>x\<in>set ns. Shared_notify hfts_waiters (n_event x) (es ! n_event x) = Some (Inr x))"
proof -
  obtain ns es' where run: "Event_signal hfts_waiters d es = Some (Inr (ns, es'))"
    "signalled_all hfts_waiters {d} es ns es'"
    using Event_signal_all [OF assms] by blast
  then show ?thesis using signalled_all_ok [OF run(2) assms(1)]
    by (intro exI [of _ ns] exI [of _ es']) (simp add: signalled_all_def)
qed

lemma new_list_holds: "os_inv s \<Longrightarrow> list_holds (list_new, s) []"
  using list_new_rep by (simp add: list_holds_def list_ok_def list_new_def)

definition two_events :: "(fiber linked \<times> os) shared list" where
  "two_events =
     [(Shared_new (list_new, os_fresh []) Manual False)\<lparr>sh_deps := [1]\<rparr>,
      Shared_new (list_new, os_fresh []) Auto False]"

lemma two_events_ok: "events_ok two_events"
proof -
  have "list_holds (list_new, os_fresh []) []"
    by (rule new_list_holds) (simp add: os_inv_def os_fresh_def)
  then show ?thesis
    by (auto simp: two_events_def events_ok_def deps_ok_def cvs_ok_def locks_ok_def Shared_new_def
        ConditionVariable_new_def less_Suc_eq)
qed

theorem signal_reaches_witness:
  "\<exists>ns es'. Event_signal hfts_waiters 0 two_events = Some (Inr (ns, es')) \<and> sh_signalled (es' ! 1)"
proof -
  have "reaches two_events 0 0" by (rule reaches.self) (simp_all add: two_events_def Shared_new_def)
  then have "reaches two_events 0 1"
    by (rule reaches.dep) (simp_all add: two_events_def Shared_new_def)
  moreover have len: "length two_events = 2" by (simp add: two_events_def)
  ultimately show ?thesis using signal_reaches [OF two_events_ok, of 0] by auto
qed

text \<open>The state after \<open>any\<close>.\<close>

lemma any_result_nth:
  "length (any_result ss es e) = Suc (length es)"
  "any_result ss es e ! length es =
     e\<lparr>sh_signalled := sh_signalled e \<or> (\<exists>s \<in> set ss. sh_signalled (es ! s))\<rparr>"
  "j < length es \<Longrightarrow> any_result ss es e ! j =
     (es ! j)\<lparr>sh_deps := sh_deps (es ! j) @ replicate (count_list ss j) (length es)\<rparr>"
  by (simp_all add: any_result_def nth_append)

lemma any_result_ok:
  assumes "events_ok es" "cvs_ok list_holds (es @ [e])" "\<not> sh_locked e" "sh_deps e = []"
  shows "events_ok (any_result ss es e)"
proof -
  let ?n = "length es" and ?es = "any_result ss es e"
  note nth = any_result_nth [where ss = ss and es = es and e = e]
  have E: "deps_ok es" "locks_ok [] es" using assms(1) by (simp_all add: events_ok_def)
  have "deps_ok ?es" unfolding deps_ok_def nth(1)
  proof (intro allI impI)
    fix d assume "d < Suc ?n"
    then consider "d = ?n" | "d < ?n" by linarith
    then show "\<forall>k \<in> set (sh_deps (?es ! d)). d < k \<and> k < Suc ?n"
    proof cases
      case 1
      then show ?thesis using nth(2) assms(4) by simp
    next
      case 2
      then have "\<forall>k \<in> set (sh_deps (es ! d)). d < k \<and> k < ?n"
        using E(1) unfolding deps_ok_def by blast
      then show ?thesis using nth(3) [OF 2] by (auto simp: 2)
    qed
  qed
  moreover have "cvs_ok list_holds ?es"
    using assms(2) nth by (auto simp: cvs_ok_def nth_append less_Suc_eq)
  moreover have "locks_ok [] ?es"
    using E(2) assms(3) nth by (auto simp: locks_ok_def less_Suc_eq)
  ultimately show ?thesis by (simp add: events_ok_def)
qed

lemma any_reaches:
  assumes "events_ok es" "s \<in> set ss" "s < length es" "\<not> sh_signalled (es ! s)"
    and "\<not> sh_signalled (any_result ss es e ! length es)"
  shows "reaches (any_result ss es e) s (length es)"
proof (rule reaches.dep [OF reaches.self])
  note nth = any_result_nth [where ss = ss and es = es and e = e]
  show "length es \<in> set (sh_deps (any_result ss es e ! s))"
    using nth(3) [OF assms(3)] assms(2) by (simp add: count_list_0_iff)
qed (use assms(3-5) in \<open>simp_all add: any_result_nth\<close>)

subsection \<open>Signals and waits\<close>

text \<open>
  Calls of any threads in the order in which they hold the mutexes: a signal of some event, a test of
  the event \<open>d\<close>, the end of a wait for it, which needs the event signalled, and the end of a
  timed wait with its result.
\<close>

datatype event_call = DoSignal nat | DoClear nat | DoTest | DoWait | DoTimedWait bool

text \<open>The first part of the state counts the tests and waits that were successful.\<close>

fun event_call_step ::
  "('q, 'i) waiting_ops \<Rightarrow> nat \<Rightarrow> event_call \<Rightarrow> nat \<times> 'q shared list \<Rightarrow> (nat \<times> 'q shared list) option" where
  "event_call_step W d (DoSignal j) (wins, es) =
     (case Event_signal W j es of Some (Inr (_, es)) \<Rightarrow> Some (wins, es) | _ \<Rightarrow> None)"
| "event_call_step W d (DoClear j) (wins, es) =
     (case Event_clear j es of Some (Inr (_, es)) \<Rightarrow> Some (wins, es) | _ \<Rightarrow> None)"
| "event_call_step W d DoTest (wins, es) =
     (case Event_test d es of Some (Inr (b, es)) \<Rightarrow> Some (wins + of_bool b, es) | _ \<Rightarrow> None)"
| "event_call_step W d DoWait (wins, es) =
     (if sh_signalled (es ! d) then Some (wins + 1, es[d := Shared_wait_end (es ! d)]) else None)"
| "event_call_step W d (DoTimedWait r) (wins, es) =
     (if r \<longrightarrow> sh_signalled (es ! d)
      then let (b, e) = Shared_wait_until_end r (es ! d) in Some (wins + of_bool b, es[d := e]) else None)"

fun event_calls ::
  "('q, 'i) waiting_ops \<Rightarrow> nat \<Rightarrow> event_call list \<Rightarrow> nat \<times> 'q shared list \<Rightarrow> (nat \<times> 'q shared list) option" where
  "event_calls W d [] st = Some st"
| "event_calls W d (c # cs) st = Option.bind (event_call_step W d c st) (event_calls W d cs)"

fun is_signal :: "event_call \<Rightarrow> bool" where
  "is_signal (DoSignal j) = True" | "is_signal c = False"

text \<open>Updating one event's signal keeps everything in order.\<close>

lemma events_ok_signal_upd:
  assumes "events_ok es"
  shows "events_ok (es[d := (es ! d)\<lparr>sh_signalled := b\<rparr>])"
proof -
  let ?es = "es[d := (es ! d)\<lparr>sh_signalled := b\<rparr>]"
  have "same_shape es ?es"
    by (cases "d < length es") (simp_all add: same_shape_def nth_list_update list_update_beyond)
  moreover have "locks_ok [] ?es"
    using assms by (cases "d < length es") (auto simp: events_ok_def locks_ok_def nth_list_update list_update_beyond)
  ultimately show ?thesis using assms same_shape_deps same_shape_cvs unfolding events_ok_def by blast
qed

lemma auto_reset_upd:
  "auto_reset e = e\<lparr>sh_signalled := sh_signalled e \<and> sh_mode e = Manual\<rparr>"
  by (cases "sh_mode e") (simp_all add: auto_reset_def)

lemma event_call_effect:
  assumes "events_ok es" "d < length es" "event_call_step hfts_waiters d c (wins, es) = Some (wins', es')"
  shows "events_ok es' \<and> length es' = length es \<and> sh_mode (es' ! d) = sh_mode (es ! d) \<and>
    (sh_mode (es ! d) = Auto \<longrightarrow>
      wins' + of_bool (sh_signalled (es' ! d)) \<le> wins + of_bool (sh_signalled (es ! d)) + of_bool (is_signal c))"
proof (cases c)
  case (DoSignal j)
  then obtain ns where run: "Event_signal hfts_waiters j es = Some (Inr (ns, es'))" "wins' = wins"
    using assms(3) by (auto split: option.splits sum.splits)
  then have "j < length es" by (auto simp: Event_signal_def split: if_splits)
  from Event_signal_all [OF assms(1) this] run(1) have all: "signalled_all hfts_waiters {j} es ns es'" by auto
  from signalled_all_ok [OF this assms(1)] all show ?thesis using run(2) DoSignal assms(2)
    by (simp add: signalled_all_def same_shapeD)
next
  case (DoClear j)
  then have "wins' = wins" "es' = es[j := (es ! j)\<lparr>sh_signalled := False\<rparr>]"
    using assms(3) by (auto simp: Event_clear_def with_event_def split: if_splits)
  then show ?thesis using events_ok_signal_upd [OF assms(1), of j False] assms(2)
    by (cases "j = d") simp_all
next
  case DoTest
  then have "wins' = wins + of_bool (sh_signalled (es ! d))"
    "es' = es[d := if sh_signalled (es ! d) then auto_reset (es ! d) else es ! d]"
    using assms(3) by (auto simp: Event_test_def with_event_def split: if_splits)
  then show ?thesis
    using events_ok_signal_upd [OF assms(1), of d] assms(1,2) by (auto simp: auto_reset_upd)
next
  case DoWait
  then have "sh_signalled (es ! d)" "wins' = wins + 1" "es' = es[d := auto_reset (es ! d)]"
    using assms(3) by (auto simp: Shared_wait_end_def split: if_splits)
  then show ?thesis using events_ok_signal_upd [OF assms(1), of d] assms(2) by (auto simp: auto_reset_upd)
next
  case (DoTimedWait r)
  then have "r \<longrightarrow> sh_signalled (es ! d)" "wins' = wins + of_bool r"
    "es' = es[d := if r then auto_reset (es ! d) else es ! d]"
    using assms(3) by (auto simp: Shared_wait_until_end_def split: if_splits)
  then show ?thesis using events_ok_signal_upd [OF assms(1), of d] assms(1,2) by (auto simp: auto_reset_upd)
qed

lemma event_calls_effect:
  assumes "events_ok es" "d < length es" "sh_mode (es ! d) = Auto"
    "event_calls hfts_waiters d cs (wins, es) = Some (wins', es')"
  shows "wins' + of_bool (sh_signalled (es' ! d)) \<le>
    wins + of_bool (sh_signalled (es ! d)) + length (filter is_signal cs)"
  using assms
proof (induction cs arbitrary: wins es)
  case Nil
  then show ?case by simp
next
  case (Cons c cs)
  obtain w es1 where step: "event_call_step hfts_waiters d c (wins, es) = Some (w, es1)"
    "event_calls hfts_waiters d cs (w, es1) = Some (wins', es')"
    using Cons.prems(4) by (auto simp: bind_eq_Some_conv)
  have e: "events_ok es1" "d < length es1" "sh_mode (es1 ! d) = Auto"
    "w + of_bool (sh_signalled (es1 ! d)) \<le> wins + of_bool (sh_signalled (es ! d)) + of_bool (is_signal c)"
    using event_call_effect [OF Cons.prems(1,2) step(1)] Cons.prems(2,3) by auto
  from Cons.IH [OF e(1-3) step(2)] e(4) show ?case by (cases "is_signal c") auto
qed

text \<open>
  C37. In the mode \<open>Auto\<close> a signal unblocks at most one wait: in any order of signals of any
  events, clears, tests, waits and timed waits, the tests and waits of an event that succeed are at
  most as many as the signals, plus one if the event was signalled at the beginning; a signal that is
  still pending is not counted twice.
\<close>

theorem auto_signal_once:
  assumes "events_ok es" "d < length es" "sh_mode (es ! d) = Auto"
    and "event_calls hfts_waiters d cs (0, es) = Some (wins, es')"
  shows "wins + of_bool (sh_signalled (es' ! d)) \<le>
    of_bool (sh_signalled (es ! d)) + length (filter is_signal cs)"
  using event_calls_effect [OF assms] by simp

theorem auto_signal_once_witness:
  "\<exists>wins es'. event_calls hfts_waiters 1 [DoSignal 1, DoSignal 1, DoWait, DoTest] (0, two_events) = Some (wins, es') \<and>
    wins = 1 \<and> wins \<le> 2"
proof -
  let ?cs = "[DoSignal 1, DoSignal 1, DoWait, DoTest]"
  have e: "1 < length two_events" "sh_mode (two_events ! 1) = Auto" "\<not> sh_signalled (two_events ! 1)"
    by (simp_all add: two_events_def Shared_new_def)
  have "waitingNum (sh_cv (two_events ! 1)) = 0" "\<not> sh_locked (two_events ! 1)" "sh_deps (two_events ! 1) = []"
    by (simp_all add: two_events_def Shared_new_def ConditionVariable_new_def)
  then obtain es' where run: "event_calls hfts_waiters 1 ?cs (0, two_events) = Some (1, es')"
    using e by (simp add: Event_signal_def Shared_notify_def notify_one_def Shared_wait_end_def auto_reset_def
        Event_test_def with_event_def)
  from auto_signal_once [OF two_events_ok e(1,2) this] e(3) have "1 \<le> (2 :: nat)" by simp
  with run show ?thesis by (intro exI [of _ 1] exI [of _ es']) simp
qed

subsection \<open>Events after \<open>any\<close>\<close>

text \<open>Calls on several events in turn: the event of a test or wait, and the call.\<close>

fun calls_in_turn ::
  "('q, 'i) waiting_ops \<Rightarrow> (nat \<times> event_call) list \<Rightarrow> 'q shared list \<Rightarrow> 'q shared list option" where
  "calls_in_turn W [] es = Some es"
| "calls_in_turn W ((d, c) # cs) es =
     (if length es \<le> d then None
      else Option.bind (event_call_step W d c (0, es)) (\<lambda>(wins, es). calls_in_turn W cs es))"

lemma event_call_shape:
  assumes "events_ok es" "d < length es" "event_call_step hfts_waiters d c (wins, es) = Some (wins', es')"
  shows "same_shape es es'"
proof -
  have upd: "same_shape es (es[j := (es ! j)\<lparr>sh_signalled := b\<rparr>])" for j b
    by (cases "j < length es") (simp_all add: same_shape_def nth_list_update list_update_beyond)
  have refl: "same_shape es es" by (simp add: same_shape_def)
  show ?thesis
  proof (cases c)
    case (DoSignal j)
    then obtain ns where run: "Event_signal hfts_waiters j es = Some (Inr (ns, es'))"
      using assms(3) by (auto split: option.splits sum.splits)
    then have "j < length es" by (auto simp: Event_signal_def split: if_splits)
    from Event_signal_all [OF assms(1) this] run show ?thesis by (auto simp: signalled_all_def)
  qed (use assms(3) upd refl in \<open>auto simp: Event_clear_def Event_test_def with_event_def Shared_wait_end_def
      auto_reset_upd Shared_wait_until_end_def Let_def split: if_splits\<close>)
qed

lemma calls_in_turn_ok:
  assumes "calls_in_turn hfts_waiters cs es = Some es'" "events_ok es"
  shows "events_ok es' \<and> same_shape es es'"
  using assms
proof (induction cs arbitrary: es)
  case Nil
  then show ?case by (simp add: same_shape_def)
next
  case (Cons dc cs)
  obtain d c where [simp]: "dc = (d, c)" by (cases dc)
  obtain w es1 where step: "d < length es" "event_call_step hfts_waiters d c (0, es) = Some (w, es1)"
    "calls_in_turn hfts_waiters cs es1 = Some es'"
    using Cons.prems(1) by (auto simp: bind_eq_Some_conv split: if_splits)
  from Cons.IH [OF step(3)] event_call_effect [OF Cons.prems(2) step(1,2)]
    event_call_shape [OF Cons.prems(2) step(1,2)] show ?case
    using same_shape_trans by blast
qed

text \<open>A signal of an event with a dependent.\<close>

lemma signal_dependent:
  assumes ok: "events_ok es" and "s < length es" "a < length es" "a \<in> set (sh_deps (es ! s))"
  shows "\<exists>ns es'. Event_signal hfts_waiters s es = Some (Inr (ns, es')) \<and>
    (sh_signalled (es' ! a) \<longleftrightarrow> sh_signalled (es ! a) \<or> \<not> sh_signalled (es ! s))"
proof -
  obtain ns es' where run: "Event_signal hfts_waiters s es = Some (Inr (ns, es'))"
    "signalled_all hfts_waiters {s} es ns es'"
    using Event_signal_all [OF ok assms(2)] by blast
  then have "sh_signalled (es' ! a) \<longleftrightarrow> sh_signalled (es ! a) \<or> reaches es s a"
    using assms(3) by (simp add: signalled_all_def)
  moreover have "reaches es s a" if "\<not> sh_signalled (es ! s)" "\<not> sh_signalled (es ! a)"
    using that assms(2-4) by (intro reaches.dep [OF reaches.self])
  moreover have "\<not> sh_signalled (es ! s)" if "reaches es s a" using reaches_less [OF that] by simp
  ultimately show ?thesis using run(1) by blast
qed

text \<open>
  C36. \<open>any\<close> gives a new event that is signalled exactly when one of the given events is, and leaves
  the given events as signalled as they were. After any signals, clears, tests and waits of any
  events that follow, a call of \<open>signal\<close> of one of the given events leaves the new event signalled
  exactly if it was signalled before or the given event was not; a given event that is still signalled
  returns at once and does not signal the new event again.
\<close>

theorem any_signalled:
  assumes "events_ok es" "\<forall>s\<in>set ss. s < length es" "os_inv m"
  shows "\<exists>es'. Event_any hfts_waiters (list_new, m) mode ss es = Some (Inr (length es, es')) \<and>
    events_ok es' \<and> length es' = Suc (length es) \<and>
    (sh_signalled (es' ! length es) \<longleftrightarrow> (\<exists>s\<in>set ss. sh_signalled (es ! s))) \<and>
    (\<forall>j<length es. sh_signalled (es' ! j) = sh_signalled (es ! j)) \<and>
    (\<forall>s\<in>set ss. \<forall>cs es1. calls_in_turn hfts_waiters cs es' = Some es1 \<longrightarrow>
      (\<exists>ns es''. Event_signal hfts_waiters s es1 = Some (Inr (ns, es'')) \<and>
        (sh_signalled (es'' ! length es) \<longleftrightarrow>
          sh_signalled (es1 ! length es) \<or> \<not> sh_signalled (es1 ! s))))"
proof -
  let ?n = "length es" and ?e = "Shared_new (list_new :: fiber linked, m) mode False"
  let ?es = "any_result ss es ?e"
  note nth = any_result_nth [where ss = ss and es = es and e = ?e]
  have e: "\<not> sh_locked ?e" "sh_deps ?e = []" "cv_waiting (sh_cv ?e) = (list_new, m)" "\<not> sh_signalled ?e"
    by (simp_all add: Shared_new_def ConditionVariable_new_def)
  have "\<exists>xs. list_holds (cv_waiting (sh_cv ?e)) xs" unfolding e(3) using new_list_holds [OF assms(3)] by blast
  then have cvs: "cvs_ok list_holds (es @ [?e])"
    using assms(1) by (simp add: events_ok_def cvs_ok_def nth_append less_Suc_eq)
  have "\<forall>j<?n. \<not> sh_locked (es ! j)" using assms(1) by (simp add: events_ok_def locks_ok_def)
  from hfts_waiting.any_loop_result [OF cvs assms(2) this e(1,2)]
  have any: "Event_any hfts_waiters (list_new, m) mode ss es = Some (Inr (?n, ?es))"
    by (simp add: Event_any_def Event_new_def)
  have ok: "events_ok ?es" by (rule any_result_ok [OF assms(1) cvs e(1,2)])
  have "\<exists>ns es''. Event_signal hfts_waiters s es1 = Some (Inr (ns, es'')) \<and>
      (sh_signalled (es'' ! ?n) \<longleftrightarrow> sh_signalled (es1 ! ?n) \<or> \<not> sh_signalled (es1 ! s))"
    if s: "s \<in> set ss" and calls: "calls_in_turn hfts_waiters cs ?es = Some es1" for s cs es1
  proof (rule signal_dependent)
    note after = calls_in_turn_ok [OF calls ok]
    then have len: "length es1 = Suc ?n" using nth(1) by (simp add: same_shape_def)
    have s_less: "s < ?n" using s assms(2) by blast
    show "events_ok es1" "s < length es1" "?n < length es1" using after len s_less by auto
    have "?n \<in> set (sh_deps (?es ! s))" using nth(3) [OF s_less] s by (simp add: count_list_0_iff)
    then show "?n \<in> set (sh_deps (es1 ! s))" using after nth(1) s_less by (simp add: same_shape_def)
  qed
  then show ?thesis using any ok nth e(4) by (intro exI [of _ ?es]) simp
qed

text \<open>A signal, a \<open>clear\<close> of the new event, and a second signal, which returns at once.\<close>

theorem any_signalled_witness:
  "\<exists>es' ns es'' es3 ns3 es4. Event_any hfts_waiters (list_new, os_fresh []) Auto [0] two_events = Some (Inr (2, es')) \<and>
    \<not> sh_signalled (es' ! 2) \<and> Event_signal hfts_waiters 0 es' = Some (Inr (ns, es'')) \<and> sh_signalled (es'' ! 2) \<and>
    calls_in_turn hfts_waiters [(0, DoSignal 0), (0, DoClear 2)] es' = Some es3 \<and>
    Event_signal hfts_waiters 0 es3 = Some (Inr (ns3, es4)) \<and> \<not> sh_signalled (es4 ! 2)"
proof -
  have len: "length two_events = 2" "\<not> sh_signalled (two_events ! 0)"
    by (simp_all add: two_events_def Shared_new_def)
  have "os_inv (os_fresh [])" by (simp add: os_inv_def os_fresh_def)
  from any_signalled [OF two_events_ok _ this, of "[0]" Auto] len obtain es' where
    any: "Event_any hfts_waiters (list_new, os_fresh []) Auto [0] two_events = Some (Inr (2, es'))" "events_ok es'"
      "\<not> sh_signalled (es' ! 2)" "\<not> sh_signalled (es' ! 0)" "length es' = 3"
    and later: "\<And>cs es1. calls_in_turn hfts_waiters cs es' = Some es1 \<Longrightarrow>
      \<exists>ns es''. Event_signal hfts_waiters 0 es1 = Some (Inr (ns, es'')) \<and>
        (sh_signalled (es'' ! 2) \<longleftrightarrow> sh_signalled (es1 ! 2) \<or> \<not> sh_signalled (es1 ! 0))"
    by auto
  obtain ns es'' where sig: "Event_signal hfts_waiters 0 es' = Some (Inr (ns, es''))" "sh_signalled (es'' ! 2)"
    using later [of "[]" es'] any(4) by auto
  have less: "0 < length es'" using sig(1) by (auto simp: Event_signal_def split: if_splits)
  from Event_signal_all [OF any(2) less] sig(1)
  have all: "signalled_all hfts_waiters {0} es' ns es''" by auto
  have s0: "sh_signalled (es'' ! 0)"
    using all less any(4) reaches.self [of 0 es'] by (auto simp: signalled_all_def)
  have shape: "length es'' = length es'" "events_ok es''"
    using all signalled_all_ok [OF all any(2)] by (simp_all add: signalled_all_def same_shape_def)
  have two: "2 < length es''" using shape(1) any(5) by simp
  have free: "\<not> sh_locked (es'' ! 2)" using shape(2) two by (simp add: events_ok_def locks_ok_def)
  let ?es3 = "es''[2 := (es'' ! 2)\<lparr>sh_signalled := False\<rparr>]"
  have calls: "calls_in_turn hfts_waiters [(0, DoSignal 0), (0, DoClear 2)] es' = Some ?es3"
    using sig(1) less shape(1) two free by (simp add: Event_clear_def with_event_def)
  from later [OF calls] obtain ns3 es4 where "Event_signal hfts_waiters 0 ?es3 = Some (Inr (ns3, es4))"
    "\<not> sh_signalled (es4 ! 2)" using s0 two by auto
  with any(1,3) sig calls show ?thesis by blast
qed

end
