(* ===== verification/Auto_Event.thy ===== *)
theory Auto_Event
  imports Wait_Machine Event
begin

text \<open>
  Fibers and threads around one \<open>Event\<close> of the default mode \<open>Auto\<close>
  (\<open>include/hfts/event.hpp\<close>), whose \<open>signal\<close> calls \<open>notify_one\<close>: the waits of
  \<open>Wait_Machine\<close>, with the calls of \<open>signal\<close>, \<open>clear\<close>, \<open>test\<close> and the
  reset at the end of a wait. Without timed waits of fibers no signal is lost; a timed wait of a fiber
  may swallow one.
\<close>

subsection \<open>Steps\<close>

text \<open>
  The moves of a wait, between its places in \<open>Wait_Machine\<close>. Only an actor whose wait has a
  timeout (\<open>t\<close>) is queued or gives up because its time is up; a \<open>std::condition_variable\<close>
  may return for no reason.
\<close>

fun wait_moves :: "bool \<Rightarrow> 'i place \<Rightarrow> 'i place \<Rightarrow> bool" where
  "wait_moves t Away p = (p = Holding)"
| "wait_moves t Holding p = (p = Away \<or> p = Counted)"
| "wait_moves t (Asleep i) p = t"
| "wait_moves t (Ready i) p = (t \<or> p = AtPred i)"
| "wait_moves t Unblocked p = (t \<or> p = OnCondition)"
| "wait_moves t (Uncount b) p = False"
| "wait_moves t Setter p = False"
| "wait_moves t Notifying p = False"
| "wait_moves t NotifyCondition p = False"
| "wait_moves t q p = (p \<noteq> q)"

text \<open>
  \<open>m_pred\<close> is \<open>signalled\<close>, \<open>m_lock\<close> the \<open>mutex\<close> of the event. A wait that
  succeeds resets \<open>signalled\<close> before it releases the mutex; \<open>takes\<close> is such a wait on an event
  that was signalled already, a \<open>test\<close>, or a \<open>clear\<close>. A \<open>signal\<close> of a signalled event
  changes nothing.
\<close>

inductive auto_step ::
  "('q, 'i) waiting_ops \<Rightarrow> ('q \<Rightarrow> bool) \<Rightarrow> (nat \<Rightarrow> bool) \<Rightarrow> (nat \<Rightarrow> bool) \<Rightarrow> nat
    \<Rightarrow> ('q, 'i) cv_machine \<Rightarrow> ('q, 'i) cv_machine \<Rightarrow> bool" for W rm isf timed n where
  waits:
    "a < n \<Longrightarrow> cstep W rm isf n M M' \<Longrightarrow> wait_moves (timed a) (m_place M a) (m_place M' a) \<Longrightarrow>
     (\<forall>b. b \<noteq> a \<longrightarrow> m_place M' b = m_place M b) \<Longrightarrow> m_pred M' = m_pred M \<Longrightarrow>
     auto_step W rm isf timed n M M'"
| returns:
    "a < n \<Longrightarrow> m_place M a = Uncount b \<Longrightarrow>
     auto_step W rm isf timed n M (goes a Holding (M\<lparr>m_cv := wait_uncount (m_cv M), m_pred := m_pred M \<and> \<not> b\<rparr>))"
| takes:
    "a < n \<Longrightarrow> m_place M a = Holding \<Longrightarrow> auto_step W rm isf timed n M (M\<lparr>m_pred := False\<rparr>)"
| signals:
    "a < n \<Longrightarrow> m_place M a = Holding \<Longrightarrow> \<not> m_pred M \<Longrightarrow>
     auto_step W rm isf timed n M (goes a Notifying (M\<lparr>m_pred := True\<rparr>))"
| notifies_fiber:
    "a < n \<Longrightarrow> m_place M a = Notifying \<Longrightarrow> notify_one W (m_cv M) = Inr ([f], False) \<Longrightarrow>
     auto_step W rm isf timed n M (M\<lparr>m_place := (notify_places [f] (m_place M))(a := Holding)\<rparr>)"
| notifies_thread:
    "a < n \<Longrightarrow> m_place M a = Notifying \<Longrightarrow> notify_one W (m_cv M) = Inr ([], True) \<Longrightarrow>
     m_place M b = Blocked \<Longrightarrow>
     auto_step W rm isf timed n M (M\<lparr>m_place := (m_place M)(b := Unblocked, a := Holding)\<rparr>)"
| notifies_nobody:
    "a < n \<Longrightarrow> m_place M a = Notifying \<Longrightarrow> notify_one W (m_cv M) = Inr ([], c) \<Longrightarrow>
     c \<longrightarrow> (\<forall>b. m_place M b \<noteq> Blocked) \<Longrightarrow>
     auto_step W rm isf timed n M (goes a Holding M)"

inductive_cases auto_stepE [consumes 1]: "auto_step W rm isf timed n M M'"

text \<open>Each step is also one of the machine's mutual exclusion, of its counters and of its list.\<close>

lemma auto_lock_inv:
  assumes inv: "lock_inv isf n M" and step: "auto_step W rm isf timed n M M'"
  shows "lock_inv isf n M'"
proof -
  note one = one_holder [OF inv]
  show ?thesis using step
  proof (cases rule: auto_step.cases)
    case (waits a)
    then show ?thesis using lock_inv_step [OF inv] by blast
  qed (use inv in \<open>auto simp: lock_inv_def dest: one split: if_splits\<close>)
qed

lemma auto_count_inv:
  assumes inv: "count_inv n M" and step: "auto_step W rm isf timed n M M'"
  shows "count_inv n M'"
  using step
proof (cases rule: auto_step.cases)
  case (waits a)
  then show ?thesis using count_inv_step [OF inv] by blast
next
  case (returns a b)
  then show ?thesis using inv actors_less [of a n counted Holding "m_place M"]
    by (simp add: count_inv_def wait_defs counted_def)
next
  case (notifies_fiber a f)
  have "actors counted (m_place M') n = actors counted (m_place M) n"
    "actors on_condition (m_place M') n = actors on_condition (m_place M) n"
    using notifies_fiber(1,3) by (auto intro!: actors_cong simp: counted_def split: if_splits)
  then show ?thesis using inv notifies_fiber(1) by (simp add: count_inv_def)
next
  case (notifies_thread a b)
  have "actors counted (m_place M') n = actors counted (m_place M) n"
    "actors on_condition (m_place M') n = actors on_condition (m_place M) n"
    using notifies_thread(1,3,5) by (auto intro!: actors_cong simp: counted_def split: if_splits)
  then show ?thesis using inv notifies_thread(1) by (simp add: count_inv_def)
qed (use inv in \<open>auto simp: count_inv_def counted_def\<close>)

subsection \<open>The invariant\<close>

text \<open>Who has seen that the event was not signalled, and who has yet to look.\<close>

fun doubts :: "'i place \<Rightarrow> bool" where
  "doubts (Suspending i) = True" | "doubts Blocking = True" | "doubts (Leaving i b) = (\<not> b)"
| "doubts (OffCondition b) = (\<not> b)" | "doubts (Uncount b) = (\<not> b)" | "doubts _ = False"

fun will_look :: "'i place \<Rightarrow> bool" where
  "will_look (Ready i) = True" | "will_look (AtPred i) = True" | "will_look (Leaving i b) = b"
| "will_look Unblocked = True" | "will_look OnCondition = True" | "will_look (OffCondition b) = b"
| "will_look (Uncount b) = b" | "will_look Notifying = True" | "will_look _ = False"

definition auto_wake :: "('q, 'i) cv_machine \<Rightarrow> bool" where
  "auto_wake M \<longleftrightarrow>
     (m_pred M \<longrightarrow> (\<forall>a. \<not> doubts (m_place M a)) \<and>
       ((\<exists>a. fiber_rests (m_place M a) \<or> thread_rests (m_place M a)) \<longrightarrow> (\<exists>b. will_look (m_place M b))))"

lemma auto_wakeD:
  assumes "auto_wake M" "m_pred M"
  shows "\<not> doubts (m_place M a)"
    and "fiber_rests (m_place M a) \<or> thread_rests (m_place M a) \<Longrightarrow> \<exists>b. will_look (m_place M b)"
  using assms by (auto simp: auto_wake_def)

lemma auto_wakeI:
  assumes "\<And>a. m_pred M \<Longrightarrow> \<not> doubts (m_place M a)" "will_look (m_place M b)"
  shows "auto_wake M"
  using assms by (auto simp: auto_wake_def)

definition auto_inv ::
  "('q \<Rightarrow> ('i \<times> fiber) list \<Rightarrow> bool) \<Rightarrow> (nat \<Rightarrow> bool) \<Rightarrow> nat \<Rightarrow> ('q, 'i) cv_machine \<Rightarrow> bool" where
  "auto_inv H isf n M \<longleftrightarrow> lock_inv isf n M \<and> count_inv n M \<and> list_inv H M \<and> auto_wake M"

text \<open>A move of a wait while the event is signalled.\<close>

lemma wait_move_looks:
  assumes step: "cstep W rm isf n M M'" and move: "wait_moves t (m_place M a) (m_place M' a)"
    and others: "\<forall>b. b \<noteq> a \<longrightarrow> m_place M' b = m_place M b" and pred: "m_pred M" "m_pred M'"
    and untimed: "isf a \<longrightarrow> \<not> t" and lock: "lock_inv isf n M" and sure: "\<not> doubts (m_place M a)"
  shows "\<not> doubts (m_place M' a) \<and> (will_look (m_place M a) \<longrightarrow> will_look (m_place M' a)) \<and>
    (fiber_rests (m_place M' a) \<or> thread_rests (m_place M' a) \<longrightarrow>
      fiber_rests (m_place M a) \<or> thread_rests (m_place M a))"
proof -
  have fib: "isf a" if "m_place M a = Ready i" for i
    using lock that by (auto simp: lock_inv_def)
  show ?thesis using step move others pred sure untimed
    by (cases rule: cstep.cases) (auto split: if_splits dest: fib)
qed

lemma auto_wake_waits:
  assumes inv: "auto_wake M" "lock_inv isf n M" and step: "cstep W rm isf n M M'"
    and move: "wait_moves (t) (m_place M a) (m_place M' a)"
    and others: "\<forall>b. b \<noteq> a \<longrightarrow> m_place M' b = m_place M b" and pred: "m_pred M' = m_pred M"
    and untimed: "isf a \<longrightarrow> \<not> t"
  shows "auto_wake M'"
proof (cases "m_pred M")
  case True
  have moved: "\<not> doubts (m_place M' a)" "will_look (m_place M a) \<longrightarrow> will_look (m_place M' a)"
    "fiber_rests (m_place M' a) \<or> thread_rests (m_place M' a) \<longrightarrow>
      fiber_rests (m_place M a) \<or> thread_rests (m_place M a)"
    using wait_move_looks [OF step move others True _ _ inv(2)] True pred untimed auto_wakeD(1) [OF inv(1) True]
    by blast+
  have same: "b = a \<or> m_place M' b = m_place M b" for b using others by blast
  have "\<not> doubts (m_place M' b)" for b using same [of b] moved(1) auto_wakeD(1) [OF inv(1) True, of b] by auto
  moreover have "\<exists>c. will_look (m_place M' c)"
    if b: "fiber_rests (m_place M' b) \<or> thread_rests (m_place M' b)" for b
  proof -
    have "fiber_rests (m_place M b) \<or> thread_rests (m_place M b)" using b same [of b] moved(3) by auto
    from auto_wakeD(2) [OF inv(1) True this] obtain c where "will_look (m_place M c)" by blast
    then have "will_look (m_place M' c)" using same [of c] moved(2) by auto
    then show ?thesis by blast
  qed
  ultimately show ?thesis by (auto simp: auto_wake_def)
qed (simp add: auto_wake_def pred)

text \<open>Nobody rests when nobody is listed and nobody is on the condition.\<close>

lemma rests_listed:
  "fiber_rests p \<or> thread_rests p \<Longrightarrow> iterator p \<noteq> None \<or> on_condition p"
  by (cases p) simp_all

context waiting_list
begin

lemma auto_list_inv:
  assumes inv: "list_inv holds M" and step: "auto_step W room isf timed n M M'"
  shows "list_inv holds M'"
proof -
  obtain xs where xs: "holds (cv_waiting (m_cv M)) xs" "distinct (map snd xs)"
    "\<And>i a. (i, a) \<in> set xs \<longleftrightarrow> iterator (m_place M a) = Some i"
    using inv by (auto simp: list_inv_def)
  show ?thesis using step
  proof (cases rule: auto_step.cases)
    case (waits a)
    then show ?thesis using list_inv_step [OF inv] by blast
  qed (use xs in \<open>auto simp: list_inv_def wait_defs intro!: exI [of _ xs]\<close>)
qed

text \<open>Whom \<open>notify_one\<close> reaches: a listed fiber, or a thread if no fiber is listed.\<close>

lemma notify_one_whom:
  assumes "list_inv holds M" "count_inv n M" "lock_inv isf n M" "n < 2 ^ 31" "notify_one W (m_cv M) = Inr (fs, c)"
  shows "\<forall>f\<in>set fs. iterator (m_place M f) \<noteq> None"
    and "fs = [] \<Longrightarrow> iterator (m_place M b) = None \<and> (on_condition (m_place M b) \<longrightarrow> c)"
proof -
  obtain xs where xs: "holds (cv_waiting (m_cv M)) xs"
    "\<And>i a. (i, a) \<in> set xs \<longleftrightarrow> iterator (m_place M a) = Some i"
    using assms(1) by (auto simp: list_inv_def)
  have away: "m_place M b = Away" if "\<not> b < n" for b using assms(3) that by (simp add: lock_inv_def)
  have out: "\<not> counted (m_place M b)" if "waitingNum (m_cv M) = 0" for b
    using counters(1) [OF assms(2,4)] that away [of b] by (cases "b < n") (simp_all add: actors_0 counted_def)
  show "\<forall>f\<in>set fs. iterator (m_place M f) \<noteq> None"
  proof (cases "waitingNum (m_cv M) = 0")
    case False
    then show ?thesis using assms(5) xs notify_one_front notify_one_condition
      by (cases xs) fastforce+
  qed (use assms(5) in \<open>simp add: notify_one_def\<close>)
  assume none: "fs = []"
  show "iterator (m_place M b) = None \<and> (on_condition (m_place M b) \<longrightarrow> c)"
  proof (cases "waitingNum (m_cv M) = 0")
    case True
    from out [OF this, of b] show ?thesis by (simp add: counted_def)
  next
    case False
    then have nil: "xs = []" using assms(5) none xs(1) notify_one_front by (cases xs) fastforce+
    then have "c \<longleftrightarrow> 0 < actors on_condition (m_place M) n"
      using notify_one_condition [of "m_cv M"] assms(5) xs(1) False none counters(3) [OF assms(2,4)] by simp
    then have "on_condition (m_place M b) \<longrightarrow> c"
      using away [of b] by (cases "b < n") (auto simp: actors_0)
    moreover have "iterator (m_place M b) = None" using xs(2) [of _ b] nil by (cases "iterator (m_place M b)") auto
    ultimately show ?thesis by simp
  qed
qed

lemma auto_wake_step:
  assumes inv: "auto_wake M" "lock_inv isf n M" "count_inv n M" "list_inv holds M"
    and step: "auto_step W room isf timed n M M'" and n: "n < 2 ^ 31"
    and untimed: "\<And>a. isf a \<Longrightarrow> \<not> timed a"
  shows "auto_wake M'"
  using step
proof (cases rule: auto_step.cases)
  case (waits a)
  show ?thesis by (rule auto_wake_waits [OF inv(1,2) waits(2-5)]) (use untimed in blast)
next
  case (returns a b)
  show ?thesis
  proof (cases b)
    case False
    with returns(3) have "doubts (m_place M a)" by simp
    then have "\<not> m_pred M" using auto_wakeD(1) [OF inv(1)] by blast
    then show ?thesis by (simp add: auto_wake_def returns(1))
  qed (simp add: auto_wake_def returns(1))
next
  case (signals a)
  have "\<not> doubts (m_place M b)" if "b \<noteq> a" for b
    using one_holder [OF inv(2), of a b] signals(3) that by (cases "m_place M b") auto
  then show ?thesis using signals(1) by (auto simp: auto_wake_def intro: exI [of _ a])
next
  case (notifies_fiber a f)
  have f: "iterator (m_place M f) \<noteq> None" "f \<noteq> a"
    using notify_one_whom(1) [OF inv(4,3,2) n notifies_fiber(4)] notifies_fiber(3) by auto
  then have "\<not> holds_lock (m_place M f)" using one_holder [OF inv(2), of a f] notifies_fiber(3) by auto
  with f have "will_look (m_place M' f)"
    using notifies_fiber(1) by (cases "m_place M f") (auto simp: notify_places_def)
  moreover have "\<not> doubts (m_place M' b)" if "m_pred M" for b
    using auto_wakeD(1) [OF inv(1) that, of b] notifies_fiber(1)
    by (cases "m_place M b") (auto simp: notify_places_def)
  ultimately show ?thesis using notifies_fiber(1) by (intro auto_wakeI [of M' f]) simp_all
next
  case (notifies_thread a b)
  have "will_look (m_place M' b)" using notifies_thread(1,3,5) by auto
  moreover have "\<not> doubts (m_place M' d)" if "m_pred M" for d
    using auto_wakeD(1) [OF inv(1) that, of d] notifies_thread(1) by simp
  ultimately show ?thesis using notifies_thread(1) by (intro auto_wakeI [of M' b]) simp_all
next
  case (notifies_nobody a c)
  have "\<not> (fiber_rests (m_place M' b) \<or> thread_rests (m_place M' b))" for b
  proof
    assume b: "fiber_rests (m_place M' b) \<or> thread_rests (m_place M' b)"
    then have "b \<noteq> a" using notifies_nobody(1) by auto
    with b notifies_nobody(1) have r: "fiber_rests (m_place M b) \<or> thread_rests (m_place M b)" by simp
    have none: "iterator (m_place M b) = None" "on_condition (m_place M b) \<longrightarrow> c"
      using notify_one_whom(2) [OF inv(4,3,2) n notifies_nobody(4)] by auto
    with r rests_listed [OF r] have "c" "m_place M b = Blocking"
      using notifies_nobody(5) by (cases "m_place M b"; auto)+
    then show False using one_holder [OF inv(2), of a b] notifies_nobody(3) \<open>b \<noteq> a\<close> by simp
  qed
  moreover have "\<not> doubts (m_place M' b)" if "m_pred M" for b
    using auto_wakeD(1) [OF inv(1) that, of b] notifies_nobody(1) by simp
  ultimately show ?thesis using notifies_nobody(1) by (auto simp: auto_wake_def)
qed (simp add: auto_wake_def)

lemma auto_inv_step:
  assumes "auto_inv holds isf n M" "auto_step W room isf timed n M M'" "n < 2 ^ 31"
    and "\<And>a. isf a \<Longrightarrow> \<not> timed a"
  shows "auto_inv holds isf n M'"
  using assms auto_lock_inv [OF _ assms(2)] auto_count_inv [OF _ assms(2)] auto_list_inv [OF _ assms(2)]
    auto_wake_step [OF _ _ _ _ assms(2,3,4)]
  by (simp add: auto_inv_def)

lemma auto_inv_reachable:
  assumes "(auto_step W room isf timed n)\<^sup>*\<^sup>* (cv_start q b) M" "holds q []" "n < 2 ^ 31"
    and "\<And>a. isf a \<Longrightarrow> \<not> timed a"
  shows "auto_inv holds isf n M"
  using assms(1)
proof induction
  case base
  show ?case using cv_inv_start [OF assms(2), of isf n b]
    by (simp add: auto_inv_def cv_inv_def auto_wake_def cv_start_def)
next
  case (step M N)
  then show ?case using auto_inv_step [OF step.IH step.hyps(2) assms(3,4)] by blast
qed

end

subsection \<open>Without timed waits of fibers\<close>

definition auto_steps ::
  "(nat \<Rightarrow> bool) \<Rightarrow> (nat \<Rightarrow> bool) \<Rightarrow> nat \<Rightarrow> (fiber linked \<times> os, entry_ptr) cv_machine
    \<Rightarrow> (fiber linked \<times> os, entry_ptr) cv_machine \<Rightarrow> bool" where
  "auto_steps isf timed n = (auto_step (hfts_list DefaultAllocator pointer_entry) list_room isf timed n)\<^sup>*\<^sup>*"

text \<open>A waiter that will look, or a signaller that will notify, can go on once the mutex is free.\<close>

lemma will_look_free:
  assumes "lock_inv isf n M" "will_look (m_place M b)"
  shows "b < n \<and> (m_lock M = None \<longrightarrow> m_place M b = Unblocked \<or> (\<exists>j. m_place M b = Ready j))"
proof -
  have "m_place M b \<noteq> Away" using assms(2) by auto
  then have "b < n" using assms(1) by (auto simp: lock_inv_def not_le [symmetric])
  moreover have "holds_lock (m_place M b) \<Longrightarrow> m_lock M = Some b" using assms(1) by (simp add: lock_inv_def)
  ultimately show ?thesis using assms(2) by (cases "m_place M b") auto
qed

text \<open>
  C21. In the mode \<open>Auto\<close> no signal is lost, as long as no fiber waits with a timeout: in every
  reachable state in which the event is signalled and a fiber is suspended or a thread blocked on it,
  another waiter is on its way to find it signalled, or the signaller is still to call
  \<open>notify_one\<close>. If nobody holds the mutex, this waiter is queued or unblocked, and its next step
  takes the mutex. Threads outside the scheduler may wait with a timeout.
\<close>

theorem auto_no_lost_signal:
  assumes "auto_steps isf timed n (cv_start (list_new, s) b) M" "os_inv s" "n < 2 ^ 31"
    and "\<And>a. isf a \<Longrightarrow> \<not> timed a"
    and "m_pred M" "m_place M a = Asleep i \<or> m_place M a = Blocked"
  shows "\<exists>c<n. c \<noteq> a \<and> will_look (m_place M c) \<and>
    (m_lock M = None \<longrightarrow> m_place M c = Unblocked \<or> (\<exists>j. m_place M c = Ready j))"
proof -
  have "list_ok os_inv os_owns os_sep [] (list_new, s)"
    using assms(2) list_new_rep by (simp add: list_ok_def list_new_def)
  then have "list_holds (list_new, s) []" by (simp add: list_holds_def)
  from hfts_waiting.auto_inv_reachable [OF _ this assms(3,4)] assms(1)
  have inv: "auto_wake M" "lock_inv isf n M" by (simp_all add: auto_steps_def auto_inv_def)
  have "fiber_rests (m_place M a) \<or> thread_rests (m_place M a)" using assms(6) by auto
  from auto_wakeD(2) [OF inv(1) assms(5) this] obtain c where c: "will_look (m_place M c)" by blast
  have "c \<noteq> a" using c assms(6) by auto
  with c will_look_free [OF inv(2) c] show ?thesis by (intro exI [of _ c]) simp
qed

subsection \<open>Runs\<close>

lemma auto_steps_more:
  "auto_steps isf timed n S M \<Longrightarrow>
   auto_step (hfts_list DefaultAllocator pointer_entry) list_room isf timed n M M' \<Longrightarrow>
   auto_steps isf timed n S M'"
  unfolding auto_steps_def by (rule rtranclp.rtrancl_into_rtrancl)

lemma auto_waits_more:
  assumes "auto_steps isf timed n S M" "cstep (hfts_list DefaultAllocator pointer_entry) list_room isf n M (goes a p N)"
    and "a < n" "m_place N = m_place M" "m_pred N = m_pred M" "wait_moves (timed a) (m_place M a) p"
  shows "auto_steps isf timed n S (goes a p N)"
  using assms by (intro auto_steps_more [OF assms(1) auto_step.waits [where a = a]]) simp_all

text \<open>A fiber that waits goes to sleep at the front of the list.\<close>

lemma fiber_falls_asleep:
  assumes run: "auto_steps isf timed n S M" and a: "a < n" "isf a" "m_place M a = Away"
    and M: "m_lock M = None" "\<not> m_pred M" "list_room (cv_waiting (m_cv M))"
    and e: "wo_emplace (hfts_list DefaultAllocator pointer_entry) a (cv_waiting (m_cv M)) = Inr (i, q)"
  shows "auto_steps isf timed n S
    (M\<lparr>m_cv := (m_cv M)\<lparr>waitingNum := waitingNum (m_cv M) + 1, cv_waiting := q\<rparr>,
       m_place := (m_place M)(a := Asleep i)\<rparr>)"
proof -
  let ?W = "hfts_list DefaultAllocator pointer_entry"
  let ?N = "\<lambda>l c p. goes a p (M\<lparr>m_lock := l, m_cv := c\<rparr>)" and ?c1 = "wait_count (m_cv M)"
  let ?c = "?c1\<lparr>cv_waiting := q\<rparr>"
  have "cstep ?W list_room isf n M (goes a Holding (M\<lparr>m_lock := Some a\<rparr>))"
    using a M by (intro cstep.acquire)
  from auto_waits_more [OF run this] a have s1: "auto_steps isf timed n S (?N (Some a) (m_cv M) Holding)" by simp
  have "cstep ?W list_room isf n (?N (Some a) (m_cv M) Holding) (goes a Counted (?N (Some a) ?c1 Holding))"
    using cstep.count [of a n "?N (Some a) (m_cv M) Holding" ?W list_room isf] a M by simp
  from auto_waits_more [OF s1 this] a have s2: "auto_steps isf timed n S (?N (Some a) ?c1 Counted)" by simp
  have "cstep ?W list_room isf n (?N (Some a) ?c1 Counted) (goes a (AtPred i) (?N (Some a) ?c Counted))"
    using cstep.enlist [of a n "?N (Some a) ?c1 Counted" isf list_room ?W i ?c] a M e
    by (simp add: wait_list_def wait_count_def)
  from auto_waits_more [OF s2 this] a have s3: "auto_steps isf timed n S (?N (Some a) ?c (AtPred i))" by simp
  have "cstep ?W list_room isf n (?N (Some a) ?c (AtPred i)) (goes a (Suspending i) (?N (Some a) ?c (AtPred i)))"
    using cstep.fiber_suspends [of a n "?N (Some a) ?c (AtPred i)" i ?W list_room isf] a M by simp
  from auto_waits_more [OF s3 this] a have s4: "auto_steps isf timed n S (?N (Some a) ?c (Suspending i))" by simp
  let ?N5 = "(?N (Some a) ?c (Suspending i))\<lparr>m_lock := None\<rparr>"
  have "cstep ?W list_room isf n (?N (Some a) ?c (Suspending i)) (goes a (Asleep i) ?N5)"
    by (rule cstep.fiber_sleeps) (simp_all add: a)
  from auto_waits_more [OF s4 this a(1)] have "auto_steps isf timed n S (goes a (Asleep i) ?N5)" by simp
  moreover have "goes a (Asleep i) ?N5 = M\<lparr>m_cv := ?c, m_place := (m_place M)(a := Asleep i)\<rparr>"
    using M(1) by simp
  ultimately show ?thesis by (simp add: wait_count_def)
qed

text \<open>Fibers 0 and 1 wait, and thread 2 signals: the fiber at the front is queued.\<close>

abbreviation three_actors ::
  "(fiber linked \<times> os) cond_var \<Rightarrow> bool \<Rightarrow> nat option \<Rightarrow> entry_ptr place \<Rightarrow> entry_ptr place \<Rightarrow> entry_ptr place
    \<Rightarrow> (fiber linked \<times> os, entry_ptr) cv_machine" where
  "three_actors c b l p q r \<equiv>
     \<lparr>m_cv = c, m_pred = b, m_lock = l, m_place = (\<lambda>_. Away)(0 := p, 1 := q, 2 := r)\<rparr>"

lemma two_asleep:
  obtains i j c where "auto_steps (\<lambda>a. a < 2) timed 3 (cv_start (list_new, os_fresh [4096]) False)
      (three_actors c False None (Asleep i) (Asleep j) Away)"
    "list_holds (cv_waiting c) [(j, 1), (i, 0)]" "waitingNum c = 2"
proof -
  let ?W = "hfts_list DefaultAllocator pointer_entry" and ?q = "(list_new, os_fresh [4096])"
  let ?S = "cv_start ?q False"
  have "\<exists>i q j r. wo_emplace ?W 0 ?q = Inr (i, q) \<and> list_room q \<and> wo_emplace ?W 1 q = Inr (j, r)"
    by (simp add: hfts_list_def list_evals pointer_entry_def os_eval upt_rec list_room_def)
  then obtain i q j r where e: "wo_emplace ?W 0 ?q = Inr (i, q)" "list_room q" "wo_emplace ?W 1 q = Inr (j, r)"
    by blast
  have room: "list_room ?q" by (simp add: list_room_def list_new_def)
  have "list_holds ?q []"
    using list_new_rep by (simp add: list_holds_def list_ok_def list_new_def os_inv_def os_fresh_def)
  from hfts_waiting.emplace [OF this room e(1)] have "list_holds q [(i, 0)]" .
  from hfts_waiting.emplace [OF this e(2,3)] have held: "list_holds r [(j, 1), (i, 0)]" .
  let ?c0 = "ConditionVariable_new ?q"
  let ?c1 = "?c0\<lparr>waitingNum := 1, cv_waiting := q\<rparr>" and ?c2 = "?c0\<lparr>waitingNum := 2, cv_waiting := r\<rparr>"
  have none: "(\<lambda>_. Away)(0 := Asleep i) = (\<lambda>_ :: nat. Away)(0 := Asleep i, 1 := Away, 2 := Away)" by auto
  have s0: "auto_steps (\<lambda>a. a < 2) timed 3 ?S ?S" by (simp add: auto_steps_def)
  have s1: "auto_steps (\<lambda>a. a < 2) timed 3 ?S (three_actors ?c1 False None (Asleep i) Away Away)"
    using fiber_falls_asleep [OF s0, of 0 i q] e(1) room none
    by (simp add: cv_start_def ConditionVariable_new_def)
  have s2: "auto_steps (\<lambda>a. a < 2) timed 3 ?S (three_actors ?c2 False None (Asleep i) (Asleep j) Away)"
    using fiber_falls_asleep [OF s1, of 1 j r] e(2,3)
    by (simp add: ConditionVariable_new_def fun_upd_twist)
  show ?thesis by (rule that [OF s2]) (use held in simp_all)
qed

lemma one_of_two_notified:
  obtains i j c where "auto_steps (\<lambda>a. a < 2) timed 3 (cv_start (list_new, os_fresh [4096]) False)
      (three_actors c True None (Asleep i) (Ready j) Away)"
    "list_holds (cv_waiting c) [(j, 1), (i, 0)]"
proof -
  let ?W = "hfts_list DefaultAllocator pointer_entry" and ?S = "cv_start (list_new, os_fresh [4096]) False"
  let ?run = "auto_steps (\<lambda>a. a < 2) timed 3 ?S"
  obtain i j c where s0: "?run (three_actors c False None (Asleep i) (Asleep j) Away)"
    and c: "list_holds (cv_waiting c) [(j, 1), (i, 0)]" "waitingNum c = 2"
    by (rule two_asleep)
  let ?M0 = "three_actors c False None (Asleep i) (Asleep j) Away"
    and ?M1 = "three_actors c False (Some 2) (Asleep i) (Asleep j) Holding"
    and ?M2 = "three_actors c True (Some 2) (Asleep i) (Asleep j) Notifying"
    and ?M3 = "three_actors c True (Some 2) (Asleep i) (Ready j) Holding"
  have "cstep ?W list_room (\<lambda>a. a < 2) 3 ?M0 (goes 2 Holding (?M0\<lparr>m_lock := Some 2\<rparr>))"
    by (rule cstep.acquire) simp_all
  from auto_waits_more [OF s0 this] have s1: "?run ?M1" by simp
  have "auto_step ?W list_room (\<lambda>a. a < 2) timed 3 ?M1 (goes 2 Notifying (?M1\<lparr>m_pred := True\<rparr>))"
    by (rule auto_step.signals) simp_all
  from auto_steps_more [OF s1 this] have s2: "?run ?M2" by simp
  have "notify_one ?W (m_cv ?M2) = Inr ([1], False)"
    using hfts_waiting.notify_one_front [OF c(1)] c(2) by simp
  then have "auto_step ?W list_room (\<lambda>a. a < 2) timed 3 ?M2
      (?M2\<lparr>m_place := (notify_places [1] (m_place ?M2))(2 := Holding)\<rparr>)"
    by (intro auto_step.notifies_fiber) simp_all
  moreover have "(notify_places [1] (m_place ?M2))(2 := Holding) = m_place ?M3"
    by (auto simp: fun_eq_iff notify_places_def)
  ultimately have s3: "?run ?M3" using auto_steps_more [OF s2] by simp
  have "cstep ?W list_room (\<lambda>a. a < 2) 3 ?M3 (goes 2 Away (?M3\<lparr>m_lock := None\<rparr>))"
    by (rule cstep.release) simp_all
  from auto_waits_more [OF s3 this] have "?run (three_actors c True None (Asleep i) (Ready j) Away)" by simp
  from that [OF this c(1)] show ?thesis .
qed

theorem auto_no_lost_signal_witness:
  "\<exists>M i j. auto_steps (\<lambda>a. a < 2) (\<lambda>_. False) 3 (cv_start (list_new, os_fresh [4096]) False) M \<and>
     m_pred M \<and> m_place M 0 = Asleep i \<and> (\<exists>c<3. c \<noteq> 0 \<and> m_place M c = Ready j)"
proof -
  obtain i j c where M: "auto_steps (\<lambda>a. a < 2) (\<lambda>_. False) 3 (cv_start (list_new, os_fresh [4096]) False)
      (three_actors c True None (Asleep i) (Ready j) Away)"
    by (rule one_of_two_notified)
  have "os_inv (os_fresh [4096])" by (simp add: os_inv_def os_fresh_def)
  from auto_no_lost_signal [OF M this, of 0 i] obtain b where b: "b < 3" "b \<noteq> 0"
    "m_place (three_actors c True None (Asleep i) (Ready j) Away) b = Unblocked \<or>
     (\<exists>k. m_place (three_actors c True None (Asleep i) (Ready j) Away) b = Ready k)"
    by auto
  have "b \<noteq> 2" using b(3) by auto
  with b(1,2) have "b = 1" by simp
  then have "\<exists>b<3. b \<noteq> 0 \<and> m_place (three_actors c True None (Asleep i) (Ready j) Away) b = Ready j"
    by (intro exI [of _ 1]) simp
  moreover have "m_place (three_actors c True None (Asleep i) (Ready j) Away) 0 = Asleep i"
    "m_pred (three_actors c True None (Asleep i) (Ready j) Away)" by simp_all
  ultimately show ?thesis using M by blast
qed

subsection \<open>A timed wait of a fiber\<close>

text \<open>The states that are reached while the event stays signalled.\<close>

definition while_signalled ::
  "(nat \<Rightarrow> bool) \<Rightarrow> (nat \<Rightarrow> bool) \<Rightarrow> nat \<Rightarrow> (fiber linked \<times> os, entry_ptr) cv_machine
    \<Rightarrow> (fiber linked \<times> os, entry_ptr) cv_machine set" where
  "while_signalled isf timed n M =
     {N. (\<lambda>X Y. auto_step (hfts_list DefaultAllocator pointer_entry) list_room isf timed n X Y \<and> m_pred Y)\<^sup>*\<^sup>* M N}"

text \<open>A signalled event wakes nobody: \<open>signal\<close> returns at once.\<close>

lemma notifying_kept:
  "unblocked p = Notifying \<longleftrightarrow> p = Notifying" "notified p = Notifying \<longleftrightarrow> p = Notifying"
  by (cases p; simp)+

lemma signalled_stays_asleep:
  assumes "m_pred M" "m_place M a = Asleep i" "\<And>b. m_place M b \<noteq> Notifying" "\<not> timed a"
  shows "while_signalled isf timed n M \<subseteq> {N. m_place N a = Asleep i}"
proof
  fix N
  assume "N \<in> while_signalled isf timed n M"
  then have "(\<lambda>X Y. auto_step (hfts_list DefaultAllocator pointer_entry) list_room isf timed n X Y \<and> m_pred Y)\<^sup>*\<^sup>* M N"
    by (simp add: while_signalled_def)
  then have "m_place N a = Asleep i \<and> m_pred N \<and> (\<forall>b. m_place N b \<noteq> Notifying)"
  proof induction
    case (step X Y)
    then have X: "m_place X a = Asleep i" "m_pred X" "\<And>b. m_place X b \<noteq> Notifying" by auto
    from step.hyps(2) have Y: "m_pred Y"
      and s: "auto_step (hfts_list DefaultAllocator pointer_entry) list_room isf timed n X Y" by auto
    from s show ?case
    proof (cases rule: auto_step.cases)
      case (waits b)
      have "b \<noteq> a" using waits(3) X(1) assms(4) by auto
      moreover have "m_place Y b \<noteq> Notifying"
        using waits(2,3) X(3) by (cases rule: cstep.cases) (auto simp: notifying_kept notify_places_def split: if_splits)
      ultimately show ?thesis using waits(4,5) X by metis
    qed (use X Y in auto)
  qed (use assms in auto)
  then show "N \<in> {N. m_place N a = Asleep i}" by simp
qed

text \<open>
  C22. In the mode \<open>Auto\<close> a timed wait of a fiber swallows a signal: \<open>Worker::wait\<close> looks at
  the clock, and not at the predicate, when the fiber has been resumed. There is a run in which fiber 0
  waits without a timeout, fiber 1 with one, and thread 2 signals once. The signal is given to fiber 1,
  the first in the list, whose time is up when it is resumed, so that its wait fails. At the end the
  event is signalled, fiber 0 is suspended, and nobody else uses the event; and fiber 0 stays suspended
  whatever others do while the event stays signalled, since further calls of \<open>signal\<close> return at
  once.
\<close>

theorem timed_wait_swallows_signal:
  "\<exists>M i. auto_steps (\<lambda>a. a < 2) (\<lambda>a. a = 1) 3 (cv_start (list_new, os_fresh [4096]) False) M \<and>
     m_pred M \<and> m_lock M = None \<and> m_place M = (\<lambda>_. Away)(0 := Asleep i) \<and>
     while_signalled (\<lambda>a. a < 2) (\<lambda>a. a = 1) 3 M \<subseteq> {N. m_place N 0 = Asleep i}"
proof -
  let ?W = "hfts_list DefaultAllocator pointer_entry" and ?S = "cv_start (list_new, os_fresh [4096]) False"
  let ?run = "auto_steps (\<lambda>a. a < 2) (\<lambda>a. a = 1) 3 ?S"
  obtain i j c where s0: "?run (three_actors c True None (Asleep i) (Ready j) Away)"
    and c: "list_holds (cv_waiting c) [(j, 1), (i, 0)]"
    by (rule one_of_two_notified)
  obtain q where q: "wo_erase ?W j (cv_waiting c) = Inr q"
    using hfts_waiting.erase [of "cv_waiting c" "[]" j 1 "[(i, 0)]"] c by auto
  then have unlist: "wait_unlist ?W j c = Inr (c\<lparr>cv_waiting := q\<rparr>)"
    by (simp only: wait_unlist_def bind_res_Inr)
  let ?c1 = "c\<lparr>cv_waiting := q\<rparr>" and ?c2 = "wait_uncount (c\<lparr>cv_waiting := q\<rparr>)"
  let ?M = "\<lambda>c l p. three_actors c True l (Asleep i) p Away"
  have "cstep ?W list_room (\<lambda>a. a < 2) 3 (?M c None (Ready j)) (goes 1 (Leaving j False) ((?M c None (Ready j))\<lparr>m_lock := Some 1\<rparr>))"
    by (rule cstep.fiber_timed_out) simp_all
  from auto_waits_more [OF s0 this] have s1: "?run (?M c (Some 1) (Leaving j False))" by (simp add: fun_upd_twist)
  have "cstep ?W list_room (\<lambda>a. a < 2) 3 (?M c (Some 1) (Leaving j False))
      (goes 1 (Uncount False) ((?M c (Some 1) (Leaving j False))\<lparr>m_cv := ?c1\<rparr>))"
    by (rule cstep.unlist) (use unlist in simp_all)
  from auto_waits_more [OF s1 this] have s2: "?run (?M ?c1 (Some 1) (Uncount False))" by (simp add: fun_upd_twist)
  have "auto_step ?W list_room (\<lambda>a. a < 2) (\<lambda>a. a = 1) 3 (?M ?c1 (Some 1) (Uncount False))
      (goes 1 Holding ((?M ?c1 (Some 1) (Uncount False))\<lparr>m_cv := ?c2, m_pred := True\<rparr>))"
    using auto_step.returns [of 1 3 "?M ?c1 (Some 1) (Uncount False)" False] by simp
  from auto_steps_more [OF s2 this] have s3: "?run (?M ?c2 (Some 1) Holding)" by (simp add: fun_upd_twist)
  have "cstep ?W list_room (\<lambda>a. a < 2) 3 (?M ?c2 (Some 1) Holding) (goes 1 Away ((?M ?c2 (Some 1) Holding)\<lparr>m_lock := None\<rparr>))"
    by (rule cstep.release) simp_all
  from auto_waits_more [OF s3 this] have s4: "?run (?M ?c2 None Away)" by (simp add: fun_upd_twist)
  have "m_place (?M ?c2 None Away) = (\<lambda>_. Away)(0 := Asleep i)" by auto
  with s4 signalled_stays_asleep [of "?M ?c2 None Away" 0 i "\<lambda>a. a = 1" "\<lambda>a. a < 2" 3] show ?thesis
    by (intro exI [of _ "?M ?c2 None Away"] exI [of _ i]) simp
qed

end
