(* ===== verification/Wait_Group.thy ===== *)
theory Wait_Group
  imports Wait_Machine
begin

text \<open>
  \<open>hfts::WaitGroup\<close> of \<open>include/hfts/waitgroup.hpp\<close>: a counter whose waiters wait
  for 0. \<open>done\<close> decrements the counter without the mutex and takes the mutex only to notify;
  the machine of the condition variable covers this order.
\<close>

subsection \<open>Operations\<close>

record 'q wait_group =
  wg_count :: u32               \<comment> \<open>\<open>std::atomic<unsigned int>\<close>\<close>
  wg_cv :: "'q cond_var"

definition WaitGroup_new :: "u32 \<Rightarrow> 'q \<Rightarrow> 'q wait_group" where
  "WaitGroup_new initialCount q = \<lparr>wg_count = initialCount, wg_cv = ConditionVariable_new q\<rparr>"

definition WaitGroup_add :: "u32 \<Rightarrow> 'q wait_group \<Rightarrow> 'q wait_group" where
  "WaitGroup_add count g = g\<lparr>wg_count := wg_count g + count\<rparr>"

text \<open>The result, what \<open>notify_all\<close> notifies if it is called, and the group.\<close>

definition WaitGroup_done ::
  "('q, 'i) waiting_ops \<Rightarrow> 'q wait_group \<Rightarrow> (bool \<times> (fiber list \<times> bool) option \<times> 'q wait_group) res option" where
  "WaitGroup_done W g =
     (let count = wg_count g - 1; g = g\<lparr>wg_count := count\<rparr>
      in if count = 0
         then case notify_all W (wg_cv g) of
                None \<Rightarrow> None
              | Some r \<Rightarrow> Some (bind_res r (\<lambda>x. Inr (True, Some x, g)))
         else Some (Inr (False, None, g)))"

text \<open>The predicate that \<open>wait\<close> waits for.\<close>

definition WaitGroup_wait_pred :: "'q wait_group \<Rightarrow> bool" where
  "WaitGroup_wait_pred g \<longleftrightarrow> wg_count g = 0"

subsection \<open>\<open>done\<close> returns true once\<close>

fun done_calls ::
  "('q, 'i) waiting_ops \<Rightarrow> nat \<Rightarrow> 'q wait_group \<Rightarrow> (bool list \<times> (fiber list \<times> bool) list \<times> 'q wait_group) res option" where
  "done_calls W 0 g = Some (Inr ([], [], g))"
| "done_calls W (Suc n) g =
     (case WaitGroup_done W g of
        None \<Rightarrow> None
      | Some (Inl e) \<Rightarrow> Some (Inl e)
      | Some (Inr (b, x, g)) \<Rightarrow>
          (case done_calls W n g of
             None \<Rightarrow> None
           | Some r \<Rightarrow> Some (bind_res r (\<lambda>(bs, xs, g).
               Inr (b # bs, (case x of None \<Rightarrow> xs | Some y \<Rightarrow> y # xs), g)))))"

context waiting_list
begin

lemma done_calls_all:
  assumes "holds (cv_waiting (wg_cv g)) xs" "waitingNum (wg_cv g) \<noteq> 0" "unat (wg_count g) = Suc n"
  shows "done_calls W (Suc n) g =
    Some (Inr (replicate n False @ [True], [(map snd xs, 0 <s waitingOnConditionNum (wg_cv g))],
      g\<lparr>wg_count := 0\<rparr>))"
  using assms
proof (induction n arbitrary: g)
  case 0
  then have "wg_count g = 1" by (metis One_nat_def unat_1 word_unat_eq_iff)
  then show ?case using notify_all_notifies [OF 0(1,2)]
    by (simp add: WaitGroup_done_def Let_def)
next
  case (Suc n)
  have "wg_count g \<noteq> 0" using Suc.prems(3) by auto
  then have dec: "unat (wg_count g - 1) = Suc n" using Suc.prems(3) by (simp add: unat_minus_one)
  let ?g = "g\<lparr>wg_count := wg_count g - 1\<rparr>"
  have "wg_count g - 1 \<noteq> 0" using dec by auto
  then have "WaitGroup_done W g = Some (Inr (False, None, ?g))"
    by (simp add: WaitGroup_done_def Let_def)
  moreover have "done_calls W (Suc n) ?g =
    Some (Inr (replicate n False @ [True], [(map snd xs, 0 <s waitingOnConditionNum (wg_cv g))],
      ?g\<lparr>wg_count := 0\<rparr>))"
    using Suc.IH [of ?g] Suc.prems dec by simp
  ultimately show ?case by (subst done_calls.simps) simp
qed

end

text \<open>
  \<open>done\<close> on a group with count \<open>n\<close>: of the next \<open>n\<close> calls exactly the last
  returns true, and it alone notifies, every fiber that waits in the list and the threads on the
  condition if there are any.
\<close>

theorem wait_group_done_once:
  assumes "list_holds (cv_waiting (wg_cv g)) xs" "waitingNum (wg_cv g) \<noteq> 0" "unat (wg_count g) = Suc n"
  shows "done_calls (hfts_list DefaultAllocator pointer_entry) (Suc n) g =
    Some (Inr (replicate n False @ [True], [(map snd xs, 0 <s waitingOnConditionNum (wg_cv g))],
      g\<lparr>wg_count := 0\<rparr>))"
  by (rule hfts_waiting.done_calls_all [OF assms])

theorem wait_group_done_once_witness:
  "\<exists>g :: (fiber linked \<times> os) wait_group. wg_count g = 3 \<and>
    done_calls (hfts_list DefaultAllocator pointer_entry) 3 g =
      Some (Inr ([False, False, True], [([0], False)], g\<lparr>wg_count := 0\<rparr>))"
proof -
  obtain i c where "hfts_steps (\<lambda>a. a = 0) 2 (cv_start (list_new, os_fresh [4096]) False) (one_asleep i c)"
    and c: "list_holds (cv_waiting c) [(i, 0)]" "waitingNum c = 1" "waitingOnConditionNum c = 0"
    by (rule one_asleep_reached)
  let ?g = "\<lparr>wg_count = 3, wg_cv = c\<rparr>"
  have "list_holds (cv_waiting (wg_cv ?g)) [(i, 0)]" "waitingNum (wg_cv ?g) \<noteq> 0"
    "unat (wg_count ?g) = Suc 2"
    using c by simp_all
  from wait_group_done_once [OF this] c(3) show ?thesis
    by (intro exI [of _ ?g]) (simp add: numeral_2_eq_2 numeral_3_eq_3)
qed

subsection \<open>Waiters and callers of \<open>done\<close>\<close>

text \<open>
  The count beside the machine of the condition variable. The waiters' steps are those of the machine
  that start no notification of their own; \<open>add\<close> stays below 2^32.
\<close>

definition waiter_step :: "('q, 'i) cv_machine \<Rightarrow> ('q, 'i) cv_machine \<Rightarrow> bool" where
  "waiter_step M M' \<longleftrightarrow>
     m_pred M' = m_pred M \<and>
     (\<forall>a. (m_place M' a = Setter \<longrightarrow> m_place M a = Setter) \<and>
       (m_place M' a = Notifying \<longrightarrow> m_place M a = Setter \<or> m_place M a = Notifying))"

inductive wgstep ::
  "('q, 'i) waiting_ops \<Rightarrow> ('q \<Rightarrow> bool) \<Rightarrow> (nat \<Rightarrow> bool) \<Rightarrow> nat
    \<Rightarrow> u32 \<times> ('q, 'i) cv_machine \<Rightarrow> u32 \<times> ('q, 'i) cv_machine \<Rightarrow> bool" for W rm isf n where
  waiter: "cstep W rm isf n M M' \<Longrightarrow> waiter_step M M' \<Longrightarrow> wgstep W rm isf n (c, M) (c, M')"
| add: "unat c + unat k < 2 ^ 32 \<Longrightarrow>
    wgstep W rm isf n (c, M) (c + k, M\<lparr>m_pred := (c + k = 0)\<rparr>)"
| done_last: "a < n \<Longrightarrow> m_place M a = Away \<Longrightarrow> c - 1 = 0 \<Longrightarrow>
    wgstep W rm isf n (c, M) (c - 1, goes a Setter (M\<lparr>m_pred := True\<rparr>))"
| done_more: "a < n \<Longrightarrow> m_place M a = Away \<Longrightarrow> c - 1 \<noteq> 0 \<Longrightarrow>
    wgstep W rm isf n (c, M) (c - 1, M\<lparr>m_pred := False\<rparr>)"

inductive_cases wgstepE: "wgstep W rm isf n (c, M) (c', M')"

definition wg_start :: "'q \<Rightarrow> u32 \<Rightarrow> u32 \<times> ('q, 'i) cv_machine" where
  "wg_start q c = (c, cv_start q (c = 0))"

text \<open>Every step of the group is a step of the condition variable, or none.\<close>

lemma wgstep_refines:
  assumes "wgstep W rm isf n (c, M) (c', M')" "m_pred M \<longleftrightarrow> c = 0"
  shows "(cstep W rm isf n)\<^sup>*\<^sup>* M M' \<and> (m_pred M' \<longleftrightarrow> c' = 0)"
  using assms(1)
proof (cases rule: wgstepE [consumes 1, case_names waiter add done_last done_more])
  case waiter
  then show ?thesis using assms(2) by (auto simp: waiter_step_def)
next
  case (add k)
  then show ?thesis
  proof (cases "c + k = 0")
    case True
    have "unat (c + k) = unat c + unat k" using add by (simp add: unat_word_ariths)
    then have "c = 0" using True by (simp add: unat_eq_0 [symmetric] del: unat_eq_0)
    then have "M' = M" using add True assms(2) by (cases M) simp
    moreover have "c' = 0" using add True by simp
    ultimately show ?thesis using assms(2) \<open>c = 0\<close> by blast
  next
    case False
    then show ?thesis using add cstep.unset [of W rm isf n M] by auto
  qed
next
  case (done_last a)
  then show ?thesis using cstep.set_unlocked [of a n M W rm isf] by auto
next
  case (done_more a)
  then show ?thesis using cstep.unset [of W rm isf n M] by auto
qed

lemma wg_reachable:
  assumes "(wgstep W rm isf n)\<^sup>*\<^sup>* (wg_start q k) (c, M)"
  shows "(cstep W rm isf n)\<^sup>*\<^sup>* (cv_start q (k = 0)) M \<and> (m_pred M \<longleftrightarrow> c = 0)"
  using assms
proof (induction "(c, M)" arbitrary: c M rule: rtranclp_induct)
  case base
  then show ?case by (auto simp: wg_start_def cv_start_def)
next
  case (step y)
  obtain c1 M1 where y: "y = (c1, M1)" by (cases y)
  from step.hyps(3) [OF y] wgstep_refines [OF step.hyps(2) [unfolded y]] show ?case
    by (meson rtranclp_trans)
qed

text \<open>
  C38. When the count is 0 and every call of \<open>done\<close> has returned, nobody waits any more: in
  every reachable state of the group in which the count is 0 and no caller of \<open>done\<close> is still
  to notify, no fiber is suspended in \<open>wait\<close> and no thread is blocked in it, although
  \<open>done\<close> decrements the count before it takes the mutex.
\<close>

theorem wait_group_releases:
  assumes "(wgstep (hfts_list DefaultAllocator pointer_entry) list_room isf n)\<^sup>*\<^sup>*
      (wg_start (list_new, s) k) (0, M)" "os_inv s" "n < 2 ^ 31"
    and "\<And>a. \<not> will_notify (m_place M a) \<and> m_place M a \<noteq> NotifyCondition"
  shows "m_place M a \<noteq> Asleep i \<and> m_place M a \<noteq> Blocked"
proof -
  have "hfts_steps isf n (cv_start (list_new, s) (k = 0)) M" "m_pred M"
    using wg_reachable [OF assms(1)] by (simp_all add: hfts_steps_def)
  from nobody_rests [OF this(1) assms(2,3) this(2) assms(4)] show ?thesis by blast
qed

theorem wait_group_releases_witness:
  "\<exists>M. (wgstep (hfts_list DefaultAllocator pointer_entry) list_room (\<lambda>a. a = 0) 2)\<^sup>*\<^sup>*
      (wg_start (list_new, os_fresh []) 1) (0, M) \<and> m_place M 1 = Holding \<and>
    (\<forall>a i. m_place M a \<noteq> Asleep i)"
proof -
  let ?W = "hfts_list DefaultAllocator pointer_entry" and ?isf = "\<lambda>a. a = (0 :: nat)"
  let ?q = "(list_new :: fiber linked, os_fresh [])"
  let ?M = "\<lambda>l b p. \<lparr>m_cv = ConditionVariable_new ?q, m_pred = b, m_lock = l, m_place = (\<lambda>_. Away)(1 := p)\<rparr>"
  have s1: "wgstep ?W list_room ?isf 2 (wg_start ?q 1) (0, ?M None True Setter)"
    using wgstep.done_last [of 1 2 "cv_start ?q False" 1 ?W list_room ?isf]
    by (simp add: wg_start_def cv_start_def)
  have "cstep ?W list_room ?isf 2 (?M None True Setter) (?M (Some 1) True Notifying)"
    using cstep.setter_locks [of 1 2 "?M None True Setter" ?W list_room ?isf] by simp
  then have s2: "wgstep ?W list_room ?isf 2 (0, ?M None True Setter) (0, ?M (Some 1) True Notifying)"
    by (rule wgstep.waiter) (auto simp: waiter_step_def)
  have "cstep ?W list_room ?isf 2 (?M (Some 1) True Notifying) (?M (Some 1) True Holding)"
    using cstep.notify_nobody [of 1 2 "?M (Some 1) True Notifying" ?W list_room ?isf]
    by (simp add: ConditionVariable_new_def)
  then have s3: "wgstep ?W list_room ?isf 2 (0, ?M (Some 1) True Notifying) (0, ?M (Some 1) True Holding)"
    by (rule wgstep.waiter) (auto simp: waiter_step_def)
  have run: "(wgstep ?W list_room ?isf 2)\<^sup>*\<^sup>* (wg_start ?q 1) (0, ?M (Some 1) True Holding)"
    using s1 s2 s3 by (meson rtranclp.rtrancl_into_rtrancl rtranclp.rtrancl_refl)
  have "os_inv (os_fresh [])" by (simp add: os_inv_def os_fresh_def)
  from wait_group_releases [OF run this] run show ?thesis
    by (intro exI [of _ "?M (Some 1) True Holding"]) simp
qed

end
