(* ===== verification/Benchmark.thy ===== *)
theory Benchmark
  imports Prelude "HOL-Library.Char_ord" "HOL-Library.Multiset"
begin

text \<open>
  The benchmark program (\<open>example/benchmark.cpp\<close>): the pseudo-random work of a task, the task,
  blocking and reduce benchmarks up to their checksums, the parsing of the command line, and the plain
  thread pool that the scheduler is compared with. The measured times and the output are not modelled;
  the order in which a scheduler runs the tasks is an argument.
\<close>

unbundle bit_operations_syntax

subsection \<open>Work\<close>

type_synonym int32 = "32 word"     \<comment> \<open>\<open>int\<close>, read by \<open>sint\<close>\<close>

definition xorshift64 :: "u64 \<Rightarrow> u64" where
  "xorshift64 x =
     (let x = x XOR push_bit 13 x;
          x = x XOR drop_bit 7 x;
          x = x XOR push_bit 17 x
      in x)"

definition doWork :: "u64 \<Rightarrow> int32 \<Rightarrow> u64" where
  "doWork seed rounds =
     foldl (\<lambda>v i. xorshift64 (v + of_nat (i + 1))) (seed + 0x9e3779b97f4a7c15) [0..<nat (sint rounds)]"

definition reduceRange :: "u64 \<Rightarrow> u64 \<Rightarrow> int32 \<Rightarrow> u64" where
  "reduceRange begin stop work =
     foldl (\<lambda>acc i. acc + doWork (of_nat i + 1) work) 0 [unat begin..<unat stop]"

definition sumValues :: "u64 list \<Rightarrow> u64" where
  "sumValues values = foldl (\<lambda>sum v. sum + v) 0 values"

subsection \<open>Benchmarks\<close>

text \<open>
  The body of a task, which writes its own place of \<open>outputs\<close>. \<open>order\<close> lists the tasks as
  they run, on whichever worker; both schedulers run the same bodies.
\<close>

definition task_body :: "int32 \<Rightarrow> nat \<Rightarrow> u64 list \<Rightarrow> u64 list" where
  "task_body taskWork i outputs = outputs[i := doWork (of_nat i + 1) taskWork]"

definition runTaskBenchmark :: "nat list \<Rightarrow> u32 \<Rightarrow> int32 \<Rightarrow> u64" where
  "runTaskBenchmark order taskCount taskWork =
     sumValues (foldl (\<lambda>outputs i. task_body taskWork i outputs) (replicate (unat taskCount) 0) order)"

definition runPlainPoolTaskBenchmark :: "nat list \<Rightarrow> u32 \<Rightarrow> int32 \<Rightarrow> u64" where
  "runPlainPoolTaskBenchmark order taskCount taskWork =
     sumValues (foldl (\<lambda>outputs i. task_body taskWork i outputs) (replicate (unat taskCount) 0) order)"

text \<open>The two checksums that are compared, each for the order of its scheduler.\<close>

definition runShortTaskComparison :: "nat list \<Rightarrow> nat list \<Rightarrow> u32 \<Rightarrow> int32 \<Rightarrow> u64 \<times> u64" where
  "runShortTaskComparison hftsOrder poolOrder shortTaskCount shortTaskWork =
     (runTaskBenchmark hftsOrder shortTaskCount shortTaskWork,
      runPlainPoolTaskBenchmark poolOrder shortTaskCount shortTaskWork)"

text \<open>The two parts of a task that blocks at the gate; \<open>True\<close> for the part before it.\<close>

definition blocking_body :: "int32 \<Rightarrow> bool \<times> nat \<Rightarrow> u64 list \<Rightarrow> u64 list" where
  "blocking_body taskWork part outputs =
     (let i = snd part in
      if fst part then outputs[i := doWork (of_nat i + 1) taskWork]
      else outputs[i := outputs ! i XOR doWork (of_nat i + 1000003) taskWork])"

definition runFiberBlockingBenchmark :: "(bool \<times> nat) list \<Rightarrow> u32 \<Rightarrow> int32 \<Rightarrow> u64" where
  "runFiberBlockingBenchmark order taskCount taskWork =
     sumValues (foldl (\<lambda>outputs part. blocking_body taskWork part outputs)
       (replicate (unat taskCount) 0) order)"

definition runPlainPoolBlockingBenchmark :: "(bool \<times> nat) list \<Rightarrow> u32 \<Rightarrow> int32 \<Rightarrow> u64" where
  "runPlainPoolBlockingBenchmark order taskCount taskWork =
     sumValues (foldl (\<lambda>outputs part. blocking_body taskWork part outputs)
       (replicate (unat taskCount) 0) order)"

definition chunk_count :: "u64 \<Rightarrow> u64 \<Rightarrow> u64 res" where
  "chunk_count reduceItems chunkSize =
     (if chunkSize = 0 then Inl DivByZero else Inr ((reduceItems + chunkSize - 1) div chunkSize))"

definition reduce_body :: "u64 \<Rightarrow> u64 \<Rightarrow> int32 \<Rightarrow> nat \<Rightarrow> u64 list \<Rightarrow> u64 list" where
  "reduce_body reduceItems chunkSize reduceWork chunk partials =
     (let begin = of_nat chunk * chunkSize;
          stop = min (begin + chunkSize) reduceItems
      in partials[chunk := reduceRange begin stop reduceWork])"

text \<open>The number of chunks, the count of the wait group, and the checksum.\<close>

definition runParallelReduce ::
  "nat list \<Rightarrow> u64 \<Rightarrow> int32 \<Rightarrow> u64 \<Rightarrow> (u64 \<times> u32 \<times> u64) res" where
  "runParallelReduce order reduceItems reduceWork chunkSize =
     bind_res (chunk_count reduceItems chunkSize) (\<lambda>chunkCount.
     let partials = replicate (unat chunkCount) 0;
         partials = foldl (\<lambda>partials chunk. reduce_body reduceItems chunkSize reduceWork chunk partials)
           partials order
     in Inr (chunkCount, ucast chunkCount, sumValues partials))"

definition runSequentialReduce :: "u64 \<Rightarrow> int32 \<Rightarrow> u64" where
  "runSequentialReduce reduceItems reduceWork = reduceRange 0 reduceItems reduceWork"

subsection \<open>The command line\<close>

text \<open>
  \<open>std::strtoull\<close> in base 10: white space, a sign, digits; the value and what follows, which is
  the whole text when there are no digits. A value out of range gives the greatest one, a minus sign
  negates in 64 bits.
\<close>

definition isspace :: "char \<Rightarrow> bool" where
  "isspace c \<longleftrightarrow> of_char c = (32 :: nat) \<or> 9 \<le> (of_char c :: nat) \<and> (of_char c :: nat) \<le> 13"

definition isdigit :: "char \<Rightarrow> bool" where
  "isdigit c \<longleftrightarrow> 48 \<le> (of_char c :: nat) \<and> (of_char c :: nat) \<le> 57"

fun read_digits :: "nat \<Rightarrow> string \<Rightarrow> nat \<times> string" where
  "read_digits n [] = (n, [])"
| "read_digits n (c # cs) =
     (if isdigit c then read_digits (10 * n + (of_char c - 48)) cs else (n, c # cs))"

definition strtoull :: "string \<Rightarrow> u64 \<times> string" where
  "strtoull text =
     (let s = dropWhile isspace text;
          negative = (s \<noteq> [] \<and> hd s = CHR ''-'');
          s = (if s \<noteq> [] \<and> (hd s = CHR ''-'' \<or> hd s = CHR ''+'') then tl s else s)
      in if s \<noteq> [] \<and> isdigit (hd s)
         then let (n, rest) = read_digits 0 s
              in (if 2 ^ 64 \<le> n then - 1 else if negative then - of_nat n else of_nat n, rest)
         else (0, text))"

text \<open>The parsers return nothing where the code returns \<open>false\<close>; \<open>None\<close> is a null pointer.\<close>

definition parseUnsigned :: "string option \<Rightarrow> u64 option" where
  "parseUnsigned text =
     (case text of
        None \<Rightarrow> None
      | Some t \<Rightarrow>
          if t = [] then None
          else let (v, rest) = strtoull t
               in if rest = t \<or> rest \<noteq> [] then None else Some v)"

definition INT_MAX :: int where
  "INT_MAX = 2147483647"

definition parseInt :: "string option \<Rightarrow> int32 option" where
  "parseInt text =
     (case parseUnsigned text of
        None \<Rightarrow> None
      | Some v \<Rightarrow> if v > of_int INT_MAX then None else Some (ucast v))"

text \<open>\<open>std::sort\<close>, then \<open>std::unique\<close>.\<close>

definition sort_unique :: "int32 list \<Rightarrow> int32 list" where
  "sort_unique counts = remdups_adj (sort_key sint counts)"

text \<open>\<open>cpus\<close> is the answer of \<open>Thread::numLogicalCPUs\<close>.\<close>

definition defaultWorkerCounts :: "u32 \<Rightarrow> int32 list" where
  "defaultWorkerCounts cpus =
     (let logical = max 1 cpus
      in sort_unique ([1] @ (if logical > 2 then [logical div 2] else []) @
           (if logical > 1 then [logical] else [])))"

text \<open>One token up to a comma or the end.\<close>

function worker_tokens :: "string \<Rightarrow> int32 list \<Rightarrow> int32 list option" where
  "worker_tokens list out =
     (if list = [] then Some out
      else let token = takeWhile (\<lambda>c. c \<noteq> CHR '','') list;
               rest = dropWhile (\<lambda>c. c \<noteq> CHR '','') list
           in case parseInt (Some token) of
                None \<Rightarrow> None
              | Some workerCount \<Rightarrow>
                  if sint workerCount \<le> 0 then None
                  else if rest = [] then Some (out @ [workerCount])
                  else worker_tokens (tl rest) (out @ [workerCount]))"
  by pat_completeness auto
termination
proof (relation "measure (\<lambda>(list, out). length list)")
  fix list :: string and out :: "int32 list" and token rest :: string and v
  assume "list \<noteq> []" "rest = dropWhile (\<lambda>c. c \<noteq> CHR '','') list" "rest \<noteq> []"
  then have "length rest \<le> length list" "0 < length rest" by (simp_all add: length_dropWhile_le)
  then show "((tl rest, out @ [v]), list, out) \<in> measure (\<lambda>(list, out). length list)"
    by (cases rest) auto
qed simp

declare worker_tokens.simps [simp del]

definition parseWorkerList :: "string option \<Rightarrow> int32 list option" where
  "parseWorkerList text =
     (case text of
        None \<Rightarrow> None
      | Some list \<Rightarrow>
          (case worker_tokens list [] of
             None \<Rightarrow> None
           | Some out \<Rightarrow> let out = sort_unique out in if out = [] then None else Some out))"

record options =
  taskCount :: u32
  taskWork :: int32
  shortTaskCount :: u32
  shortTaskWork :: int32
  blockingTaskCount :: u32
  blockingTaskWork :: int32
  blockingWarmupMs :: int32
  reduceItems :: u64
  reduceWork :: int32
  chunkSize :: u64
  workerCounts :: "int32 list"

definition default_options :: options where
  "default_options =
     \<lparr>taskCount = 200000, taskWork = 32, shortTaskCount = 1000000, shortTaskWork = 1,
      blockingTaskCount = 50000, blockingTaskWork = 1, blockingWarmupMs = 20,
      reduceItems = 2097152, reduceWork = 32, chunkSize = 4096, workerCounts = []\<rparr>"

datatype parse_result = Ok | Help | Error

definition parse_count :: "string \<Rightarrow> u32 option" where
  "parse_count v =
     (case parseUnsigned (Some v) of
        None \<Rightarrow> None | Some n \<Rightarrow> if n = 0 \<or> n > 100000000 then None else Some (ucast n))"

definition parse_rounds :: "string \<Rightarrow> int32 option" where
  "parse_rounds v =
     (case parseInt (Some v) of None \<Rightarrow> None | Some n \<Rightarrow> if sint n \<le> 0 then None else Some n)"

definition parse_size :: "string \<Rightarrow> u64 option" where
  "parse_size v =
     (case parseUnsigned (Some v) of None \<Rightarrow> None | Some n \<Rightarrow> if n = 0 then None else Some n)"

definition parse_option :: "string \<Rightarrow> string \<Rightarrow> options \<Rightarrow> options option" where
  "parse_option arg v o' =
     (if arg = ''--tasks'' then map_option (\<lambda>n. o'\<lparr>taskCount := n\<rparr>) (parse_count v)
      else if arg = ''--task-work'' then map_option (\<lambda>n. o'\<lparr>taskWork := n\<rparr>) (parse_rounds v)
      else if arg = ''--short-tasks'' then map_option (\<lambda>n. o'\<lparr>shortTaskCount := n\<rparr>) (parse_count v)
      else if arg = ''--short-work'' then map_option (\<lambda>n. o'\<lparr>shortTaskWork := n\<rparr>) (parse_rounds v)
      else if arg = ''--blocking-tasks'' then map_option (\<lambda>n. o'\<lparr>blockingTaskCount := n\<rparr>) (parse_count v)
      else if arg = ''--blocking-work'' then map_option (\<lambda>n. o'\<lparr>blockingTaskWork := n\<rparr>) (parse_rounds v)
      else if arg = ''--blocking-warmup''
      then (case parseInt (Some v) of
              None \<Rightarrow> None | Some n \<Rightarrow> if sint n < 0 then None else Some (o'\<lparr>blockingWarmupMs := n\<rparr>))
      else if arg = ''--reduce-items'' then map_option (\<lambda>n. o'\<lparr>reduceItems := n\<rparr>) (parse_size v)
      else if arg = ''--reduce-work'' then map_option (\<lambda>n. o'\<lparr>reduceWork := n\<rparr>) (parse_rounds v)
      else if arg = ''--chunk-size'' then map_option (\<lambda>n. o'\<lparr>chunkSize := n\<rparr>) (parse_size v)
      else if arg = ''--workers''
      then map_option (\<lambda>counts. o'\<lparr>workerCounts := counts\<rparr>) (parseWorkerList (Some v))
      else None)"

text \<open>The arguments after the program's name.\<close>

fun parse_loop :: "string list \<Rightarrow> options \<Rightarrow> parse_result \<times> options" where
  "parse_loop [] o' = (Ok, o')"
| "parse_loop (arg # args) o' =
     (if arg = ''--help'' then (Help, o')
      else case args of
             [] \<Rightarrow> (Error, o')
           | v # args' \<Rightarrow>
               (case parse_option arg v o' of
                  None \<Rightarrow> (Error, o')
                | Some o'' \<Rightarrow> parse_loop args' o''))"

definition parseArgs :: "u32 \<Rightarrow> string list \<Rightarrow> parse_result \<times> options" where
  "parseArgs cpus args =
     parse_loop args (default_options\<lparr>workerCounts := defaultWorkerCounts cpus\<rparr>)"

subsection \<open>Tasks that write their own place\<close>

lemma length_foldl_writes:
  assumes "\<And>x xs. length (f x xs) = length xs"
  shows "length (foldl (\<lambda>xs x. f x xs) xs order) = length xs"
  by (induction order arbitrary: xs) (simp_all add: assms)

text \<open>The final value of a place depends only on the tasks that write it, in their order.\<close>

lemma foldl_writes:
  assumes len: "\<And>x xs. length (f x xs) = length xs"
    and own: "\<And>x xs. j < length xs \<Longrightarrow> f x xs ! j = (if at x = j then g x (xs ! j) else xs ! j)"
    and j: "j < length xs"
  shows "foldl (\<lambda>xs x. f x xs) xs order ! j = foldl (\<lambda>v x. g x v) (xs ! j) (filter (\<lambda>x. at x = j) order)"
  using j by (induction order arbitrary: xs) (simp_all add: len own)

lemma filter_single: "distinct xs \<Longrightarrow> j \<in> set xs \<Longrightarrow> filter (\<lambda>x. x = j) xs = [j]"
  by (induction xs) (auto simp: filter_empty_conv)

lemma foldl_each_once:
  assumes len: "\<And>x xs. length (f x xs) = length xs"
    and own: "\<And>x xs j. j < length xs \<Longrightarrow> f x xs ! j = (if x = j then g x else xs ! j)"
    and order: "distinct order" "set order = {..<length xs}"
  shows "foldl (\<lambda>xs x. f x xs) xs order = map g [0..<length xs]"
proof (rule nth_equalityI)
  show "length (foldl (\<lambda>xs x. f x xs) xs order) = length (map g [0..<length xs])"
    using length_foldl_writes [of f, OF len] by simp
  fix j assume "j < length (foldl (\<lambda>xs x. f x xs) xs order)"
  then have j: "j < length xs" using length_foldl_writes [of f, OF len] by simp
  have "foldl (\<lambda>xs x. f x xs) xs order ! j =
      foldl (\<lambda>v x. g x) (xs ! j) (filter (\<lambda>x. x = j) order)"
    by (rule foldl_writes [where f = f and g = "\<lambda>x v. g x" and at = "\<lambda>x. x"]) (use len own j in auto)
  with j show "foldl (\<lambda>xs x. f x xs) xs order ! j = map g [0..<length xs] ! j"
    using filter_single [of order j] order by simp
qed

lemma sumValues_eq: "sumValues xs = sum_list xs"
proof -
  have "foldl (\<lambda>sum v. sum + v) a xs = a + sum_list xs" for a
    by (induction xs arbitrary: a) (simp_all add: add.assoc)
  then show ?thesis by (simp add: sumValues_def)
qed

text \<open>The checksums do not depend on the schedule.\<close>

lemma task_checksum:
  assumes "distinct order" "set order = {..<unat tasks}"
  shows "runTaskBenchmark order tasks rounds =
    (\<Sum>i\<leftarrow>[0..<unat tasks]. doWork (of_nat i + 1) rounds)"
  using foldl_each_once [of "task_body rounds" "\<lambda>i. doWork (of_nat i + 1) rounds" order
      "replicate (unat tasks) 0"] assms
  by (simp add: runTaskBenchmark_def sumValues_eq task_body_def nth_list_update)

lemma blocking_checksum:
  assumes order: "\<And>i. i < unat tasks \<Longrightarrow> filter (\<lambda>part. snd part = i) order = [(True, i), (False, i)]"
  shows "runFiberBlockingBenchmark order tasks rounds =
    (\<Sum>i\<leftarrow>[0..<unat tasks]. doWork (of_nat i + 1) rounds XOR doWork (of_nat i + 1000003) rounds)"
proof -
  let ?xs = "replicate (unat tasks) (0 :: u64)" and ?f = "blocking_body rounds"
  let ?g = "\<lambda>part v. if fst part then doWork (of_nat (snd part) + 1) rounds
    else v XOR doWork (of_nat (snd part) + 1000003) rounds"
  have len: "length (?f part xs) = length xs" for part xs by (simp add: blocking_body_def Let_def)
  have "foldl (\<lambda>xs part. ?f part xs) ?xs order =
      map (\<lambda>i. doWork (of_nat i + 1) rounds XOR doWork (of_nat i + 1000003) rounds) [0..<unat tasks]"
  proof (rule nth_equalityI)
    show "length (foldl (\<lambda>xs part. ?f part xs) ?xs order) =
        length (map (\<lambda>i. doWork (of_nat i + 1) rounds XOR doWork (of_nat i + 1000003) rounds)
          [0..<unat tasks])"
      using length_foldl_writes [of ?f, OF len] by simp
    fix j assume "j < length (foldl (\<lambda>xs part. ?f part xs) ?xs order)"
    then have j: "j < unat tasks" using length_foldl_writes [of ?f, OF len] by simp
    have "foldl (\<lambda>xs part. ?f part xs) ?xs order ! j =
        foldl (\<lambda>v part. ?g part v) (?xs ! j) (filter (\<lambda>part. snd part = j) order)"
      by (rule foldl_writes [where f = ?f and at = snd])
        (use len j in \<open>auto simp: blocking_body_def Let_def nth_list_update\<close>)
    then show "foldl (\<lambda>xs part. ?f part xs) ?xs order ! j =
        map (\<lambda>i. doWork (of_nat i + 1) rounds XOR doWork (of_nat i + 1000003) rounds)
          [0..<unat tasks] ! j"
      using j order [OF j] by simp
  qed
  then show ?thesis by (simp add: runFiberBlockingBenchmark_def sumValues_eq)
qed

text \<open>So the benchmark never prints a checksum mismatch for tasks that are all run.\<close>

theorem checksums_agree:
  assumes "distinct hftsOrder" "set hftsOrder = {..<unat tasks}"
    and "distinct poolOrder" "set poolOrder = {..<unat tasks}"
  shows "\<exists>c. runShortTaskComparison hftsOrder poolOrder tasks rounds = (c, c)"
  using task_checksum [OF assms(1,2)] task_checksum [OF assms(3,4)]
  by (simp add: runShortTaskComparison_def runPlainPoolTaskBenchmark_def
      runTaskBenchmark_def [symmetric])

subsection \<open>The parallel reduce\<close>

lemma reduceRange_eq: "reduceRange b e w = (\<Sum>i\<leftarrow>[unat b..<unat e]. doWork (of_nat i + 1) w)"
proof -
  have "foldl (\<lambda>acc i. acc + f i) a is = a + (\<Sum>i\<leftarrow>is. f i)" for f :: "nat \<Rightarrow> u64" and a "is"
    by (induction "is" arbitrary: a) (simp_all add: add.assoc)
  then show ?thesis by (simp add: reduceRange_def)
qed

lemma upt_chunks:
  "(\<Sum>c\<leftarrow>[0..<m]. sum_list (map f [c * k..<min (c * k + k) n])) =
   (sum_list (map f [0..<min (m * k) n]) :: 'a :: comm_monoid_add)"
proof (induction m)
  case (Suc m)
  have "[0..<min (Suc m * k) n] = [0..<min (m * k) n] @ [m * k..<min (m * k + k) n]"
  proof (cases "m * k \<le> n")
    case True
    then have "m * k \<le> min (m * k + k) n" by simp
    then obtain d where "min (m * k + k) n = m * k + d" using le_Suc_ex by blast
    with upt_add_eq_append [of 0 "m * k" d] True show ?thesis by (simp add: add.commute)
  next
    case False
    then have "n \<le> Suc m * k" by simp
    with False show ?thesis by simp
  qed
  then show ?case using Suc by simp
qed simp

lemma chunk_bounds:
  assumes k: "(k :: u64) \<noteq> 0" and nowrap: "unat n + unat k \<le> 2 ^ 64"
    and c: "c < (unat n + unat k - 1) div unat k"
  shows "unat (of_nat c * k) = c * unat k"
    and "unat (min (of_nat c * k + k) n) = min (c * unat k + unat k) (unat n)"
proof -
  have pos: "0 < unat k" using k by (simp add: unat_gt_0)
  have "Suc c * unat k \<le> unat n + unat k - 1"
    using c pos by (simp add: less_eq_div_iff_mult_less_eq Suc_le_eq [symmetric])
  then have le: "c * unat k + unat k \<le> unat n + unat k - 1" by simp
  then have ck: "c * unat k < 2 ^ 64" "c < 2 ^ 64" "c * unat k + unat k < 2 ^ 64"
    using nowrap pos mult_le_mono2 [of 1 "unat k" c] by linarith+
  then show b: "unat (of_nat c * k) = c * unat k"
    using unat_mult_no_wrap [of "of_nat c" k] by (simp add: unat_of_nat_64)
  have "unat (of_nat c * k + k) = c * unat k + unat k"
    using ck(3) b by (subst unat_add_no_wrap) simp_all
  then show "unat (min (of_nat c * k + k) n) = min (c * unat k + unat k) (unat n)"
    by (simp add: min_def word_le_nat_alt)
qed

lemma chunk_count_eq:
  assumes "(k :: u64) \<noteq> 0" "unat n + unat k \<le> 2 ^ 64"
  shows "\<exists>m. chunk_count n k = Inr m \<and> unat m = (unat n + unat k - 1) div unat k"
proof -
  have pos: "0 < unat k" using assms(1) by (simp add: unat_gt_0)
  have e: "n + k - 1 = n + (k - 1)" by simp
  have "unat (k - 1) = unat k - 1" using assms(1) by (simp add: unat_minus_one)
  then have "unat (n + (k - 1)) = unat n + unat k - 1"
    using assms(2) pos unat_add_no_wrap [of n "k - 1"] by simp
  then have "unat (n + k - 1) = unat n + unat k - 1" by (simp only: e)
  then show ?thesis using assms(1) by (simp add: chunk_count_def unat_div_distrib)
qed

lemma parallel_reduce_ok:
  assumes "k \<noteq> 0" "unat n + unat k \<le> 2 ^ 64"
    and "distinct order" "set order = {..<(unat n + unat k - 1) div unat k}"
  shows "\<exists>m wg. runParallelReduce order n work k = Inr (m, wg, runSequentialReduce n work) \<and>
    unat m = length order \<and> (length order < 2 ^ 32 \<longrightarrow> unat wg = length order)"
proof -
  let ?m = "(unat n + unat k - 1) div unat k"
  obtain m where m: "chunk_count n k = Inr m" "unat m = ?m"
    using chunk_count_eq [OF assms(1,2)] by blast
  let ?g = "\<lambda>c. reduceRange (of_nat c * k) (min (of_nat c * k + k) n) work"
  have "foldl (\<lambda>ps c. reduce_body n k work c ps) (replicate (unat m) 0) order = map ?g [0..<?m]"
    using foldl_each_once [of "reduce_body n k work" ?g order "replicate (unat m) 0"] assms(3,4) m(2)
    by (simp add: reduce_body_def Let_def nth_list_update)
  moreover have "(\<Sum>c\<leftarrow>[0..<?m]. ?g c) = runSequentialReduce n work"
  proof -
    have "(\<Sum>c\<leftarrow>[0..<?m]. ?g c) = (\<Sum>c\<leftarrow>[0..<?m].
        sum_list (map (\<lambda>i. doWork (of_nat i + 1) work) [c * unat k..<min (c * unat k + unat k) (unat n)]))"
      using chunk_bounds [OF assms(1,2)] by (intro arg_cong [where f = sum_list] map_cong refl)
        (simp add: reduceRange_eq)
    also have "\<dots> = sum_list (map (\<lambda>i. doWork (of_nat i + 1) work) [0..<min (?m * unat k) (unat n)])"
      by (rule upt_chunks)
    also have "min (?m * unat k) (unat n) = unat n"
    proof -
      have "0 < unat k" using assms(1) by (simp add: unat_gt_0)
      then have "unat n \<le> ?m * unat k"
        using div_mult_mod_eq [of "unat n + unat k - 1" "unat k"]
          mod_less_divisor [of "unat k" "unat n + unat k - 1"] by linarith
      then show ?thesis by simp
    qed
    finally show ?thesis by (simp add: runSequentialReduce_def reduceRange_eq)
  qed
  moreover have "length order = ?m"
    using distinct_card [OF assms(3)] assms(4) by simp
  moreover have "unat (ucast m :: u32) = unat m" if "unat m < 2 ^ 32"
    using that by (simp add: unsigned_ucast_eq take_bit_nat_eq_self)
  ultimately show ?thesis using m by (simp add: runParallelReduce_def sumValues_eq Let_def)
qed

text \<open>
  The parallel reduce computes what the sequential one computes: in whatever order the
  chunks are run, as long as each is run once, the sum of the partial results is the sum over the whole
  range, provided that the number of items and the chunk size do not add up to more than
  \<open>2 ^ 64\<close>; and the wait group counts as many tasks as there are chunks when they are fewer than
  \<open>2 ^ 32\<close>.
\<close>

theorem parallel_reduce_equals_sequential:
  assumes "k \<noteq> 0" "unat n + unat k \<le> 2 ^ 64"
    and "distinct order" "set order = {..<(unat n + unat k - 1) div unat k}"
  shows "\<exists>m wg. runParallelReduce order n work k = Inr (m, wg, runSequentialReduce n work) \<and>
    unat m = length order \<and> (length order < 2 ^ 32 \<longrightarrow> unat wg = length order)"
  by (rule parallel_reduce_ok [OF assms])

theorem parallel_reduce_equals_sequential_witness:
  "runParallelReduce [2, 0, 1] 5 1 2 = Inr (3, 3, runSequentialReduce 5 1)"
proof -
  have "set [2, 0, 1] = {..<(unat (5 :: u64) + unat (2 :: u64) - 1) div unat (2 :: u64)}"
    by (auto simp: lessThan_Suc numeral_3_eq_3)
  from parallel_reduce_equals_sequential [OF _ _ _ this, of 1] obtain m wg where
    "runParallelReduce [2, 0, 1] 5 1 2 = Inr (m, wg, runSequentialReduce 5 1)"
    "unat m = 3" "unat wg = 3" by auto
  then show ?thesis by (simp add: word_unat_eq_iff)
qed

text \<open>
  Beyond that bound the addition wraps: two items in chunks of the greatest size make no chunk at all.
\<close>

lemma reduce_wraps: "runParallelReduce [] 2 work (- 1) = Inr (0, 0, 0)"
  by (simp add: runParallelReduce_def chunk_count_def sumValues_def)

subsection \<open>The command line\<close>

definition worker_counts_ok :: "int32 list \<Rightarrow> bool" where
  "worker_counts_ok counts \<longleftrightarrow>
     counts \<noteq> [] \<and> sorted_wrt (<) (map sint counts) \<and> (\<forall>c\<in>set counts. 0 < sint c)"

definition options_ok :: "options \<Rightarrow> bool" where
  "options_ok opts \<longleftrightarrow>
     (\<forall>n\<in>{taskCount opts, shortTaskCount opts, blockingTaskCount opts}. 0 < n \<and> n \<le> 100000000) \<and>
     (\<forall>r\<in>{taskWork opts, shortTaskWork opts, blockingTaskWork opts, reduceWork opts}. 0 < sint r) \<and>
     0 \<le> sint (blockingWarmupMs opts) \<and> reduceItems opts \<noteq> 0 \<and> chunkSize opts \<noteq> 0 \<and>
     worker_counts_ok (workerCounts opts)"

lemma sint_inject: "sint (x :: int32) = sint y \<longleftrightarrow> x = y"
proof
  assume "sint x = sint y"
  then have "(of_int (sint x) :: int32) = of_int (sint y)" by simp
  then show "x = y" by simp
qed simp

lemma remdups_adj_increasing:
  "sorted (map sint xs) \<Longrightarrow> sorted_wrt (<) (map sint (remdups_adj (xs :: int32 list)))"
proof (induction xs rule: remdups_adj.induct)
  case (3 x y xs)
  then show ?case
    by (cases "x = y") (auto simp: order_less_le sint_inject split: if_splits)
qed simp_all

lemma sort_unique_ok:
  assumes "counts \<noteq> []" "\<forall>c\<in>set counts. 0 < sint c"
  shows "worker_counts_ok (sort_unique counts)"
  using assms remdups_adj_increasing [of "sort_key sint counts"]
  by (auto simp: worker_counts_ok_def sort_unique_def dest: arg_cong [where f = set])

lemma worker_tokens_positive:
  "worker_tokens list out = Some out' \<Longrightarrow> \<forall>c\<in>set out. 0 < sint c \<Longrightarrow> \<forall>c\<in>set out'. 0 < sint c"
proof (induction list out rule: worker_tokens.induct)
  case (1 list out)
  show ?case
  proof (cases "list = []")
    case True
    then show ?thesis using 1(2,3) by (simp add: worker_tokens.simps)
  next
    case False
    let ?token = "takeWhile (\<lambda>c. c \<noteq> CHR '','') list" and ?rest = "dropWhile (\<lambda>c. c \<noteq> CHR '','') list"
    obtain v where v: "parseInt (Some ?token) = Some v" "0 < sint v"
      "out' = out @ [v] \<and> ?rest = [] \<or> ?rest \<noteq> [] \<and> worker_tokens (tl ?rest) (out @ [v]) = Some out'"
      using 1(2) False
      by (subst (asm) worker_tokens.simps) (auto simp: Let_def not_le split: option.splits if_splits)
    from v(3) show ?thesis
    proof
      assume "out' = out @ [v] \<and> ?rest = []"
      then show ?thesis using 1(3) v(2) by simp
    next
      assume rest: "?rest \<noteq> [] \<and> worker_tokens (tl ?rest) (out @ [v]) = Some out'"
      have "\<forall>c\<in>set (out @ [v]). 0 < sint c" using 1(3) v(2) by simp
      with rest show ?thesis using 1(1) [OF False refl refl v(1)] v(2) by (simp only: not_le) blast
    qed
  qed
qed

lemma parseWorkerList_ok:
  assumes "parseWorkerList text = Some counts"
  shows "worker_counts_ok counts"
proof -
  obtain list out where "worker_tokens list [] = Some out" "counts = sort_unique out" "counts \<noteq> []"
    using assms by (auto simp: parseWorkerList_def Let_def split: option.splits if_splits)
  moreover from this have "out \<noteq> []" by (auto simp: sort_unique_def)
  ultimately show ?thesis using worker_tokens_positive [of list "[]" out] by (simp add: sort_unique_ok)
qed

lemma parse_count_ok: "parse_count v = Some n \<Longrightarrow> 0 < n \<and> n \<le> 100000000"
proof -
  assume "parse_count v = Some n"
  then obtain m where m: "m \<noteq> 0" "m \<le> 100000000" "n = ucast m" "parseUnsigned (Some v) = Some m"
    by (auto simp: parse_count_def not_less split: option.splits if_splits)
  then have le: "unat m \<le> 100000000" by (simp add: word_le_nat_alt)
  then have "unat n = unat m" using m(3) by (simp add: unsigned_ucast_eq take_bit_nat_eq_self)
  moreover have "0 < unat m" using m(1) by (simp add: unat_gt_0)
  ultimately show ?thesis using le by (simp add: word_le_nat_alt word_less_nat_alt)
qed

lemma parse_rounds_ok: "parse_rounds v = Some n \<Longrightarrow> 0 < sint n"
  by (auto simp: parse_rounds_def split: option.splits if_splits)

lemma parse_size_ok: "parse_size v = Some n \<Longrightarrow> n \<noteq> 0"
  by (auto simp: parse_size_def split: option.splits if_splits)

lemma parse_option_ok:
  "options_ok opts \<Longrightarrow> parse_option arg v opts = Some opts' \<Longrightarrow> options_ok opts'"
  unfolding parse_option_def options_ok_def
  by (auto split: if_splits option.splits
      dest: parse_count_ok parse_rounds_ok parse_size_ok parseWorkerList_ok)

lemma parse_loop_ok: "options_ok opts \<Longrightarrow> options_ok (snd (parse_loop args opts))"
proof (induction args opts rule: parse_loop.induct)
  case (2 arg args opts)
  then show ?case using parse_option_ok by (auto split: list.splits option.splits)
qed simp

lemma defaultWorkerCounts_ok:
  assumes "unat cpus < 2 ^ 31"
  shows "worker_counts_ok (defaultWorkerCounts cpus)"
proof -
  have pos: "0 < sint w" if "0 < unat w" "unat w < 2 ^ 31" for w :: int32
  proof -
    have "0 < int (unat w)" using that(1) by (simp only: of_nat_0_less_iff)
    then show ?thesis using sint_small [of w] that(2) by simp
  qed
  have "unat (max 1 cpus) < 2 ^ 31" "0 < unat (max 1 cpus)"
    using assms by (simp_all add: max_def word_le_nat_alt)
  moreover from this have "unat (max 1 cpus div 2) < 2 ^ 31" by (simp add: unat_div_distrib)
  moreover have "0 < unat (max 1 cpus div 2)" if "2 < max 1 cpus"
    using that by (simp add: unat_div_distrib word_less_nat_alt)
  ultimately show ?thesis
    using pos by (auto simp: defaultWorkerCounts_def Let_def intro!: sort_unique_ok)
qed

text \<open>Decimal numbers as they are written, and what \<open>parseUnsigned\<close> makes of them.\<close>

fun decimal :: "nat \<Rightarrow> string" where
  "decimal n = (if n < 10 then [char_of (48 + n)] else decimal (n div 10) @ [char_of (48 + n mod 10)])"

declare decimal.simps [simp del]

lemma of_char_digit: "n < 10 \<Longrightarrow> of_char (char_of (48 + n) :: char) = (48 + n :: nat)"
  by (simp add: of_char_of)

lemma read_digits_append:
  "\<forall>c\<in>set cs. isdigit c \<Longrightarrow> read_digits n (cs @ ds) = read_digits (fst (read_digits n cs)) ds"
  by (induction cs arbitrary: n) simp_all

lemma decimal_digits: "\<forall>c\<in>set (decimal n). isdigit c" "decimal n \<noteq> []"
proof (induction n rule: decimal.induct)
  case (1 n)
  {
    case 1
    then show ?case using "1.IH" by (subst decimal.simps) (auto simp: isdigit_def of_char_digit)
  next
    case 2
    then show ?case by (subst decimal.simps) simp
  }
qed

lemma read_decimal: "read_digits 0 (decimal n) = (n, [])"
proof (induction n rule: decimal.induct)
  case (1 n)
  show ?case
  proof (cases "n < 10")
    case True
    then show ?thesis by (simp add: decimal.simps [of n] isdigit_def of_char_digit)
  next
    case False
    then have "read_digits 0 (decimal n) =
        read_digits (n div 10) [char_of (48 + n mod 10)]"
      using 1 by (simp add: decimal.simps [of n] read_digits_append decimal_digits(1))
    then show ?thesis by (simp add: isdigit_def of_char_digit)
  qed
qed

lemma digit_no_space: "isdigit c \<Longrightarrow> \<not> isspace c \<and> c \<noteq> CHR ''-'' \<and> c \<noteq> CHR ''+''"
  by (auto simp: isdigit_def isspace_def)

lemma parse_decimal:
  assumes "n < 2 ^ 64"
  shows "parseUnsigned (Some (decimal n)) = Some (of_nat n)"
proof -
  obtain c cs where d: "decimal n = c # cs" "isdigit c"
    using decimal_digits [of n] by (cases "decimal n") auto
  have "strtoull (decimal n) = (of_nat n, [])"
    using digit_no_space [OF d(2)] read_decimal [of n] assms d(2)
    by (simp add: strtoull_def d(1))
  then show ?thesis using d(1) by (simp add: parseUnsigned_def)
qed

text \<open>A negative number is accepted and wraps.\<close>

lemma parse_negative: "parseUnsigned (Some ''-1'') = Some (- 1)"
  by (simp add: parseUnsigned_def strtoull_def isspace_def isdigit_def)

lemma parseArgs_ok:
  assumes "unat cpus < 2 ^ 31"
  shows "options_ok (snd (parseArgs cpus args))"
proof -
  have "options_ok (default_options\<lparr>workerCounts := defaultWorkerCounts cpus\<rparr>)"
    using defaultWorkerCounts_ok [OF assms] by (simp add: options_ok_def default_options_def)
  then show ?thesis using parse_loop_ok by (simp add: parseArgs_def)
qed



subsection \<open>The plain thread pool\<close>

text \<open>
  The pool between two points at which a thread holds its mutex: the queue, the tasks that workers
  have taken and run, the tasks that are done, and the threads that have left the loop. \<open>pending\<close>
  and \<open>shutdown\<close> are the fields of the code.
\<close>

record 't pool =
  pl_queue :: "'t list"
  pl_running :: "'t multiset"
  pl_done :: "'t multiset"
  pl_pending :: u64
  pl_shutdown :: bool
  pl_workers :: nat

definition PlainThreadPool_new :: "int32 \<Rightarrow> 't pool" where
  "PlainThreadPool_new workerCount =
     \<lparr>pl_queue = [], pl_running = {#}, pl_done = {#}, pl_pending = 0, pl_shutdown = False,
      pl_workers = nat (sint workerCount)\<rparr>"

definition pool_enqueue :: "'t \<Rightarrow> 't pool \<Rightarrow> 't pool" where
  "pool_enqueue t p = p\<lparr>pl_queue := pl_queue p @ [t], pl_pending := pl_pending p + 1\<rparr>"

definition pool_shutdown :: "'t pool \<Rightarrow> 't pool" where
  "pool_shutdown p = p\<lparr>pl_shutdown := True\<rparr>"

definition waitUntilIdle_pred :: "'t pool \<Rightarrow> bool" where
  "waitUntilIdle_pred p \<longleftrightarrow> pl_pending p = 0"

text \<open>
  A worker that has the mutex after its wait on \<open>ready\<close>: it leaves the loop (\<open>None\<close>), or it
  takes the first task.
\<close>

definition workerLoop_pred :: "'t pool \<Rightarrow> bool" where
  "workerLoop_pred p \<longleftrightarrow> pl_shutdown p \<or> pl_queue p \<noteq> []"

definition workerLoop_take :: "'t pool \<Rightarrow> ('t option \<times> 't pool) res" where
  "workerLoop_take p =
     (if pl_shutdown p \<and> pl_queue p = [] then Inr (None, p\<lparr>pl_workers := pl_workers p - 1\<rparr>)
      else case pl_queue p of
             [] \<Rightarrow> Inl EmptyContainer
           | t # ts \<Rightarrow> Inr (Some t, p\<lparr>pl_queue := ts, pl_running := add_mset t (pl_running p)\<rparr>))"

text \<open>After the task; the result says whether \<open>drained\<close> is notified.\<close>

definition workerLoop_finish :: "'t \<Rightarrow> 't pool \<Rightarrow> bool \<times> 't pool" where
  "workerLoop_finish t p =
     (let p = p\<lparr>pl_running := pl_running p - {#t#}, pl_done := add_mset t (pl_done p),
                pl_pending := pl_pending p - 1\<rparr>
      in (pl_pending p = 0, p))"

text \<open>A run, with the tasks that are enqueued in it.\<close>

inductive pool_run :: "int32 \<Rightarrow> 't multiset \<Rightarrow> 't pool \<Rightarrow> bool" for n where
  start: "pool_run n {#} (PlainThreadPool_new n)"
| run_enqueue: "pool_run n ts p \<Longrightarrow> pool_run n (add_mset t ts) (pool_enqueue t p)"
| run_take: "pool_run n ts p \<Longrightarrow> workerLoop_pred p \<Longrightarrow> workerLoop_take p = Inr (t, p') \<Longrightarrow> pool_run n ts p'"
| run_finish: "pool_run n ts p \<Longrightarrow> t \<in># pl_running p \<Longrightarrow> pool_run n ts (snd (workerLoop_finish t p))"
| run_shutdown: "pool_run n ts p \<Longrightarrow> pool_run n ts (pool_shutdown p)"

lemma pool_run_tasks:
  "pool_run n ts p \<Longrightarrow>
   ts = mset (pl_queue p) + pl_running p + pl_done p \<and>
   pl_pending p = of_nat (length (pl_queue p) + size (pl_running p))"
proof (induction rule: pool_run.induct)
  case (run_take ts p t p')
  then show ?case
    by (auto simp: workerLoop_take_def split: if_splits list.splits)
next
  case (run_finish ts p t)
  then obtain r where r: "pl_running p = add_mset t r" by (metis insert_DiffM)
  then show ?case using run_finish.IH by (simp add: workerLoop_finish_def Let_def)
qed (auto simp: PlainThreadPool_new_def pool_enqueue_def pool_shutdown_def)

text \<open>A worker that is woken with its predicate true finds a task or leaves.\<close>

lemma workerLoop_take_safe: "workerLoop_pred p \<Longrightarrow> \<exists>t p'. workerLoop_take p = Inr (t, p')"
  by (auto simp: workerLoop_pred_def workerLoop_take_def split: list.splits)

text \<open>
  \<open>waitUntilIdle\<close> returns only when every task that was enqueued has run to its end, each once,
  while fewer than \<open>2 ^ 64\<close> are enqueued.
\<close>

theorem pool_idle_done:
  assumes "pool_run n ts p" "size ts < 2 ^ 64" "waitUntilIdle_pred p"
  shows "pl_done p = ts"
proof -
  have inv: "ts = mset (pl_queue p) + pl_running p + pl_done p"
    "pl_pending p = of_nat (length (pl_queue p) + size (pl_running p))"
    using pool_run_tasks [OF assms(1)] by simp_all
  have "length (pl_queue p) + size (pl_running p) < 2 ^ 64"
    using assms(2) inv(1) by simp
  then have "length (pl_queue p) + size (pl_running p) = 0"
    using inv(2) assms(3) unat_of_nat_64 [of "length (pl_queue p) + size (pl_running p)"]
    by (simp add: waitUntilIdle_pred_def)
  then show ?thesis using inv(1) by simp
qed

end
