(* ===== verification/Support.thy ===== *)
theory Support
  imports Prelude "HOL-Library.Multiset"
begin

text \<open>
  The small helpers: \<open>ScopeExit\<close>, which \<open>defer\<close> declares (\<open>include/hfts/defer.hpp\<close>),
  and \<open>mutex\<close> and \<open>lock\<close> (\<open>include/hfts/mutex.hpp\<close>) as far as they own a
  \<open>std::mutex\<close>.
\<close>

subsection \<open>Scope exits\<close>

text \<open>The function is an effect on the state of the program.\<close>

record 's scope_exit =
  se_func :: "'s \<Rightarrow> 's"
  se_active :: bool

definition make_scope_exit :: "('s \<Rightarrow> 's) \<Rightarrow> 's scope_exit" where
  "make_scope_exit f = \<lparr>se_func = f, se_active = True\<rparr>"

text \<open>The move constructor: the new object and what is left of the other one.\<close>

definition ScopeExit_move :: "'s scope_exit \<Rightarrow> 's scope_exit \<times> 's scope_exit" where
  "ScopeExit_move other =
     (\<lparr>se_func = se_func other, se_active = se_active other\<rparr>, other\<lparr>se_active := False\<rparr>)"

definition ScopeExit_release :: "'s scope_exit \<Rightarrow> 's scope_exit" where
  "ScopeExit_release e = e\<lparr>se_active := False\<rparr>"

definition ScopeExit_destruct :: "'s scope_exit \<Rightarrow> 's \<Rightarrow> 's" where
  "ScopeExit_destruct e s = (if se_active e then se_func e s else s)"

text \<open>
  A scope exit that is moved any number of times, every object of which is destroyed in the end, in
  whatever order they die: its function runs exactly once.
\<close>

fun moved_objects :: "nat \<Rightarrow> 's scope_exit \<Rightarrow> 's scope_exit list" where
  "moved_objects 0 e = [e]"
| "moved_objects (Suc n) e = (let (new, old) = ScopeExit_move e in old # moved_objects n new)"

lemma destroy_active:
  "foldl (\<lambda>s e. ScopeExit_destruct e s) s es = foldl (\<lambda>s e. se_func e s) s (filter se_active es)"
  by (induction es arbitrary: s) (simp_all add: ScopeExit_destruct_def)

lemma moved_objects_split:
  "se_active e \<Longrightarrow> \<exists>olds. moved_objects n e = olds @ [e] \<and> (\<forall>d\<in>set olds. \<not> se_active d)"
proof (induction n arbitrary: e)
  case (Suc n)
  have "fst (ScopeExit_move e) = e" by (cases e) (simp add: ScopeExit_move_def)
  moreover have "\<not> se_active (snd (ScopeExit_move e))" by (simp add: ScopeExit_move_def)
  ultimately show ?case
    using Suc.IH [OF Suc.prems]
    by (cases "ScopeExit_move e") (auto simp: Let_def intro: exI [of _ "_ # _"])
qed simp

theorem defer_runs_once:
  assumes "mset es = mset (moved_objects n (make_scope_exit f))"
  shows "foldl (\<lambda>s e. ScopeExit_destruct e s) s es = f s"
proof -
  have "\<exists>olds. moved_objects n (make_scope_exit f) = olds @ [make_scope_exit f] \<and>
      (\<forall>d\<in>set olds. \<not> se_active d)"
    by (rule moved_objects_split) (simp add: make_scope_exit_def)
  then have "filter se_active (moved_objects n (make_scope_exit f)) = [make_scope_exit f]"
    by (auto simp: make_scope_exit_def filter_empty_conv)
  then have "mset (filter se_active es) = {#make_scope_exit f#}"
    using assms by (metis mset_filter mset_single_iff_right mset.simps)
  then have "filter se_active es = [make_scope_exit f]" by (simp only: mset_single_iff)
  then show ?thesis by (simp add: destroy_active make_scope_exit_def)
qed

subsection \<open>Mutexes\<close>

text \<open>A \<open>std::mutex\<close> is its owner. Locking waits until there is none.\<close>

type_synonym mutex = "nat option"

definition mutex_lock :: "nat \<Rightarrow> mutex \<Rightarrow> mutex option" where
  "mutex_lock me m = (case m of None \<Rightarrow> Some (Some me) | Some t \<Rightarrow> None)"

definition mutex_unlock :: "nat \<Rightarrow> mutex \<Rightarrow> mutex res" where
  "mutex_unlock me m = (if m = Some me then Inr None else Inl NoObject)"

definition mutex_tryLock :: "nat \<Rightarrow> mutex \<Rightarrow> bool \<times> mutex" where
  "mutex_tryLock me m = (case m of None \<Rightarrow> (True, Some me) | Some t \<Rightarrow> (False, m))"

text \<open>
  \<open>lock\<close> is a \<open>std::unique_lock\<close>: does it own the mutex. To unlock what it does not own, or
  to lock what it owns, throws.
\<close>

definition lock_new :: "nat \<Rightarrow> mutex \<Rightarrow> (bool \<times> mutex) option" where
  "lock_new me m = map_option (\<lambda>m. (True, m)) (mutex_lock me m)"

definition owns_lock :: "bool \<Rightarrow> bool" where
  "owns_lock owns = owns"

definition primitive_lock :: "nat \<Rightarrow> bool \<times> mutex \<Rightarrow> (bool \<times> mutex) res option" where
  "primitive_lock me = (\<lambda>(owns, m).
     if owns then Some (Inl Terminated)
     else map_option (\<lambda>m. Inr (True, m)) (mutex_lock me m))"

definition primitive_unlock :: "nat \<Rightarrow> bool \<times> mutex \<Rightarrow> (bool \<times> mutex) res" where
  "primitive_unlock me = (\<lambda>(owns, m).
     if owns then bind_res (mutex_unlock me m) (\<lambda>m. Inr (False, m)) else Inl Terminated)"

definition lock_destruct :: "nat \<Rightarrow> bool \<times> mutex \<Rightarrow> mutex res" where
  "lock_destruct me = (\<lambda>(owns, m). if owns then mutex_unlock me m else Inr m)"

text \<open>
  A scope that takes the lock, gives it up and takes it again any number of times, as
  \<open>Worker::wait\<close> does, leaves the mutex free.
\<close>

definition lock_ok :: "nat \<Rightarrow> bool \<times> mutex \<Rightarrow> bool" where
  "lock_ok me lm \<longleftrightarrow> (fst lm \<longleftrightarrow> snd lm = Some me)"

lemma lock_scope:
  "lock_new me m = Some lm \<Longrightarrow> lock_ok me lm \<and> fst lm"
  "lock_ok me lm \<Longrightarrow> primitive_lock me lm = Some (Inr lm') \<Longrightarrow> lock_ok me lm' \<and> fst lm'"
  "lock_ok me lm \<Longrightarrow> fst lm \<Longrightarrow> \<exists>lm'. primitive_unlock me lm = Inr lm' \<and> lock_ok me lm' \<and> snd lm' = None"
  "lock_ok me lm \<Longrightarrow> \<exists>m. lock_destruct me lm = Inr m \<and> m \<noteq> Some me"
  by (auto simp: lock_new_def mutex_lock_def lock_ok_def primitive_lock_def primitive_unlock_def
      mutex_unlock_def lock_destruct_def split: option.splits if_splits prod.splits)

subsection \<open>Waiting on a condition\<close>

text \<open>
  \<open>std::condition_variable::wait\<close> with a predicate, against the values of the predicate: it
  releases the mutex and takes it again between two values, so that after each turn the lock owns the
  mutex as before. To wait with a lock that does not own its mutex is an error.
\<close>

fun cv_wait :: "bool list \<Rightarrow> bool \<times> mutex \<Rightarrow> (bool \<times> mutex) res option" where
  "cv_wait [] lm = None"
| "cv_wait (p # ps) lm =
     (if \<not> fst lm then Some (Inl Terminated) else if p then Some (Inr lm) else cv_wait ps lm)"

text \<open>
  \<open>wait_until\<close>: each turn has the value of the predicate, whether the deadline passes before the
  next notification, and the value of the predicate then.
\<close>

fun cv_wait_until :: "(bool \<times> bool \<times> bool) list \<Rightarrow> bool \<times> mutex \<Rightarrow> (bool \<times> bool \<times> mutex) res option" where
  "cv_wait_until [] lm = None"
| "cv_wait_until ((p, expired, p') # turns) lm =
     (if \<not> fst lm then Some (Inl Terminated)
      else if p then Some (Inr (True, lm))
      else if expired then Some (Inr (p', lm))
      else cv_wait_until turns lm)"

definition lock_wait :: "bool list \<Rightarrow> bool \<times> mutex \<Rightarrow> (bool \<times> mutex) res option" where
  "lock_wait ps lm = cv_wait ps lm"

definition lock_wait_until :: "(bool \<times> bool \<times> bool) list \<Rightarrow> bool \<times> mutex \<Rightarrow> (bool \<times> bool \<times> mutex) res option" where
  "lock_wait_until turns lm = cv_wait_until turns lm"

text \<open>A \<open>std::unique_lock\<close> that adopts a mutex, and its \<open>release\<close>, which does not unlock.\<close>

definition adopt_lock :: "mutex \<Rightarrow> bool \<times> mutex" where
  "adopt_lock m = (True, m)"

definition release_lock :: "bool \<times> mutex \<Rightarrow> mutex" where
  "release_lock lm = snd lm"

definition wait_locked :: "bool list \<Rightarrow> mutex \<Rightarrow> mutex res option" where
  "wait_locked ps m =
     map_option (\<lambda>r. bind_res r (\<lambda>lm. Inr (release_lock lm))) (cv_wait ps (adopt_lock m))"

definition wait_until_locked :: "(bool \<times> bool \<times> bool) list \<Rightarrow> mutex \<Rightarrow> (bool \<times> mutex) res option" where
  "wait_until_locked turns m =
     map_option (\<lambda>r. bind_res r (\<lambda>(res, lm). Inr (res, release_lock lm))) (cv_wait_until turns (adopt_lock m))"

text \<open>A wait with the mutex held ends with the mutex held, when the predicate was true.\<close>

lemma wait_locked_held:
  "wait_locked ps m = (if True \<in> set ps then Some (Inr m) else None)"
proof -
  have "cv_wait ps (True, m) = (if True \<in> set ps then Some (Inr (True, m)) else None)"
    by (induction ps) auto
  then show ?thesis by (simp add: wait_locked_def adopt_lock_def release_lock_def)
qed

lemma wait_until_locked_held:
  assumes "wait_until_locked turns m = Some r"
  shows "\<exists>b. r = Inr (b, m)"
proof -
  have "cv_wait_until turns (True, m) = Some r' \<Longrightarrow> \<exists>b. r' = Inr (b, (True, m))" for r'
    by (induction turns "(True, m)" rule: cv_wait_until.induct) (auto split: if_splits)
  then show ?thesis
    using assms by (fastforce simp: wait_until_locked_def adopt_lock_def release_lock_def)
qed

subsection \<open>Thread-local pointers\<close>

text \<open>
  \<open>ThreadLocal\<close> (\<open>include/hfts/thread_loacl.hpp\<close>) over a key of the pthread library, which
  holds a null pointer for every thread that has not set it.
\<close>

type_synonym 'p thread_local = "nat \<Rightarrow> 'p option"

definition pthread_key_create :: "'p thread_local" where
  "pthread_key_create = (\<lambda>_. None)"

definition pthread_setspecific :: "nat \<Rightarrow> 'p option \<Rightarrow> 'p thread_local \<Rightarrow> 'p thread_local" where
  "pthread_setspecific me v key = key(me := v)"

definition ThreadLocal_new :: "nat \<Rightarrow> 'p option \<Rightarrow> 'p thread_local" where
  "ThreadLocal_new me v = pthread_setspecific me v pthread_key_create"

definition ThreadLocal_get :: "nat \<Rightarrow> 'p thread_local \<Rightarrow> 'p option" where
  "ThreadLocal_get me key = key me"

definition ThreadLocal_assign :: "nat \<Rightarrow> 'p option \<Rightarrow> 'p thread_local \<Rightarrow> 'p thread_local" where
  "ThreadLocal_assign me v key = pthread_setspecific me v key"

text \<open>
  Against \<open>thread_local\<close>, where every thread starts with the initial value: the two agree exactly
  when that is null, as in both uses of the code, or when no other thread reads before it writes.
\<close>

lemma ThreadLocal_initial:
  "(\<forall>t. ThreadLocal_get t (ThreadLocal_new me v) = v) \<longleftrightarrow> v = None"
proof
  assume "\<forall>t. ThreadLocal_get t (ThreadLocal_new me v) = v"
  then have "ThreadLocal_get (Suc me) (ThreadLocal_new me v) = v" ..
  then show "v = None"
    by (simp add: ThreadLocal_get_def ThreadLocal_new_def pthread_setspecific_def pthread_key_create_def)
qed (simp add: ThreadLocal_get_def ThreadLocal_new_def pthread_setspecific_def pthread_key_create_def)

lemma ThreadLocal_own:
  "ThreadLocal_get t (ThreadLocal_assign me v key) = (if t = me then v else ThreadLocal_get t key)"
  by (simp add: ThreadLocal_get_def ThreadLocal_assign_def pthread_setspecific_def)

end
