(* ===== verification/Bmp.thy ===== *)
theory Bmp
  imports Prelude
begin

text \<open>
  The bitmap writer of the fractal example (\<open>example/fractal.cpp\<close>): the bytes that
  \<open>writeBMP\<close> puts into its file, what becomes of them when a write fails, and the reading back
  of a pixel from them. The program around it is in the theory \<open>Fractal\<close>.
\<close>

unbundle bit_operations_syntax

datatype 'a color = Color (red: 'a) (green: 'a) (blue: 'a)

text \<open>
  The state of the writer is the variable \<open>ok\<close> and what the file holds; \<open>fw n\<close> is whether
  \<open>fwrite\<close> succeeds in a file of \<open>n\<close> bytes.
\<close>

type_synonym out_file = "bool \<times> byte list"

definition put1 :: "(nat \<Rightarrow> bool) \<Rightarrow> byte \<Rightarrow> out_file \<Rightarrow> out_file" where
  "put1 fw val = (\<lambda>(ok, out). if ok \<and> fw (length out) then (True, out @ [val]) else (False, out))"

definition put2 :: "(nat \<Rightarrow> bool) \<Rightarrow> 16 word \<Rightarrow> out_file \<Rightarrow> out_file" where
  "put2 fw val out = put1 fw (ucast (drop_bit 8 val)) (put1 fw (ucast val) out)"

definition put4 :: "(nat \<Rightarrow> bool) \<Rightarrow> u32 \<Rightarrow> out_file \<Rightarrow> out_file" where
  "put4 fw val out = put2 fw (ucast (drop_bit 16 val)) (put2 fw (ucast val) out)"

text \<open>Width and height are values of the type \<open>int\<close>.\<close>

definition bmp_padding :: "u32 \<Rightarrow> u32" where
  "bmp_padding width = - (3 * width) AND 3"

definition bmp_stride :: "u32 \<Rightarrow> u32" where
  "bmp_stride width = 3 * width + bmp_padding width"

definition bmp_offset :: u32 where
  "bmp_offset = 54"

definition bmp_header :: "(nat \<Rightarrow> bool) \<Rightarrow> u32 \<Rightarrow> u32 \<Rightarrow> out_file \<Rightarrow> out_file" where
  "bmp_header fw width height out =
     (let out = put1 fw 66 out;
          out = put1 fw 77 out;
          out = put4 fw (bmp_offset + bmp_stride width * height) out;
          out = put4 fw 0 out;
          out = put4 fw bmp_offset out;
          out = put4 fw 40 out;
          out = put4 fw width out;
          out = put4 fw height out;
          out = put2 fw 1 out;
          out = put2 fw 24 out;
          out = put4 fw 0 out;
          out = put4 fw 0 out;
          out = put4 fw 72 out;
          out = put4 fw 72 out;
          out = put4 fw 0 out
      in put4 fw 0 out)"

definition put_texel :: "(nat \<Rightarrow> bool) \<Rightarrow> byte color \<Rightarrow> out_file \<Rightarrow> out_file" where
  "put_texel fw texel out = put1 fw (red texel) (put1 fw (green texel) (put1 fw (blue texel) out))"

text \<open>One line of the image; \<open>texels\<close> is read at the \<open>int\<close> \<open>x + y * width\<close>.\<close>

definition put_row ::
  "(nat \<Rightarrow> bool) \<Rightarrow> byte color list \<Rightarrow> u32 \<Rightarrow> nat \<Rightarrow> out_file \<Rightarrow> out_file res" where
  "put_row fw texels width y out =
     bind_res (fold_res (\<lambda>x out.
         let i = x + y * nat (sint width)
         in bind_res (guard_res (i < 2 ^ 31) Overflow) (\<lambda>_.
            bind_res (guard_res (i < length texels) OutOfBounds) (\<lambda>_.
            Inr (put_texel fw (texels ! i) out))))
       [0..<nat (sint width)] out) (\<lambda>out.
     Inr (foldl (\<lambda>out i. put1 fw 0 out) out [0..<unat (bmp_padding width)]))"

text \<open>
  \<open>opened\<close> is whether \<open>fopen\<close> succeeds. The result is the value of the function and the
  contents of the file.
\<close>

definition writeBMP ::
  "bool \<Rightarrow> (nat \<Rightarrow> bool) \<Rightarrow> byte color list \<Rightarrow> u32 \<Rightarrow> u32 \<Rightarrow> (bool \<times> byte list option) res" where
  "writeBMP opened fw texels width height =
     (if \<not> opened then Inr (False, None)
      else bind_res (guard_res (sint (3 * width) = 3 * sint width) Overflow) (\<lambda>_.
           bind_res (fold_res (put_row fw texels width) (rev [0..<nat (sint height)])
             (bmp_header fw width height (True, []))) (\<lambda>(ok, out).
           Inr (ok, Some out))))"

subsection \<open>The bytes\<close>

definition put_all :: "(nat \<Rightarrow> bool) \<Rightarrow> byte list \<Rightarrow> out_file \<Rightarrow> out_file" where
  "put_all fw bs out = foldl (\<lambda>out b. put1 fw b out) out bs"

lemma put_all_append: "put_all fw (bs @ cs) out = put_all fw cs (put_all fw bs out)"
  by (simp add: put_all_def)

lemma put_all_Nil: "put_all fw [] out = out"
  by (simp add: put_all_def)

text \<open>Nothing is written after the first write that fails.\<close>

lemma put_all_ok:
  "\<forall>i<length bs. fw (length out + i) \<Longrightarrow> put_all fw bs (True, out) = (True, out @ bs)"
proof (induction bs arbitrary: out)
  case (Cons b bs)
  have "fw (length out)" using Cons.prems [rule_format, of 0] by simp
  moreover have "fw (length (out @ [b]) + i)" if "i < length bs" for i
    using Cons.prems [rule_format, of "Suc i"] that by simp
  ultimately show ?case using Cons.IH [of "out @ [b]"] by (simp add: put_all_def put1_def)
qed (simp add: put_all_def)

lemma put_all_failed: "put_all fw bs (False, out) = (False, out)"
  by (induction bs) (simp_all add: put_all_def put1_def)

lemma put_all_error:
  assumes "k < length bs" "\<not> fw k"
  shows "\<exists>j\<le>k. put_all fw bs (True, []) = (False, take j bs)"
proof -
  define j where "j = (LEAST j. \<not> fw j)"
  have j: "\<not> fw j" "j \<le> k" "\<forall>i<j. fw i"
    using LeastI [of "\<lambda>j. \<not> fw j" k] Least_le [of "\<lambda>j. \<not> fw j" k] not_less_Least assms(2)
    unfolding j_def by blast+
  have "put_all fw (take j bs) (True, []) = (True, take j bs)"
    using put_all_ok [of "take j bs" fw "[]"] j(3) by simp
  moreover have "bs = take j bs @ (bs ! j) # drop (Suc j) bs"
    using id_take_nth_drop [of j bs] j(2) assms(1) by simp
  moreover have "put_all fw ((bs ! j) # cs) (True, take j bs) = (False, take j bs)" for cs
    using put_all_failed [of fw cs "take j bs"] j(1,2) assms(1) by (simp add: put_all_def put1_def)
  ultimately have "put_all fw bs (True, []) = (False, take j bs)" by (metis put_all_append)
  with j(2) show ?thesis by blast
qed

definition bytes2 :: "16 word \<Rightarrow> byte list" where
  "bytes2 val = [ucast val, ucast (drop_bit 8 val)]"

definition bytes4 :: "u32 \<Rightarrow> byte list" where
  "bytes4 val = bytes2 (ucast val) @ bytes2 (ucast (drop_bit 16 val))"

definition header_bytes :: "u32 \<Rightarrow> u32 \<Rightarrow> byte list" where
  "header_bytes width height =
     [66, 77] @ bytes4 (bmp_offset + bmp_stride width * height) @ bytes4 0 @ bytes4 bmp_offset @
     bytes4 40 @ bytes4 width @ bytes4 height @ bytes2 1 @ bytes2 24 @
     bytes4 0 @ bytes4 0 @ bytes4 72 @ bytes4 72 @ bytes4 0 @ bytes4 0"

definition row_bytes :: "byte color list \<Rightarrow> u32 \<Rightarrow> nat \<Rightarrow> byte list" where
  "row_bytes texels width y =
     concat (map (\<lambda>x. let t = texels ! (x + y * nat (sint width)) in [blue t, green t, red t])
       [0..<nat (sint width)]) @ replicate (unat (bmp_padding width)) 0"

lemma put1_all: "put1 fw v out = put_all fw [v] out"
  by (simp add: put_all_def)

lemma put2_all: "put2 fw v out = put_all fw (bytes2 v) out"
  by (simp add: put2_def bytes2_def put_all_def)

lemma put4_all: "put4 fw v out = put_all fw (bytes4 v) out"
  by (simp add: put4_def bytes4_def put2_all put_all_append)

lemma header_all: "bmp_header fw width height out = put_all fw (header_bytes width height) out"
  by (simp only: bmp_header_def header_bytes_def put1_all put2_all put4_all put_all_append [symmetric]
      Let_def append.assoc append_Cons append_Nil)

lemma length_header [simp]: "length (header_bytes width height) = 54"
  by (simp add: header_bytes_def bytes4_def bytes2_def)

lemma put_row_eq:
  assumes "(y + 1) * nat (sint width) \<le> length texels" "length texels \<le> 2 ^ 31"
  shows "put_row fw texels width y out = Inr (put_all fw (row_bytes texels width y) out)"
proof -
  let ?w = "nat (sint width)"
  let ?b = "\<lambda>x. let t = texels ! (x + y * ?w) in [blue t, green t, red t]"
  have "fold_res (\<lambda>x out. let i = x + y * ?w
      in bind_res (guard_res (i < 2 ^ 31) Overflow) (\<lambda>_.
         bind_res (guard_res (i < length texels) OutOfBounds) (\<lambda>_.
         Inr (put_texel fw (texels ! i) out))))
      [0..<k] out = Inr (put_all fw (concat (map ?b [0..<k])) out)" if "k \<le> ?w" for k
    using that
  proof (induction k)
    case (Suc k)
    have "k + y * ?w < length texels" using Suc.prems assms(1) by (simp add: algebra_simps)
    with Suc assms(2) show ?case
      by (simp add: fold_res_append Let_def put_texel_def put1_all put_all_append [symmetric])
  qed (simp add: put_all_Nil)
  moreover have "foldl (\<lambda>out i. put1 fw 0 out) out [0..<n] = put_all fw (replicate n 0) out" for out n
    by (induction n) (simp_all add: put1_all put_all_Nil put_all_append [symmetric] replicate_append_same)
  ultimately show ?thesis by (simp add: put_row_def row_bytes_def put_all_append)
qed

lemma padding_eq: "unat (bmp_padding width) = unat (- (3 * width)) mod 4"
proof -
  have "(3 :: u32) = mask 2" by (simp add: mask_eq_exp_minus_1)
  then have "bmp_padding width = take_bit 2 (- (3 * width))"
    by (simp only: bmp_padding_def take_bit_eq_mask)
  then show ?thesis by (simp add: take_bit_eq_mod unat_mod_distrib)
qed

lemma row_width:
  assumes "3 * unat width + 3 < 2 ^ 32"
  shows "unat (bmp_stride width) = 3 * unat width + unat (bmp_padding width)"
    and "unat (bmp_stride width) mod 4 = 0"
proof -
  have w: "unat (3 * width) = 3 * unat width"
    using assms by (subst unat_mult_lem [THEN iffD1]) simp_all
  have "unat (bmp_padding width) < 4" by (simp add: padding_eq)
  then show s: "unat (bmp_stride width) = 3 * unat width + unat (bmp_padding width)"
    unfolding bmp_stride_def using assms w by (subst unat_add_lem [THEN iffD1]) simp_all
  have "unat (3 * width + - (3 * width)) = (unat (3 * width) + unat (- (3 * width))) mod 2 ^ 32"
    by (subst unat_word_ariths(1)) simp
  then have "(unat (3 * width) + unat (- (3 * width))) mod 2 ^ 32 = 0" by simp
  then have "2 ^ 32 dvd 3 * unat width + unat (- (3 * width))" using w by (simp add: mod_eq_0_iff_dvd)
  moreover have "(4 :: nat) dvd 2 ^ 32" by simp
  ultimately have "(3 * unat width + unat (- (3 * width))) mod 4 = 0"
    by (meson dvd_imp_mod_0 dvd_trans)
  then show "unat (bmp_stride width) mod 4 = 0" using s by (simp add: padding_eq mod_add_right_eq)
qed

text \<open>Lists of equal length one after the other.\<close>

lemma concat_nth:
  assumes "\<And>i. i < n \<Longrightarrow> length (f i) = l" "i < n" "j < l"
  shows "concat (map f [0..<n]) ! (i * l + j) = f i ! j"
  using assms
proof (induction n arbitrary: i)
  case (Suc n)
  have len: "length (concat (map f [0..<m])) = m * l" if "m \<le> n" for m
    using that Suc.prems(1) by (induction m) simp_all
  show ?case
  proof (cases "i = n")
    case True
    then show ?thesis using len [of n] Suc.prems by (simp add: nth_append)
  next
    case False
    then have i: "i < n" using Suc.prems by simp
    then have "(i + 1) * l \<le> n * l" by (intro mult_le_mono1) simp
    then have "i * l + j < n * l" using Suc.prems(3) by (simp add: algebra_simps)
    then show ?thesis using Suc.IH [OF _ i] Suc.prems len [of n] by (simp add: nth_append)
  qed
qed simp

lemma length_row:
  "length (row_bytes texels width y) = 3 * nat (sint width) + unat (bmp_padding width)"
proof -
  have "length (concat (map (\<lambda>x. let t = texels ! (x + y * n) in [blue t, green t, red t]) [0..<k])) = 3 * k"
    for n k by (induction k) (simp_all add: Let_def)
  then show ?thesis by (simp add: row_bytes_def)
qed

lemma row_pixel:
  assumes "x < nat (sint width)" "c < 3"
  shows "row_bytes texels width y ! (3 * x + c) =
    [blue (texels ! (x + y * nat (sint width))), green (texels ! (x + y * nat (sint width))),
     red (texels ! (x + y * nat (sint width)))] ! c"
proof -
  let ?b = "\<lambda>x. let t = texels ! (x + y * nat (sint width)) in [blue t, green t, red t]"
  have "length (concat (map ?b [0..<k])) = 3 * k" for k by (induction k) (simp_all add: Let_def)
  then have "row_bytes texels width y ! (3 * x + c) = concat (map ?b [0..<nat (sint width)]) ! (3 * x + c)"
    using assms by (simp add: row_bytes_def nth_append)
  also have "\<dots> = ?b x ! c"
    using concat_nth [of "nat (sint width)" ?b 3 x c] assms by (simp add: Let_def mult.commute)
  finally show ?thesis by (simp add: Let_def)
qed

text \<open>The whole file: the header, and the rows from the bottom one to the top one.\<close>

definition bmp_bytes :: "byte color list \<Rightarrow> u32 \<Rightarrow> u32 \<Rightarrow> byte list" where
  "bmp_bytes texels width height =
     header_bytes width height @
     concat (map (\<lambda>i. row_bytes texels width (unat height - 1 - i)) [0..<unat height])"

lemma sint_nonneg_unat: "0 \<le> sint (x :: u32) \<Longrightarrow> nat (sint x) = unat x"
proof (cases "sint x = 0")
  case True
  have "(of_int (sint x) :: u32) = x" by simp
  then have "x = 0" unfolding True by simp
  then show ?thesis by simp
qed (use sint_pos_unat [of x] in simp)

lemma writeBMP_bytes:
  assumes "0 < sint width" "0 \<le> sint height" "length texels = unat width * unat height"
    and "unat width * unat height \<le> 2 ^ 31" "sint (3 * width) = 3 * sint width"
  shows "writeBMP True fw texels width height =
    (let (ok, out) = put_all fw (bmp_bytes texels width height) (True, []) in Inr (ok, Some out))"
proof -
  let ?w = "unat width" and ?h = "unat height"
  have w: "nat (sint width) = ?w" using sint_pos_unat [OF assms(1)] by simp
  have h: "nat (sint height) = ?h" by (rule sint_nonneg_unat [OF assms(2)])
  have rows: "fold_res (put_row fw texels width) ys out =
      Inr (put_all fw (concat (map (row_bytes texels width) ys)) out)" if "\<forall>y\<in>set ys. y < ?h" for ys out
    using that
  proof (induction ys arbitrary: out)
    case (Cons y ys)
    have "(y + 1) * ?w \<le> ?h * ?w" using Cons.prems by (intro mult_le_mono1) simp
    then have "put_row fw texels width y out = Inr (put_all fw (row_bytes texels width y) out)"
      using assms(3,4) w by (intro put_row_eq) (simp_all add: mult.commute)
    then show ?case using Cons by (simp add: put_all_append)
  qed (simp add: put_all_Nil)
  have "rev [0..<?h] = map (\<lambda>i. ?h - 1 - i) [0..<?h]"
    by (rule nth_equalityI) (simp_all add: rev_nth)
  then show ?thesis
    using rows [of "rev [0..<?h]"] h assms(5)
    by (simp add: writeBMP_def bmp_bytes_def header_all put_all_append comp_def split: prod.splits)
qed

lemma bmp_pixel:
  assumes "0 < sint width" "3 * unat width + 3 < 2 ^ 32" "x < unat width" "y < unat height" "c < 3"
  shows "bmp_bytes texels width height !
      (54 + (unat height - 1 - y) * unat (bmp_stride width) + 3 * x + c) =
    [blue (texels ! (x + y * unat width)), green (texels ! (x + y * unat width)),
     red (texels ! (x + y * unat width))] ! c"
proof -
  let ?w = "unat width" and ?h = "unat height" and ?s = "unat (bmp_stride width)"
  have w: "nat (sint width) = ?w" using sint_pos_unat [OF assms(1)] by simp
  have s: "?s = 3 * ?w + unat (bmp_padding width)" using row_width [OF assms(2)] by simp
  have row: "length (row_bytes texels width i) = ?s" for i using length_row [of texels width i] s w by simp
  have "bmp_bytes texels width height ! (54 + (?h - 1 - y) * ?s + 3 * x + c) =
      concat (map (\<lambda>i. row_bytes texels width (?h - 1 - i)) [0..<?h]) ! ((?h - 1 - y) * ?s + (3 * x + c))"
    by (simp add: bmp_bytes_def nth_append add.assoc)
  also have "\<dots> = row_bytes texels width (?h - 1 - (?h - 1 - y)) ! (3 * x + c)"
    using assms(3-5) s row by (intro concat_nth) auto
  finally show ?thesis using row_pixel [of x width c texels y] assms(3-5) w by simp
qed

lemma bmp_length:
  assumes "0 < sint width" "3 * unat width + 3 < 2 ^ 32"
  shows "length (bmp_bytes texels width height) = 54 + unat (bmp_stride width) * unat height"
proof -
  have "length (row_bytes texels width i) = unat (bmp_stride width)" for i
    using length_row [of texels width i] row_width [OF assms(2)] sint_pos_unat [OF assms(1)] by simp
  then have "length (concat (map (\<lambda>i. row_bytes texels width (f i)) [0..<k])) = unat (bmp_stride width) * k"
    for k f by (induction k) simp_all
  then show ?thesis by (simp add: bmp_bytes_def)
qed

lemma bmp_size:
  assumes "54 + (3 * unat width + 3) * unat height < 2 ^ 32" "3 * unat width + 3 < 2 ^ 32"
  shows "unat (bmp_offset + bmp_stride width * height) = 54 + unat (bmp_stride width) * unat height"
proof -
  have "unat (bmp_padding width) < 4" by (simp add: padding_eq)
  then have "unat (bmp_stride width) * unat height \<le> (3 * unat width + 3) * unat height"
    using row_width(1) [OF assms(2)] by (intro mult_le_mono1) simp
  then have small: "54 + unat (bmp_stride width) * unat height < 2 ^ 32" using assms(1) by linarith
  then have "unat (bmp_stride width * height) = unat (bmp_stride width) * unat height"
    by (subst unat_mult_lem [THEN iffD1]) simp_all
  with small show ?thesis unfolding bmp_offset_def by (subst unat_add_lem [THEN iffD1]) simp_all
qed

text \<open>
  An image that is read within its bounds is written without a fault, and the function answers whether
  every byte was written: a header of 54 bytes, which names the size of the file, and rows of a
  multiple of 4 bytes from the bottom one to the top one, so that each pixel is found, blue first, at
  the place that the format says. After a write that fails, nothing more is written.
\<close>

theorem writeBMP_pixels:
  assumes "0 < sint width" "0 \<le> sint height" "length texels = unat width * unat height"
    and "54 + (3 * unat width + 3) * unat height < 2 ^ 32" "sint (3 * width) = 3 * sint width"
  shows "\<exists>file. length file = 54 + unat (bmp_stride width) * unat height \<and>
    unat (bmp_stride width) mod 4 = 0 \<and>
    unat (bmp_offset + bmp_stride width * height) = length file \<and>
    (\<forall>x<unat width. \<forall>y<unat height.
      let at = 54 + (unat height - 1 - y) * unat (bmp_stride width) + 3 * x; t = texels ! (x + y * unat width)
      in [file ! at, file ! (at + 1), file ! (at + 2)] = [blue t, green t, red t]) \<and>
    ((\<forall>i<length file. fw i) \<longrightarrow> writeBMP True fw texels width height = Inr (True, Some file)) \<and>
    (\<forall>k<length file. \<not> fw k \<longrightarrow>
      (\<exists>j\<le>k. writeBMP True fw texels width height = Inr (False, Some (take j file))))"
proof -
  let ?file = "bmp_bytes texels width height"
  have "3 * (unat width * unat height) \<le> (3 * unat width + 3) * unat height"
    by (simp add: algebra_simps)
  moreover have "(2 :: nat) ^ 32 \<le> 3 * 2 ^ 31" by simp
  ultimately have small: "unat width * unat height \<le> 2 ^ 31" using assms(4) by linarith
  have "sint (3 * width) < 2 ^ 31" using sint_lt [of "3 * width"] by simp
  then have "3 * uint width < 2 ^ 31" using assms(1,5) sint_pos_unat [OF assms(1)] by simp
  then have "int (3 * unat width + 3) < int (2 ^ 32)" by simp
  then have w3: "3 * unat width + 3 < 2 ^ 32" by (simp only: of_nat_less_iff)
  have written: "writeBMP True fw texels width height =
      (let (ok, out) = put_all fw ?file (True, []) in Inr (ok, Some out))"
    by (rule writeBMP_bytes [OF assms(1-3) small assms(5)])
  have "writeBMP True fw texels width height = Inr (True, Some ?file)" if "\<forall>i<length ?file. fw i"
    using written put_all_ok [of ?file fw "[]"] that by simp
  moreover have "\<exists>j\<le>k. writeBMP True fw texels width height = Inr (False, Some (take j ?file))"
    if "k < length ?file" "\<not> fw k" for k
    using written put_all_error [of k ?file fw, OF that] by auto
  moreover have "let at = 54 + (unat height - 1 - y) * unat (bmp_stride width) + 3 * x; t = texels ! (x + y * unat width)
      in [?file ! at, ?file ! (at + 1), ?file ! (at + 2)] = [blue t, green t, red t]"
    if "x < unat width" "y < unat height" for x y
    using bmp_pixel [OF assms(1) w3 that, of 0 texels] bmp_pixel [OF assms(1) w3 that, of 1 texels]
      bmp_pixel [OF assms(1) w3 that, of 2 texels] by (simp add: Let_def numeral_2_eq_2)
  ultimately show ?thesis
    using bmp_length [OF assms(1) w3, of texels height] bmp_size [OF assms(4) w3] row_width(2) [OF w3]
    by (intro exI [of _ ?file]) simp
qed

theorem writeBMP_pixels_witness:
  "\<exists>written. writeBMP True (\<lambda>_. True) [Color 1 2 3, Color 4 5 6] 1 2 = Inr (True, Some written) \<and>
    length written = 62 \<and> written ! 54 = 6 \<and> written ! 58 = 3"
proof -
  have h: "unat (1 :: u32) = 1" "unat (2 :: u32) = 2" by simp_all
  have stride: "unat (bmp_stride 1) = 4" by (simp add: bmp_stride_def bmp_padding_def)
  obtain written where
    f: "writeBMP True (\<lambda>_. True) [Color 1 2 3, Color 4 5 6] 1 2 = Inr (True, Some written)"
    "length written = 54 + 4 * 2"
    "\<forall>x<1. \<forall>y<2. let at = 54 + (2 - 1 - y) * 4 + 3 * x; t = [Color 1 2 3, Color 4 5 6] ! (x + y * 1)
      in [written ! at, written ! (at + 1), written ! (at + 2)] = [blue t, green t, red t]"
    using writeBMP_pixels [of 1 2 "[Color 1 2 3, Color 4 5 6]" "\<lambda>_. True"] unfolding h stride by auto
  show ?thesis using f(1,2) f(3) [rule_format, of 0 0] f(3) [rule_format, of 0 1] by (simp add: Let_def)
qed

end
