(* ===== verification/Worker_Wait.thy ===== *)
theory Worker_Wait
  imports Worker
begin

text \<open>
  The two overloads of \<open>Worker::wait\<close> around \<open>suspend\<close> (\<open>src/worker.cpp\<close>), and the
  random generator \<open>FastRnd\<close> (\<open>include/hfts/worker.hpp\<close>). What happens to the worker inside
  \<open>suspend\<close> is the machine of the theory \<open>Worker_Machine\<close>; here it is one event between
  the operations on the worker's mutex and on the lock of the caller.
\<close>

unbundle bit_operations_syntax

subsection \<open>\<open>wait\<close>\<close>

text \<open>\<open>wait(timeout)\<close>: the result, from the clock after the suspension.\<close>

definition Worker_wait :: "time option \<Rightarrow> time \<Rightarrow> bool" where
  "Worker_wait timeout now = (case timeout of None \<Rightarrow> True | Some t \<Rightarrow> now < t)"

datatype wait_event = WorkLock | UserUnlock | Suspend | WorkUnlock | UserLock

definition wait_body :: "wait_event list" where
  "wait_body = [WorkLock, UserUnlock, Suspend, WorkUnlock, UserLock]"

text \<open>
  \<open>wait(lock, timeout, pred)\<close> against the values of the predicate and of the clock in each turn;
  the result is \<open>None\<close> when these end before the call returns.
\<close>

fun Worker_wait_pred :: "time option \<Rightarrow> (bool \<times> time) list \<Rightarrow> wait_event list \<times> bool option" where
  "Worker_wait_pred timeout [] = ([], None)"
| "Worker_wait_pred timeout ((pred, now) # turns) =
     (if pred then ([], Some True)
      else if timeout \<noteq> None \<and> now \<ge> the timeout then (wait_body, Some False)
      else let (events, r) = Worker_wait_pred timeout turns in (wait_body @ events, r))"

text \<open>Whether the worker's mutex and the caller's lock are held, along the events.\<close>

fun hold :: "wait_event \<Rightarrow> bool \<times> bool \<Rightarrow> (bool \<times> bool) option" where
  "hold WorkLock (wk, us) = (if wk then None else Some (True, us))"
| "hold UserUnlock (wk, us) = (if us \<and> wk then Some (wk, False) else None)"
| "hold Suspend (wk, us) = (if wk \<and> \<not> us then Some (wk, us) else None)"
| "hold WorkUnlock (wk, us) = (if wk then Some (False, us) else None)"
| "hold UserLock (wk, us) = (if us then None else Some (wk, True))"

fun holds_along :: "wait_event list \<Rightarrow> bool \<times> bool \<Rightarrow> (bool \<times> bool) option" where
  "holds_along [] st = Some st"
| "holds_along (e # es) st = Option.bind (hold e st) (holds_along es)"

lemma holds_along_append: "holds_along (es @ fs) st = Option.bind (holds_along es st) (holds_along fs)"
  by (induction es arbitrary: st) (auto split: bind_splits)

text \<open>A turn ends the wait when the predicate is true, or else when the deadline has passed.\<close>

definition decided :: "time option \<Rightarrow> bool \<times> time \<Rightarrow> bool" where
  "decided timeout turn \<longleftrightarrow> fst turn \<or> (\<exists>t. timeout = Some t \<and> t \<le> snd turn)"

lemma Worker_wait_pred_undecided:
  "\<not> decided timeout turn \<Longrightarrow> Worker_wait_pred timeout (turn # turns) =
    (let (events, r) = Worker_wait_pred timeout turns in (wait_body @ events, r))"
  by (cases turn) (auto simp: decided_def)

lemma Worker_wait_pred_decided:
  "decided timeout turn \<Longrightarrow> Worker_wait_pred timeout (turn # turns) =
    (if fst turn then ([], Some True) else (wait_body, Some False))"
  by (cases turn) (auto simp: decided_def)

lemma wait_locks:
  "holds_along (fst (Worker_wait_pred timeout turns)) (False, True) = Some (False, True)"
proof (induction turns)
  case (Cons turn turns)
  have "holds_along wait_body (False, True) = Some (False, True)" by (simp add: wait_body_def)
  then show ?case
    using Cons by (cases "decided timeout turn")
      (auto simp: Worker_wait_pred_decided Worker_wait_pred_undecided holds_along_append
        split: prod.splits)
qed simp

lemma wait_undecided:
  "\<forall>turn\<in>set turns. \<not> decided timeout turn \<Longrightarrow>
    snd (Worker_wait_pred timeout turns) = None \<and> length (fst (Worker_wait_pred timeout turns)) = 5 * length turns"
  by (induction turns)
    (auto simp: Worker_wait_pred_undecided wait_body_def split: prod.splits)

lemma wait_first_decided:
  assumes "\<forall>turn\<in>set before. \<not> decided timeout turn" "decided timeout turn"
  shows "Worker_wait_pred timeout (before @ turn # after) =
    (let (events, _) = Worker_wait_pred timeout before
     in if fst turn then (events, Some True) else (events @ wait_body, Some False))"
  using assms
  by (induction before)
    (auto simp: Worker_wait_pred_undecided Worker_wait_pred_decided Let_def split: prod.splits)

text \<open>
  C17. In a wait with a predicate, the caller's lock is released only while the worker's mutex is held, and
  the fiber is suspended with the mutex and without the lock, so that a notifier that has the lock finds
  the fiber registered; the lock is held again on return. The first turn in which the predicate is true
  or the deadline has passed decides the wait: a predicate that is true wins over a deadline that has
  passed, without another suspension.
\<close>

theorem wait_order:
  assumes "\<forall>turn\<in>set before. \<not> decided timeout turn" "decided timeout turn"
    and "Worker_wait_pred timeout (before @ turn # after) = (events, r)"
  shows "holds_along events (False, True) = Some (False, True) \<and> r = Some (fst turn) \<and>
    length (filter (\<lambda>e. e = Suspend) events) = length before + (if fst turn then 0 else 1)"
proof -
  have "length (filter (\<lambda>e. e = Suspend) (fst (Worker_wait_pred timeout before))) = length before"
    using assms(1)
    by (induction before) (auto simp: Worker_wait_pred_undecided wait_body_def split: prod.splits)
  moreover have "length (filter (\<lambda>e. e = Suspend) wait_body) = 1" by (simp add: wait_body_def)
  ultimately show ?thesis
    using wait_first_decided [OF assms(1,2), of after] assms(3)
      wait_locks [of timeout "before @ turn # after"]
    by (auto simp: Let_def split: prod.splits if_splits)
qed

theorem wait_order_witness:
  "Worker_wait_pred (Some 10) [(False, 3), (False, 12)] = (wait_body @ wait_body, Some False) \<and>
   length (filter (\<lambda>e. e = Suspend) (wait_body @ wait_body)) = 2"
  using wait_order [of "[(False, 3)]" "Some 10" "(False, 12)" "[]" "wait_body @ wait_body" "Some False"]
  by (simp add: decided_def)

subsection \<open>\<open>FastRnd\<close>\<close>

definition FastRnd_next :: "u64 \<Rightarrow> u64" where
  "FastRnd_next x =
     (let x = x XOR push_bit 13 x;
          x = x XOR drop_bit 7 x
      in x XOR push_bit 17 x)"

text \<open>A generator that does not start at 0 never gets there, where it would stay.\<close>

lemma xor_shift_left_zero:
  fixes x :: "'a :: len word"
  assumes "x = push_bit k x" "0 < k"
  shows "x = 0"
proof -
  have "\<not> bit x n" for n
  proof (induction n rule: less_induct)
    case (less n)
    have "bit x n \<longleftrightarrow> bit (push_bit k x) n" using assms(1) by simp
    then show ?case using less [of "n - k"] assms(2) by (auto simp: bit_simps)
  qed
  then show ?thesis by (intro bit_word_eqI) simp
qed

lemma xor_shift_right_zero:
  fixes x :: "'a :: len word"
  assumes "x = drop_bit k x" "0 < k"
  shows "x = 0"
proof -
  have "\<not> bit x n" for n
  proof (induction "LENGTH('a) - n" arbitrary: n rule: less_induct)
    case less
    have e: "bit x n \<longleftrightarrow> bit x (n + k)"
      using arg_cong [OF assms(1), of "\<lambda>w. bit w n"] by (simp add: bit_simps add.commute)
    show ?case
    proof (cases "n + k < LENGTH('a)")
      case True
      then show ?thesis using e less [of "n + k"] assms(2) by simp
    next
      case False
      then show ?thesis using e bit_imp_le_length [of x "n + k"] by auto
    qed
  qed
  then show ?thesis by (intro bit_word_eqI) simp
qed

lemma FastRnd_nonzero: "FastRnd_next x = 0 \<longleftrightarrow> x = 0"
proof
  have xor0: "a XOR b = 0 \<longleftrightarrow> a = b" for a b :: u64
    by (metis bit.xor_self bit.xor_left_self xor.right_neutral)
  assume zero: "FastRnd_next x = 0"
  define a where "a = x XOR push_bit 13 x"
  define b where "b = a XOR drop_bit 7 a"
  have "b XOR push_bit 17 b = 0" using zero by (simp only: FastRnd_next_def Let_def a_def b_def)
  then have "b = 0" using xor_shift_left_zero [of b 17] by (simp only: xor0)
  then have "a = 0" using xor_shift_right_zero [of a 7] by (simp only: b_def xor0)
  then show "x = 0" using xor_shift_left_zero [of x 13] by (simp only: a_def xor0)
qed (simp add: FastRnd_next_def)

end
