(* ===== verification/Lifecycle.thy ===== *)
theory Lifecycle
  imports Scheduler Thread
begin

text \<open>
  The configuration of a scheduler, the functions \<open>schedule\<close> and \<open>get\<close>, the stop of a worker
  thread and the order of destruction (\<open>include/hfts/scheduler.hpp\<close>, \<open>src/scheduler.cpp\<close>,
  \<open>Worker::stop\<close> in \<open>src/worker.cpp\<close>).
\<close>

subsection \<open>Configuration\<close>

text \<open>The allocator and the initializer of the threads are of any type.\<close>

record ('a, 'i) config =
  cfg_workerThread_count :: u32
  cfg_initializer :: "'i option"
  cfg_allocator :: 'a
  cfg_fiberStackSize :: size_t

definition DefaultFiberStackSize :: size_t where
  "DefaultFiberStackSize = 1024 * 1024"

definition Config_default :: "'a \<Rightarrow> ('a, 'i) config" where
  "Config_default dflt =
     \<lparr>cfg_workerThread_count = 0, cfg_initializer = None, cfg_allocator = dflt,
      cfg_fiberStackSize = DefaultFiberStackSize\<rparr>"

definition setAllocator :: "'a \<Rightarrow> ('a, 'i) config \<Rightarrow> ('a, 'i) config" where
  "setAllocator a cfg = cfg\<lparr>cfg_allocator := a\<rparr>"

definition setFiberStackSize :: "size_t \<Rightarrow> ('a, 'i) config \<Rightarrow> ('a, 'i) config" where
  "setFiberStackSize n cfg = cfg\<lparr>cfg_fiberStackSize := n\<rparr>"

definition setWorkerThreadCount :: "u32 \<Rightarrow> ('a, 'i) config \<Rightarrow> ('a, 'i) config" where
  "setWorkerThreadCount n cfg = cfg\<lparr>cfg_workerThread_count := n\<rparr>"

definition setWorkerThreadInitializer :: "'i \<Rightarrow> ('a, 'i) config \<Rightarrow> ('a, 'i) config" where
  "setWorkerThreadInitializer ti cfg = cfg\<lparr>cfg_initializer := Some ti\<rparr>"

definition setConfigDefaults :: "('a, 'i) config \<Rightarrow> ('a, 'i) config" where
  "setConfigDefaults cfg = cfg"

text \<open>The argument is the answer of \<open>sysconf\<close>.\<close>

definition allCores :: "'a \<Rightarrow> 64 word \<Rightarrow> ('a, 'i) config" where
  "allCores dflt answer = setWorkerThreadCount (numLogicalCPUs answer) (Config_default dflt)"

text \<open>The constructor from a configuration.\<close>

definition Scheduler_of_config :: "('a, 'i) config \<Rightarrow> int list \<Rightarrow> 'f scheduler res" where
  "Scheduler_of_config cfg spin0 =
     Scheduler_new (cfg_workerThread_count (setConfigDefaults cfg)) spin0"

subsection \<open>\<open>get\<close> and \<open>schedule\<close>\<close>

definition Scheduler_get :: "tid \<Rightarrow> 'f scheduler \<Rightarrow> 'f scheduler option" where
  "Scheduler_get me s = (if bound s me then Some s else None)"

definition setBound :: "tid \<Rightarrow> bool \<Rightarrow> 'f scheduler \<Rightarrow> 'f scheduler" where
  "setBound me b s = s\<lparr>bound := (bound s)(me := b)\<rparr>"

definition schedule ::
  "tid \<Rightarrow> 'f task \<Rightarrow> (nat \<Rightarrow> bool) list \<Rightarrow> 'f scheduler \<Rightarrow> (nat option \<times> 'f scheduler) res" where
  "schedule me t turns s =
     (case Scheduler_get me s of
        None \<Rightarrow> Inl NullDeref
      | Some s \<Rightarrow> Scheduler_enqueue me t turns s)"

subsection \<open>Stopping\<close>

text \<open>
  \<open>stop\<close> of a worker thread up to the join: a task that sets \<open>shutdown\<close>, which no other worker may
  steal; and of a single-threaded worker up to \<open>runUntilShutdown\<close>.
\<close>

definition Worker_stop :: "'f \<Rightarrow> 'f worker \<Rightarrow> bool \<times> 'f worker" where
  "Worker_stop set_shutdown w =
     (case w_mode w of
        MultiThreaded \<Rightarrow> enqueue_task (Task_new (Some set_shutdown) SameThread) w
      | SingleThreaded \<Rightarrow> (False, work_update (\<lambda>k. k\<lparr>locked := True\<rparr>) (w\<lparr>shutdown := True\<rparr>)))"

text \<open>The destructor waits for the bound threads, then stops the workers, and then destroys them.\<close>

definition Scheduler_destruct_pred :: "'f scheduler \<Rightarrow> bool" where
  "Scheduler_destruct_pred s \<longleftrightarrow> byTid s = []"

datatype destruct_event = Stop nat | Destroy nat

definition Scheduler_destruct :: "'f scheduler \<Rightarrow> destruct_event list" where
  "Scheduler_destruct s =
     map Stop (rev [0..<nat (sint (cfg_count s))]) @ map Destroy (rev [0..<nat (sint (cfg_count s))])"

subsection \<open>Properties\<close>

text \<open>
  Every worker is stopped and destroyed once, and none is destroyed while another one that could still
  steal from it runs.
\<close>

theorem destruct_order:
  "distinct (Scheduler_destruct s)"
  "\<exists>stops destroys. Scheduler_destruct s = stops @ destroys \<and>
     set stops = Stop ` {i. int i < sint (cfg_count s)} \<and>
     set destroys = Destroy ` {i. int i < sint (cfg_count s)}"
proof -
  show "distinct (Scheduler_destruct s)"
    by (auto simp: Scheduler_destruct_def distinct_map inj_on_def)
  let ?is = "rev [0..<nat (sint (cfg_count s))]"
  have "set ?is = {i. int i < sint (cfg_count s)}" by auto
  then have "Scheduler_destruct s = map Stop ?is @ map Destroy ?is \<and>
     set (map Stop ?is) = Stop ` {i. int i < sint (cfg_count s)} \<and>
     set (map Destroy ?is) = Destroy ` {i. int i < sint (cfg_count s)}"
    unfolding Scheduler_destruct_def set_map by simp
  then show "\<exists>stops destroys. Scheduler_destruct s = stops @ destroys \<and>
     set stops = Stop ` {i. int i < sint (cfg_count s)} \<and>
     set destroys = Destroy ` {i. int i < sint (cfg_count s)}" by (intro exI)
qed

text \<open>The task that stops a worker thread is never stolen, whatever is in the queue before it.\<close>

lemma stop_not_stolen:
  assumes "w_mode w = MultiThreaded" "tasks (work w) = []" "locked (work w) = False"
    "Worker_stop f w = (n, w')"
  shows "steal w' = Inr (None, w')"
  using assms
  by (auto simp: Worker_stop_def enqueue_task_def enqueueAndUnlock_def push_task_def steal_def
      Task_new_def Task_is_def)

text \<open>
  When \<open>sysconf\<close> fails, its -1 becomes the signed count -1: no worker is made, and the first task
  that is not bound to its thread indexes \<open>spinningWorkers\<close> beyond its end.
\<close>

lemma allCores_after_error:
  assumes "length spin0 = 256" "Task_is SameThread t = False"
    and "Scheduler_of_config (allCores dflt (- 1)) spin0 = Inr s"
  shows "schedule me t (busy # turns) (setBound me True s) = Inl OutOfBounds"
proof -
  have "numLogicalCPUs (- 1) = - 1" by code_simp
  then have "cfg_count s = - 1" "spinningWorkers s = spin0" "nextSpinningWorkerIdx s = 0x8000000"
    using assms(3)
    by (auto simp: Scheduler_of_config_def setConfigDefaults_def allCores_def setWorkerThreadCount_def
        Scheduler_new_def Config_default_def)
  with assms(1,2) show ?thesis
    by (simp add: schedule_def Scheduler_get_def setBound_def Scheduler_enqueue_def enqueue_turn_def
        pick_worker_def mod_count_def array_get_def Let_def)
qed

text \<open>A thread that has not been bound has no scheduler.\<close>

lemma schedule_unbound: "\<not> bound s me \<Longrightarrow> schedule me t turns s = Inl NullDeref"
  by (simp add: schedule_def Scheduler_get_def)

end
