(* ===== verification/System.thy ===== *)
theory System
  imports Worker_Machine Scheduler "HOL-Library.Multiset"
begin

text \<open>
  The scheduler with all its worker threads: the machines of the theory \<open>Worker_Machine\<close>, one for
  each entry of \<open>workerThreads\<close>, which share the stack of spinning workers, take tasks from
  \<open>Scheduler::enqueue\<close> and steal tasks from each other (\<open>src/scheduler.cpp\<close>,
  \<open>src/worker.cpp\<close>). The lists \<open>submitted\<close>, \<open>started\<close> and \<open>late\<close> record what has
  happened to the tasks; no step depends on them.
\<close>

subsection \<open>The state\<close>

record 'f system =
  sch :: "'f scheduler"
  pcs :: "nat \<Rightarrow> fiber \<Rightarrow> pc"
  stolen :: "nat \<Rightarrow> 'f task option"       \<comment> \<open>the variable \<open>stolen\<close> of a worker that spins\<close>
  submitted :: "(nat \<times> 'f task) list"    \<comment> \<open>the worker that got the task\<close>
  started :: "(nat \<times> 'f task) list"      \<comment> \<open>the worker that called the task\<close>
  late :: "nat \<Rightarrow> 'f task list"          \<comment> \<open>submitted to a worker whose \<open>run\<close> had returned\<close>

definition machine_of :: "'f system \<Rightarrow> nat \<Rightarrow> 'f machine" where
  "machine_of S i = \<lparr>wk = the (workerThreads (sch S) ! i), pc = pcs S i\<rparr>"

definition put_machine :: "nat \<Rightarrow> 'f machine \<Rightarrow> 'f system \<Rightarrow> 'f system" where
  "put_machine i M S = S\<lparr>sch := set_worker (int i) (wk M) (sch S), pcs := (pcs S)(i := pc M)\<rparr>"

definition current_pc :: "'f machine \<Rightarrow> pc" where
  "current_pc M = pc M (currentFiber (wk M))"

definition queue_of :: "'f machine \<Rightarrow> 'f task list" where
  "queue_of M = tasks (work (wk M))"

text \<open>
  The constructor of the scheduler makes the workers and starts their threads; each thread has its
  main fiber, at an address of its own memory, and will take its mutex first; tasks may come before that.
\<close>

definition started_worker :: "fiber \<Rightarrow> 'f worker \<Rightarrow> 'f worker" where
  "started_worker main w = Worker_start main w"

definition system_start :: "u32 \<Rightarrow> int list \<Rightarrow> (nat \<Rightarrow> fiber) \<Rightarrow> 'f system res" where
  "system_start n spin0 mains =
     bind_res (Scheduler_new n spin0) (\<lambda>s.
     Inr \<lparr>sch = s\<lparr>workerThreads := map (\<lambda>i. map_option (started_worker (mains i)) (workerThreads s ! i))
                     [0..<length (workerThreads s)]\<rparr>,
          pcs = (\<lambda>i. (\<lambda>_. NoFiber)(mains i := Created)),
          stolen = (\<lambda>_. None), submitted = [], started = [], late = (\<lambda>_. [])\<rparr>)"

subsection \<open>Steps\<close>

text \<open>A worker enters \<open>spinForWorkAndLock\<close>.\<close>

definition begins_spin :: "'f machine \<Rightarrow> 'f machine \<Rightarrow> bool" where
  "begins_spin M M' \<longleftrightarrow> (\<exists>x. current_pc M' = Spin x) \<and> (\<nexists>x. current_pc M = Spin x)"

definition submit :: "nat \<Rightarrow> 'f task \<Rightarrow> 'f system \<Rightarrow> 'f system" where
  "submit i t S = S\<lparr>submitted := submitted S @ [(i, t)],
     late := if current_pc (machine_of S i) = Finished then (late S)(i := late S i @ [t]) else late S\<rparr>"

text \<open>
  A step of a worker that leaves its queue alone; the beginning of its search for work; a theft; the
  push of what it has stolen; the call of a task; one turn of the loop of \<open>Scheduler::enqueue\<close>; and a
  task for the worker itself, from a task it runs or from \<open>Worker::stop\<close>.
\<close>

inductive sysstep :: "'f system \<Rightarrow> 'f system \<Rightarrow> bool" where
  inner:
    "i < n_workers (sch S) \<Longrightarrow> wstep False (machine_of S i) M \<Longrightarrow>
     queue_of M = queue_of (machine_of S i) \<Longrightarrow> \<not> begins_spin (machine_of S i) M \<Longrightarrow>
     stolen S i = None \<or> current_pc M = current_pc (machine_of S i) \<Longrightarrow>
     sysstep S (put_machine i M S)"
| begin_spin:
    "i < n_workers (sch S) \<Longrightarrow> wstep False (machine_of S i) M \<Longrightarrow>
     queue_of M = queue_of (machine_of S i) \<Longrightarrow> begins_spin (machine_of S i) M \<Longrightarrow>
     onBeginSpinning (int i) (sch S) = Inr s \<Longrightarrow>
     sysstep S (put_machine i M (S\<lparr>sch := s\<rparr>))"
| theft:
    "i < n_workers (sch S) \<Longrightarrow> current_pc (machine_of S i) = Spin x \<Longrightarrow> stolen S i = None \<Longrightarrow>
     stealWork i from (sch S) = Inr (r, s) \<Longrightarrow>
     sysstep S (S\<lparr>sch := s, stolen := (stolen S)(i := r)\<rparr>)"
| push:
    "i < n_workers (sch S) \<Longrightarrow> current_pc (machine_of S i) = Spin x \<Longrightarrow> stolen S i = Some t \<Longrightarrow>
     \<not> locked (work (wk (machine_of S i))) \<Longrightarrow> room (wk (machine_of S i)) \<Longrightarrow>
     M = move (Block x) (spin_stolen t (wk (machine_of S i))) (machine_of S i) \<Longrightarrow>
     sysstep S (put_machine i M (S\<lparr>stolen := (stolen S)(i := None)\<rparr>))"
| call:
    "i < n_workers (sch S) \<Longrightarrow> current_pc (machine_of S i) = RunIdle \<Longrightarrow>
     fibers (work (wk (machine_of S i))) = [] \<Longrightarrow>
     runUntilIdle_task (wk (machine_of S i)) = Inr (t, w) \<Longrightarrow>
     sysstep S (put_machine i (move (User TaskCode) w (machine_of S i)) (S\<lparr>started := started S @ [(i, t)]\<rparr>))"
| submit_miss:
    "enqueue_turn t (\<lambda>j. locked (work (wk (machine_of S j)))) (sch S) = Inr (None, s) \<Longrightarrow>
     sysstep S (S\<lparr>sch := s\<rparr>)"
| submit_hit:
    "\<not> Task_is SameThread t \<Longrightarrow>
     enqueue_turn t (\<lambda>j. locked (work (wk (machine_of S j)))) (sch S) = Inr (Some i, s) \<Longrightarrow>
     room (wk (machine_of S i)) \<Longrightarrow>
     sysstep S ((submit i t S)\<lparr>sch := s\<rparr>)"
| submit_own:
    "i < n_workers (sch S) \<Longrightarrow> Task_is SameThread t \<Longrightarrow> \<not> locked (work (wk (machine_of S i))) \<Longrightarrow>
     room (wk (machine_of S i)) \<Longrightarrow>
     M = (machine_of S i)\<lparr>wk := snd (enqueue_task t (wk (machine_of S i)))\<rparr> \<Longrightarrow>
     sysstep S (put_machine i M (submit i t S))"

definition sys_reachable :: "'f system \<Rightarrow> bool" where
  "sys_reachable S \<longleftrightarrow>
     (\<exists>n spin0 mains S0. length spin0 = 256 \<and> 0 < sint n \<and>
        system_start n spin0 mains = Inr S0 \<and> sysstep\<^sup>*\<^sup>* S0 S)"

subsection \<open>Access to the machines\<close>

lemma machine_of_put:
  assumes "i < length (workerThreads (sch S))"
  shows "machine_of (put_machine i M S) j = (if j = i then M else machine_of S j)"
  using assms by (simp add: machine_of_def put_machine_def)

lemma machine_of_sch:
  "workerThreads s = workerThreads (sch S) \<Longrightarrow> machine_of (S\<lparr>sch := s\<rparr>) j = machine_of S j"
  by (simp add: machine_of_def)

lemma machine_of_updates [simp]:
  "machine_of (S\<lparr>stolen := a\<rparr>) j = machine_of S j" "machine_of (S\<lparr>started := b\<rparr>) j = machine_of S j"
  "machine_of (submit i t S) j = machine_of S j"
  by (simp_all add: machine_of_def submit_def)

lemma put_machine_fields [simp]:
  "stolen (put_machine i M S) = stolen S" "submitted (put_machine i M S) = submitted S"
  "started (put_machine i M S) = started S" "late (put_machine i M S) = late S"
  "n_workers (sch (put_machine i M S)) = n_workers (sch S)"
  "sch (put_machine i M S) = set_worker (int i) (wk M) (sch S)"
  by (simp_all add: put_machine_def)

lemma submit_fields [simp]:
  "stolen (submit i t S) = stolen S" "started (submit i t S) = started S" "sch (submit i t S) = sch S"
  "submitted (submit i t S) = submitted S @ [(i, t)]" "pcs (submit i t S) = pcs S"
  "late (submit i t S) j =
     (if j = i \<and> current_pc (machine_of S i) = Finished then late S i @ [t] else late S j)"
  by (simp_all add: submit_def)

text \<open>A step of the system moves at most the machine \<open>i\<close>, to \<open>M\<close>, seen as a step of that machine.\<close>

definition moves :: "'f system \<Rightarrow> 'f system \<Rightarrow> nat \<Rightarrow> 'f machine \<Rightarrow> bool" where
  "moves S S' i M \<longleftrightarrow> i < n_workers (sch S) \<and> (wstep False)\<^sup>*\<^sup>* (machine_of S i) M \<and>
     n_workers (sch S') = n_workers (sch S) \<and> sched_inv (sch S') \<and>
     (\<forall>j. machine_of S' j = (if j = i then M else machine_of S j))"

definition machines_ok :: "'f system \<Rightarrow> bool" where
  "machines_ok S \<longleftrightarrow> sched_inv (sch S) \<and> (\<forall>i<n_workers (sch S). reachable False (machine_of S i))"

lemma reachable_steps:
  "reachable False M \<Longrightarrow> (wstep False)\<^sup>*\<^sup>* M M' \<Longrightarrow> reachable False M'"
  unfolding reachable_def by (meson rtranclp_trans)

lemma moves_ok: "machines_ok S \<Longrightarrow> moves S S' i M \<Longrightarrow> machines_ok S'"
  using reachable_steps by (auto simp: machines_ok_def moves_def)

subsection \<open>Each step moves one machine by its own steps\<close>

lemma system_workers:
  assumes "machines_ok S" "i < n_workers (sch S)"
  shows "minv (machine_of S i)" "i < length (workerThreads (sch S))"
    "workerThreads (sch S) ! i = Some (wk (machine_of S i))"
    "work_count (work (wk (machine_of S i)))"
    "length (tasks (work (wk (machine_of S i)))) + length (fibers (work (wk (machine_of S i)))) < 2 ^ 64"
proof -
  have inv: "sched_inv (sch S)" and r: "reachable False (machine_of S i)"
    using assms by (simp_all add: machines_ok_def)
  from reachable_minv [OF r] show m: "minv (machine_of S i)" .
  show "i < length (workerThreads (sch S))" using sched_invD(2,5) [OF inv] assms(2) by simp
  show "workerThreads (sch S) ! i = Some (wk (machine_of S i))"
    using sched_invD(7) [OF inv assms(2)] by (auto simp: machine_of_def)
  show "work_count (work (wk (machine_of S i)))"
    "length (tasks (work (wk (machine_of S i)))) + length (fibers (work (wk (machine_of S i)))) < 2 ^ 64"
    using minvD(1) [OF m] by (simp_all add: count_ok_def)
qed

lemma moves_put:
  assumes "machines_ok S" "i < n_workers (sch S)" "(wstep False)\<^sup>*\<^sup>* (machine_of S i) M"
    and "n_workers (sch T) = n_workers (sch S)" "sched_inv (sch T)"
    and "\<And>j. machine_of T j = machine_of S j"
  shows "moves S (put_machine i M T) i M"
proof -
  have "i < length (workerThreads (sch T))"
    using sched_invD(2,5) [OF assms(5)] assms(2,4) by simp
  then show ?thesis
    using assms by (simp add: moves_def set_worker_inv machine_of_put)
qed

lemma stealWork_count: "stealWork thief from s = Inr (r, s') \<Longrightarrow> cfg_count s' = cfg_count s"
  by (auto simp: stealWork_def Let_def split: if_splits)

lemma theft_none:
  assumes ok: "machines_ok S" and i: "i < n_workers (sch S)"
    and "stealWork i from (sch S) = Inr (None, s)"
  shows "moves S (S\<lparr>sch := s, stolen := f\<rparr>) i (machine_of S i)"
proof -
  have inv: "sched_inv (sch S)" using ok by (simp add: machines_ok_def)
  note v = system_workers(3-5) [OF ok victim_eq(2) [OF inv, of "from"]]
  from stealWork_ok [OF inv v, of i] assms(3)
  have "workerThreads s = workerThreads (sch S)" "sched_inv s" by auto
  then show ?thesis
    using i stealWork_count [OF assms(3)] by (simp add: moves_def n_workers_def machine_of_def)
qed

lemma theft_some:
  assumes ok: "machines_ok S" and "stealWork i from (sch S) = Inr (Some t, s)"
  obtains v w where "v < n_workers (sch S)" "v \<noteq> i" "flag t = NoFlag"
    "steal (wk (machine_of S v)) = Inr (Some t, w)"
    "queue_of (machine_of S v) = t # tasks (work w)"
    "moves S (S\<lparr>sch := s, stolen := f\<rparr>) v ((machine_of S v)\<lparr>wk := w\<rparr>)"
proof -
  let ?v = "victim from (sch S)"
  let ?w = "wk (machine_of S ?v)"
  let ?w' = "work_update (\<lambda>k. k\<lparr>num := num k - 1, tasks := tl (tasks k)\<rparr>) ?w"
  have inv: "sched_inv (sch S)" using ok by (simp add: machines_ok_def)
  have v: "?v < n_workers (sch S)" by (rule victim_eq(2) [OF inv])
  note W = system_workers(2-5) [OF ok v]
  from stealWork_ok [OF inv W(2-4), of i] assms(2)
  have t: "?v \<noteq> i" "flag t = NoFlag" "\<not> locked (work ?w)" "tasks (work ?w) = t # tl (tasks (work ?w))"
    and s: "sched_inv s" "workerThreads s = (workerThreads (sch S))[?v := Some ?w']" by auto
  from W(3,4) have st: "steal ?w = Inr (Some t, ?w')"
  proof (cases rule: steal_cases)
    case none
    then show ?thesis using t by (cases "tasks (work ?w)") auto
  next
    case (some t' ts)
    then show ?thesis using t(4) by (cases ?w) auto
  qed
  have "moves S (S\<lparr>sch := s, stolen := f\<rparr>) ?v ((machine_of S ?v)\<lparr>wk := ?w'\<rparr>)"
    using v s W(1) stealWork_count [OF assms(2)] env_steal [OF st]
    by (auto simp: moves_def n_workers_def machine_of_def)
  moreover have "queue_of (machine_of S ?v) = t # tasks (work ?w')"
    using t(4) by (simp add: queue_of_def)
  ultimately show ?thesis using that [OF v t(1,2) st] by blast
qed

lemma enqueue_task_locked: "enqueue_task t w = enqueueAndUnlock t (snd (Worker_tryLock w))"
  by (simp add: enqueue_task_def Worker_tryLock_def)

lemma enqueue_turn_count:
  assumes "sched_inv s" "enqueue_turn t busy s = Inr (r, s')"
  shows "cfg_count s' = cfg_count s"
proof -
  obtain i s1 where p: "pick_worker s = Inr (i, s1)"
    using pick_worker_eq [OF assms(1)] by (auto split: if_splits)
  then show ?thesis
    using assms(2) pick_worker_inv(4) [OF assms(1) p] by (auto simp: enqueue_turn_def split: if_splits)
qed

lemma submit_moves:
  assumes ok: "machines_ok S"
    and e: "enqueue_turn t (\<lambda>j. locked (work (wk (machine_of S j)))) (sch S) = Inr (r, s)"
  shows "case r of
      None \<Rightarrow> \<exists>i. moves S (S\<lparr>sch := s\<rparr>) i (machine_of S i)
    | Some i \<Rightarrow> i < n_workers (sch S) \<and> (room (wk (machine_of S i)) \<longrightarrow>
        moves S ((submit i t S)\<lparr>sch := s\<rparr>) i ((machine_of S i)\<lparr>wk := snd (enqueue_task t (wk (machine_of S i)))\<rparr>))"
proof -
  have inv: "sched_inv (sch S)" using ok by (simp add: machines_ok_def)
  from inv show ?thesis
  proof (cases rule: enqueue_turn_cases [where busy = "\<lambda>j. locked (work (wk (machine_of S j)))" and t = t])
    case (1 i s1)
    have r: "r = None" "s = s1" using 1(5) e by simp_all
    have "n_workers s1 = n_workers (sch S)"
      using pick_worker_inv(4) [OF inv 1(1)] by (simp add: n_workers_def)
    then have "moves S (S\<lparr>sch := s\<rparr>) i (machine_of S i)"
      using 1(2,3,6) r(2) by (simp add: moves_def machine_of_def)
    then show ?thesis unfolding r(1) option.case by (rule exI)
  next
    case (2 i s1 s2)
    have r: "r = Some i" "s = s2" using 2(5) e by simp_all
    have n: "n_workers s2 = n_workers (sch S)"
      using enqueue_turn_count [OF inv 2(5)] by (simp add: n_workers_def)
    let ?M = "(machine_of S i)\<lparr>wk := snd (enqueue_task t (wk (machine_of S i)))\<rparr>"
    obtain w where W: "i < length (workerThreads (sch S))" "workerThreads (sch S) ! i = Some w"
      using system_workers(2,3) [OF ok 2(2)] by blast
    have "machine_of ((submit i t S)\<lparr>sch := s\<rparr>) j = (if j = i then ?M else machine_of S j)" for j
      using W 2(6) r(2)
      by (simp add: machine_of_def delivered_def enqueue_task_def enqueueAndUnlock_def
          push_task_def o_def)
    moreover have "(wstep False)\<^sup>*\<^sup>* (machine_of S i) ?M" if "room (wk (machine_of S i))"
      by (rule r_into_rtranclp, rule env_task [OF 2(3) that])
    ultimately have "room (wk (machine_of S i)) \<longrightarrow> moves S ((submit i t S)\<lparr>sch := s\<rparr>) i ?M"
      using 2(2,4) n r(2) by (simp add: moves_def)
    with 2(2) show ?thesis unfolding r(1) option.case by (rule conjI)
  qed
qed

lemma sysstep_moves:
  assumes "sysstep S S'" "machines_ok S"
  shows "\<exists>i M. moves S S' i M"
  using assms
proof (cases rule: sysstep.cases)
  case (inner i M)
  with assms(2) have "moves S S' i M" by (auto intro!: moves_put simp: machines_ok_def)
  then show ?thesis by blast
next
  case (begin_spin i M s)
  have inv: "sched_inv (sch S)" using assms(2) by (simp add: machines_ok_def)
  then have "s = pushed (int i) (sch S)" using begin_spin begin_spinning_eq [of "sch S" "int i"] by simp
  then have "moves S S' i M"
    using assms(2) begin_spin pushed_inv [OF inv, of "int i"]
    by (auto intro!: moves_put machine_of_sch)
  then show ?thesis by blast
next
  case (theft i x "from" r s)
  then show ?thesis
    using theft_none [OF assms(2)] theft_some [OF assms(2)] by (cases r) metis+
next
  case (push i x t M)
  then have "(wstep False)\<^sup>*\<^sup>* (machine_of S i) M"
    using spin_steal [of "machine_of S i" x False t] by (auto simp: current_pc_def)
  then have "moves S S' i M" using assms(2) push by (auto intro!: moves_put simp: machines_ok_def)
  then show ?thesis by blast
next
  case (call i t w)
  then have "(wstep False)\<^sup>*\<^sup>* (machine_of S i) (move (User TaskCode) w (machine_of S i))"
    using idle_task [of "machine_of S i" t w False] by (auto simp: current_pc_def)
  then have "moves S S' i (move (User TaskCode) w (machine_of S i))"
    using assms(2) call by (auto intro!: moves_put simp: machines_ok_def)
  then show ?thesis by blast
next
  case (submit_miss t s)
  then show ?thesis using submit_moves [OF assms(2) submit_miss(2)] by auto
next
  case (submit_hit t i s)
  then show ?thesis using submit_moves [OF assms(2) submit_hit(3)] by auto
next
  case (submit_own i t M)
  then have "(wstep False)\<^sup>*\<^sup>* (machine_of S i) M" using env_task [of "machine_of S i" False t] by auto
  then have "moves S S' i M" using assms(2) submit_own by (auto intro!: moves_put simp: machines_ok_def)
  then show ?thesis by blast
qed

subsection \<open>Every worker of the system is a worker machine\<close>

lemma system_start_ok:
  fixes S :: "'f system"
  assumes "length spin0 = 256" "0 < sint n" "system_start n spin0 mains = Inr S"
  shows "machines_ok S" "stolen S = (\<lambda>_. None)" "submitted S = []" "started S = []" "late S = (\<lambda>_. [])"
    "i < n_workers (sch S) \<Longrightarrow> machine_of S i = machine_start MultiThreaded (of_nat i) (mains i)"
proof -
  obtain s :: "'f scheduler" where s: "Scheduler_new n spin0 = Inr s"
    using assms(3) by (auto simp: system_start_def)
  then have "unat n \<le> 256" using Scheduler_new_fault [OF assms(1,2), where 'f = 'f] by (cases "unat n \<le> 256") simp_all
  then obtain s' :: "'f scheduler" where s': "Scheduler_new n spin0 = Inr s'" "sched_inv s'"
    "\<forall>i<n_workers s'. workerThreads s' ! i = Some (Worker_new MultiThreaded (of_nat i))"
    by (metis Scheduler_new_ok [OF assms(1,2)])
  then have inv: "sched_inv s"
    and ws: "\<forall>i<n_workers s. workerThreads s ! i = Some (Worker_new MultiThreaded (of_nat i))"
    using s by simp_all
  let ?ws = "map (\<lambda>i. map_option (started_worker (mains i)) (workerThreads s ! i)) [0..<length (workerThreads s)]"
  have S: "S = \<lparr>sch = s\<lparr>workerThreads := ?ws\<rparr>, pcs = (\<lambda>i. (\<lambda>_. NoFiber)(mains i := Created)),
      stolen = (\<lambda>_. None), submitted = [], started = [], late = (\<lambda>_. [])\<rparr>"
    using assms(3) s by (simp add: system_start_def)
  have n: "n_workers (sch S) = n_workers s" by (simp add: S n_workers_def)
  have less: "i < length (workerThreads s)" if "i < n_workers s" for i
    using sched_invD(2,5) [OF inv] that by simp
  show M: "machine_of S i = machine_start MultiThreaded (of_nat i) (mains i)" if "i < n_workers (sch S)" for i
    using that n ws less [of i] by (simp add: S machine_of_def machine_start_def started_worker_def)
  have "sched_inv (sch S)" using inv ws less by (simp add: S sched_inv_def n_workers_def)
  moreover have "reachable False (machine_of S i)" if "i < n_workers (sch S)" for i
    unfolding reachable_def M [OF that] by blast
  ultimately show "machines_ok S" by (simp add: machines_ok_def)
  show "stolen S = (\<lambda>_. None)" "submitted S = []" "started S = []" "late S = (\<lambda>_. [])"
    by (simp_all add: S)
qed

lemma sys_reachable_ok: "sys_reachable S \<Longrightarrow> machines_ok S"
proof -
  assume "sys_reachable S"
  then obtain n spin0 mains S0 where start: "length spin0 = 256" "0 < sint n"
    "system_start n spin0 mains = Inr S0" and steps: "sysstep\<^sup>*\<^sup>* S0 S"
    by (auto simp: sys_reachable_def)
  from steps show "machines_ok S"
    by induction (use system_start_ok(1) [OF start] sysstep_moves moves_ok in blast)+
qed

subsection \<open>The tasks of the system\<close>

text \<open>
  What the system promises of tasks, without the workers: each has a queue and may have a stolen task
  in its hand; a task is given to a queue, goes from the front of a queue into a hand unless it must stay
  with its worker, from a hand to the back of a queue, and is called from the front of a queue.
\<close>

record 'f ledger =
  queues :: "nat \<Rightarrow> 'f task list"
  hands :: "nat \<Rightarrow> 'f task option"
  given :: "(nat \<times> 'f task) list"
  called :: "(nat \<times> 'f task) list"

inductive lstep :: "nat \<Rightarrow> 'f ledger \<Rightarrow> 'f ledger \<Rightarrow> bool" for n where
  give: "i < n \<Longrightarrow>
     lstep n L (L\<lparr>queues := (queues L)(i := queues L i @ [t]), given := given L @ [(i, t)]\<rparr>)"
| take: "i < n \<Longrightarrow> v < n \<Longrightarrow> v \<noteq> i \<Longrightarrow> queues L v = t # ts \<Longrightarrow> flag t = NoFlag \<Longrightarrow> hands L i = None \<Longrightarrow>
     lstep n L (L\<lparr>queues := (queues L)(v := ts), hands := (hands L)(i := Some t)\<rparr>)"
| drop: "i < n \<Longrightarrow> hands L i = Some t \<Longrightarrow>
     lstep n L (L\<lparr>queues := (queues L)(i := queues L i @ [t]), hands := (hands L)(i := None)\<rparr>)"
| run: "i < n \<Longrightarrow> queues L i = t # ts \<Longrightarrow>
     lstep n L (L\<lparr>queues := (queues L)(i := ts), called := called L @ [(i, t)]\<rparr>)"

definition ledger_of :: "'f system \<Rightarrow> 'f ledger" where
  "ledger_of S = \<lparr>queues = (\<lambda>i. queue_of (machine_of S i)), hands = stolen S, given = submitted S,
     called = started S\<rparr>"

lemma ledger_put:
  assumes "machines_ok S" "i < n_workers (sch S)" "sched_inv (sch T)"
    and "n_workers (sch T) = n_workers (sch S)" "\<And>j. machine_of T j = machine_of S j"
  shows "ledger_of (put_machine i M T) =
    \<lparr>queues = (\<lambda>j. queue_of (machine_of S j))(i := queue_of M), hands = stolen T, given = submitted T,
     called = started T\<rparr>"
proof -
  have "i < length (workerThreads (sch T))" using sched_invD(2,5) [OF assms(3)] assms(2,4) by simp
  then show ?thesis using assms(5) by (auto simp: ledger_of_def machine_of_put)
qed

lemma queue_moves:
  "moves S S' i M \<Longrightarrow> (\<lambda>j. queue_of (machine_of S' j)) = (\<lambda>j. queue_of (machine_of S j))(i := queue_of M)"
  by (auto simp: moves_def)

text \<open>Every step of the system is a step of the ledger, or none.\<close>

lemma ledger_step:
  assumes "sysstep S S'" "machines_ok S"
  shows "lstep (n_workers (sch S)) (ledger_of S) (ledger_of S') \<or> ledger_of S' = ledger_of S"
  using assms(1)
proof (cases rule: sysstep.cases)
  case (inner i M)
  then have "ledger_of S' = ledger_of S"
    using assms(2) by (simp add: ledger_put [of S i S] machines_ok_def) (auto simp: ledger_of_def)
  then show ?thesis ..
next
  case (begin_spin i M s)
  have inv: "sched_inv (sch S)" using assms(2) by (simp add: machines_ok_def)
  then have s: "s = pushed (int i) (sch S)" using begin_spin begin_spinning_eq [of "sch S" "int i"] by simp
  have "ledger_of S' = ledger_of S"
    using begin_spin(1,2,4) assms(2) pushed_inv [OF inv, of "int i"]
    unfolding s begin_spin(1)
    by (subst ledger_put [of S]) (auto simp: machine_of_sch ledger_of_def)
  then show ?thesis ..
next
  case (theft i x "from" r s)
  show ?thesis
  proof (cases r)
    case None
    with theft queue_moves [OF theft_none [OF assms(2) theft(2)]] have "ledger_of S' = ledger_of S"
      by (auto simp: ledger_of_def)
    then show ?thesis ..
  next
    case (Some t)
    obtain v w where v: "v < n_workers (sch S)" "v \<noteq> i" "flag t = NoFlag"
      "queue_of (machine_of S v) = t # tasks (work w)"
      "moves S (S\<lparr>sch := s, stolen := (stolen S)(i := r)\<rparr>) v ((machine_of S v)\<lparr>wk := w\<rparr>)"
      using theft_some [OF assms(2) theft(5) [unfolded Some], of "(stolen S)(i := r)"] by blast
    have "ledger_of S' = (ledger_of S)\<lparr>queues := (queues (ledger_of S))(v := tasks (work w)),
        hands := (hands (ledger_of S))(i := Some t)\<rparr>"
      using queue_moves [OF v(5)] theft Some by (simp add: ledger_of_def) (simp add: queue_of_def)
    then show ?thesis
      using lstep.take [of i _ v "ledger_of S" t "tasks (work w)"] v theft by (simp add: ledger_of_def)
  qed
next
  case (push i x t M)
  then have "ledger_of S' = (ledger_of S)\<lparr>queues := (queues (ledger_of S))(i := queues (ledger_of S) i @ [t]),
      hands := (hands (ledger_of S))(i := None)\<rparr>"
    using assms(2) by (simp add: ledger_put [of S i "S\<lparr>stolen := (stolen S)(i := None)\<rparr>"] machines_ok_def)
      (simp add: ledger_of_def queue_of_def spin_stolen_def)
  then show ?thesis using lstep.drop [of i _ "ledger_of S" t] push by (simp add: ledger_of_def)
next
  case (call i t w)
  then have q: "queue_of (machine_of S i) = t # tasks (work w)"
    by (auto simp: queue_of_def runUntilIdle_task_def take_task_def split: list.splits)
  have "ledger_of S' = (ledger_of S)\<lparr>queues := (queues (ledger_of S))(i := tasks (work w)),
      called := called (ledger_of S) @ [(i, t)]\<rparr>"
    using call assms(2) by (simp add: ledger_put [of S i "S\<lparr>started := started S @ [(i, t)]\<rparr>"] machines_ok_def)
      (simp add: ledger_of_def queue_of_def)
  then show ?thesis using lstep.run [of i _ "ledger_of S" t "tasks (work w)"] call q by (simp add: ledger_of_def)
next
  case (submit_miss t s)
  then obtain i where "moves S S' i (machine_of S i)" using submit_moves [OF assms(2) submit_miss(2)] by auto
  then have "ledger_of S' = ledger_of S" using queue_moves submit_miss by (fastforce simp: ledger_of_def)
  then show ?thesis ..
next
  case (submit_hit t i s)
  then have m: "i < n_workers (sch S)"
    "moves S S' i ((machine_of S i)\<lparr>wk := snd (enqueue_task t (wk (machine_of S i)))\<rparr>)"
    using submit_moves [OF assms(2) submit_hit(3)] by simp_all
  have "ledger_of S' = (ledger_of S)\<lparr>queues := (queues (ledger_of S))(i := queues (ledger_of S) i @ [t]),
      given := given (ledger_of S) @ [(i, t)]\<rparr>"
    using queue_moves [OF m(2)] submit_hit(1)
    by (simp add: ledger_of_def) (simp add: queue_of_def enqueue_task_def enqueueAndUnlock_def)
  then have "lstep (n_workers (sch S)) (ledger_of S) (ledger_of S')"
    using lstep.give [OF m(1)] by (simp only:)
  then show ?thesis ..
next
  case (submit_own i t M)
  then have "ledger_of S' = (ledger_of S)\<lparr>queues := (queues (ledger_of S))(i := queues (ledger_of S) i @ [t]),
      given := given (ledger_of S) @ [(i, t)]\<rparr>"
    using assms(2) by (simp add: ledger_put [of S i "submit i t S"] machines_ok_def)
      (simp add: ledger_of_def queue_of_def enqueue_task_def enqueueAndUnlock_def)
  then have "lstep (n_workers (sch S)) (ledger_of S) (ledger_of S')"
    using lstep.give [OF submit_own(2)] by (simp only:)
  then show ?thesis ..
qed

subsection \<open>The ledger balances\<close>

definition balance :: "nat \<Rightarrow> 'f ledger \<Rightarrow> 'f task multiset" where
  "balance n L = (\<Sum>i<n. mset (queues L i) + (case hands L i of None \<Rightarrow> {#} | Some t \<Rightarrow> {#t#}))"

text \<open>The tasks for worker \<open>i\<close> alone, in order.\<close>

definition own :: "nat \<Rightarrow> (nat \<times> 'f task) list \<Rightarrow> 'f task list" where
  "own i xs = map snd (filter (\<lambda>(j, t). j = i \<and> Task_is SameThread t) xs)"

definition ledger_ok :: "nat \<Rightarrow> 'f ledger \<Rightarrow> bool" where
  "ledger_ok n L \<longleftrightarrow>
     mset (map snd (given L)) = mset (map snd (called L)) + balance n L \<and>
     (\<forall>i<n. own i (given L) = own i (called L) @ filter (Task_is SameThread) (queues L i)) \<and>
     (\<forall>i<n. \<forall>t. hands L i = Some t \<longrightarrow> \<not> Task_is SameThread t)"

lemma sum_update:
  fixes f g :: "nat \<Rightarrow> 'b multiset"
  assumes "i < n" "\<And>j. j \<noteq> i \<Longrightarrow> g j = f j"
  shows "(\<Sum>j<n. g j) + f i = (\<Sum>j<n. f j) + g i"
proof -
  have "(\<Sum>j<n. f j) = f i + (\<Sum>j\<in>{..<n} - {i}. f j)" "(\<Sum>j<n. g j) = g i + (\<Sum>j\<in>{..<n} - {i}. g j)"
    using assms(1) by (simp_all add: sum.remove)
  moreover have "(\<Sum>j\<in>{..<n} - {i}. g j) = (\<Sum>j\<in>{..<n} - {i}. f j)" using assms(2) by (intro sum.cong) auto
  ultimately show ?thesis by simp
qed

lemma balance_update:
  assumes "i < n" "\<And>j. j \<noteq> i \<Longrightarrow> queues L' j = queues L j \<and> hands L' j = hands L j"
  shows "balance n L' + (mset (queues L i) + (case hands L i of None \<Rightarrow> {#} | Some t \<Rightarrow> {#t#})) =
    balance n L + (mset (queues L' i) + (case hands L' i of None \<Rightarrow> {#} | Some t \<Rightarrow> {#t#}))"
  unfolding balance_def using assms by (intro sum_update) simp_all

lemma own_append [simp]:
  "own i (xs @ [(j, t)]) = own i xs @ (if j = i \<and> Task_is SameThread t then [t] else [])"
  by (simp add: own_def)

text \<open>Nothing that is taken into a hand belongs to its worker alone.\<close>

lemma not_same_thread: "flag t = NoFlag \<Longrightarrow> \<not> Task_is SameThread t"
  by simp

lemma lstep_ok:
  assumes "lstep n L L'" "ledger_ok n L"
  shows "ledger_ok n L'"
  using assms(1)
proof (cases rule: lstep.cases)
  case (give i t)
  then have "balance n L' + mset (queues L i) + (case hands L i of None \<Rightarrow> {#} | Some t \<Rightarrow> {#t#}) =
      balance n L + {#t#} + mset (queues L i) + (case hands L i of None \<Rightarrow> {#} | Some t \<Rightarrow> {#t#})"
    using balance_update [of i n L' L] by (simp add: ac_simps)
  then have "balance n L' = balance n L + {#t#}" by simp
  then show ?thesis using give assms(2) by (auto simp: ledger_ok_def)
next
  case (take i v t ts)
  let ?L = "L\<lparr>queues := (queues L)(v := ts)\<rparr>"
  have "balance n ?L + {#t#} = balance n L"
    using balance_update [of v n ?L L] take by (simp add: ac_simps)
  moreover have "balance n L' = balance n ?L + {#t#}"
    using balance_update [of i n L' ?L] take by (simp add: ac_simps)
  ultimately have "balance n L' = balance n L" by simp
  then show ?thesis using take assms(2) not_same_thread by (auto simp: ledger_ok_def)
next
  case (drop i t)
  have "balance n L' = balance n L"
    using balance_update [of i n L' L] drop by (simp add: ac_simps)
  then show ?thesis using drop assms(2) by (auto simp: ledger_ok_def)
next
  case (run i t ts)
  have "balance n L = balance n L' + {#t#}"
    using balance_update [of i n L' L] run by (simp add: ac_simps)
  then show ?thesis using run assms(2) by (auto simp: ledger_ok_def)
qed

lemma ledger_run:
  assumes "sysstep\<^sup>*\<^sup>* S0 S" "machines_ok S0"
  shows "machines_ok S \<and> n_workers (sch S) = n_workers (sch S0) \<and>
    (lstep (n_workers (sch S0)))\<^sup>*\<^sup>* (ledger_of S0) (ledger_of S)"
  using assms
proof (induction rule: rtranclp_induct)
  case (step S T)
  then have ok: "machines_ok S" "n_workers (sch S) = n_workers (sch S0)"
    and steps: "(lstep (n_workers (sch S0)))\<^sup>*\<^sup>* (ledger_of S0) (ledger_of S)" by simp_all
  obtain i M where m: "moves S T i M" using sysstep_moves [OF step.hyps(2) ok(1)] by blast
  have "(lstep (n_workers (sch S0)))\<^sup>*\<^sup>* (ledger_of S0) (ledger_of T)"
    using steps ledger_step [OF step.hyps(2) ok(1)] ok(2)
    by (auto intro: rtranclp.rtrancl_into_rtrancl)
  then show ?case using moves_ok [OF ok(1) m] m ok(2) by (simp add: moves_def)
qed simp

lemma ledger_ok_start:
  assumes "submitted S = []" "started S = []" "stolen S = (\<lambda>_. None)"
    and "\<forall>i<n. queue_of (machine_of S i) = []"
  shows "ledger_ok n (ledger_of S)"
  using assms by (simp add: ledger_ok_def ledger_of_def balance_def own_def)

lemma queue_of_start [simp]: "queue_of (machine_start m i main) = []"
  by (simp add: queue_of_def machine_start_def lock_def Worker_start_def Worker_new_def Work_new_def)

lemma sys_reachable_ledger:
  assumes "sys_reachable S"
  shows "ledger_ok (n_workers (sch S)) (ledger_of S)"
proof -
  obtain n spin0 mains S0 where start: "length spin0 = 256" "0 < sint n"
    "system_start n spin0 mains = Inr S0" and steps: "sysstep\<^sup>*\<^sup>* S0 S"
    using assms by (auto simp: sys_reachable_def)
  note S0 = system_start_ok [OF start]
  have "ledger_ok (n_workers (sch S0)) (ledger_of S0)"
    using S0(2-4,6) by (intro ledger_ok_start) simp_all
  moreover from ledger_run [OF steps S0(1)]
  have "(lstep (n_workers (sch S0)))\<^sup>*\<^sup>* (ledger_of S0) (ledger_of S)"
    and n: "n_workers (sch S) = n_workers (sch S0)" by simp_all
  ultimately have "ledger_ok (n_workers (sch S0)) (ledger_of S)"
    by (induction rule: rtranclp_induct [consumes 1, OF \<open>(lstep _)\<^sup>*\<^sup>* _ _\<close>]) (auto intro: lstep_ok)
  then show ?thesis by (simp add: n)
qed

end
