(* ===== verification/System_Tasks.thy ===== *)
theory System_Tasks
  imports System
begin

text \<open>
  What becomes of the tasks in the system of the theory \<open>System\<close>: where they are when a worker has
  ended, and what has happened to them when every worker rests. The last part is a run of a scheduler
  with one worker.
\<close>

subsection \<open>Where the tasks are at the end\<close>

text \<open>Operations that do not switch fibers.\<close>

lemma current_kept [simp]:
  "currentFiber (spin_stolen t w) = currentFiber w"
  "currentFiber (runUntilIdle_resumed w) = currentFiber w"
  "currentFiber (snd (enqueue_fiber f w)) = currentFiber w"
  "currentFiber (snd (enqueue_task t w)) = currentFiber w"
  "runUntilIdle_task w = Inr (t, w') \<Longrightarrow> currentFiber w' = currentFiber w"
  "steal w = Inr (r, w') \<Longrightarrow> currentFiber w' = currentFiber w"
  by (auto simp: spin_stolen_def runUntilIdle_resumed_def enqueue_fiber_def enqueue_task_def Let_def
      enqueueAndUnlock_def runUntilIdle_task_def steal_def split: if_splits)

lemma after_wait_open [simp]: "after_wait x \<noteq> Finished"
  by (cases x) simp_all

text \<open>A worker comes to its end with an empty queue.\<close>

lemma finish:
  assumes "wstep False M M'" "minv M" "current_pc M' = Finished"
  shows "current_pc M = Finished \<or> queue_of M' = []"
proof (rule ccontr)
  assume no: "\<not> (current_pc M = Finished \<or> queue_of M' = [])"
  have fin: "closing M" if "pc M f = Finished" for f
    using minvD(4) [OF assms(2)] that by (auto simp: fibers_ok_def)
  show False
    using assms(1)
  proof (cases rule: wstep.cases)
    case loop_off_main
    then show False using no loop_ends(4) [OF assms(2)] by (simp add: queue_of_def lock_def)
  next
    case loop_off
    then show False
      using no loop_ends(4) [OF assms(2)] by (simp add: queue_of_def switchToFiber_def split: if_splits)
  next
    case (idle_fiber w)
    then show False
      using no assms(3) fin closing_queues(2) [OF assms(2)]
      by (auto simp: current_pc_def runUntilIdle_fiber_def take_fiber_def Let_def switchToFiber_def
          split: list.splits if_splits)
  next
    case (go u pick fresh w)
    then show False
      using no assms(3) fin closing_pc [of M] by (auto simp: current_pc_def split: if_splits)
  next
    case (go_fresh u pick fresh w)
    then show False
      using no assms(3) fin closing_pc [of M] by (auto simp: current_pc_def split: if_splits)
  qed (use no assms(3) in \<open>auto simp: current_pc_def waitForWork_enter_def lock_def suspend_begin_def
      enqueue_task_def enqueueAndUnlock_def split: if_splits option.splits\<close>)
qed

text \<open>
  A task in the hand of a worker is there while the worker looks for work, and what is in the queue of
  a worker that has ended came too late.
\<close>

definition place_ok :: "'f system \<Rightarrow> nat \<Rightarrow> bool" where
  "place_ok S i \<longleftrightarrow>
     (stolen S i \<noteq> None \<longrightarrow> (\<exists>x. current_pc (machine_of S i) = Spin x)) \<and>
     (current_pc (machine_of S i) = Finished \<longrightarrow>
        mset (queue_of (machine_of S i)) \<subseteq># mset (late S i))"

text \<open>Only the machine that is replaced has to be looked at.\<close>

lemma place_ok_put:
  assumes "machines_ok S" "\<forall>k<n_workers (sch S). place_ok S k" "i < n_workers (sch S)" "j < n_workers (sch S)"
    and "sched_inv (sch T)" "n_workers (sch T) = n_workers (sch S)" "\<And>k. machine_of T k = machine_of S k"
    and "\<And>k. k \<noteq> i \<Longrightarrow> stolen T k = stolen S k \<and> late T k = late S k"
    and i: "stolen T i \<noteq> None \<Longrightarrow> \<exists>x. current_pc M = Spin x"
      "current_pc M = Finished \<Longrightarrow> mset (queue_of M) \<subseteq># mset (late T i)"
  shows "place_ok (put_machine i M T) j"
proof -
  have "i < length (workerThreads (sch T))" using sched_invD(2,5) [OF assms(5)] assms(3,6) by simp
  then have "machine_of (put_machine i M T) j = (if j = i then M else machine_of S j)"
    using assms(7) by (simp add: machine_of_put)
  then show ?thesis using assms(2,4,8) i by (auto simp: place_ok_def)
qed

lemma place_ok_theft:
  assumes ok: "machines_ok S" "\<forall>k<n_workers (sch S). place_ok S k" and j: "j < n_workers (sch S)"
    and i: "i < n_workers (sch S)" "current_pc (machine_of S i) = Spin x"
    and st: "stealWork i from (sch S) = Inr (r, s)"
  shows "place_ok (S\<lparr>sch := s, stolen := (stolen S)(i := r)\<rparr>) j"
proof (cases r)
  case None
  then show ?thesis
    using theft_none [OF ok(1) i(1), of "from" s "(stolen S)(i := r)"] st ok(2) j
    by (auto simp: moves_def place_ok_def)
next
  case (Some t)
  let ?T = "S\<lparr>sch := s, stolen := (stolen S)(i := r)\<rparr>"
  obtain v w where v: "v \<noteq> i" "steal (wk (machine_of S v)) = Inr (Some t, w)"
    "queue_of (machine_of S v) = t # tasks (work w)" "moves S ?T v ((machine_of S v)\<lparr>wk := w\<rparr>)"
    using theft_some [OF ok(1) st [unfolded Some], of "(stolen S)(i := r)"] by blast
  have m: "machine_of ?T k = (if k = v then (machine_of S v)\<lparr>wk := w\<rparr> else machine_of S k)" for k
    using v(4) by (simp add: moves_def)
  have p: "place_ok S j" using ok(2) j by simp
  have c: "current_pc (machine_of ?T j) = current_pc (machine_of S j)"
    using m v(2) by (simp add: current_pc_def)
  have "mset (queue_of (machine_of ?T j)) \<subseteq># mset (queue_of (machine_of S j))"
    using m v(3) by (simp add: queue_of_def)
  then show ?thesis
    using p c i(2) unfolding place_ok_def by (auto intro: subset_mset.order_trans)
qed

lemma place_ok_step:
  assumes "sysstep S S'" "machines_ok S" "\<forall>i<n_workers (sch S). place_ok S i"
    and j: "j < n_workers (sch S)"
  shows "place_ok S' j"
  using assms(1)
proof (cases rule: sysstep.cases)
  case (inner i M)
  then show ?thesis
    using assms(2,3) j finish [OF inner(3) system_workers(1) [OF assms(2) inner(2)]]
    unfolding inner(1) by (intro place_ok_put) (auto simp: place_ok_def machines_ok_def)
next
  case (begin_spin i M s)
  have inv: "sched_inv (sch S)" using assms(2) by (simp add: machines_ok_def)
  then have s: "s = pushed (int i) (sch S)" using begin_spin begin_spinning_eq [of "sch S" "int i"] by simp
  show ?thesis
    using assms(2,3) j begin_spin pushed_inv [OF inv, of "int i"]
    unfolding begin_spin(1) s by (intro place_ok_put) (auto simp: begins_spin_def machine_of_sch)
next
  case (theft i x "from" r s)
  then show ?thesis using place_ok_theft [OF assms(2,3) j] by simp
next
  case (push i x t M)
  then show ?thesis
    using assms(2,3) j unfolding push(1)
    by (intro place_ok_put) (auto simp: machines_ok_def current_pc_def)
next
  case (call i t w)
  then have "stolen S i = None" using assms(3) by (auto simp: place_ok_def)
  then show ?thesis
    using call assms(2,3) j unfolding call(1)
    by (intro place_ok_put) (auto simp: machines_ok_def current_pc_def)
next
  case (submit_miss t s)
  then show ?thesis
    using submit_moves [OF assms(2) submit_miss(2)] assms(3) j by (auto simp: moves_def place_ok_def)
next
  case (submit_hit t i s)
  then have "moves S S' i ((machine_of S i)\<lparr>wk := snd (enqueue_task t (wk (machine_of S i)))\<rparr>)"
    using submit_moves [OF assms(2) submit_hit(3)] by simp
  then show ?thesis
    using submit_hit(1) assms(3) j
    by (auto simp: moves_def place_ok_def current_pc_def queue_of_def enqueue_task_def enqueueAndUnlock_def)
next
  case (submit_own i t M)
  have "place_ok S i" using submit_own(2) assms(3) by simp
  then show ?thesis
    using submit_own assms(2,3) j unfolding submit_own(1)
    by (intro place_ok_put) (auto simp: machines_ok_def place_ok_def current_pc_def queue_of_def
        enqueue_task_def enqueueAndUnlock_def)
qed

lemma sys_reachable_places:
  assumes "sys_reachable S" "i < n_workers (sch S)"
  shows "place_ok S i"
proof -
  obtain n spin0 mains S0 where start: "length spin0 = 256" "0 < sint n"
    "system_start n spin0 mains = Inr S0" and steps: "sysstep\<^sup>*\<^sup>* S0 S"
    using assms(1) by (auto simp: sys_reachable_def)
  note S0 = system_start_ok [OF start]
  from steps have "\<forall>j<n_workers (sch S). place_ok S j"
  proof (induction rule: rtranclp_induct)
    case base
    show ?case using S0(2,5,6) by (simp add: place_ok_def)
  next
    case (step S T)
    have ok: "machines_ok S" using ledger_run [OF step.hyps(1) S0(1)] by simp
    obtain i M where "moves S T i M" using sysstep_moves [OF step.hyps(2) ok] by blast
    then have "n_workers (sch T) = n_workers (sch S)" by (simp add: moves_def)
    then show ?case using place_ok_step [OF step.hyps(2) ok step.IH] by simp
  qed
  with assms(2) show ?thesis by simp
qed

subsection \<open>A run for the witnesses\<close>

text \<open>A scheduler with one worker: it gets the task that stops it, calls it and ends.\<close>

definition stands ::
  "'f system \<Rightarrow> 'f machine \<Rightarrow> (nat \<times> 'f task) list \<Rightarrow> (nat \<times> 'f task) list \<Rightarrow> bool" where
  "stands S M sub st \<longleftrightarrow> sys_reachable S \<and> n_workers (sch S) = 1 \<and> machine_of S 0 = M \<and>
     stolen S 0 = None \<and> late S 0 = [] \<and> submitted S = sub \<and> started S = st"

lemma sys_reachable_step: "sys_reachable S \<Longrightarrow> sysstep S T \<Longrightarrow> sys_reachable T"
  unfolding sys_reachable_def by (meson rtranclp.rtrancl_into_rtrancl)

lemma stands_length: "stands S M sub st \<Longrightarrow> 0 < length (workerThreads (sch S))"
  using system_workers(2) [OF sys_reachable_ok, of S 0] by (auto simp: stands_def)

lemma stands_start: "\<exists>S :: 'f system. stands S (machine_start MultiThreaded 0 0) [] []"
proof -
  have s: "0 < sint (1 :: u32)" "unat (1 :: u32) \<le> 256" by simp_all
  obtain s :: "'f scheduler" where "Scheduler_new 1 (replicate 256 0) = Inr s" "n_workers s = unat (1 :: u32)"
    using Scheduler_new_ok [of "replicate 256 0", OF _ s] by auto
  then obtain S :: "'f system" where
    S: "system_start 1 (replicate 256 0) (\<lambda>_. 0) = Inr S" "n_workers (sch S) = 1"
    by (simp add: system_start_def n_workers_def)
  have l: "length (replicate 256 (0 :: int)) = 256" by simp
  have "sys_reachable S" unfolding sys_reachable_def using l s(1) S(1) by blast
  then show ?thesis
    using system_start_ok(2-6) [OF l s(1) S(1)] S(2) by (intro exI [of _ S]) (simp add: stands_def)
qed

lemma stands_inner:
  assumes "stands S M sub st" "wstep False M M'" "queue_of M' = queue_of M" "\<not> begins_spin M M'"
  shows "\<exists>T. stands T M' sub st"
proof -
  have "sysstep S (put_machine 0 M' S)"
    using assms by (intro sysstep.inner) (simp_all add: stands_def)
  then show ?thesis
    using assms(1) sys_reachable_step stands_length [OF assms(1)]
    by (intro exI [of _ "put_machine 0 M' S"]) (auto simp: stands_def machine_of_put)
qed

lemma stands_own:
  assumes "stands S M sub st" "flag t = SameThread" "\<not> locked (work (wk M))" "room (wk M)"
    "current_pc M \<noteq> Finished"
  shows "\<exists>T. stands T (M\<lparr>wk := snd (enqueue_task t (wk M))\<rparr>) (sub @ [(0, t)]) st"
proof -
  let ?T = "put_machine 0 (M\<lparr>wk := snd (enqueue_task t (wk M))\<rparr>) (submit 0 t S)"
  have "sysstep S ?T" using assms by (intro sysstep.submit_own) (simp_all add: stands_def)
  then show ?thesis
    using assms sys_reachable_step stands_length [OF assms(1)]
    by (intro exI [of _ ?T]) (auto simp: stands_def machine_of_put)
qed

lemma stands_call:
  assumes "stands S M sub st" "current_pc M = RunIdle" "fibers (work (wk M)) = []"
    "runUntilIdle_task (wk M) = Inr (t, w)"
  shows "\<exists>T. stands T (move (User TaskCode) w M) sub (st @ [(0, t)])"
proof -
  let ?T = "put_machine 0 (move (User TaskCode) w M) (S\<lparr>started := started S @ [(0, t)]\<rparr>)"
  have "sysstep S ?T" using sysstep.call [of 0 S t w] assms by (simp add: stands_def)
  then show ?thesis
    using assms sys_reachable_step stands_length [OF assms(1)]
    by (intro exI [of _ ?T]) (auto simp: stands_def machine_of_put)
qed

definition stop_task :: "unit task" where
  "stop_task = Task_new (Some ()) SameThread"

definition one_0 :: "unit machine" where
  "one_0 = machine_start MultiThreaded 0 0"

definition one_begun :: "unit machine" where
  "one_begun = move Start (lock True (wk one_0)) one_0"

definition one_1 :: "unit machine" where
  "one_1 = move InitBlocked (lock False ((wk one_begun)\<lparr>work := (work (wk one_begun))\<lparr>notifyAdded := True\<rparr>\<rparr>)) one_begun"

definition one_2 :: "unit machine" where
  "one_2 = one_1\<lparr>wk := snd (enqueue_task stop_task (wk one_1))\<rparr>"

definition one_3 :: "unit machine" where
  "one_3 = move Loop (lock True (work_update Work_wait_end (wk one_2))) one_2"

definition one_4 :: "unit machine" where
  "one_4 = waitForWork_enter OfLoop (wk one_3) one_3"

definition one_5 :: "unit machine" where
  "one_5 = move (User TaskCode) (work_update (\<lambda>k. k\<lparr>num := 0, tasks := [], locked := False\<rparr>) (wk one_4)) one_4"

definition one_6 :: "unit machine" where
  "one_6 = move RunIdle (lock True ((wk one_5)\<lparr>shutdown := True\<rparr>)) one_5"

definition one_7 :: "unit machine" where
  "one_7 = move Finished (lock False (wk one_6)) one_6"

lemmas one_defs = one_0_def one_begun_def one_1_def one_2_def one_3_def one_4_def one_5_def one_6_def one_7_def
  machine_start_def Worker_start_def Worker_new_def Work_new_def lock_def enqueue_task_def
  enqueueAndUnlock_def push_task_def Work_wait_end_def waitForWork_enter_def move_def stop_task_def
  Task_new_def current_pc_def queue_of_def room_def WaitingFibers_new_def

lemma one_worker_submitted: "\<exists>S. stands S one_2 [(0, stop_task)] []"
proof -
  obtain S0 where s: "stands S0 one_0 [] []" using stands_start unfolding one_0_def by blast
  have "wstep False one_0 one_begun"
    unfolding one_begun_def by (rule thread_begin) (simp_all add: one_defs)
  from stands_inner [OF s this] obtain S0 where s: "stands S0 one_begun [] []"
    by (auto simp: one_defs begins_spin_def)
  have "wstep False one_begun one_1"
    unfolding one_1_def by (rule start_block) (simp_all add: one_defs Work_wait_begin_def run_pred_def WaitingFibers_bool_def)
  from stands_inner [OF s this] obtain S1 where "stands S1 one_1 [] []"
    by (auto simp: one_defs begins_spin_def)
  from stands_own [OF this, of stop_task] show ?thesis
    unfolding one_2_def [symmetric] by (simp add: one_defs)
qed

lemma one_worker_done: "\<exists>S. stands S one_7 [(0, stop_task)] [(0, stop_task)]"
proof -
  obtain S2 where s: "stands S2 one_2 [(0, stop_task)] []" using one_worker_submitted by blast
  have "wstep False one_2 one_3" unfolding one_3_def by (rule init_wake) (simp_all add: one_defs run_pred_def)
  from stands_inner [OF s this] obtain S3 where s: "stands S3 one_3 [(0, stop_task)] []"
    by (auto simp: one_defs begins_spin_def)
  have "wstep False one_3 one_4" unfolding one_4_def by (rule loop_on) (simp_all add: one_defs runUntilShutdown_cond_def)
  from stands_inner [OF s this] obtain S4 where s: "stands S4 one_4 [(0, stop_task)] []"
    by (auto simp: one_defs begins_spin_def)
  have "runUntilIdle_task (wk one_4) =
      Inr (stop_task, work_update (\<lambda>k. k\<lparr>num := 0, tasks := [], locked := False\<rparr>) (wk one_4))"
    by (simp add: one_defs runUntilIdle_task_def take_task_def)
  from stands_call [OF s _ _ this] obtain S5 where s: "stands S5 one_5 [(0, stop_task)] [(0, stop_task)]"
    unfolding one_5_def [symmetric] by (auto simp: one_defs)
  let ?M = "move (User TaskCode) ((wk one_5)\<lparr>shutdown := True\<rparr>) one_5"
  have "wstep False one_5 ?M" by (rule task_shutdown) (simp_all add: one_defs)
  from stands_inner [OF s this] obtain S6 where s: "stands S6 ?M [(0, stop_task)] [(0, stop_task)]"
    by (auto simp: one_defs begins_spin_def)
  have "wstep False ?M (move RunIdle (lock True (wk ?M)) ?M)" by (rule task_done) (simp_all add: one_defs)
  moreover have "move RunIdle (lock True (wk ?M)) ?M = one_6" by (simp add: one_defs)
  ultimately obtain S7 where s: "stands S7 one_6 [(0, stop_task)] [(0, stop_task)]"
    using stands_inner [OF s, of one_6] by (auto simp: one_defs begins_spin_def)
  let ?N = "move Loop (wk one_6) one_6"
  have "wstep False one_6 ?N" by (rule idle_done) (simp_all add: one_defs)
  from stands_inner [OF s this] obtain S8 where s: "stands S8 ?N [(0, stop_task)] [(0, stop_task)]"
    by (auto simp: one_defs begins_spin_def)
  have "wstep False ?N (move Finished (lock False (wk ?N)) ?N)"
    by (rule loop_off_main) (simp_all add: one_defs runUntilShutdown_cond_def)
  moreover have "move Finished (lock False (wk ?N)) ?N = one_7" by (simp add: one_defs)
  ultimately show ?thesis using stands_inner [OF s, of one_7] by (auto simp: one_defs begins_spin_def)
qed

subsection \<open>Properties\<close>

text \<open>
  C9. Without timed waits of fibers, the system refines its workers: in every state that the scheduler and its workers can reach
  together, each worker is in a state that it can reach by its own steps and the calls of others, and
  the scheduler is well-formed; so all that holds of a worker thread alone holds of every one here.
\<close>

theorem system_refines_workers:
  assumes "sys_reachable S"
  shows "sched_inv (sch S) \<and> (\<forall>i<n_workers (sch S). reachable False (machine_of S i))"
  using sys_reachable_ok [OF assms] by (simp add: machines_ok_def)

theorem system_refines_workers_witness:
  "\<exists>S :: unit system. sched_inv (sch S) \<and> reachable False (machine_of S 0) \<and> machine_of S 0 = one_7"
proof -
  obtain S where "stands S one_7 [(0, stop_task)] [(0, stop_task)]" using one_worker_done by blast
  then show ?thesis using system_refines_workers [of S] by (auto simp: stands_def)
qed

text \<open>
  C1. As long as no fiber waits with a timeout, no task is lost and none is called twice: the tasks that have been submitted are those that have
  been called, those in the queues and those that a worker has stolen and not yet queued. The tasks
  that must stay with a worker have been called by that worker or are in its queue, in the order in
  which they came.
\<close>

theorem tasks_conserved:
  assumes "sys_reachable S"
  shows "mset (map snd (submitted S)) = mset (map snd (started S)) +
      (\<Sum>i<n_workers (sch S). mset (tasks (work (wk (machine_of S i)))) +
        (case stolen S i of None \<Rightarrow> {#} | Some t \<Rightarrow> {#t#})) \<and>
    (\<forall>i<n_workers (sch S). own i (submitted S) = own i (started S) @
      filter (Task_is SameThread) (tasks (work (wk (machine_of S i)))))"
  using sys_reachable_ledger [OF assms]
  by (simp add: ledger_ok_def ledger_of_def balance_def queue_of_def)

lemma sum_subset_mset:
  fixes f g :: "nat \<Rightarrow> 'b multiset"
  shows "(\<And>i. i < n \<Longrightarrow> f i \<subseteq># g i) \<Longrightarrow> (\<Sum>i<n. f i) \<subseteq># (\<Sum>i<n. g i)"
  by (induction n) (simp_all add: subset_mset.add_mono)

theorem tasks_conserved_witness:
  "\<exists>S :: unit system. sys_reachable S \<and> started S = [] \<and>
     tasks (work (wk (machine_of S 0))) = [stop_task] \<and>
     own 0 (submitted S) = filter (Task_is SameThread) (tasks (work (wk (machine_of S 0))))"
proof -
  obtain S where s: "stands S one_2 [(0, stop_task)] []" using one_worker_submitted by blast
  then have r: "sys_reachable S" "n_workers (sch S) = 1" "machine_of S 0 = one_2" "started S = []"
    by (simp_all add: stands_def)
  have "own 0 (submitted S) = filter (Task_is SameThread) (tasks (work (wk (machine_of S 0))))"
    using tasks_conserved [OF r(1)] r(2,4) by (simp add: own_def)
  moreover have "tasks (work (wk one_2)) = [stop_task]" by (simp add: one_defs)
  ultimately show ?thesis using r by auto
qed

text \<open>A worker has ended, or sleeps and what it sleeps on is not true.\<close>

definition quiet :: "'f machine \<Rightarrow> bool" where
  "quiet M \<longleftrightarrow> current_pc M = Finished \<or>
     (current_pc M = InitBlocked \<and> \<not> run_pred (wk M)) \<or>
     ((\<exists>x. current_pc M = Blocked x) \<and> \<not> waitForWork_pred (wk M))"

text \<open>
  C8. As long as no fiber waits with a timeout: when every worker has ended or sleeps for lack of work, every task that was submitted has been
  called exactly once, except those that came to a worker after its \<open>run\<close> had returned.
\<close>

theorem quiet_system_done:
  assumes "sys_reachable S" "\<forall>i<n_workers (sch S). quiet (machine_of S i)"
  shows "\<exists>rest. mset (map snd (submitted S)) = mset (map snd (started S)) + rest \<and>
    rest \<subseteq># (\<Sum>i<n_workers (sch S). mset (late S i))"
proof -
  let ?rest = "\<lambda>i. mset (queue_of (machine_of S i)) + (case stolen S i of None \<Rightarrow> {#} | Some t \<Rightarrow> {#t#})"
  have "?rest i \<subseteq># mset (late S i)" if "i < n_workers (sch S)" for i
  proof -
    have q: "quiet (machine_of S i)" and p: "place_ok S i"
      using assms(2) that sys_reachable_places [OF assms(1) that] by simp_all
    then have "stolen S i = None" by (auto simp: quiet_def place_ok_def)
    moreover have "queue_of (machine_of S i) = []" if "current_pc (machine_of S i) \<noteq> Finished"
      using q that count_zero(1) [OF minvD(1) [OF system_workers(1) [OF sys_reachable_ok [OF assms(1)] \<open>i < _\<close>]]]
      by (auto simp: quiet_def run_pred_def waitForWork_pred_def queue_of_def word_gt_0)
    ultimately show ?thesis using p by (cases "current_pc (machine_of S i) = Finished") (simp_all add: place_ok_def)
  qed
  then have "(\<Sum>i<n_workers (sch S). ?rest i) \<subseteq># (\<Sum>i<n_workers (sch S). mset (late S i))"
    by (intro sum_subset_mset) simp
  moreover have "mset (map snd (submitted S)) = mset (map snd (started S)) + (\<Sum>i<n_workers (sch S). ?rest i)"
    using sys_reachable_ledger [OF assms(1)] by (simp add: ledger_ok_def ledger_of_def balance_def)
  ultimately show ?thesis by blast
qed

theorem quiet_system_done_witness:
  "\<exists>S :: unit system. sys_reachable S \<and> quiet (machine_of S 0) \<and>
     mset (map snd (submitted S)) = mset (map snd (started S)) \<and> started S = [(0, stop_task)]"
proof -
  obtain S where s: "stands S one_7 [(0, stop_task)] [(0, stop_task)]" using one_worker_done by blast
  then have r: "sys_reachable S" "n_workers (sch S) = 1" "machine_of S 0 = one_7" "late S 0 = []"
    "started S = [(0, stop_task)]" by (simp_all add: stands_def)
  have q: "quiet one_7" by (simp add: quiet_def one_defs)
  then have "\<forall>i<n_workers (sch S). quiet (machine_of S i)" using r(2,3) by simp
  from quiet_system_done [OF r(1) this] show ?thesis using r q by (intro exI [of _ S]) auto
qed

end
