(* ===== verification/System_Progress.thy ===== *)
theory System_Progress
  imports System_Tasks
begin

text \<open>
  The progress of the workers inside the system of the theory \<open>System\<close>: a worker that does not sleep
  for lack of work is never held up by the scheduler or by another worker.
\<close>

text \<open>A step of the worker's own code at a place where it touches no queue of tasks.\<close>

lemma own_step_queue:
  assumes "wstep False M M'" "minv M"
    and "pc M' (currentFiber (wk M)) \<noteq> current_pc M" "current_pc M \<noteq> RunIdle" "\<nexists>x. current_pc M = Spin x"
  shows "queue_of M' = queue_of M"
  using assms(1)
proof (cases rule: wstep.cases)
  case (block_pass x d k now k')
  have w: "waiting (work (wk M)) = WaitingFibers_new" by (rule untimed_waiting [OF assms(2)])
  then have "k = (work (wk M))\<lparr>notifyAdded := True\<rparr>" using block_pass(3) by simp
  with untimed_simps(2) [of k now] block_pass(5) w have "k' = k\<lparr>notifyAdded := False\<rparr>" by simp
  then show ?thesis using \<open>k = _\<close> block_pass(1) by (simp add: queue_of_def)
next
  case (blocked_wake x now k')
  then have "k' = (work (wk M))\<lparr>notifyAdded := False\<rparr>"
    using untimed_simps(2) [OF untimed_waiting [OF assms(2)], of now] by simp
  then show ?thesis using blocked_wake(1) by (simp add: queue_of_def)
next
  case (go u pick fresh w)
  then show ?thesis
    by (auto simp: queue_of_def suspend_switch_def take_fiber_def createWorkerFiber_def Let_def split: list.splits if_splits)
next
  case (go_fresh u pick fresh w)
  then show ?thesis
    by (auto simp: queue_of_def suspend_switch_def take_fiber_def createWorkerFiber_def Let_def split: list.splits if_splits)
qed (use assms(2-5) in \<open>auto simp: queue_of_def current_pc_def waitForWork_enter_def suspend_begin_def
    runUntilIdle_resumed_def Work_wait_end_def untimed_waiting split: option.splits\<close>)

text \<open>A step of a worker that leaves the queue alone is a step of the system.\<close>

lemma system_takes:
  assumes "machines_ok S" "i < n_workers (sch S)" "wstep False (machine_of S i) M"
    and "queue_of M = queue_of (machine_of S i)" "stolen S i = None"
  shows "\<exists>T. sysstep S T \<and> machine_of T i = M"
proof -
  have inv: "sched_inv (sch S)" using assms(1) by (simp add: machines_ok_def)
  have len: "i < length (workerThreads (sch S))" using system_workers(2) [OF assms(1,2)] .
  show ?thesis
  proof (cases "begins_spin (machine_of S i) M")
    case True
    let ?s = "pushed (int i) (sch S)"
    from begin_spin [OF assms(2-4) True begin_spinning_eq [OF inv]]
    have "sysstep S (put_machine i M (S\<lparr>sch := ?s\<rparr>))" .
    moreover have "machine_of (put_machine i M (S\<lparr>sch := ?s\<rparr>)) i = M"
      using len by (subst machine_of_put) (simp_all add: pushed_def)
    ultimately show ?thesis by blast
  next
    case False
    from inner [OF assms(2-4) False] assms(5) have "sysstep S (put_machine i M S)" by simp
    moreover have "machine_of (put_machine i M S) i = M" using len by (simp add: machine_of_put)
    ultimately show ?thesis by blast
  qed
qed

text \<open>Where \<open>runUntilIdle\<close> takes the next fiber or task.\<close>

lemma idle_system_step:
  assumes ok: "machines_ok S" "i < n_workers (sch S)" and hand: "stolen S i = None"
    and idle: "current_pc (machine_of S i) = RunIdle"
  shows "\<exists>T. sysstep S T \<and> pc (machine_of T i) (currentFiber (wk (machine_of S i))) \<noteq> RunIdle"
proof -
  let ?M = "machine_of S i"
  note takes = system_takes [OF ok _ _ hand]
  have at: "pc ?M (currentFiber (wk ?M)) = RunIdle" using idle by (simp add: current_pc_def)
  show ?thesis
  proof (cases "fibers (work (wk ?M))")
    case no_fiber: Nil
    show ?thesis
    proof (cases "tasks (work (wk ?M))")
      case Nil
      from takes [OF idle_done [OF at no_fiber Nil]] show ?thesis by (auto simp: queue_of_def)
    next
      case (Cons t ts)
      then obtain w where w: "runUntilIdle_task (wk ?M) = Inr (t, w)"
        by (simp add: runUntilIdle_task_def take_task_def)
      let ?T = "put_machine i (move (User TaskCode) w ?M) (S\<lparr>started := started S @ [(i, t)]\<rparr>)"
      have "machine_of ?T i = move (User TaskCode) w ?M"
        using system_workers(2) [OF ok] by (simp add: machine_of_put)
      then show ?thesis using call [OF ok(2) idle no_fiber w] by (intro exI [of _ ?T]) simp
    qed
  next
    case (Cons f fs)
    then obtain w where w: "runUntilIdle_fiber (wk ?M) = Inr w"
      by (simp add: runUntilIdle_fiber_def take_fiber_def Let_def)
    then have "queue_of (move Switched w ?M) = queue_of ?M"
      using Cons by (auto simp: queue_of_def runUntilIdle_fiber_def take_fiber_def Let_def)
    from takes [OF idle_fiber [OF at w] this] show ?thesis by auto
  qed
qed

lemma spin_system_step:
  assumes ok: "machines_ok S" "i < n_workers (sch S)" and spin: "current_pc (machine_of S i) = Spin x"
    and room: "room (wk (machine_of S i))"
  shows "\<exists>T. sysstep S T \<and> pc (machine_of T i) (currentFiber (wk (machine_of S i))) \<noteq> Spin x"
proof -
  let ?M = "machine_of S i"
  have at: "pc ?M (currentFiber (wk ?M)) = Spin x" using spin by (simp add: current_pc_def)
  have free: "\<not> locked (work (wk ?M))"
    using current_locked [OF system_workers(1) [OF ok]] at by simp
  show ?thesis
  proof (cases "stolen S i")
    case None
    from system_takes [OF ok spin_end [OF at free] _ None] show ?thesis by (auto simp: queue_of_def)
  next
    case (Some t)
    let ?T = "put_machine i (move (Block x) (spin_stolen t (wk ?M)) ?M) (S\<lparr>stolen := (stolen S)(i := None)\<rparr>)"
    have "machine_of ?T i = move (Block x) (spin_stolen t (wk ?M)) ?M"
      using system_workers(2) [OF ok] by (simp add: machine_of_put)
    then show ?thesis using push [OF ok(2) spin Some free room refl] by (intro exI [of _ ?T]) simp
  qed
qed

text \<open>
  C5. As long as no fiber waits with a timeout and the counters do not pass 2^64, no worker is held up
  by the others: in every reachable state of the scheduler, a worker whose current fiber is not in user
  code, has not ended and does not sleep for lack of work can take its next step as a step of the whole
  system, whatever the other workers, the thieves and the threads that submit
  tasks have done.
\<close>

theorem system_progress:
  assumes "sys_reachable S" "i < n_workers (sch S)" "room (wk (machine_of S i))"
    and "current_pc (machine_of S i) \<noteq> Finished" "\<nexists>u. current_pc (machine_of S i) = User u"
    and "current_pc (machine_of S i) = InitBlocked \<Longrightarrow> run_pred (wk (machine_of S i))"
    and "\<And>x. current_pc (machine_of S i) = Blocked x \<Longrightarrow> waitForWork_pred (wk (machine_of S i))"
  shows "\<exists>T. sysstep S T \<and>
    pc (machine_of T i) (currentFiber (wk (machine_of S i))) \<noteq> current_pc (machine_of S i)"
proof -
  let ?M = "machine_of S i"
  have ok: "machines_ok S" by (rule sys_reachable_ok [OF assms(1)])
  have hand: "stolen S i = None" if "\<nexists>x. current_pc ?M = Spin x"
    using sys_reachable_places [OF assms(1,2)] that by (cases "stolen S i") (auto simp: place_ok_def)
  consider (idle) "current_pc ?M = RunIdle" | (spin) x where "current_pc ?M = Spin x"
    | (other) "current_pc ?M \<noteq> RunIdle" "\<nexists>x. current_pc ?M = Spin x" by blast
  then show ?thesis
  proof cases
    case idle
    then show ?thesis using idle_system_step [OF ok assms(2) hand idle] by simp
  next
    case (spin x)
    then show ?thesis using spin_system_step [OF ok assms(2) spin assms(3)] by simp
  next
    case other
    have "reachable False ?M" using ok assms(2) by (simp add: machines_ok_def)
    then have "goes_on ?M" using assms(3-7) by (intro worker_goes_on) (simp_all add: current_pc_def)
    then obtain M where M: "wstep False ?M M" "pc M (currentFiber (wk ?M)) \<noteq> current_pc ?M"
      by (auto simp: goes_on_def current_pc_def)
    have "queue_of M = queue_of ?M" by (rule own_step_queue [OF M(1) system_workers(1) [OF ok assms(2)] M(2) other])
    from system_takes [OF ok assms(2) M(1) this hand [OF other(2)]] M(2) show ?thesis by metis
  qed
qed

text \<open>The one worker of \<open>one_worker_submitted\<close>, which sleeps and has got a task.\<close>

theorem system_progress_witness:
  "\<exists>S T :: unit system. sys_reachable S \<and> machine_of S 0 = one_2 \<and> sysstep S T \<and>
    pc (machine_of T 0) 0 \<noteq> InitBlocked"
proof -
  obtain S where S: "stands S one_2 [(0, stop_task)] []" using one_worker_submitted by blast
  then have m: "sys_reachable S" "0 < n_workers (sch S)" "machine_of S 0 = one_2" by (simp_all add: stands_def)
  have one: "room (wk one_2)" "current_pc one_2 = InitBlocked" "currentFiber (wk one_2) = 0"
    "run_pred (wk one_2)" by (simp_all add: one_defs run_pred_def)
  from system_progress [OF m(1,2)] m one show ?thesis by auto
qed

end
