(* ===== verification/Thread_Names.thy ===== *)
theory Thread_Names
  imports Prelude "HOL-Library.Char_ord"
begin

text \<open>
  The names of the threads: \<open>Thread::setName\<close> (\<open>src/thread.cpp\<close>) and the name that a worker
  gives its thread (\<open>src/worker.cpp\<close>).
\<close>

subsection \<open>Formatting\<close>

definition digit :: "nat \<Rightarrow> char" where
  "digit d = char_of (48 + d)"

fun decimal_digits :: "nat \<Rightarrow> string" where
  "decimal_digits n = (if n < 10 then [digit n] else decimal_digits (n div 10) @ [digit (n mod 10)])"

declare decimal_digits.simps [simp del]

text \<open>The conversion \<open>%.2d\<close>: at least two digits.\<close>

definition format_d2 :: "int \<Rightarrow> string" where
  "format_d2 i =
     (let ds = decimal_digits (nat \<bar>i\<bar>)
      in (if i < 0 then ''-'' else []) @ (if length ds < 2 then digit 0 # ds else ds))"

definition worker_name :: "u32 \<Rightarrow> string" where
  "worker_name i = ''Thread<'' @ format_d2 (sint i) @ ''>''"

subsection \<open>\<open>setName\<close>\<close>

text \<open>
  The buffer has 1024 bytes; \<open>pthread_setname_np\<close> of Linux refuses a name of 16 characters or
  more, and its result is not looked at.
\<close>

definition pthread_setname_np :: "string \<Rightarrow> string \<Rightarrow> string" where
  "pthread_setname_np name old = (if length name < 16 then name else old)"

definition setName :: "string \<Rightarrow> string \<Rightarrow> string" where
  "setName formatted old = pthread_setname_np (take 1023 formatted) old"

text \<open>
  On Windows the function that sets the description is looked up first; there is no limit of 16
  characters. The conversion to wide characters keeps the characters of a worker's name.
\<close>

definition setName_windows :: "bool \<Rightarrow> string \<Rightarrow> string \<Rightarrow> string" where
  "setName_windows found formatted old = (if \<not> found then old else take 1023 formatted)"

subsection \<open>Properties\<close>

definition digits_value :: "string \<Rightarrow> nat" where
  "digits_value ds = foldl (\<lambda>n c. 10 * n + (of_char c - 48)) 0 ds"

lemma of_char_of_digit [simp]: "d < 10 \<Longrightarrow> of_char (digit d) = (48 + d :: nat)"
  by (simp add: digit_def of_char_of)

lemma digits_value_decimal: "digits_value (decimal_digits n) = n"
proof (induction n rule: decimal_digits.induct)
  case (1 n)
  show ?case
  proof (cases "n < 10")
    case True
    then show ?thesis by (simp add: decimal_digits.simps [of n] digits_value_def)
  next
    case False
    then show ?thesis using 1 [OF False]
      by (simp add: decimal_digits.simps [of n] digits_value_def)
  qed
qed

lemma digits_value_zero: "digits_value (digit 0 # ds) = digits_value ds"
  by (simp add: digits_value_def)

lemma length_decimal: "n < 10 ^ Suc k \<Longrightarrow> length (decimal_digits n) \<le> Suc k"
proof (induction k arbitrary: n)
  case (Suc k)
  then show ?case using Suc.IH [of "n div 10"] by (simp add: decimal_digits.simps [of n])
qed (simp add: decimal_digits.simps)

lemma format_inject:
  assumes "0 \<le> i" "0 \<le> j" "format_d2 i = format_d2 j"
  shows "i = j"
proof -
  have "digits_value (format_d2 k) = nat k" if "0 \<le> k" for k
    using that by (simp add: format_d2_def Let_def digits_value_decimal digits_value_zero)
  with assms have "nat i = nat j" by metis
  with assms(1,2) show "i = j" by simp
qed

text \<open>
  The name of every worker thread fits, so that it is set, and no two workers of a scheduler have the
  same name; a longer name would be dropped without a word.
\<close>

lemma worker_names:
  assumes "unat a < 256"
  shows "setName (worker_name a) old = worker_name a"
    and "unat b < 256 \<Longrightarrow> worker_name a = worker_name b \<Longrightarrow> a = b"
    and "16 \<le> length name \<Longrightarrow> setName name old = old"
proof -
  have sint: "sint c = int (unat c)" if "unat c < 256" for c :: u32
    using that by (intro sint_small) simp
  have "length (decimal_digits (unat a)) \<le> 3" using length_decimal [of "unat a" 2] assms by simp
  then have "length (worker_name a) < 16" by (auto simp: worker_name_def format_d2_def Let_def sint [OF assms])
  then show "setName (worker_name a) old = worker_name a" by (simp add: setName_def pthread_setname_np_def)
  show "a = b" if "unat b < 256" "worker_name a = worker_name b"
  proof -
    have "format_d2 (sint a) = format_d2 (sint b)" using that(2) by (simp add: worker_name_def)
    then have "sint a = sint b" using format_inject sint [OF assms] sint [OF that(1)] by simp
    then have "unat a = unat b" using sint [OF assms] sint [OF that(1)] by (simp only: of_nat_eq_iff)
    then show ?thesis by (simp only: word_unat_eq_iff)
  qed
  show "setName name old = old" if "16 \<le> length name"
    using that by (simp add: setName_def pthread_setname_np_def min_def)
qed

end
