(* ===== verification/Fiber_API.thy ===== *)
theory Fiber_API
  imports Scheduler Worker_Wait
begin

text \<open>
  The interface of a fiber (\<open>src/fiber.cpp\<close>) and the thread-local current worker
  (\<open>src/worker.cpp\<close>, \<open>include/hfts/worker.hpp\<close>), over the operations of the worker that
  the fiber belongs to.
\<close>

definition Worker_setCurrent :: "tid \<Rightarrow> worker_ref option \<Rightarrow> 'f scheduler \<Rightarrow> 'f scheduler" where
  "Worker_setCurrent me w s = s\<lparr>currentWorker := (currentWorker s)(me := w)\<rparr>"

definition Worker_getCurrent :: "tid \<Rightarrow> 'f scheduler \<Rightarrow> worker_ref option" where
  "Worker_getCurrent me s = currentWorker s me"

text \<open>The worker of a fiber is the current worker of the thread that makes it.\<close>

record fiber_handle =
  fo_id :: u32
  fo_worker :: "worker_ref option"

definition Fiber_new :: "tid \<Rightarrow> u32 \<Rightarrow> 'f scheduler \<Rightarrow> fiber_handle" where
  "Fiber_new me i s = \<lparr>fo_id = i, fo_worker = Worker_getCurrent me s\<rparr>"

definition Fiber_current :: "tid \<Rightarrow> 'f scheduler \<Rightarrow> fiber option" where
  "Fiber_current me s = map_option getCurrentFiber (current_worker me s)"

definition Fiber_notify :: "fiber \<Rightarrow> 'f worker \<Rightarrow> bool \<times> 'f worker" where
  "Fiber_notify f w = enqueue_fiber f w"

text \<open>
  The four waits. \<open>cast\<close> is \<open>std::chrono::time_point_cast\<close> to the clock of the worker; the
  turns are those of \<open>Worker::wait\<close>.
\<close>

definition Fiber_wait_pred :: "(bool \<times> time) list \<Rightarrow> wait_event list \<times> bool option" where
  "Fiber_wait_pred turns = Worker_wait_pred None turns"

definition Fiber_wait_pred_until ::
  "('c \<Rightarrow> time) \<Rightarrow> 'c \<Rightarrow> (bool \<times> time) list \<Rightarrow> wait_event list \<times> bool option" where
  "Fiber_wait_pred_until cast timeout turns = Worker_wait_pred (Some (cast timeout)) turns"

definition Fiber_wait :: "time \<Rightarrow> bool" where
  "Fiber_wait now = Worker_wait None now"

definition Fiber_wait_until :: "('c \<Rightarrow> time) \<Rightarrow> 'c \<Rightarrow> time \<Rightarrow> bool" where
  "Fiber_wait_until cast timeout now = Worker_wait (Some (cast timeout)) now"

text \<open>A wait without a deadline ends in the first turn in which the predicate is true, and only then.\<close>

lemma Fiber_wait_pred_ends:
  "snd (Fiber_wait_pred turns) = (if True \<in> set (map fst turns) then Some True else None)"
  unfolding Fiber_wait_pred_def 
proof (induction turns)
  case (Cons turn turns)
  obtain p now where "turn = (p, now)" by fastforce
  moreover obtain es r where "Worker_wait_pred None turns = (es, r)" by fastforce
  ultimately show ?case using Cons by simp
qed simp

text \<open>
  A deadline that the cast rounds down is seen as passed before it is: the wait may end early by as
  much as the cast loses.
\<close>

lemma Fiber_wait_until_early:
  "cast timeout \<le> now \<Longrightarrow> \<not> Fiber_wait_until cast timeout now"
  by (simp add: Fiber_wait_until_def Worker_wait_def)

text \<open>A fiber that is made on a thread belongs to the worker that the thread has set before.\<close>

lemma Fiber_new_worker:
  "fo_worker (Fiber_new me i (Worker_setCurrent me w s)) = w"
  "t \<noteq> me \<Longrightarrow> fo_worker (Fiber_new t i (Worker_setCurrent me w s)) = Worker_getCurrent t s"
  by (simp_all add: Fiber_new_def Worker_getCurrent_def Worker_setCurrent_def)

end
