(* ===== verification/Vec_Iteration.thy ===== *)
theory Vec_Iteration
  imports Vec
begin

text \<open>
  The rest of the vector of \<open>include/hfts/containers.hpp\<close>: the move constructor, the assignment
  from a vector of the same capacity, and the pointers that a range-based loop runs over.
\<close>

text \<open>The move constructor: a new vector, then \<open>*this = std::move(other)\<close>.\<close>

definition vector_move ::
  "'s allocator \<Rightarrow> elem_type \<Rightarrow> 'a \<Rightarrow> nat \<Rightarrow> 'a vec \<Rightarrow> 's \<Rightarrow> ('a vec \<times> 'a vec \<times> 's) res" where
  "vector_move A T dflt base_capacity other s =
     vector_move_assign A T dflt other (vector_new base_capacity) s"

text \<open>\<open>operator=(const vector&)\<close>, which repeats the template for other capacities.\<close>

definition vector_assign_same ::
  "'s allocator \<Rightarrow> elem_type \<Rightarrow> 'a vec \<Rightarrow> 'a vec \<Rightarrow> 's \<Rightarrow> ('a vec \<times> 's) res" where
  "vector_assign_same A T other v s =
     bind_res (vector_free A v s) (\<lambda>(v, s).
     bind_res (vector_reserve A T (v_count other) v s) (\<lambda>(v, s).
     let v = v\<lparr>v_count := v_count other\<rparr>
     in bind_res (fold_res (\<lambda>i v. bind_res (read_at i other) (\<lambda>x. construct_at i x v))
            [0..<unat (v_count v)] v) (\<lambda>v.
        Inr (v, s))))"

lemma vector_assign_same_eq: "vector_assign_same = vector_assign"
  by (simp add: vector_assign_same_def vector_assign_def fun_eq_iff Let_def)

text \<open>A pointer into the elements is an index; the loop reads from \<open>begin\<close> up to \<open>end\<close>.\<close>

definition vector_begin :: "'a vec \<Rightarrow> nat" where
  "vector_begin v = 0"

definition vector_end :: "'a vec \<Rightarrow> nat" where
  "vector_end v = vector_begin v + unat (v_count v)"

definition vector_for_each :: "('a \<Rightarrow> 'b \<Rightarrow> 'b) \<Rightarrow> 'a vec \<Rightarrow> 'b \<Rightarrow> 'b res" where
  "vector_for_each f v = fold_res (\<lambda>i b. bind_res (read_at i v) (\<lambda>x. Inr (f x b))) [vector_begin v..<vector_end v]"

definition vector_data :: "'a vec \<Rightarrow> storage" where
  "vector_data v = v_elements v"

text \<open>The loop visits exactly the elements, in order.\<close>

lemma for_each_ok:
  assumes "vec_rep v xs"
  shows "vector_for_each f v b = Inr (fold f xs b)"
proof -
  note R = vec_repD [OF assms]
  have "fold_res (\<lambda>i b. bind_res (read_at i v) (\<lambda>x. Inr (f x b))) [0..<k] b = Inr (fold f (take k xs) b)"
    if "k \<le> length xs" for k
    using that
  proof (induction k)
    case (Suc k)
    then have "read_at k v = Inr (xs ! k)" using R by simp
    then show ?case using Suc by (simp add: fold_res_append take_Suc_conv_app_nth)
  qed simp
  from this [of "length xs"] show ?thesis
    using R(2) by (simp add: vector_for_each_def vector_begin_def vector_end_def)
qed

end
