(* ===== verification/Benchmark_Main.thy ===== *)
theory Benchmark_Main
  imports Benchmark
begin

text \<open>
  The function \<open>main\<close> of the benchmark program (\<open>example/benchmark.cpp\<close>): which benchmarks
  it runs, and the lines it prints as far as they do not show measured times. The orders in which the
  schedulers run the tasks are arguments, one for every run.
\<close>

subsection \<open>The program\<close>

datatype line =
    Worker_sweep "int32 list"
  | Task_row int32 u64                 \<comment> \<open>workers, checksum\<close>
  | Short_row int32
  | Blocking_row int32
  | Sequential_row u64                 \<comment> \<open>checksum\<close>
  | Reduce_row int32 u64 u64           \<comment> \<open>workers, chunks, checksum\<close>
  | Checksum_mismatch

text \<open>The order of the tasks in the \<open>i\<close>th run of each benchmark.\<close>

record orders =
  task_order :: "nat \<Rightarrow> nat list"
  short_order :: "nat \<Rightarrow> nat list"
  pool_order :: "nat \<Rightarrow> nat list"
  blocking_order :: "nat \<Rightarrow> (bool \<times> nat) list"
  pool_blocking_order :: "nat \<Rightarrow> (bool \<times> nat) list"
  reduce_order :: "nat \<Rightarrow> nat list"

definition compared :: "u64 \<Rightarrow> u64 \<Rightarrow> line list" where
  "compared a b = (if a \<noteq> b then [Checksum_mismatch] else [])"

definition task_lines :: "orders \<Rightarrow> options \<Rightarrow> line list" where
  "task_lines ord opts =
     map (\<lambda>i. Task_row (workerCounts opts ! i)
            (runTaskBenchmark (task_order ord i) (taskCount opts) (taskWork opts)))
       [0..<length (workerCounts opts)]"

definition short_lines :: "orders \<Rightarrow> options \<Rightarrow> line list" where
  "short_lines ord opts =
     concat (map (\<lambda>i.
       let (hfts, pool) = runShortTaskComparison (short_order ord i) (pool_order ord i)
                            (shortTaskCount opts) (shortTaskWork opts)
       in Short_row (workerCounts opts ! i) # compared hfts pool)
       [0..<length (workerCounts opts)])"

definition blocking_lines :: "orders \<Rightarrow> options \<Rightarrow> line list" where
  "blocking_lines ord opts =
     concat (map (\<lambda>i.
       let hfts = runFiberBlockingBenchmark (blocking_order ord i) (blockingTaskCount opts)
                    (blockingTaskWork opts);
           pool = runPlainPoolBlockingBenchmark (pool_blocking_order ord i) (blockingTaskCount opts)
                    (blockingTaskWork opts)
       in Blocking_row (workerCounts opts ! i) # compared hfts pool)
       [0..<length (workerCounts opts)])"

definition reduce_step :: "orders \<Rightarrow> options \<Rightarrow> u64 \<Rightarrow> nat \<Rightarrow> line list \<Rightarrow> line list res" where
  "reduce_step ord opts baseline i out =
     bind_res (runParallelReduce (reduce_order ord i) (reduceItems opts) (reduceWork opts) (chunkSize opts))
       (\<lambda>(chunks, _, checksum).
     Inr (out @ Reduce_row (workerCounts opts ! i) chunks checksum # compared checksum baseline))"

definition reduce_lines :: "orders \<Rightarrow> options \<Rightarrow> line list res" where
  "reduce_lines ord opts =
     (let baseline = runSequentialReduce (reduceItems opts) (reduceWork opts)
      in fold_res (reduce_step ord opts baseline) [0..<length (workerCounts opts)] [Sequential_row baseline])"

text \<open>The exit code and the lines.\<close>

definition benchmark_main :: "orders \<Rightarrow> u32 \<Rightarrow> string list \<Rightarrow> (int \<times> line list) res" where
  "benchmark_main ord cpus args =
     (case parseArgs cpus args of
        (Help, _) \<Rightarrow> Inr (0, [])
      | (Error, _) \<Rightarrow> Inr (1, [])
      | (Ok, opts) \<Rightarrow>
          bind_res (reduce_lines ord opts) (\<lambda>reduce.
          Inr (0, Worker_sweep (workerCounts opts) # task_lines ord opts @ short_lines ord opts @
                  blocking_lines ord opts @ reduce)))"

text \<open>
  The best of the rows, which the summary names: \<open>gt\<close> is the comparison of the measured values,
  \<open>zero\<close> is 0.0.
\<close>

definition best_row :: "('d \<Rightarrow> 'd \<Rightarrow> bool) \<Rightarrow> 'd \<Rightarrow> ('d \<times> int32) list \<Rightarrow> 'd \<times> int32" where
  "best_row gt zero rows =
     foldl (\<lambda>best row. if gt (fst row) (fst best) then row else best) (zero, 0) rows"

lemma best_row_greatest:
  assumes "\<And>a b c. gt a b \<Longrightarrow> \<not> gt c b \<Longrightarrow> \<not> gt c a" "\<And>a. \<not> gt a a"
  shows "row \<in> set rows \<Longrightarrow> \<not> gt (fst row) (fst (best_row gt zero rows))"
    and "best_row gt zero rows \<in> insert (zero, 0) (set rows)"
proof -
  have keep: "\<not> gt x (fst (foldl (\<lambda>best row. if gt (fst row) (fst best) then row else best) b rs))"
    if "\<not> gt x (fst b)" for x b rs
    using that
  proof (induction rs arbitrary: b)
    case (Cons row rs)
    have "\<not> gt x (fst row)" if "gt (fst row) (fst b)" by (rule assms(1) [OF that Cons.prems])
    then show ?case using Cons.prems Cons.IH [of b] Cons.IH [of row] by simp
  qed simp
  show "\<not> gt (fst row) (fst (best_row gt zero rows))" if mem: "row \<in> set rows"
  proof -
    obtain before after where "rows = before @ row # after" using split_list [OF mem] by blast
    then show ?thesis by (simp add: best_row_def keep assms(2))
  qed
  have "foldl (\<lambda>best row. if gt (fst row) (fst best) then row else best) b rs \<in> insert b (set rs)" for b rs
    by (induction rs arbitrary: b) (auto split: if_splits)
  then show "best_row gt zero rows \<in> insert (zero, 0) (set rows)" by (simp add: best_row_def)
qed

subsection \<open>No checksum differs\<close>

text \<open>
  Each run calls every task once; a task that blocks does its first part before its second one; the
  chunks are those of the code's division.
\<close>

definition each_once :: "nat list \<Rightarrow> nat \<Rightarrow> bool" where
  "each_once order n \<longleftrightarrow> distinct order \<and> set order = {..<n}"

definition parts_in_order :: "(bool \<times> nat) list \<Rightarrow> nat \<Rightarrow> bool" where
  "parts_in_order order n \<longleftrightarrow> (\<forall>i<n. filter (\<lambda>part. snd part = i) order = [(True, i), (False, i)])"

definition orders_ok :: "orders \<Rightarrow> options \<Rightarrow> bool" where
  "orders_ok ord opts \<longleftrightarrow> (\<forall>i<length (workerCounts opts).
     each_once (task_order ord i) (unat (taskCount opts)) \<and>
     each_once (short_order ord i) (unat (shortTaskCount opts)) \<and>
     each_once (pool_order ord i) (unat (shortTaskCount opts)) \<and>
     parts_in_order (blocking_order ord i) (unat (blockingTaskCount opts)) \<and>
     parts_in_order (pool_blocking_order ord i) (unat (blockingTaskCount opts)) \<and>
     each_once (reduce_order ord i)
       ((unat (reduceItems opts) + unat (chunkSize opts) - 1) div unat (chunkSize opts)))"

lemma orders_okD:
  assumes "orders_ok ord opts" "i < length (workerCounts opts)"
  shows "each_once (short_order ord i) (unat (shortTaskCount opts))"
    "each_once (pool_order ord i) (unat (shortTaskCount opts))"
    "parts_in_order (blocking_order ord i) (unat (blockingTaskCount opts))"
    "parts_in_order (pool_blocking_order ord i) (unat (blockingTaskCount opts))"
    "each_once (reduce_order ord i)
       ((unat (reduceItems opts) + unat (chunkSize opts) - 1) div unat (chunkSize opts))"
  using assms by (simp_all add: orders_ok_def)

lemma short_lines_ok:
  assumes "orders_ok ord opts"
  shows "short_lines ord opts = map Short_row (workerCounts opts)"
proof -
  let ?f = "\<lambda>i. let (hfts, pool) = runShortTaskComparison (short_order ord i) (pool_order ord i)
      (shortTaskCount opts) (shortTaskWork opts)
    in Short_row (workerCounts opts ! i) # compared hfts pool"
  have "?f i = [Short_row (workerCounts opts ! i)]" if less: "i < length (workerCounts opts)" for i
  proof -
    obtain c where "runShortTaskComparison (short_order ord i) (pool_order ord i)
        (shortTaskCount opts) (shortTaskWork opts) = (c, c)"
      using checksums_agree orders_okD(1,2) [OF assms less] unfolding each_once_def by metis
    then show ?thesis by (simp add: compared_def)
  qed
  then have "short_lines ord opts = concat (map (\<lambda>i. [Short_row (workerCounts opts ! i)])
      [0..<length (workerCounts opts)])"
    unfolding short_lines_def by (intro arg_cong [where f = concat] map_cong) simp_all
  also have "\<dots> = map Short_row (map (\<lambda>i. workerCounts opts ! i) [0..<length (workerCounts opts)])"
    by (simp add: concat_map_singleton)
  finally show ?thesis by (simp only: map_nth)
qed

lemma blocking_lines_ok:
  assumes "orders_ok ord opts"
  shows "blocking_lines ord opts = map Blocking_row (workerCounts opts)"
proof -
  have "runFiberBlockingBenchmark (blocking_order ord i) (blockingTaskCount opts) (blockingTaskWork opts) =
      runPlainPoolBlockingBenchmark (pool_blocking_order ord i) (blockingTaskCount opts) (blockingTaskWork opts)"
    if "i < length (workerCounts opts)" for i
    using blocking_checksum [of "blockingTaskCount opts" "blocking_order ord i"]
      blocking_checksum [of "blockingTaskCount opts" "pool_blocking_order ord i"]
      orders_okD(3,4) [OF assms that]
    by (simp add: parts_in_order_def runPlainPoolBlockingBenchmark_def
        runFiberBlockingBenchmark_def)
  then have "blocking_lines ord opts = concat (map (\<lambda>i. [Blocking_row (workerCounts opts ! i)])
      [0..<length (workerCounts opts)])"
    unfolding blocking_lines_def
    by (intro arg_cong [where f = concat] map_cong) (simp_all add: Let_def compared_def)
  also have "\<dots> = map Blocking_row (map (\<lambda>i. workerCounts opts ! i) [0..<length (workerCounts opts)])"
    by (simp add: concat_map_singleton)
  finally show ?thesis by (simp only: map_nth)
qed

lemma reduce_lines_ok:
  assumes "orders_ok ord opts" "chunkSize opts \<noteq> 0"
    and "unat (reduceItems opts) + unat (chunkSize opts) \<le> 2 ^ 64"
  shows "\<exists>rows. reduce_lines ord opts = Inr rows \<and> Checksum_mismatch \<notin> set rows \<and>
    length rows = Suc (length (workerCounts opts))"
proof -
  let ?b = "runSequentialReduce (reduceItems opts) (reduceWork opts)"
  have "\<exists>rows. fold_res (reduce_step ord opts ?b) [0..<k] [Sequential_row ?b] = Inr rows \<and>
      Checksum_mismatch \<notin> set rows \<and> length rows = Suc k" if "k \<le> length (workerCounts opts)" for k
    using that
  proof (induction k)
    case (Suc k)
    then obtain rows where rows: "fold_res (reduce_step ord opts ?b) [0..<k] [Sequential_row ?b] = Inr rows"
      "Checksum_mismatch \<notin> set rows" "length rows = Suc k" by auto
    obtain m wg where "runParallelReduce (reduce_order ord k) (reduceItems opts) (reduceWork opts)
        (chunkSize opts) = Inr (m, wg, ?b)"
      using parallel_reduce_ok [OF assms(2,3)] orders_okD(5) [OF assms(1), of k] Suc.prems
      unfolding each_once_def by (metis Suc_le_lessD)
    then have "reduce_step ord opts ?b k rows = Inr (rows @ [Reduce_row (workerCounts opts ! k) m ?b])"
      by (simp add: reduce_step_def compared_def)
    with rows show ?case by (simp add: fold_res_append)
  qed simp
  then show ?thesis by (simp add: reduce_lines_def Let_def)
qed

text \<open>
  Whatever the order in which the schedulers run the tasks, the program exits with 0 and never
  prints a checksum mismatch, when the number of items to reduce plus the size of a chunk does not pass
  2^64; it prints one row of each benchmark for every worker count.
\<close>

theorem benchmark_no_mismatch:
  assumes "unat cpus < 2 ^ 31" "parseArgs cpus args = (Ok, opts)" "orders_ok ord opts"
    and "unat (reduceItems opts) + unat (chunkSize opts) \<le> 2 ^ 64"
  shows "\<exists>lines. benchmark_main ord cpus args = Inr (0, lines) \<and> Checksum_mismatch \<notin> set lines \<and>
    length lines = 2 + 4 * length (workerCounts opts)"
proof -
  have "options_ok opts" using parseArgs_ok [OF assms(1), of args] assms(2) by simp
  then have "chunkSize opts \<noteq> 0" by (simp add: options_ok_def)
  then obtain rows where rows: "reduce_lines ord opts = Inr rows" "Checksum_mismatch \<notin> set rows"
    "length rows = Suc (length (workerCounts opts))"
    using reduce_lines_ok [OF assms(3) _ assms(4)] by blast
  moreover have "Checksum_mismatch \<notin> set (task_lines ord opts)" by (auto simp: task_lines_def)
  moreover have "Checksum_mismatch \<notin> set (short_lines ord opts)"
    "Checksum_mismatch \<notin> set (blocking_lines ord opts)"
    using short_lines_ok [OF assms(3)] blocking_lines_ok [OF assms(3)] by auto
  moreover have "length (task_lines ord opts) = length (workerCounts opts)" by (simp add: task_lines_def)
  ultimately show ?thesis
    using assms(2) short_lines_ok [OF assms(3)] blocking_lines_ok [OF assms(3)]
    by (simp add: benchmark_main_def)
qed

text \<open>One task of each kind, on one worker.\<close>

definition small_args :: "string list" where
  "small_args = [''--tasks'', ''1'', ''--short-tasks'', ''1'', ''--blocking-tasks'', ''1'',
     ''--reduce-items'', ''1'', ''--chunk-size'', ''1'', ''--workers'', ''1'']"

definition small_options :: options where
  "small_options = default_options\<lparr>taskCount := 1, shortTaskCount := 1, blockingTaskCount := 1,
     reduceItems := 1, chunkSize := 1, workerCounts := [1]\<rparr>"

definition small_orders :: orders where
  "small_orders = \<lparr>task_order = (\<lambda>_. [0]), short_order = (\<lambda>_. [0]), pool_order = (\<lambda>_. [0]),
     blocking_order = (\<lambda>_. [(True, 0), (False, 0)]),
     pool_blocking_order = (\<lambda>_. [(True, 0), (False, 0)]), reduce_order = (\<lambda>_. [0])\<rparr>"

lemma parse_one: "parseUnsigned (Some ''1'') = Some 1"
  by (simp add: parseUnsigned_def strtoull_def isspace_def isdigit_def)

lemma small_parse: "parseArgs 1 small_args = (Ok, small_options)"
proof -
  have "parse_count ''1'' = Some 1" "parse_size ''1'' = Some 1"
    by (simp_all add: parse_count_def parse_size_def parse_one)
  moreover have "parseWorkerList (Some ''1'') = Some [1]"
    by (simp add: parseWorkerList_def worker_tokens.simps parseInt_def parse_one INT_MAX_def sort_unique_def)
  moreover have "defaultWorkerCounts 1 = [1]" by (simp add: defaultWorkerCounts_def sort_unique_def)
  ultimately show ?thesis
    by (simp add: parseArgs_def small_args_def small_options_def parse_option_def)
qed

theorem benchmark_no_mismatch_witness:
  "\<exists>lines. benchmark_main small_orders 1 small_args = Inr (0, lines) \<and>
     Checksum_mismatch \<notin> set lines \<and> length lines = 6"
proof -
  have "each_once [0] 1" by (auto simp: each_once_def)
  moreover have "parts_in_order [(True, 0), (False, 0)] 1" by (simp add: parts_in_order_def)
  ultimately have "orders_ok small_orders small_options"
    by (simp add: orders_ok_def small_orders_def small_options_def default_options_def)
  moreover have "unat (reduceItems small_options) + unat (chunkSize small_options) \<le> 2 ^ 64"
    "length (workerCounts small_options) = 1" "unat (1 :: u32) < 2 ^ 31"
    by (simp_all add: small_options_def)
  ultimately show ?thesis using benchmark_no_mismatch [OF _ small_parse, of small_orders] by simp
qed

end
