(* ===== verification/Fractal.thy ===== *)
theory Fractal
  imports Complex_Main Bmp
begin

text \<open>
  The fractal example (\<open>example/fractal.cpp\<close>): the Julia set, the color of a pixel, the tasks
  that render the lines of the image, and \<open>main\<close> up to its exit code and its file. The type
  \<open>float\<close> and its operations are a parameter; the order in which the tasks write their pixels is
  an argument, in which the writes of different lines may be interleaved in any way.
\<close>

subsection \<open>Floating-point numbers\<close>

text \<open>
  \<open>f_of\<close> is the number that a literal or an integer is converted to, \<open>f_byte\<close> the conversion to
  \<open>uint8_t\<close>.
\<close>

record 'r float_ops =
  f_of :: "rat \<Rightarrow> 'r"
  f_add :: "'r \<Rightarrow> 'r \<Rightarrow> 'r"
  f_sub :: "'r \<Rightarrow> 'r \<Rightarrow> 'r"
  f_mul :: "'r \<Rightarrow> 'r \<Rightarrow> 'r"
  f_div :: "'r \<Rightarrow> 'r \<Rightarrow> 'r"
  f_greater :: "'r \<Rightarrow> 'r \<Rightarrow> bool"
  f_cos :: "'r \<Rightarrow> 'r"
  f_sqrt :: "'r \<Rightarrow> 'r"
  f_byte :: "'r \<Rightarrow> byte"

text \<open>The operators \<open>+=\<close> and \<open>/=\<close> of \<open>Color<float>\<close>, and \<open>Color<float>\<close> from \<open>{}\<close>.\<close>

definition color_add :: "'r float_ops \<Rightarrow> 'r color \<Rightarrow> 'r color \<Rightarrow> 'r color" where
  "color_add F c rhs =
     Color (f_add F (red c) (red rhs)) (f_add F (green c) (green rhs)) (f_add F (blue c) (blue rhs))"

definition color_div :: "'r float_ops \<Rightarrow> 'r color \<Rightarrow> 'r \<Rightarrow> 'r color" where
  "color_div F c rhs = Color (f_div F (red c) rhs) (f_div F (green c) rhs) (f_div F (blue c) rhs)"

definition color_zero :: "'r float_ops \<Rightarrow> 'r color" where
  "color_zero F = Color (f_of F 0) (f_of F 0) (f_of F 0)"

definition colorize :: "'r float_ops \<Rightarrow> 'r \<Rightarrow> 'r color" where
  "colorize F v =
     (let PI = f_of F (3141592653589793 / 1000000000000000);
          PI_2_THIRDS = f_div F (f_mul F (f_of F 2) PI) (f_of F 3);
          component = (\<lambda>n. f_add F (f_of F (1 / 2)) (f_mul F (f_of F (1 / 2))
            (f_cos F (f_add F v (f_mul F (f_of F n) PI_2_THIRDS)))))
      in Color (component 0) (component 1) (component 2))"

definition lerp :: "'r float_ops \<Rightarrow> 'r \<Rightarrow> 'r \<Rightarrow> 'r \<Rightarrow> 'r" where
  "lerp F x lo hi = f_add F lo (f_mul F x (f_sub F hi lo))"

subsection \<open>The Julia set\<close>

definition julia_rounds :: nat where
  "julia_rounds = 1000"

definition escaped :: "'r float_ops \<Rightarrow> 'r \<times> 'r \<Rightarrow> bool" where
  "escaped F = (\<lambda>(x, y). f_greater F (f_add F (f_mul F x x) (f_mul F y y)) (f_of F 4))"

definition julia_next :: "'r float_ops \<Rightarrow> 'r \<Rightarrow> 'r \<Rightarrow> 'r \<times> 'r \<Rightarrow> 'r \<times> 'r" where
  "julia_next F cx cy = (\<lambda>(x, y).
     let xtemp = f_sub F (f_mul F x x) (f_mul F y y);
         y = f_add F (f_mul F (f_mul F (f_of F 2) x) y) cy
     in (f_add F xtemp cx, y))"

text \<open>The loop, with the number of turns that are left.\<close>

fun julia_loop :: "'r float_ops \<Rightarrow> 'r \<Rightarrow> 'r \<Rightarrow> nat \<Rightarrow> nat \<Rightarrow> 'r \<times> 'r \<Rightarrow> 'r color" where
  "julia_loop F cx cy 0 i z = color_zero F"
| "julia_loop F cx cy (Suc n) i z =
     (if escaped F z then colorize F (f_sqrt F (f_of F (of_nat i)))
      else julia_loop F cx cy n (Suc i) (julia_next F cx cy z))"

definition julia :: "'r float_ops \<Rightarrow> 'r \<Rightarrow> 'r \<Rightarrow> 'r \<Rightarrow> 'r \<Rightarrow> 'r color" where
  "julia F x y cx cy = julia_loop F cx cy julia_rounds 0 (x, y)"

text \<open>The color is that of the first point of the orbit that has escaped.\<close>


lemma julia_loop_inside:
  "\<forall>k<n. \<not> escaped F ((julia_next F cx cy ^^ k) z) \<Longrightarrow> julia_loop F cx cy n i z = color_zero F"
proof (induction n arbitrary: i z)
  case (Suc n)
  have "\<not> escaped F ((julia_next F cx cy ^^ k) (julia_next F cx cy z))" if "k < n" for k
    using Suc.prems [rule_format, of "Suc k"] that by (simp add: funpow_swap1)
  then show ?case using Suc.IH Suc.prems [rule_format, of 0] by simp
qed simp

lemma julia_loop_escapes:
  assumes "k < n" "escaped F ((julia_next F cx cy ^^ k) z)"
    and "\<forall>j<k. \<not> escaped F ((julia_next F cx cy ^^ j) z)"
  shows "julia_loop F cx cy n i z = colorize F (f_sqrt F (f_of F (of_nat (i + k))))"
  using assms
proof (induction k arbitrary: n i z)
  case 0
  then show ?case by (cases n) simp_all
next
  case (Suc k)
  then obtain m where m: "n = Suc m" "k < m" by (cases n) simp_all
  have "\<not> escaped F ((julia_next F cx cy ^^ j) (julia_next F cx cy z))" if "j < k" for j
    using Suc.prems(3) [rule_format, of "Suc j"] that by (simp add: funpow_swap1)
  then have "julia_loop F cx cy m (Suc i) (julia_next F cx cy z) =
      colorize F (f_sqrt F (f_of F (of_nat (Suc i + k))))"
    using Suc.IH [OF m(2)] Suc.prems(2) by (simp add: funpow_swap1 add.assoc)
  then show ?case using Suc.prems(3) [rule_format, of 0] m(1) by simp
qed

subsection \<open>A pixel\<close>

definition imageWidth :: u32 where
  "imageWidth = 2048"

definition imageHeight :: u32 where
  "imageHeight = 2048"

definition samplesPerPixelW :: nat where
  "samplesPerPixelW = 3"

definition samplesPerPixelH :: nat where
  "samplesPerPixelH = 3"

text \<open>The place of a sub-pixel on an axis of the image, between 0 and 1.\<close>

definition sample_at :: "'r float_ops \<Rightarrow> u32 \<Rightarrow> nat \<Rightarrow> nat \<Rightarrow> u32 \<Rightarrow> 'r" where
  "sample_at F x s samples extent =
     f_div F (f_add F (f_of F (of_nat (unat x))) (f_div F (f_of F (of_nat s)) (f_of F (of_nat samples))))
       (f_of F (of_nat (unat extent)))"

definition sample_color :: "'r float_ops \<Rightarrow> 'r \<Rightarrow> 'r \<Rightarrow> 'r color" where
  "sample_color F dx dy =
     julia F (lerp F dx (f_of F (- 1 / 2)) (f_of F (1 / 2))) (lerp F dy (f_of F (- 1 / 2)) (f_of F (1 / 2)))
       (f_of F (- 8 / 10)) (f_of F (156 / 1000))"

definition pixel_color :: "'r float_ops \<Rightarrow> u32 \<Rightarrow> u32 \<Rightarrow> 'r color" where
  "pixel_color F x y =
     color_div F
       (foldl (\<lambda>color sy.
          let dy = sample_at F y sy samplesPerPixelH imageHeight
          in foldl (\<lambda>color sx. color_add F color (sample_color F (sample_at F x sx samplesPerPixelW imageWidth) dy))
               color [0..<samplesPerPixelW])
         (color_zero F) [0..<samplesPerPixelH])
       (f_of F (of_nat (samplesPerPixelW * samplesPerPixelH)))"

definition pixel_texel :: "'r float_ops \<Rightarrow> u32 \<Rightarrow> u32 \<Rightarrow> byte color" where
  "pixel_texel F x y =
     (let color = pixel_color F x y; to_byte = (\<lambda>v. f_byte F (f_mul F v (f_of F 255)))
      in Color (to_byte (red color)) (to_byte (green color)) (to_byte (blue color)))"

subsection \<open>The tasks and \<open>main\<close>\<close>

text \<open>What the task of line \<open>y\<close> does for one \<open>x\<close>.\<close>

definition render_pixel :: "'r float_ops \<Rightarrow> u32 \<times> u32 \<Rightarrow> byte color list \<Rightarrow> byte color list res" where
  "render_pixel F = (\<lambda>(x, y) pixels.
     let i = unat (x + y * imageWidth)
     in bind_res (guard_res (i < length pixels) OutOfBounds) (\<lambda>_.
        Inr (pixels[i := pixel_texel F x y])))"

text \<open>The pixels of the task of line \<open>y\<close>, in its order.\<close>

definition line_task :: "u32 \<Rightarrow> (u32 \<times> u32) list" where
  "line_task y = map (\<lambda>x. (of_nat x, y)) [0..<unat imageWidth]"

text \<open>The order of all writes before \<open>wg.wait()\<close> returns: each line has its task, which runs once.\<close>

definition all_lines :: "(u32 \<times> u32) list \<Rightarrow> bool" where
  "all_lines order \<longleftrightarrow>
     (\<forall>p\<in>set order. snd p < imageHeight) \<and>
     (\<forall>y<unat imageHeight. filter (\<lambda>p. snd p = of_nat y) order = line_task (of_nat y))"

text \<open>
  \<open>raw\<close>: what is in the new array. The result is the exit code and the contents of the file.
\<close>

definition fractal_main ::
  "'r float_ops \<Rightarrow> (nat \<Rightarrow> byte color) \<Rightarrow> (u32 \<times> u32) list \<Rightarrow> bool \<Rightarrow> (nat \<Rightarrow> bool)
    \<Rightarrow> (int \<times> byte list option) res" where
  "fractal_main F raw order opened fw =
     bind_res (fold_res (render_pixel F) order (map raw [0..<unat (imageWidth * imageHeight)])) (\<lambda>pixels.
     bind_res (writeBMP opened fw pixels imageWidth imageHeight) (\<lambda>(ok, out).
     Inr (if ok then 0 else 1, out)))"

subsection \<open>The image\<close>

text \<open>A place of a list that every write to it gives the same value, and some write or nobody.\<close>

lemma foldl_update_nth:
  assumes "j < length xs" "\<forall>p\<in>set ps. pos p = j \<longrightarrow> v p = c" "xs ! j = c \<or> (\<exists>p\<in>set ps. pos p = j)"
  shows "foldl (\<lambda>xs p. xs[pos p := v p]) xs ps ! j = c"
  using assms
proof (induction ps arbitrary: xs)
  case (Cons p ps)
  have "xs[pos p := v p] ! j = c \<or> (\<exists>p\<in>set ps. pos p = j)"
    using Cons.prems by (cases "pos p = j") auto
  then show ?case using Cons.IH [of "xs[pos p := v p]"] Cons.prems by simp
qed simp

lemma length_foldl_update: "length (foldl (\<lambda>xs p. xs[pos p := v p]) xs ps) = length xs"
  by (induction ps arbitrary: xs) simp_all

lemma row_and_column:
  assumes "a + b * w = x + y * w" "a < w" "x < (w :: nat)"
  shows "a = x \<and> b = y"
proof -
  have "(a + b * w) mod w = (x + y * w) mod w" "(a + b * w) div w = (x + y * w) div w"
    using assms(1) by simp_all
  then show ?thesis using assms(2,3) by simp
qed

lemma image_size: "unat imageWidth = 2048" "unat imageHeight = 2048"
  by (simp_all add: imageWidth_def imageHeight_def)

lemma pixel_index:
  assumes "unat x < 2048" "unat y < 2048"
  shows "unat (x + y * imageWidth) = unat x + unat y * 2048"
proof -
  have "unat (y * imageWidth) = unat y * 2048"
    using assms(2) image_size(1) by (subst unat_mult_lem [THEN iffD1]) simp_all
  moreover have "unat x + unat y * 2048 < 2 ^ 32" using assms by simp
  ultimately show ?thesis by (subst unat_add_lem [THEN iffD1]) simp_all
qed

lemma line_task_set: "(x, y) \<in> set (line_task z) \<longleftrightarrow> unat x < 2048 \<and> y = z"
proof -
  have "x \<in> of_nat ` {..<unat imageWidth} \<longleftrightarrow> unat x < unat imageWidth"
  proof
    assume "x \<in> of_nat ` {..<unat imageWidth}"
    then obtain k where "x = of_nat k" "k < unat imageWidth" by auto
    then show "unat x < unat imageWidth" using image_size(1) by (simp add: unat_of_nat)
  next
    assume "unat x < unat imageWidth"
    then show "x \<in> of_nat ` {..<unat imageWidth}" by (intro image_eqI [of _ _ "unat x"]) simp_all
  qed
  then show ?thesis by (auto simp: line_task_def image_size(1) atLeast0LessThan)
qed

lemma all_lines_set:
  assumes "all_lines order"
  shows "(x, y) \<in> set order \<longleftrightarrow> unat x < 2048 \<and> unat y < 2048"
proof -
  have line: "(x, y) \<in> set order \<longleftrightarrow> (x, y) \<in> set (line_task y)" if "unat y < 2048"
  proof -
    have "\<forall>k<unat imageHeight. filter (\<lambda>p. snd p = of_nat k) order = line_task (of_nat k)"
      using assms unfolding all_lines_def by blast
    moreover have "unat y < unat imageHeight" using that image_size(2) by simp
    ultimately have "filter (\<lambda>p. snd p = of_nat (unat y)) order = line_task (of_nat (unat y))" by blast
    then have "filter (\<lambda>p. snd p = y) order = line_task y" by simp
    from arg_cong [OF this, of "\<lambda>l. (x, y) \<in> set l"] show ?thesis by simp
  qed
  have "unat y < 2048" if "(x, y) \<in> set order"
  proof -
    have "\<forall>p\<in>set order. snd p < imageHeight" using assms by (simp add: all_lines_def)
    from bspec [OF this that] have "y < imageHeight" by simp
    then show ?thesis using image_size(2) by (simp add: word_less_nat_alt)
  qed
  then show ?thesis using line by (cases "unat y < 2048") (auto simp: line_task_set)
qed

lemma render_pixels:
  assumes "\<forall>p\<in>set order. unat (fst p + snd p * imageWidth) < length pixels"
  shows "fold_res (render_pixel F) order pixels =
    Inr (foldl (\<lambda>ps p. ps[unat (fst p + snd p * imageWidth) := pixel_texel F (fst p) (snd p)]) pixels order)"
  using assms by (induction order arbitrary: pixels) (auto simp: render_pixel_def Let_def)

text \<open>The image, line by line.\<close>

definition fractal_pixels :: "'r float_ops \<Rightarrow> byte color list" where
  "fractal_pixels F = map (\<lambda>i. pixel_texel F (of_nat (i mod unat imageWidth)) (of_nat (i div unat imageWidth)))
     [0..<unat imageWidth * unat imageHeight]"

lemma length_fractal_pixels: "length (fractal_pixels F) = unat imageWidth * unat imageHeight"
  by (simp add: fractal_pixels_def)

lemma fractal_pixels_nth:
  assumes "x < unat imageWidth" "y < unat imageHeight"
  shows "fractal_pixels F ! (x + y * unat imageWidth) = pixel_texel F (of_nat x) (of_nat y)"
proof -
  have "(y + 1) * unat imageWidth \<le> unat imageHeight * unat imageWidth"
    using assms(2) by (intro mult_le_mono1) simp
  then have "x + y * unat imageWidth < unat imageWidth * unat imageHeight"
    using assms(1) by (simp add: mult.commute)
  then show ?thesis using assms(1) by (simp add: fractal_pixels_def)
qed

text \<open>Whatever the order, the array holds the color of each pixel at its place.\<close>

lemma image_rendered:
  assumes "all_lines order"
  shows "fold_res (render_pixel F) order (map raw [0..<unat (imageWidth * imageHeight)]) = Inr (fractal_pixels F)"
proof -
  let ?at = "\<lambda>p. unat (fst p + snd p * imageWidth)" and ?v = "\<lambda>p. pixel_texel F (fst p) (snd p)"
  define pixels where "pixels = map raw [0..<unat (imageWidth * imageHeight)]"
  have "length pixels = unat (imageWidth * imageHeight)" by (simp add: pixels_def)
  then have len: "length pixels = 4194304" by (simp add: imageWidth_def imageHeight_def)
  have at: "?at p = unat (fst p) + unat (snd p) * 2048" "unat (fst p) < 2048" "unat (snd p) < 2048"
    if "p \<in> set order" for p
    using that all_lines_set [OF assms, of "fst p" "snd p"] pixel_index by simp_all
  have "?at p < length pixels" if "p \<in> set order" for p
    using at [OF that] len by linarith
  then have run: "fold_res (render_pixel F) order pixels = Inr (foldl (\<lambda>ps p. ps[?at p := ?v p]) pixels order)"
    using render_pixels [of order pixels F] by blast
  have put: "foldl (\<lambda>ps p. ps[?at p := ?v p]) pixels order ! (x + y * 2048) = pixel_texel F (of_nat x) (of_nat y)"
    if "x < 2048" "y < 2048" for x y
  proof (rule foldl_update_nth)
    show "x + y * 2048 < length pixels" using that len by linarith
    show "\<forall>p\<in>set order. ?at p = x + y * 2048 \<longrightarrow> ?v p = pixel_texel F (of_nat x) (of_nat y)"
    proof (intro ballI impI)
      fix p assume p: "p \<in> set order" "?at p = x + y * 2048"
      then have "unat (fst p) + unat (snd p) * 2048 = x + y * 2048" using at(1) by simp
      from row_and_column [OF this at(2) [OF p(1)] that(1)] have "x = unat (fst p)" "y = unat (snd p)" by simp_all
      then show "?v p = pixel_texel F (of_nat x) (of_nat y)" by simp
    qed
    have p: "(of_nat x, of_nat y) \<in> set order"
      using all_lines_set [OF assms, of "of_nat x" "of_nat y"] that by (simp add: unat_of_nat)
    moreover have "?at (of_nat x, of_nat y) = x + y * 2048"
      using at(1) [OF p] that by (simp add: unat_of_nat)
    ultimately show "pixels ! (x + y * 2048) = pixel_texel F (of_nat x) (of_nat y) \<or>
        (\<exists>p\<in>set order. ?at p = x + y * 2048)"
      by blast
  qed
  have "foldl (\<lambda>ps p. ps[?at p := ?v p]) pixels order = fractal_pixels F"
  proof (rule nth_equalityI)
    show len': "length (foldl (\<lambda>ps p. ps[?at p := ?v p]) pixels order) = length (fractal_pixels F)"
      using len image_size by (simp add: length_foldl_update length_fractal_pixels)
    fix i assume "i < length (foldl (\<lambda>ps p. ps[?at p := ?v p]) pixels order)"
    then have i: "i div 2048 < 2048" "i mod 2048 < 2048" using len by (simp_all add: length_foldl_update)
    from put [OF this(2,1)] fractal_pixels_nth [of "i mod 2048" "i div 2048" F] i
    show "foldl (\<lambda>ps p. ps[?at p := ?v p]) pixels order ! i = fractal_pixels F ! i" by (simp add: image_size)
  qed
  then show ?thesis using run unfolding pixels_def by simp
qed

text \<open>
  C39. The bitmap of the fractal does not depend on the order in which the tasks run, on how their writes
  are interleaved, nor on what was in the array: \<open>main\<close> writes one file, in which every
  pixel has the color computed for it, and exits with 0 exactly if each of its writes succeeds.
\<close>

theorem fractal_image:
  "\<exists>file. length file = 54 + unat (bmp_stride imageWidth) * unat imageHeight \<and>
    (\<forall>x<unat imageWidth. \<forall>y<unat imageHeight.
      let i = 54 + (unat imageHeight - 1 - y) * unat (bmp_stride imageWidth) + 3 * x;
          t = pixel_texel F (of_nat x) (of_nat y)
      in [file ! i, file ! (i + 1), file ! (i + 2)] = [blue t, green t, red t]) \<and>
    (\<forall>raw order fw. all_lines order \<longrightarrow>
      ((\<forall>i<length file. fw i) \<longrightarrow> fractal_main F raw order True fw = Inr (0, Some file)) \<and>
      (\<forall>k<length file. \<not> fw k \<longrightarrow>
        (\<exists>j\<le>k. fractal_main F raw order True fw = Inr (1, Some (take j file)))) \<and>
      fractal_main F raw order False fw = Inr (1, None))"
proof -
  let ?file = "bmp_bytes (fractal_pixels F) imageWidth imageHeight"
  have w: "0 < sint imageWidth" "3 * unat imageWidth + 3 < 2 ^ 32" "0 \<le> sint imageHeight"
    "unat imageWidth * unat imageHeight \<le> 2 ^ 31" "sint (3 * imageWidth) = 3 * sint imageWidth"
    by (simp_all add: imageWidth_def imageHeight_def)
  have main: "fractal_main F raw order opened fw =
      bind_res (writeBMP opened fw (fractal_pixels F) imageWidth imageHeight) (\<lambda>(ok, out). Inr (if ok then 0 else 1, out))"
    if "all_lines order" for raw order opened fw
    using image_rendered [OF that, where F = F and raw = raw] by (simp add: fractal_main_def)
  have bytes: "writeBMP True fw (fractal_pixels F) imageWidth imageHeight =
      (let (ok, out) = put_all fw ?file (True, []) in Inr (ok, Some out))" for fw
    by (rule writeBMP_bytes [OF w(1,3) length_fractal_pixels w(4,5)])
  have all: "fractal_main F raw order True fw = Inr (0, Some ?file)"
    if "all_lines order" "\<forall>i<length ?file. fw i" for raw order fw
    using main [OF that(1)] bytes put_all_ok [of ?file fw "[]"] that(2) by simp
  have some: "\<exists>j\<le>k. fractal_main F raw order True fw = Inr (1, Some (take j ?file))"
    if failed: "all_lines order" "k < length ?file" "\<not> fw k" for raw order fw k
  proof -
    obtain j where "j \<le> k" "put_all fw ?file (True, []) = (False, take j ?file)"
      using put_all_error [of k ?file fw, OF failed(2,3)] by blast
    then show ?thesis using main [OF failed(1)] bytes by (intro exI [of _ j]) simp
  qed
  have closed: "fractal_main F raw order False fw = Inr (1, None)" if "all_lines order" for raw order fw
    using main [OF that] by (simp add: writeBMP_def)
  have pixel: "let i = 54 + (unat imageHeight - 1 - y) * unat (bmp_stride imageWidth) + 3 * x;
          t = pixel_texel F (of_nat x) (of_nat y)
      in [?file ! i, ?file ! (i + 1), ?file ! (i + 2)] = [blue t, green t, red t]"
    if "x < unat imageWidth" "y < unat imageHeight" for x y
    using bmp_pixel [OF w(1,2) that, of 0 "fractal_pixels F"] bmp_pixel [OF w(1,2) that, of 1 "fractal_pixels F"]
      bmp_pixel [OF w(1,2) that, of 2 "fractal_pixels F"] fractal_pixels_nth [OF that, of F] by (simp add: Let_def numeral_2_eq_2)
  show ?thesis
    using bmp_length [OF w(1,2), of "fractal_pixels F" imageHeight]
    by (intro exI [of _ ?file] conjI allI impI) (assumption | rule pixel all some closed | simp)+
qed

text \<open>Exact arithmetic instead of floating-point numbers, with the first terms of a cosine.\<close>

definition exact_floats :: "rat float_ops" where
  "exact_floats = \<lparr>f_of = (\<lambda>q. q), f_add = (+), f_sub = (-), f_mul = (*), f_div = (/), f_greater = (>),
     f_cos = (\<lambda>q. 1 - q * q / 2), f_sqrt = (\<lambda>q. (q + 1) / 2), f_byte = (\<lambda>q. of_int \<lfloor>q\<rfloor>)\<rparr>"

text \<open>The tasks one after the other.\<close>

definition line_by_line :: "(u32 \<times> u32) list" where
  "line_by_line = concat (map (\<lambda>y. line_task (of_nat y)) [0..<unat imageHeight])"

lemma all_lines_line_by_line: "all_lines line_by_line"
proof -
  have one: "filter (\<lambda>p. snd p = y) (line_task z) = (if z = y then line_task y else [])" for y z
    by (auto simp: line_task_def filter_empty_conv)
  have same: "(of_nat i :: u32) = of_nat j \<longleftrightarrow> i = j" if "i < unat imageHeight" "j < unat imageHeight" for i j
    using that image_size(2) by (simp add: word_of_nat_eq_iff take_bit_nat_eq_self)
  have "filter (\<lambda>p. snd p = of_nat y) (concat (map (\<lambda>y. line_task (of_nat y)) [0..<n])) =
      (if y < n then line_task (of_nat y) else [])" if "n \<le> unat imageHeight" "y < unat imageHeight" for n y
    using that(1) by (induction n) (use that(2) in \<open>auto simp: one same less_Suc_eq\<close>)
  moreover have "snd p < imageHeight" if p: "p \<in> set line_by_line" for p
  proof -
    obtain y where y: "y \<in> {0..<unat imageHeight}" "p \<in> set (line_task (of_nat y))"
      using p unfolding line_by_line_def set_concat set_map set_upt by blast
    then have "y < unat imageHeight" "snd p = of_nat y" by (auto simp: line_task_def)
    then show ?thesis using image_size(2) by (simp add: word_less_nat_alt unat_of_nat)
  qed
  ultimately show ?thesis unfolding all_lines_def line_by_line_def by auto
qed

theorem fractal_image_witness:
  "\<exists>file. fractal_main exact_floats (\<lambda>_. Color 0 0 0) line_by_line True (\<lambda>_. True) = Inr (0, Some file)"
proof -
  obtain out where "\<forall>raw order fw. all_lines order \<longrightarrow> (\<forall>i<length out. fw i) \<longrightarrow>
      fractal_main exact_floats raw order True fw = Inr (0, Some out)"
    using fractal_image [of exact_floats] by metis
  then show ?thesis using all_lines_line_by_line by (intro exI [of _ out]) simp
qed

end
