(* ===== verification/Gate_Group.thy ===== *)
theory Gate_Group
  imports Wait_Group
begin

text \<open>
  Programs that schedule \<open>n\<close> tasks, let them wait for one \<open>Event\<close>, signal it, and wait in a
  \<open>WaitGroup\<close> until each task has called \<open>done\<close>; or the same without the event. These are
  \<open>main\<close> of \<open>example/hello_task.cpp\<close> and the benchmarks of \<open>example/benchmark.cpp\<close> on the
  scheduler. The event and the group are the machine of the theory \<open>Wait_Machine\<close>, one each; the steps
  are those pieces of code of \<open>Event::Shared::wait\<close>, \<open>Event::Shared::signal\<close>,
  \<open>WaitGroup::done\<close> and \<open>WaitGroup::wait\<close> that the programs call. The main thread is bound to
  the scheduler, so everybody that waits is a fiber. What a program does of its own between these calls
  is the label of the step (type \<open>act\<close>). Every run is short, loses no wake-up and ends.
\<close>

subsection \<open>One call of \<open>wait\<close> and one of \<open>notify_all\<close>\<close>

type_synonym waiting_machine = "(fiber linked \<times> os, entry_ptr) cv_machine"

abbreviation fiber_step :: "nat \<Rightarrow> waiting_machine \<Rightarrow> waiting_machine \<Rightarrow> bool" where
  "fiber_step n \<equiv> cstep (hfts_list DefaultAllocator pointer_entry) list_room (\<lambda>_. True) n"

text \<open>The moves of a fiber inside \<open>cv.wait\<close>, which has no timeout.\<close>

inductive wait_goes :: "'i place \<Rightarrow> 'i place \<Rightarrow> bool" where
  "wait_goes Holding Counted"
| "wait_goes Counted (AtPred i)"
| "wait_goes (AtPred i) (Suspending i)"
| "wait_goes (AtPred i) (Leaving i True)"
| "wait_goes (Suspending i) (Asleep i)"
| "wait_goes (Ready i) (AtPred i)"
| "wait_goes (Leaving i b) (Uncount b)"
| "wait_goes (Uncount b) Holding"

text \<open>The moves of a fiber inside \<open>notify_all\<close>, from the lock of the mutex on.\<close>

inductive notify_goes :: "'i place \<Rightarrow> 'i place \<Rightarrow> bool" where
  "notify_goes Setter Notifying"
| "notify_goes Notifying NotifyCondition"
| "notify_goes Notifying Holding"
| "notify_goes NotifyCondition Holding"

inductive_simps notify_goes_iff: "notify_goes p q"

inductive_simps wait_goes_iff: "wait_goes p q"

fun uncounting :: "'i place \<Rightarrow> bool" where
  "uncounting (Uncount b) = True" | "uncounting _ = False"

text \<open>
  A step of \<open>a\<close> in \<open>{ lock lock(mutex); cv.wait(lock, pred); \<dots> }\<close>, up to the return of
  \<open>cv.wait\<close>; the Boolean says whether the step is that return.
\<close>

inductive wait_call :: "nat \<Rightarrow> nat \<Rightarrow> waiting_machine \<Rightarrow> bool \<Rightarrow> waiting_machine \<Rightarrow> bool" for n a where
  wait_locks: "m_place M a = Away \<Longrightarrow> fiber_step n M M' \<Longrightarrow> m_place M' = (m_place M)(a := Holding) \<Longrightarrow>
    wait_call n a M False M'"
| wait_at_once: "m_place M a = Holding \<Longrightarrow> m_pred M \<Longrightarrow> wait_call n a M True M"
| wait_inside: "fiber_step n M M' \<Longrightarrow> m_place M' = (m_place M)(a := p) \<Longrightarrow> wait_goes (m_place M a) p \<Longrightarrow>
    wait_call n a M (uncounting (m_place M a)) M'"

inductive notify_call :: "nat \<Rightarrow> nat \<Rightarrow> waiting_machine \<Rightarrow> waiting_machine \<Rightarrow> bool" for n a where
  notify_inside: "fiber_step n M M' \<Longrightarrow> m_pred M' = m_pred M \<Longrightarrow>
    notify_goes (m_place M a) (m_place M' a) \<Longrightarrow> notify_call n a M M'"

inductive unlock_call :: "nat \<Rightarrow> nat \<Rightarrow> waiting_machine \<Rightarrow> waiting_machine \<Rightarrow> bool" for n a where
  unlocks: "a < n \<Longrightarrow> m_place M a = Holding \<Longrightarrow> unlock_call n a M (goes a Away (M\<lparr>m_lock := None\<rparr>))"

subsection \<open>The program\<close>

datatype task_stage =
    NotRun        \<comment> \<open>not begun\<close>
  | Waits         \<comment> \<open>in the wait for the event\<close>
  | Woken         \<comment> \<open>\<open>cv.wait\<close> has returned\<close>
  | Says          \<comment> \<open>after the wait\<close>
  | Defers        \<comment> \<open>before \<open>done\<close>\<close>
  | Notifies      \<comment> \<open>in \<open>done\<close>, which has brought the count to 0\<close>
  | Ended

datatype main_stage =
    Schedules nat \<comment> \<open>the tasks scheduled so far\<close>
  | Signals       \<comment> \<open>in \<open>signal\<close> of the event\<close>
  | GroupWaits    \<comment> \<open>in \<open>wait\<close> of the group\<close>
  | GroupWoken    \<comment> \<open>\<open>cv.wait\<close> has returned\<close>
  | Prints        \<comment> \<open>after the wait\<close>
  | Exits

text \<open>What a program does of its own: its code before and after the wait for the event, its code where there is no wait, the begin of \<open>signal\<close>, and its code after the wait for the group.\<close>

datatype act = Begins nat | Speaks nat | Whole nat | Opens | Last | Silent

record gate =
  g_event :: waiting_machine
  g_count :: u32
  g_group :: waiting_machine
  g_task :: "nat \<Rightarrow> task_stage"
  g_main :: main_stage

definition gate_start :: "nat \<Rightarrow> os \<Rightarrow> os \<Rightarrow> gate" where
  "gate_start n s t =
     \<lparr>g_event = cv_start (list_new, s) False, g_count = of_nat n,
      g_group = cv_start (list_new, t) False, g_task = (\<lambda>_. NotRun), g_main = Schedules 0\<rparr>"

definition scheduled :: "nat \<Rightarrow> main_stage \<Rightarrow> nat \<Rightarrow> bool" where
  "scheduled n m i \<longleftrightarrow> (case m of Schedules k \<Rightarrow> i < k | _ \<Rightarrow> i < n)"

text \<open>
  Actor \<open>i\<close> is the fiber of task \<open>i\<close>, actor \<open>n\<close> that of the main thread. \<open>g\<close> says whether the tasks
  wait for the event.
\<close>

inductive gate_step :: "bool \<Rightarrow> nat \<Rightarrow> gate \<Rightarrow> act \<Rightarrow> gate \<Rightarrow> bool" for g n where
  task_begins:
    "g \<Longrightarrow> scheduled n (g_main S) i \<Longrightarrow> g_task S i = NotRun \<Longrightarrow>
     gate_step g n S (Begins i) (S\<lparr>g_task := (g_task S)(i := Waits)\<rparr>)"
| task_whole:
    "\<not> g \<Longrightarrow> scheduled n (g_main S) i \<Longrightarrow> g_task S i = NotRun \<Longrightarrow>
     gate_step g n S (Whole i) (S\<lparr>g_task := (g_task S)(i := Defers)\<rparr>)"
| task_waits:
    "g_task S i = Waits \<Longrightarrow> wait_call (Suc n) i (g_event S) r M \<Longrightarrow>
     gate_step g n S Silent (S\<lparr>g_event := M, g_task := (g_task S)(i := if r then Woken else Waits)\<rparr>)"
| task_unlocks:
    "g_task S i = Woken \<Longrightarrow> unlock_call (Suc n) i (g_event S) M \<Longrightarrow>
     gate_step g n S Silent (S\<lparr>g_event := M, g_task := (g_task S)(i := Says)\<rparr>)"
| task_says:
    "g_task S i = Says \<Longrightarrow>
     gate_step g n S (Speaks i) (S\<lparr>g_task := (g_task S)(i := Defers)\<rparr>)"
| task_done:
    "g_task S i = Defers \<Longrightarrow> g_count S - 1 \<noteq> 0 \<Longrightarrow>
     gate_step g n S Silent (S\<lparr>g_count := g_count S - 1, g_group := (g_group S)\<lparr>m_pred := False\<rparr>,
       g_task := (g_task S)(i := Ended)\<rparr>)"
| task_done_last:
    "g_task S i = Defers \<Longrightarrow> g_count S - 1 = 0 \<Longrightarrow>
     gate_step g n S Silent (S\<lparr>g_count := g_count S - 1, g_group := goes i Setter ((g_group S)\<lparr>m_pred := True\<rparr>),
       g_task := (g_task S)(i := Notifies)\<rparr>)"
| task_notifies:
    "g_task S i = Notifies \<Longrightarrow> notify_call (Suc n) i (g_group S) M \<Longrightarrow>
     gate_step g n S Silent (S\<lparr>g_group := M\<rparr>)"
| task_ends:
    "g_task S i = Notifies \<Longrightarrow> unlock_call (Suc n) i (g_group S) M \<Longrightarrow>
     gate_step g n S Silent (S\<lparr>g_group := M, g_task := (g_task S)(i := Ended)\<rparr>)"
| main_schedules:
    "g_main S = Schedules k \<Longrightarrow> k < n \<Longrightarrow> gate_step g n S Silent (S\<lparr>g_main := Schedules (Suc k)\<rparr>)"
| main_locks:
    "g \<Longrightarrow> g_main S = Schedules n \<Longrightarrow> m_lock (g_event S) = None \<Longrightarrow>
     gate_step g n S Opens (S\<lparr>g_event := goes n Holding ((g_event S)\<lparr>m_lock := Some n\<rparr>), g_main := Signals\<rparr>)"
| main_gateless:
    "\<not> g \<Longrightarrow> g_main S = Schedules n \<Longrightarrow> gate_step g n S Silent (S\<lparr>g_main := GroupWaits\<rparr>)"
| main_signals:
    "g_main S = Signals \<Longrightarrow> m_place (g_event S) n = Holding \<Longrightarrow> \<not> m_pred (g_event S) \<Longrightarrow>
     gate_step g n S Silent (S\<lparr>g_event := goes n Notifying ((g_event S)\<lparr>m_pred := True\<rparr>)\<rparr>)"
| main_notifies:
    "g_main S = Signals \<Longrightarrow> notify_call (Suc n) n (g_event S) M \<Longrightarrow>
     gate_step g n S Silent (S\<lparr>g_event := M\<rparr>)"
| main_signalled:
    "g_main S = Signals \<Longrightarrow> m_pred (g_event S) \<Longrightarrow> unlock_call (Suc n) n (g_event S) M \<Longrightarrow>
     gate_step g n S Silent (S\<lparr>g_event := M, g_main := GroupWaits\<rparr>)"
| main_waits:
    "g_main S = GroupWaits \<Longrightarrow> wait_call (Suc n) n (g_group S) r M \<Longrightarrow>
     gate_step g n S Silent (S\<lparr>g_group := M, g_main := if r then GroupWoken else GroupWaits\<rparr>)"
| main_unlocks:
    "g_main S = GroupWoken \<Longrightarrow> unlock_call (Suc n) n (g_group S) M \<Longrightarrow>
     gate_step g n S Silent (S\<lparr>g_group := M, g_main := Prints\<rparr>)"
| main_prints:
    "g_main S = Prints \<Longrightarrow> gate_step g n S Last (S\<lparr>g_main := Exits\<rparr>)"

abbreviation gate_can :: "bool \<Rightarrow> nat \<Rightarrow> gate \<Rightarrow> bool" where
  "gate_can g n S \<equiv> \<exists>x T. gate_step g n S x T"

subsection \<open>What the calls do to the machine\<close>

lemma goes_irrefl [simp]:
  "\<not> wait_goes p p" "\<not> wait_goes p (notified p)" "\<not> wait_goes p (unblocked p)"
  "\<not> notify_goes p p" "\<not> notify_goes p (notified p)" "\<not> notify_goes p (unblocked p)"
  by (cases p; simp add: wait_goes_iff notify_goes_iff)+

text \<open>A fiber that is about to leave \<open>cv.wait\<close>.\<close>

fun leaves :: "'i place \<Rightarrow> bool" where
  "leaves (Leaving i b) = True" | "leaves (Uncount b) = True" | "leaves _ = False"

lemma leaves_notified [simp]: "leaves (notified p) = leaves p" "leaves (unblocked p) = leaves p"
  by (cases p; simp)+

lemma wait_goes_step:
  assumes "cstep W rm isf n M M'" "wait_goes (m_place M a) (m_place M' a)"
  shows "m_pred M' = m_pred M \<and> a < n \<and> (leaves (m_place M' a) \<longrightarrow> leaves (m_place M a) \<or> m_pred M)"
  using assms by (cases rule: cstep.cases) (auto simp: wait_goes_iff notify_places_def split: if_splits)

lemma locks_step:
  assumes "cstep W rm isf n M M'" "m_place M a = Away" "m_place M' a = Holding"
  shows "m_pred M' = m_pred M \<and> a < n"
  using assms by (cases rule: cstep.cases) (auto simp: notify_places_def split: if_splits)

text \<open>What a step of \<open>wait\<close> keeps.\<close>

lemma wait_call_keeps:
  assumes "wait_call n a M r M'"
  shows "(fiber_step n)\<^sup>*\<^sup>* M M' \<and> m_pred M' = m_pred M \<and> (\<forall>b. b \<noteq> a \<longrightarrow> m_place M' b = m_place M b) \<and>
    (leaves (m_place M' a) \<longrightarrow> leaves (m_place M a) \<or> m_pred M)"
  using assms
proof (cases rule: wait_call.cases)
  case wait_locks
  then show ?thesis using locks_step [OF wait_locks(3,2)] by auto
next
  case (wait_inside p)
  then show ?thesis using wait_goes_step [OF wait_inside(2), of a] by auto
qed auto

lemma wait_call_returns:
  assumes "wait_call n a M r M'" "leaves (m_place M a) \<longrightarrow> m_pred M"
  shows "if r then m_place M' a = Holding \<and> m_pred M else m_place M' a \<noteq> Away"
  using assms by (cases rule: wait_call.cases) (auto simp: wait_goes_iff)

lemma notify_goes_step:
  assumes "cstep W rm isf n M M'" "notify_goes (m_place M a) (m_place M' a)" "b \<noteq> a"
  shows "m_place M' b \<in> {m_place M b, notified (m_place M b), unblocked (m_place M b)}"
  using assms by (cases rule: cstep.cases) (auto simp: notify_goes_iff notify_places_def split: if_splits)

text \<open>The places inside \<open>wait\<close> and inside \<open>notify_all\<close>.\<close>

fun in_wait :: "'i place \<Rightarrow> bool" where
  "in_wait Away = True" | "in_wait Holding = True" | "in_wait Counted = True" | "in_wait (AtPred i) = True"
| "in_wait (Suspending i) = True" | "in_wait (Asleep i) = True" | "in_wait (Ready i) = True"
| "in_wait (Leaving i b) = True" | "in_wait (Uncount b) = True" | "in_wait _ = False"

fun in_notify :: "'i place \<Rightarrow> bool" where
  "in_notify Setter = True" | "in_notify Holding = True" | "in_notify Notifying = True"
| "in_notify NotifyCondition = True" | "in_notify _ = False"

lemma in_wait_kept [simp]:
  "in_wait (notified p) = in_wait p" "in_wait (unblocked p) = in_wait p"
  "in_notify (notified p) = in_notify p" "in_notify (unblocked p) = in_notify p"
  "notified p = Away \<longleftrightarrow> p = Away" "unblocked p = Away \<longleftrightarrow> p = Away"
  "notified p = Holding \<longleftrightarrow> p = Holding" "unblocked p = Holding \<longleftrightarrow> p = Holding"
  "notified p = Setter \<longleftrightarrow> p = Setter" "unblocked p = Setter \<longleftrightarrow> p = Setter"
  by (cases p; simp)+

lemma wait_call_in_wait:
  assumes "wait_call n a M r M'"
  shows "in_wait (m_place M a) \<and> in_wait (m_place M' a)"
  using assms by (cases rule: wait_call.cases) (auto simp: wait_goes_iff)

lemma notify_call_in_notify:
  assumes "notify_call n a M M'"
  shows "in_notify (m_place M a) \<and> in_notify (m_place M' a) \<and> m_place M' a \<noteq> Setter"
  using assms by (cases rule: notify_call.cases) (auto simp: notify_goes_iff)

lemma notify_call_keeps:
  assumes "notify_call n a M M'"
  shows "(fiber_step n)\<^sup>*\<^sup>* M M' \<and> m_pred M' = m_pred M \<and>
    (\<forall>b. b \<noteq> a \<longrightarrow> m_place M' b \<in> {m_place M b, notified (m_place M b), unblocked (m_place M b)})"
  using assms
proof (cases rule: notify_call.cases)
  case notify_inside
  then show ?thesis using notify_goes_step [OF notify_inside(1,3)] by blast
qed

lemma unlock_call_keeps:
  assumes "unlock_call n a M M'"
  shows "(fiber_step n)\<^sup>*\<^sup>* M M' \<and> m_pred M' = m_pred M \<and> m_place M' = (m_place M)(a := Away)"
  using assms
proof (cases rule: unlock_call.cases)
  case unlocks
  then have "fiber_step n M M'" using cstep.release [of a n M] by simp
  then show ?thesis using unlocks(1) by auto
qed

subsection \<open>Where everybody stands\<close>

definition task_event_ok :: "task_stage \<Rightarrow> 'i place \<Rightarrow> bool" where
  "task_event_ok t p \<longleftrightarrow> (case t of Waits \<Rightarrow> in_wait p | Woken \<Rightarrow> p = Holding | _ \<Rightarrow> p = Away)"

definition main_event_ok :: "main_stage \<Rightarrow> 'i place \<Rightarrow> bool" where
  "main_event_ok m p \<longleftrightarrow> (case m of Signals \<Rightarrow> in_notify p \<and> p \<noteq> Setter | _ \<Rightarrow> p = Away)"

definition task_group_ok :: "task_stage \<Rightarrow> 'i place \<Rightarrow> bool" where
  "task_group_ok t p \<longleftrightarrow> (case t of Notifies \<Rightarrow> in_notify p | _ \<Rightarrow> p = Away)"

definition main_group_ok :: "main_stage \<Rightarrow> 'i place \<Rightarrow> bool" where
  "main_group_ok m p \<longleftrightarrow> (case m of GroupWaits \<Rightarrow> in_wait p | GroupWoken \<Rightarrow> p = Holding | _ \<Rightarrow> p = Away)"

lemmas stage_ok_defs = task_event_ok_def main_event_ok_def task_group_ok_def main_group_ok_def

lemma stage_ok_kept [simp]:
  "task_event_ok t (notified p) = task_event_ok t p" "task_event_ok t (unblocked p) = task_event_ok t p"
  "main_event_ok m (notified p) = main_event_ok m p" "main_event_ok m (unblocked p) = main_event_ok m p"
  "task_group_ok t (notified p) = task_group_ok t p" "task_group_ok t (unblocked p) = task_group_ok t p"
  "main_group_ok m (notified p) = main_group_ok m p" "main_group_ok m (unblocked p) = main_group_ok m p"
  by (simp_all add: stage_ok_defs split: task_stage.splits main_stage.splits)

definition places_ok :: "nat \<Rightarrow> gate \<Rightarrow> bool" where
  "places_ok n S \<longleftrightarrow>
     (\<forall>i\<ge>n. g_task S i = NotRun) \<and> (\<forall>k. g_main S = Schedules k \<longrightarrow> k \<le> n) \<and>
     (\<forall>i<n. task_event_ok (g_task S i) (m_place (g_event S) i)) \<and>
     main_event_ok (g_main S) (m_place (g_event S) n) \<and>
     (\<forall>i<n. task_group_ok (g_task S i) (m_place (g_group S) i)) \<and>
     main_group_ok (g_main S) (m_place (g_group S) n)"

text \<open>A place that a call of another actor has left alone, up to a notification.\<close>

lemma notify_call_stage:
  assumes "notify_call n a M M'" "b \<noteq> a"
  shows "task_event_ok t (m_place M' b) = task_event_ok t (m_place M b) \<and>
    task_group_ok t (m_place M' b) = task_group_ok t (m_place M b) \<and>
    main_group_ok m (m_place M' b) = main_group_ok m (m_place M b) \<and>
    leaves (m_place M' b) = leaves (m_place M b)"
proof -
  have "m_place M' b \<in> {m_place M b, notified (m_place M b), unblocked (m_place M b)}"
    using notify_call_keeps [OF assms(1), THEN conjunct2, THEN conjunct2] assms(2) by simp
  then consider "m_place M' b = m_place M b" | "m_place M' b = notified (m_place M b)"
    | "m_place M' b = unblocked (m_place M b)" by blast
  then show ?thesis by cases simp_all
qed

lemma task_index:
  assumes "places_ok n S" "g_task S i \<noteq> NotRun"
  shows "i < n"
  using assms unfolding places_ok_def by (meson not_less)

text \<open>A task in its call on the event, and one in its call on the group.\<close>

lemma places_task_event:
  assumes "places_ok n S" "i < n" "\<forall>b. b \<noteq> i \<longrightarrow> m_place M b = m_place (g_event S) b"
    and "task_event_ok t (m_place M i)" "task_group_ok t (m_place (g_group S) i)"
  shows "places_ok n (S\<lparr>g_event := M, g_task := (g_task S)(i := t)\<rparr>)"
  using assms by (auto simp: places_ok_def)

lemma places_task_group:
  assumes "places_ok n S" "i < n"
    and "\<forall>b. b \<noteq> i \<longrightarrow> (\<forall>t. task_group_ok t (m_place M b) = task_group_ok t (m_place (g_group S) b)) \<and>
      (\<forall>m. main_group_ok m (m_place M b) = main_group_ok m (m_place (g_group S) b))"
    and "task_group_ok t (m_place M i)" "task_event_ok t (m_place (g_event S) i)"
  shows "places_ok n (S\<lparr>g_group := M, g_task := (g_task S)(i := t)\<rparr>)"
  using assms by (auto simp: places_ok_def)

lemma places_main_event:
  assumes "places_ok n S"
    and "\<forall>b. b \<noteq> n \<longrightarrow> (\<forall>t. task_event_ok t (m_place M b) = task_event_ok t (m_place (g_event S) b))"
    and "main_event_ok m (m_place M n)" "main_group_ok m (m_place (g_group S) n)"
    and "\<forall>k. m \<noteq> Schedules k"
  shows "places_ok n (S\<lparr>g_event := M, g_main := m\<rparr>)"
  using assms by (auto simp: places_ok_def)

lemma places_main_group:
  assumes "places_ok n S" "\<forall>b. b \<noteq> n \<longrightarrow> m_place M b = m_place (g_group S) b"
    and "main_event_ok m (m_place (g_event S) n)" "main_group_ok m (m_place M n)"
    and "\<forall>k. m \<noteq> Schedules k"
  shows "places_ok n (S\<lparr>g_group := M, g_main := m\<rparr>)"
  using assms by (auto simp: places_ok_def)

lemma places_okD:
  assumes "places_ok n S"
  shows "i < n \<Longrightarrow> task_event_ok (g_task S i) (m_place (g_event S) i)"
    "i < n \<Longrightarrow> task_group_ok (g_task S i) (m_place (g_group S) i)"
    "main_event_ok (g_main S) (m_place (g_event S) n)"
    "main_group_ok (g_main S) (m_place (g_group S) n)"
  using assms by (simp_all add: places_ok_def)

text \<open>The tasks that have not brought the count down.\<close>

definition pending :: "nat \<Rightarrow> (nat \<Rightarrow> task_stage) \<Rightarrow> nat set" where
  "pending n ts = {i. i < n \<and> ts i \<notin> {Notifies, Ended}}"

lemma finite_pending [simp]: "finite (pending n ts)"
  by (simp add: pending_def)

lemma pending_keep:
  "ts i \<notin> {Notifies, Ended} \<Longrightarrow> t \<notin> {Notifies, Ended} \<Longrightarrow> pending n (ts(i := t)) = pending n ts"
  by (auto simp: pending_def)

lemma pending_ends:
  assumes "i < n" "ts i \<notin> {Notifies, Ended}" "t \<in> {Notifies, Ended}"
  shows "card (pending n ts) = Suc (card (pending n (ts(i := t))))"
proof -
  have "pending n ts = insert i (pending n (ts(i := t)))" "i \<notin> pending n (ts(i := t))"
    using assms by (auto simp: pending_def)
  then show ?thesis by simp
qed

lemma pending_small: "card (pending n ts) \<le> n"
proof -
  have "card (pending n ts) \<le> card {..<n}" by (intro card_mono) (auto simp: pending_def)
  then show ?thesis by simp
qed

lemma pending_zero:
  assumes "Suc n < 2 ^ 31"
  shows "(of_nat (card (pending n ts)) :: u32) = 0 \<longleftrightarrow> pending n ts = {}"
proof -
  have "unat (of_nat (card (pending n ts)) :: u32) = card (pending n ts)"
    using pending_small [of n ts] assms by (simp add: unat_of_nat)
  then show ?thesis using unat_eq_0 [of "of_nat (card (pending n ts)) :: u32"] by simp
qed

text \<open>
  What \<open>cv.wait\<close> promises when it returns: who is about to leave it has seen the predicate true. The
  predicates of this program stay true.
\<close>

definition passed :: "task_stage \<Rightarrow> bool" where
  "passed t \<longleftrightarrow> t \<noteq> NotRun \<and> t \<noteq> Waits"

fun after_signal :: "main_stage \<Rightarrow> bool" where
  "after_signal (Schedules k) = False" | "after_signal Signals = False" | "after_signal _ = True"

fun after_group :: "main_stage \<Rightarrow> bool" where
  "after_group GroupWoken = True" | "after_group Prints = True" | "after_group Exits = True"
| "after_group _ = False"

definition truth_ok :: "bool \<Rightarrow> nat \<Rightarrow> gate \<Rightarrow> bool" where
  "truth_ok g n S \<longleftrightarrow>
     (m_pred (g_group S) \<longleftrightarrow> g_count S = 0) \<and>
     g_count S = of_nat (card (pending n (g_task S))) \<and>
     (\<forall>i<n. leaves (m_place (g_event S) i) \<longrightarrow> m_pred (g_event S)) \<and>
     (leaves (m_place (g_group S) n) \<longrightarrow> m_pred (g_group S)) \<and>
     (\<forall>i. passed (g_task S i) \<and> g \<longrightarrow> m_pred (g_event S)) \<and>
     (after_signal (g_main S) \<and> g \<longrightarrow> m_pred (g_event S)) \<and>
     (after_group (g_main S) \<longrightarrow> g_count S = 0) \<and>
     (g \<or> g_main S \<noteq> Signals \<and> (\<forall>i. g_task S i \<notin> {Waits, Woken, Says})) \<and> Suc n < 2 ^ 31"

lemma truth_okD:
  assumes "truth_ok g n S"
  shows "m_pred (g_group S) \<longleftrightarrow> g_count S = 0" "g_count S = of_nat (card (pending n (g_task S)))"
    "i < n \<Longrightarrow> leaves (m_place (g_event S) i) \<longrightarrow> m_pred (g_event S)"
    "leaves (m_place (g_group S) n) \<longrightarrow> m_pred (g_group S)"
    "passed (g_task S i) \<Longrightarrow> g \<Longrightarrow> m_pred (g_event S)"
    "after_signal (g_main S) \<Longrightarrow> g \<Longrightarrow> m_pred (g_event S)"
    "after_group (g_main S) \<Longrightarrow> g_count S = 0"
    "Suc n < 2 ^ 31"
    "g_task S i \<in> {Waits, Woken, Says} \<Longrightarrow> g"
  using assms unfolding truth_ok_def by blast+

lemma places_ok_step:
  assumes "gate_step g n S x T" "places_ok n S" "truth_ok g n S"
  shows "places_ok n T"
  using assms(1)
proof (cases rule: gate_step.cases)
  case (task_begins i)
  have i: "i < n" using task_begins(4) assms(2)
    by (auto simp: scheduled_def places_ok_def split: main_stage.splits)
  from places_okD(1,2) [OF assms(2) i] task_begins
  have "places_ok n (S\<lparr>g_event := g_event S, g_task := (g_task S)(i := Waits)\<rparr>)"
    by (intro places_task_event [OF assms(2) i]) (auto simp: stage_ok_defs)
  then show ?thesis using task_begins(2) by (simp add: places_ok_def)
next
  case (task_whole i)
  have i: "i < n" using task_whole(4) assms(2)
    by (auto simp: scheduled_def places_ok_def split: main_stage.splits)
  from places_okD(1,2) [OF assms(2) i] task_whole
  have "places_ok n (S\<lparr>g_event := g_event S, g_task := (g_task S)(i := Defers)\<rparr>)"
    by (intro places_task_event [OF assms(2) i]) (auto simp: stage_ok_defs)
  then show ?thesis using task_whole(2) by (simp add: places_ok_def)
next
  case main_gateless
  then show ?thesis using assms(2) by (auto simp: places_ok_def stage_ok_defs)
next
  case (task_waits i r M)
  have i: "i < n" using task_index [OF assms(2)] task_waits(3) by simp
  from wait_call_returns [OF task_waits(4) truth_okD(3) [OF assms(3) i]] wait_call_in_wait [OF task_waits(4)]
    wait_call_keeps [OF task_waits(4)] places_okD(2) [OF assms(2) i] task_waits(3)
  show ?thesis unfolding task_waits(2)
    by (intro places_task_event [OF assms(2) i]) (auto simp: stage_ok_defs split: if_splits)
next
  case (task_unlocks i M)
  have i: "i < n" using task_index [OF assms(2)] task_unlocks(3) by simp
  from unlock_call_keeps [OF task_unlocks(4)] places_okD(2) [OF assms(2) i] task_unlocks(3)
  show ?thesis unfolding task_unlocks(2)
    by (intro places_task_event [OF assms(2) i]) (auto simp: stage_ok_defs)
next
  case (task_says i)
  have i: "i < n" using task_index [OF assms(2)] task_says(3) by simp
  from places_okD(1,2) [OF assms(2) i] task_says
  have "places_ok n (S\<lparr>g_event := g_event S, g_task := (g_task S)(i := Defers)\<rparr>)"
    by (intro places_task_event [OF assms(2) i]) (auto simp: stage_ok_defs)
  then show ?thesis using task_says(2) by (simp add: places_ok_def)
next
  case (task_done i)
  have i: "i < n" using task_index [OF assms(2)] task_done(3) by simp
  from places_okD(1,2) [OF assms(2) i] task_done
  have "places_ok n (S\<lparr>g_group := (g_group S)\<lparr>m_pred := False\<rparr>, g_task := (g_task S)(i := Ended)\<rparr>)"
    by (intro places_task_group [OF assms(2) i]) (auto simp: stage_ok_defs)
  then show ?thesis using task_done(2) by (simp add: places_ok_def)
next
  case (task_done_last i)
  have i: "i < n" using task_index [OF assms(2)] task_done_last(3) by simp
  from places_okD(1,2) [OF assms(2) i] task_done_last
  have "places_ok n (S\<lparr>g_group := goes i Setter ((g_group S)\<lparr>m_pred := True\<rparr>), g_task := (g_task S)(i := Notifies)\<rparr>)"
    by (intro places_task_group [OF assms(2) i]) (auto simp: stage_ok_defs)
  then show ?thesis using task_done_last(2) by (simp add: places_ok_def)
next
  case (task_notifies i M)
  have i: "i < n" using task_index [OF assms(2)] task_notifies(3) by simp
  from places_okD(1,2) [OF assms(2) i] task_notifies(3) notify_call_in_notify [OF task_notifies(4)]
  have "places_ok n (S\<lparr>g_group := M, g_task := (g_task S)(i := Notifies)\<rparr>)"
    using notify_call_stage [OF task_notifies(4)]
    by (intro places_task_group [OF assms(2) i]) (simp_all add: task_group_ok_def task_event_ok_def)
  moreover have "S\<lparr>g_group := M, g_task := (g_task S)(i := Notifies)\<rparr> = T"
    using task_notifies(2,3) by (simp add: fun_upd_idem)
  ultimately show ?thesis by simp
next
  case (task_ends i M)
  have i: "i < n" using task_index [OF assms(2)] task_ends(3) by simp
  from unlock_call_keeps [OF task_ends(4)] places_okD(1) [OF assms(2) i] task_ends(3)
  show ?thesis unfolding task_ends(2)
    by (intro places_task_group [OF assms(2) i]) (auto simp: stage_ok_defs)
next
  case (main_schedules k)
  then show ?thesis using assms(2) by (auto simp: places_ok_def stage_ok_defs)
next
  case main_locks
  then show ?thesis unfolding main_locks(2) using places_okD(3,4) [OF assms(2)]
    by (intro places_main_event [OF assms(2)]) (auto simp: stage_ok_defs)
next
  case main_signals
  then have "places_ok n (S\<lparr>g_event := goes n Notifying ((g_event S)\<lparr>m_pred := True\<rparr>), g_main := Signals\<rparr>)"
    using places_okD(4) [OF assms(2)] by (intro places_main_event [OF assms(2)]) (auto simp: stage_ok_defs)
  then show ?thesis using main_signals by (simp add: places_ok_def)
next
  case (main_notifies M)
  have "places_ok n (S\<lparr>g_event := M, g_main := Signals\<rparr>)"
    using places_okD(4) [OF assms(2)] notify_call_in_notify [OF main_notifies(4)] main_notifies(3)
      notify_call_stage [OF main_notifies(4)]
    by (intro places_main_event [OF assms(2)]) (simp_all add: main_group_ok_def main_event_ok_def)
  then show ?thesis using main_notifies by (simp add: places_ok_def)
next
  case (main_signalled M)
  then show ?thesis unfolding main_signalled(2)
    using places_okD(4) [OF assms(2)] unlock_call_keeps [OF main_signalled(5)]
    by (intro places_main_event [OF assms(2)]) (auto simp: stage_ok_defs)
next
  case (main_waits r M)
  from wait_call_returns [OF main_waits(4) truth_okD(4) [OF assms(3)]] wait_call_in_wait [OF main_waits(4)]
    wait_call_keeps [OF main_waits(4)] places_okD(3) [OF assms(2)] main_waits(3)
  show ?thesis unfolding main_waits(2)
    by (intro places_main_group [OF assms(2)]) (auto simp: stage_ok_defs split: if_splits)
next
  case (main_unlocks M)
  then show ?thesis unfolding main_unlocks(2)
    using places_okD(3) [OF assms(2)] unlock_call_keeps [OF main_unlocks(4)]
    by (intro places_main_group [OF assms(2)]) (auto simp: stage_ok_defs)
next
  case main_prints
  then show ?thesis using assms(2) by (auto simp: places_ok_def stage_ok_defs)
qed

lemma pending_count:
  assumes "truth_ok g n S" "i < n" "g_task S i \<notin> {Notifies, Ended}"
  shows "g_count S \<noteq> 0"
proof -
  have "i \<in> pending n (g_task S)" using assms(2,3) by (simp add: pending_def)
  then show ?thesis using truth_okD(2,8) [OF assms(1)] pending_zero [of n "g_task S"] by auto
qed

lemma truth_ok_step:
  assumes "gate_step g n S x T" "places_ok n S" "truth_ok g n S"
  shows "truth_ok g n T"
  using assms(1)
proof (cases rule: gate_step.cases)
  case (task_begins i)
  then show ?thesis using assms(3) by (auto simp: truth_ok_def passed_def pending_keep)
next
  case (task_whole i)
  then show ?thesis using assms(3) by (auto simp: truth_ok_def passed_def pending_keep)
next
  case main_gateless
  then show ?thesis using assms(3) by (auto simp: truth_ok_def passed_def)
next
  case (task_waits i r M)
  have i: "i < n" using task_index [OF assms(2)] task_waits(3) by simp
  note w = wait_call_keeps [OF task_waits(4)] wait_call_returns [OF task_waits(4) truth_okD(3) [OF assms(3) i]]
  show ?thesis unfolding task_waits(2)
    using w assms(3) task_waits(3) i by (auto simp: truth_ok_def passed_def pending_keep split: if_splits)
next
  case (task_unlocks i M)
  then show ?thesis
    using assms(3) unlock_call_keeps [OF task_unlocks(4)] truth_okD(5) [OF assms(3), of i]
    by (auto simp: truth_ok_def passed_def pending_keep)
next
  case (task_says i)
  then show ?thesis using assms(3) truth_okD(5) [OF assms(3), of i] by (auto simp: truth_ok_def passed_def pending_keep)
next
  case (task_done i)
  have i: "i < n" using task_index [OF assms(2)] task_done(3) by simp
  have "card (pending n (g_task S)) = Suc (card (pending n ((g_task S)(i := Ended))))"
    using task_done(3) by (intro pending_ends [OF i]) simp_all
  moreover have "g_count S \<noteq> 0" using pending_count [OF assms(3) i] task_done(3) by simp
  ultimately show ?thesis using task_done assms(3) truth_okD(5) [OF assms(3), of i] by (auto simp: truth_ok_def passed_def)
next
  case (task_done_last i)
  have i: "i < n" using task_index [OF assms(2)] task_done_last(3) by simp
  have "card (pending n (g_task S)) = Suc (card (pending n ((g_task S)(i := Notifies))))"
    using task_done_last(3) by (intro pending_ends [OF i]) simp_all
  moreover have "g_count S \<noteq> 0" using pending_count [OF assms(3) i] task_done_last(3) by simp
  ultimately show ?thesis using task_done_last assms(3) truth_okD(5) [OF assms(3), of i] by (auto simp: truth_ok_def passed_def)
next
  case (task_notifies i M)
  have "i \<noteq> n" using task_index [OF assms(2), of i] task_notifies(3) by auto
  then show ?thesis
    using task_notifies assms(3) notify_call_keeps [OF task_notifies(4)] notify_call_stage [OF task_notifies(4), of n]
    by (auto simp: truth_ok_def passed_def)
next
  case (task_ends i M)
  have "i \<noteq> n" using task_index [OF assms(2), of i] task_ends(3) by auto
  moreover have "pending n ((g_task S)(i := Ended)) = pending n (g_task S)" using task_ends(3) by (auto simp: pending_def)
  ultimately show ?thesis
    using task_ends assms(3) unlock_call_keeps [OF task_ends(4)] truth_okD(5) [OF assms(3), of i]
    by (auto simp: truth_ok_def passed_def)
next
  case (main_schedules k)
  then show ?thesis using assms(3) by (auto simp: truth_ok_def passed_def)
next
  case main_locks
  then show ?thesis using assms(3) by (auto simp: truth_ok_def passed_def)
next
  case main_signals
  then show ?thesis using assms(3) by (auto simp: truth_ok_def passed_def)
next
  case (main_notifies M)
  have "leaves (m_place M i) = leaves (m_place (g_event S) i)" if "i < n" for i
    using notify_call_stage [OF main_notifies(4), of i] that by simp
  then show ?thesis using main_notifies assms(3) notify_call_keeps [OF main_notifies(4)] by (auto simp: truth_ok_def passed_def)
next
  case (main_signalled M)
  then show ?thesis using assms(3) unlock_call_keeps [OF main_signalled(5)] by (auto simp: truth_ok_def passed_def)
next
  case (main_waits r M)
  note w = wait_call_keeps [OF main_waits(4)] wait_call_returns [OF main_waits(4) truth_okD(4) [OF assms(3)]]
  show ?thesis unfolding main_waits(2)
    using w assms(3) main_waits(3) by (auto simp: truth_ok_def passed_def split: if_splits)
next
  case (main_unlocks M)
  then show ?thesis using assms(3) unlock_call_keeps [OF main_unlocks(4)] by (auto simp: truth_ok_def passed_def)
next
  case main_prints
  then show ?thesis using assms(3) by (auto simp: truth_ok_def passed_def)
qed

text \<open>The two machines take steps of the condition variable only.\<close>

definition machines_ok :: "nat \<Rightarrow> gate \<Rightarrow> bool" where
  "machines_ok n S \<longleftrightarrow> Suc n < 2 ^ 31 \<and>
     (\<exists>s t. os_inv s \<and> os_inv t \<and>
       hfts_steps (\<lambda>_. True) (Suc n) (cv_start (list_new, s) False) (g_event S) \<and>
       hfts_steps (\<lambda>_. True) (Suc n) (cv_start (list_new, t) False) (g_group S))"

lemma machines_step:
  assumes "gate_step g n S x T" "places_ok n S"
  shows "(fiber_step (Suc n))\<^sup>*\<^sup>* (g_event S) (g_event T) \<and> (fiber_step (Suc n))\<^sup>*\<^sup>* (g_group S) (g_group T)"
  using assms(1)
proof (cases rule: gate_step.cases)
  case (task_done i)
  then show ?thesis using cstep.unset [of "hfts_list DefaultAllocator pointer_entry" list_room "\<lambda>_. True" "Suc n" "g_group S"]
    by auto
next
  case (task_done_last i)
  have i: "i < n" using task_index [OF assms(2), of i] task_done_last(3) by simp
  have "m_place (g_group S) i = Away" using places_okD(2) [OF assms(2) i] task_done_last(3)
    by (simp add: task_group_ok_def)
  with i have "fiber_step (Suc n) (g_group S) (goes i Setter ((g_group S)\<lparr>m_pred := True\<rparr>))"
    using cstep.set_unlocked [of i "Suc n" "g_group S"] by simp
  then show ?thesis using task_done_last by auto
next
  case main_locks
  have "m_place (g_event S) n = Away" using places_okD(3) [OF assms(2)] main_locks(4)
    by (simp add: main_event_ok_def)
  then have "fiber_step (Suc n) (g_event S) (goes n Holding ((g_event S)\<lparr>m_lock := Some n\<rparr>))"
    using cstep.acquire [of n "Suc n" "g_event S"] main_locks(5) by simp
  then show ?thesis using main_locks by auto
next
  case main_signals
  then have "fiber_step (Suc n) (g_event S) (goes n Notifying ((g_event S)\<lparr>m_pred := True\<rparr>))"
    using cstep.set_locked [of n "Suc n" "g_event S"] by simp
  then show ?thesis using main_signals by auto
qed (auto dest: wait_call_keeps notify_call_keeps unlock_call_keeps)

lemma machines_ok_step: "gate_step g n S x T \<Longrightarrow> places_ok n S \<Longrightarrow> machines_ok n S \<Longrightarrow> machines_ok n T"
  using machines_step [of g n S x T] unfolding machines_ok_def hfts_steps_def by (meson rtranclp_trans)

definition gate_ok :: "bool \<Rightarrow> nat \<Rightarrow> gate \<Rightarrow> bool" where
  "gate_ok g n S \<longleftrightarrow> places_ok n S \<and> truth_ok g n S \<and> machines_ok n S"

lemma gate_start_ok:
  assumes "os_inv s" "os_inv t" "0 < n" "Suc n < 2 ^ 31"
  shows "gate_ok g n (gate_start n s t)"
proof -
  have "pending n (\<lambda>_. NotRun) = {..<n}" by (auto simp: pending_def)
  moreover have "unat (of_nat n :: u32) = n" using assms(4) by (simp add: unat_of_nat)
  then have "(of_nat n :: u32) \<noteq> 0" using assms(3) by auto
  moreover have "machines_ok n (gate_start n s t)"
    using assms unfolding machines_ok_def hfts_steps_def gate_start_def by auto
  ultimately show ?thesis using assms(4)
    by (simp add: gate_ok_def places_ok_def truth_ok_def stage_ok_defs passed_def gate_start_def cv_start_def)
qed

lemma gate_ok_step: "gate_step g n S x T \<Longrightarrow> gate_ok g n S \<Longrightarrow> gate_ok g n T"
  using places_ok_step truth_ok_step machines_ok_step by (auto simp: gate_ok_def)

subsection \<open>Nobody blocks for ever\<close>

lemma free_or_mine:
  assumes "lock_inv isf n M" "m_lock M = None \<or> m_lock M = Some a" "\<not> holds_lock (m_place M a)"
  shows "m_lock M = None"
  using assms by (auto simp: lock_inv_def)

text \<open>A fiber in \<open>wait\<close> can go on if the mutex is free or its own, unless it sleeps or its list entry is not made yet.\<close>

lemma wait_call_possible:
  assumes inv: "cv_inv list_holds (\<lambda>_. True) n M" and n: "n < 2 ^ 31" "a < n"
    and lock: "m_lock M = None \<or> m_lock M = Some a"
    and place: "in_wait (m_place M a)" "m_place M a \<noteq> Counted" "\<nexists>i. m_place M a = Asleep i"
  shows "\<exists>r M'. wait_call n a M r M'"
proof -
  have li: "lock_inv (\<lambda>_. True) n M" using inv by (simp add: cv_inv_def)
  note free = free_or_mine [OF li lock]
  note inside = wait_inside [where n = n and a = a and M = M]
  show ?thesis
  proof (cases "m_place M a")
    case Away
    with free have "fiber_step n M (goes a Holding (M\<lparr>m_lock := Some a\<rparr>))"
      using cstep.acquire [OF n(2) Away] by simp
    from wait_locks [OF Away this] show ?thesis by auto
  next
    case Holding
    show ?thesis
    proof (cases "m_pred M")
      case True
      from wait_at_once [OF Holding this] show ?thesis by blast
    next
      case False
      from inside [OF cstep.count [OF n(2) Holding this], of Counted] Holding show ?thesis
        by (auto simp: wait_goes_iff)
    qed
  next
    case (AtPred i)
    show ?thesis
    proof (cases "m_pred M")
      case True
      from inside [OF cstep.fiber_done [OF n(2) AtPred this], of "Leaving i True"] AtPred show ?thesis
        by (auto simp: wait_goes_iff)
    next
      case False
      from inside [OF cstep.fiber_suspends [OF n(2) AtPred this], of "Suspending i"] AtPred show ?thesis
        by (auto simp: wait_goes_iff)
    qed
  next
    case (Suspending i)
    from inside [OF cstep.fiber_sleeps [OF n(2) Suspending], of "Asleep i"] Suspending show ?thesis
      by (auto simp: wait_goes_iff)
  next
    case (Ready i)
    with free have "m_lock M = None" by simp
    from inside [OF cstep.fiber_resumes [OF n(2) Ready this], of "AtPred i"] Ready show ?thesis
      by (auto simp: wait_goes_iff)
  next
    case (Leaving i b)
    then obtain c where "wait_unlist (hfts_list DefaultAllocator pointer_entry) i (m_cv M) = Inr c"
      using hfts_waiting.operations_ok [OF inv n(1), of a i b] by auto
    from inside [OF cstep.unlist [OF n(2) Leaving this], of "Uncount b"] Leaving show ?thesis
      by (auto simp: wait_goes_iff)
  next
    case (Uncount b)
    from inside [OF cstep.uncount [OF n(2) Uncount], of Holding] Uncount show ?thesis
      by (auto simp: wait_goes_iff)
  qed (use place in auto)
qed

lemma notify_call_possible:
  assumes inv: "cv_inv list_holds (\<lambda>_. True) n M" and n: "n < 2 ^ 31" "a < n"
    and lock: "m_lock M = None \<or> m_lock M = Some a"
    and place: "in_notify (m_place M a)" "m_place M a \<noteq> Holding"
  shows "\<exists>M'. notify_call n a M M'"
proof -
  have li: "lock_inv (\<lambda>_. True) n M" using inv by (simp add: cv_inv_def)
  let ?W = "hfts_list DefaultAllocator pointer_entry"
  show ?thesis
  proof (cases "m_place M a")
    case Setter
    with free_or_mine [OF li lock] have "m_lock M = None" by simp
    from notify_inside [OF cstep.setter_locks [OF n(2) Setter this], of a] Setter show ?thesis
      by (auto simp: notify_goes_iff)
  next
    case Notifying
    show ?thesis
    proof (cases "waitingNum (m_cv M) = 0")
      case True
      from notify_inside [OF cstep.notify_nobody [OF n(2) Notifying this], of a] Notifying show ?thesis
        by (auto simp: notify_goes_iff)
    next
      case False
      obtain r where "notify_all ?W (m_cv M) = Some (Inr r)"
        using hfts_waiting.operations_ok [OF inv n(1)] by blast
      then obtain fs where "notify_all_fibers ?W (m_cv M) = Some (Inr fs)"
        using False by (auto simp: notify_all_def split: option.splits)
      from notify_inside [OF cstep.notify_fibers [OF n(2) Notifying False this], of a] Notifying show ?thesis
        by (auto simp: notify_goes_iff)
    qed
  next
    case NotifyCondition
    show ?thesis
    proof (cases "0 <s waitingOnConditionNum (m_cv M)")
      case True
      from notify_inside [OF cstep.notify_threads [OF n(2) NotifyCondition this], of a] NotifyCondition
      show ?thesis by (auto simp: notify_goes_iff)
    next
      case False
      from notify_inside [OF cstep.notify_no_threads [OF n(2) NotifyCondition this], of a] NotifyCondition
      show ?thesis by (auto simp: notify_goes_iff)
    qed
  qed (use place in auto)
qed

lemma gate_size: "gate_ok g n S \<Longrightarrow> Suc n < 2 ^ 31"
  by (simp add: gate_ok_def truth_ok_def)

lemma machines_inv:
  assumes "machines_ok n S"
  shows "cv_inv list_holds (\<lambda>_. True) (Suc n) (g_event S)" "cv_inv list_holds (\<lambda>_. True) (Suc n) (g_group S)"
  using assms hfts_inv unfolding machines_ok_def by blast+

lemma machines_nobody_rests:
  assumes "machines_ok n S" "M = g_event S \<or> M = g_group S" "m_pred M"
    and "\<And>a. \<not> will_notify (m_place M a) \<and> m_place M a \<noteq> NotifyCondition"
  shows "m_place M a \<noteq> Asleep i"
  using assms nobody_rests [OF _ _ _ assms(3,4)] unfolding machines_ok_def by blast

lemma in_wait_quiet: "in_wait p \<Longrightarrow> \<not> will_notify p \<and> p \<noteq> NotifyCondition"
  by (cases p) simp_all

lemma in_notify_holds: "in_notify p \<Longrightarrow> p \<noteq> Setter \<Longrightarrow> holds_lock p"
  by (cases p) simp_all

text \<open>Who is beyond the actors is away.\<close>

lemma outside_away:
  assumes "cv_inv H isf n M" "\<not> a < n"
  shows "m_place M a = Away"
  using assms by (simp add: cv_inv_def lock_inv_def)

lemma holder_place:
  assumes "cv_inv H isf n M" "m_lock M = Some a"
  shows "holds_lock (m_place M a)" "a < n"
proof -
  show h: "holds_lock (m_place M a)" using assms by (auto simp: cv_inv_def lock_inv_def)
  then show "a < n" using outside_away [OF assms(1), of a] by (cases "a < n") auto
qed

text \<open>Every call on the event can go on if the mutex of the event is free or its own.\<close>

lemma event_task_goes_on:
  assumes ok: "gate_ok g n S" and i: "i < n" and stage: "g_task S i \<in> {Waits, Woken}"
    and lock: "m_lock (g_event S) = None \<or> m_lock (g_event S) = Some i"
    and place: "m_place (g_event S) i \<noteq> Counted" "\<nexists>j. m_place (g_event S) i = Asleep j"
  shows "gate_can g n S"
proof -
  note inv = machines_inv(1) [of n S] and p = places_okD(1) [of n S i]
  show ?thesis
  proof (cases "g_task S i = Waits")
    case True
    then have "in_wait (m_place (g_event S) i)" using ok p i by (simp add: gate_ok_def task_event_ok_def)
    from wait_call_possible [OF _ gate_size [OF ok] less_SucI [OF i] lock this place] ok inv
    obtain r M where "wait_call (Suc n) i (g_event S) r M" by (auto simp: gate_ok_def)
    from task_waits [OF True this] show ?thesis by blast
  next
    case False
    then have w: "g_task S i = Woken" using stage by simp
    then have "m_place (g_event S) i = Holding" using ok p i by (simp add: gate_ok_def task_event_ok_def)
    from task_unlocks [OF w unlocks [OF less_SucI [OF i] this]] show ?thesis by blast
  qed
qed

lemma event_main_goes_on:
  assumes ok: "gate_ok g n S" and main: "g_main S = Signals"
  shows "gate_can g n S"
proof -
  have inv: "cv_inv list_holds (\<lambda>_. True) (Suc n) (g_event S)" using ok machines_inv(1) by (simp add: gate_ok_def)
  have p: "in_notify (m_place (g_event S) n)" "m_place (g_event S) n \<noteq> Setter"
    using ok main places_okD(3) [of n S] by (simp_all add: gate_ok_def main_event_ok_def)
  then have lock: "m_lock (g_event S) = Some n"
    using inv in_notify_holds by (simp add: cv_inv_def lock_inv_def)
  show ?thesis
  proof (cases "m_place (g_event S) n = Holding")
    case True
    show ?thesis
    proof (cases "m_pred (g_event S)")
      case pred: True
      from main_signalled [OF main pred unlocks [OF lessI True]] show ?thesis by blast
    next
      case False
      from main_signals [OF main True this] show ?thesis by blast
    qed
  next
    case False
    from notify_call_possible [OF inv gate_size [OF ok] lessI _ p(1) this] lock
    obtain M where "notify_call (Suc n) n (g_event S) M" by auto
    from main_notifies [OF main this] show ?thesis by blast
  qed
qed

text \<open>The same for the group.\<close>

lemma group_task_goes_on:
  assumes ok: "gate_ok g n S" and i: "i < n" and stage: "g_task S i = Notifies"
    and lock: "m_lock (g_group S) = None \<or> m_lock (g_group S) = Some i"
  shows "gate_can g n S"
proof -
  have inv: "cv_inv list_holds (\<lambda>_. True) (Suc n) (g_group S)" using ok machines_inv(2) by (simp add: gate_ok_def)
  have p: "in_notify (m_place (g_group S) i)"
    using ok stage i places_okD(2) [of n S i] by (simp add: gate_ok_def task_group_ok_def)
  show ?thesis
  proof (cases "m_place (g_group S) i = Holding")
    case True
    from task_ends [OF stage unlocks [OF less_SucI [OF i] True]] show ?thesis by blast
  next
    case False
    from notify_call_possible [OF inv gate_size [OF ok] less_SucI [OF i] lock p this]
    obtain M where "notify_call (Suc n) i (g_group S) M" by auto
    from task_notifies [OF stage this] show ?thesis by blast
  qed
qed

lemma group_main_goes_on:
  assumes ok: "gate_ok g n S" and stage: "g_main S \<in> {GroupWaits, GroupWoken}"
    and lock: "m_lock (g_group S) = None \<or> m_lock (g_group S) = Some n"
    and place: "m_place (g_group S) n \<noteq> Counted" "\<nexists>j. m_place (g_group S) n = Asleep j"
  shows "gate_can g n S"
proof -
  have inv: "cv_inv list_holds (\<lambda>_. True) (Suc n) (g_group S)" using ok machines_inv(2) by (simp add: gate_ok_def)
  note p = places_okD(4) [of n S]
  show ?thesis
  proof (cases "g_main S = GroupWaits")
    case True
    then have "in_wait (m_place (g_group S) n)" using ok p by (simp add: gate_ok_def main_group_ok_def)
    from wait_call_possible [OF inv gate_size [OF ok] lessI lock this place]
    obtain r M where "wait_call (Suc n) n (g_group S) r M" by auto
    from main_waits [OF True this] show ?thesis by blast
  next
    case False
    then have w: "g_main S = GroupWoken" using stage by simp
    then have "m_place (g_group S) n = Holding" using ok p by (simp add: gate_ok_def main_group_ok_def)
    from main_unlocks [OF w unlocks [OF lessI this]] show ?thesis by blast
  qed
qed

text \<open>Nobody is between the counter and the list: no allocation of a list entry has failed.\<close>

definition no_entry_missing :: "gate \<Rightarrow> bool" where
  "no_entry_missing S \<longleftrightarrow>
     (\<forall>a. m_place (g_event S) a \<noteq> Counted \<and> m_place (g_group S) a \<noteq> Counted)"

lemma stuck_event_free:
  assumes ok: "gate_ok g n S" and stuck: "\<not> gate_can g n S" and entries: "no_entry_missing S"
  shows "m_lock (g_event S) = None"
proof (rule ccontr)
  assume "m_lock (g_event S) \<noteq> None"
  then obtain a where a: "m_lock (g_event S) = Some a" by auto
  have inv: "cv_inv list_holds (\<lambda>_. True) (Suc n) (g_event S)" using ok machines_inv(1) by (simp add: gate_ok_def)
  note h = holder_place [OF inv a]
  have places: "places_ok n S" using ok by (simp add: gate_ok_def)
  show False
  proof (cases "a = n")
    case True
    then have "g_main S = Signals" using h(1) places_okD(3) [OF places]
      by (auto simp: main_event_ok_def split: main_stage.splits)
    with event_main_goes_on [OF ok] stuck show False by blast
  next
    case False
    then have i: "a < n" using h(2) by simp
    have "g_task S a \<in> {Waits, Woken}" using h(1) places_okD(1) [OF places i]
      by (auto simp: task_event_ok_def split: task_stage.splits)
    moreover have "\<nexists>j. m_place (g_event S) a = Asleep j" using h(1) by auto
    ultimately show False using event_task_goes_on [OF ok i] a entries stuck
      by (simp add: no_entry_missing_def)
  qed
qed

lemma stuck_signalled:
  assumes ok: "gate_ok g n S" and stuck: "\<not> gate_can g n S" and free: "m_lock (g_event S) = None"
  shows "after_signal (g_main S)"
proof (cases "g_main S")
  case (Schedules k)
  then have "k \<le> n" using ok by (simp add: gate_ok_def places_ok_def)
  then show ?thesis using main_schedules [OF Schedules] main_locks [of g S n] main_gateless [of g S n] Schedules free stuck
    by (cases "k < n"; cases g) auto
next
  case Signals
  with event_main_goes_on [OF ok] stuck show ?thesis by blast
qed simp_all

lemma stuck_tasks:
  assumes ok: "gate_ok g n S" and stuck: "\<not> gate_can g n S" and entries: "no_entry_missing S" and i: "i < n"
  shows "g_task S i \<in> {Notifies, Ended}"
proof -
  note free = stuck_event_free [OF ok stuck entries]
  have main: "after_signal (g_main S)" by (rule stuck_signalled [OF ok stuck free])
  have inv: "places_ok n S" "truth_ok g n S" "machines_ok n S" using ok by (simp_all add: gate_ok_def)
  have quiet: "\<not> will_notify (m_place (g_event S) a) \<and> m_place (g_event S) a \<noteq> NotifyCondition" for a
  proof -
    consider "a < n" | "a = n" | "\<not> a < (Suc n)" by linarith
    then show ?thesis
    proof cases
      case 1
      from places_okD(1) [OF inv(1) this] show ?thesis
        by (auto simp: task_event_ok_def in_wait_quiet split: task_stage.splits)
    next
      case 2
      then show ?thesis using places_okD(3) [OF inv(1)] main
        by (auto simp: main_event_ok_def split: main_stage.splits)
    next
      case 3
      from outside_away [OF machines_inv(1) [OF inv(3)] this] show ?thesis by simp
    qed
  qed
  have awake: "m_place (g_event S) i \<noteq> Asleep j" if g for j
    by (rule machines_nobody_rests [OF inv(3) disjI1 [OF refl] truth_okD(6) [OF inv(2) main that] quiet])
  show ?thesis
  proof (cases "g_task S i")
    case NotRun
    have "scheduled n (g_main S) i" using main i by (auto simp: scheduled_def split: main_stage.splits)
    from task_begins [OF _ this NotRun] task_whole [OF _ this NotRun] stuck show ?thesis by blast
  next
    case Says
    from task_says [OF this] stuck show ?thesis by blast
  next
    case Defers
    from task_done [OF this] task_done_last [OF this] stuck show ?thesis by blast
  qed (use event_task_goes_on [OF ok i] free awake truth_okD(9) [OF inv(2), of i] entries stuck in \<open>auto simp: no_entry_missing_def\<close>)
qed

lemma stuck_finished:
  assumes ok: "gate_ok g n S" and stuck: "\<not> gate_can g n S" and entries: "no_entry_missing S"
  shows "g_main S = Exits \<and> (\<forall>i<n. g_task S i = Ended)"
proof -
  note tasks = stuck_tasks [OF ok stuck entries]
  have inv: "places_ok n S" "truth_ok g n S" "machines_ok n S" using ok by (simp_all add: gate_ok_def)
  note cv = machines_inv(2) [OF inv(3)]
  have main: "after_signal (g_main S)"
    by (rule stuck_signalled [OF ok stuck stuck_event_free [OF ok stuck entries]])
  have "pending n (g_task S) = {}" using tasks by (auto simp: pending_def)
  then have pred: "m_pred (g_group S)" using truth_okD(1,2) [OF inv(2)] by simp
  have free: "m_lock (g_group S) = None"
  proof (rule ccontr)
    assume "m_lock (g_group S) \<noteq> None"
    then obtain a where a: "m_lock (g_group S) = Some a" by auto
    note h = holder_place [OF cv a]
    show False
    proof (cases "a = n")
      case True
      then have "g_main S \<in> {GroupWaits, GroupWoken}" using h(1) places_okD(4) [OF inv(1)]
        by (auto simp: main_group_ok_def split: main_stage.splits)
      moreover have "\<nexists>j. m_place (g_group S) n = Asleep j" using h(1) True by auto
      ultimately show False using group_main_goes_on [OF ok] a True entries stuck
        by (simp add: no_entry_missing_def)
    next
      case False
      then have i: "a < n" using h(2) by simp
      have "g_task S a = Notifies" using h(1) places_okD(2) [OF inv(1) i]
        by (auto simp: task_group_ok_def split: task_stage.splits)
      from group_task_goes_on [OF ok i this] a stuck show False by blast
    qed
  qed
  have ended: "g_task S i = Ended" if "i < n" for i
    using tasks [OF that] group_task_goes_on [OF ok that] free stuck by auto
  have quiet: "\<not> will_notify (m_place (g_group S) a) \<and> m_place (g_group S) a \<noteq> NotifyCondition" for a
  proof -
    consider "a < n" | "a = n" | "\<not> a < (Suc n)" by linarith
    then show ?thesis
    proof cases
      case 1
      from places_okD(2) [OF inv(1) this] ended [OF 1] show ?thesis by (simp add: task_group_ok_def)
    next
      case 2
      then show ?thesis using places_okD(4) [OF inv(1)]
        by (auto simp: main_group_ok_def in_wait_quiet split: main_stage.splits)
    next
      case 3
      from outside_away [OF cv this] show ?thesis by simp
    qed
  qed
  have awake: "m_place (g_group S) n \<noteq> Asleep j" for j
    by (rule machines_nobody_rests [OF inv(3) disjI2 [OF refl] pred quiet])
  have "g_main S = Exits"
  proof (cases "g_main S")
    case Prints
    from main_prints [OF this] stuck show ?thesis by blast
  qed (use group_main_goes_on [OF ok] free awake entries stuck main in \<open>auto simp: no_entry_missing_def\<close>)
  then show ?thesis using ended by blast
qed

subsection \<open>The program ends\<close>

text \<open>How far everybody is from the end. A notification puts a sleeping fiber back by 3 places.\<close>

fun wait_rank :: "'i place \<Rightarrow> nat" where
  "wait_rank Away = 12" | "wait_rank Holding = 11" | "wait_rank Counted = 10" | "wait_rank (Ready i) = 9"
| "wait_rank (AtPred i) = 8" | "wait_rank (Suspending i) = 7" | "wait_rank (Asleep i) = 6"
| "wait_rank (Leaving i b) = 5" | "wait_rank (Uncount b) = 4" | "wait_rank _ = 0"

fun notify_rank :: "'i place \<Rightarrow> nat" where
  "notify_rank Setter = 4" | "notify_rank Notifying = 3" | "notify_rank NotifyCondition = 2"
| "notify_rank Holding = 1" | "notify_rank _ = 0"

fun task_rank :: "task_stage \<Rightarrow> 'i place \<Rightarrow> 'i place \<Rightarrow> nat" where
  "task_rank NotRun pe pg = 35"
| "task_rank Waits pe pg = 22 + wait_rank pe"
| "task_rank Woken pe pg = 21"
| "task_rank Says pe pg = 20"
| "task_rank Defers pe pg = 18"
| "task_rank Notifies pe pg = 1 + 4 * notify_rank pg"
| "task_rank Ended pe pg = 0"

fun main_rank :: "nat \<Rightarrow> main_stage \<Rightarrow> bool \<Rightarrow> 'i place \<Rightarrow> 'i place \<Rightarrow> nat" where
  "main_rank n (Schedules k) b pe pg = 17 + 4 * (3 * n + 1) + (n - k)"
| "main_rank n Signals b pe pg = 16 + (if b then 0 else 3 * (3 * n + 1)) + (3 * n + 1) * notify_rank pe"
| "main_rank n GroupWaits b pe pg = 3 + wait_rank pg"
| "main_rank n GroupWoken b pe pg = 2"
| "main_rank n Prints b pe pg = 1"
| "main_rank n Exits b pe pg = 0"

definition rank_of_task :: "gate \<Rightarrow> nat \<Rightarrow> nat" where
  "rank_of_task S i = task_rank (g_task S i) (m_place (g_event S) i) (m_place (g_group S) i)"

definition rank_of_main :: "nat \<Rightarrow> gate \<Rightarrow> nat" where
  "rank_of_main n S = main_rank n (g_main S) (m_pred (g_event S)) (m_place (g_event S) n) (m_place (g_group S) n)"

definition gate_rank :: "nat \<Rightarrow> gate \<Rightarrow> nat" where
  "gate_rank n S = rank_of_main n S + (\<Sum>i<n. rank_of_task S i)"

lemma ranks_kept [simp]:
  "notify_rank (notified p) = notify_rank p" "notify_rank (unblocked p) = notify_rank p"
  "wait_rank (unblocked p) = wait_rank p" "wait_rank (notified p) \<le> wait_rank p + 3"
  by (cases p; simp)+

lemma wait_rank_12: "wait_rank p \<le> 12"
  by (cases p) simp_all

lemma wait_call_rank:
  assumes "wait_call n a M r M'" "\<not> r"
  shows "wait_rank (m_place M' a) < wait_rank (m_place M a)"
  using assms by (cases rule: wait_call.cases) (auto simp: wait_goes_iff)

lemma notify_call_rank:
  assumes "notify_call n a M M'"
  shows "notify_rank (m_place M' a) < notify_rank (m_place M a)"
    "b \<noteq> a \<Longrightarrow> notify_rank (m_place M' b) = notify_rank (m_place M b)"
    "b \<noteq> a \<Longrightarrow> wait_rank (m_place M' b) \<le> wait_rank (m_place M b) + 3"
proof -
  show "notify_rank (m_place M' a) < notify_rank (m_place M a)"
    using assms by (cases rule: notify_call.cases) (auto simp: notify_goes_iff)
  assume "b \<noteq> a"
  then have "m_place M' b \<in> {m_place M b, notified (m_place M b), unblocked (m_place M b)}"
    using notify_call_keeps [OF assms, THEN conjunct2, THEN conjunct2] by simp
  then consider "m_place M' b = m_place M b" | "m_place M' b = notified (m_place M b)"
    | "m_place M' b = unblocked (m_place M b)" by blast
  then have "notify_rank (m_place M' b) = notify_rank (m_place M b) \<and>
    wait_rank (m_place M' b) \<le> wait_rank (m_place M b) + 3" by cases simp_all
  then show "notify_rank (m_place M' b) = notify_rank (m_place M b)"
    "wait_rank (m_place M' b) \<le> wait_rank (m_place M b) + 3" by simp_all
qed

text \<open>A step of one task, of the main thread, and a notification.\<close>

lemma rank_task:
  assumes "i < n" "rank_of_task T i + d < rank_of_task S i" "rank_of_main n T \<le> rank_of_main n S + d"
    and "\<And>j. j \<noteq> i \<Longrightarrow> rank_of_task T j = rank_of_task S j"
  shows "gate_rank n T < gate_rank n S"
proof -
  have split: "(\<Sum>j<n. rank_of_task U j) = rank_of_task U i + (\<Sum>j\<in>{..<n} - {i}. rank_of_task U j)" for U
    using assms(1) by (intro sum.remove) simp_all
  have "(\<Sum>j\<in>{..<n} - {i}. rank_of_task T j) = (\<Sum>j\<in>{..<n} - {i}. rank_of_task S j)"
    using assms(4) by (intro sum.cong) simp_all
  then show ?thesis using assms(2,3) split [of S] split [of T] by (simp add: gate_rank_def)
qed

lemma rank_main:
  assumes "rank_of_main n T + 3 * n < rank_of_main n S \<or> rank_of_main n T < rank_of_main n S \<and> d = 0"
    and "\<And>j. j < n \<Longrightarrow> rank_of_task T j \<le> rank_of_task S j + d" "d \<le> 3"
  shows "gate_rank n T < gate_rank n S"
proof -
  have "(\<Sum>j<n. rank_of_task T j) \<le> (\<Sum>j<n. rank_of_task S j + d)"
    using assms(2) by (intro sum_mono) simp
  also have "\<dots> = (\<Sum>j<n. rank_of_task S j) + n * d"
    unfolding sum.distrib by simp
  finally have "(\<Sum>j<n. rank_of_task T j) \<le> (\<Sum>j<n. rank_of_task S j) + n * d" .
  moreover have "n * d \<le> 3 * n" using mult_le_mono2 [OF assms(3), of n] by simp
  moreover have "n * d = 0" if "d = 0" using that by simp
  ultimately show ?thesis using assms(1) unfolding gate_rank_def by linarith
qed

lemma rank_step:
  assumes "gate_step g n S x T" "places_ok n S"
  shows "gate_rank n T < gate_rank n S"
  using assms(1)
proof (cases rule: gate_step.cases)
  case (task_begins i)
  have "i < n" using task_begins(4) assms(2)
    by (auto simp: scheduled_def places_ok_def split: main_stage.splits)
  then show ?thesis using task_begins wait_rank_12 [of "m_place (g_event S) i"]
    by (intro rank_task [where d = 0]) (simp_all add: rank_of_task_def rank_of_main_def)
next
  case (task_whole i)
  have "i < n" using task_whole(4) assms(2)
    by (auto simp: scheduled_def places_ok_def split: main_stage.splits)
  then show ?thesis using task_whole
    by (intro rank_task [where d = 0]) (simp_all add: rank_of_task_def rank_of_main_def)
next
  case main_gateless
  then show ?thesis using wait_rank_12 [of "m_place (g_group S) n"]
    by (intro rank_main [where d = 0]) (simp_all add: rank_of_task_def rank_of_main_def)
next
  case (task_waits i r M)
  have i: "i < n" using task_index [OF assms(2), of i] task_waits(3) by simp
  then show ?thesis using task_waits wait_call_keeps [OF task_waits(4)] wait_call_rank [OF task_waits(4)]
    by (intro rank_task [where d = 0]) (auto simp: rank_of_task_def rank_of_main_def)
next
  case (task_unlocks i M)
  have i: "i < n" using task_index [OF assms(2), of i] task_unlocks(3) by simp
  then show ?thesis using task_unlocks unlock_call_keeps [OF task_unlocks(4)]
    by (intro rank_task [where d = 0]) (auto simp: rank_of_task_def rank_of_main_def)
next
  case (task_says i)
  have i: "i < n" using task_index [OF assms(2), of i] task_says(3) by simp
  then show ?thesis using task_says
    by (intro rank_task [where d = 0]) (auto simp: rank_of_task_def rank_of_main_def)
next
  case (task_done i)
  have i: "i < n" using task_index [OF assms(2), of i] task_done(3) by simp
  then show ?thesis using task_done
    by (intro rank_task [where d = 0]) (auto simp: rank_of_task_def rank_of_main_def)
next
  case (task_done_last i)
  have i: "i < n" using task_index [OF assms(2), of i] task_done_last(3) by simp
  then show ?thesis using task_done_last
    by (intro rank_task [where d = 0]) (auto simp: rank_of_task_def rank_of_main_def)
next
  case (task_notifies i M)
  have i: "i < n" using task_index [OF assms(2), of i] task_notifies(3) by simp
  note r = notify_call_rank [OF task_notifies(4)]
  have "rank_of_task T j = rank_of_task S j" if "j \<noteq> i" for j
    using task_notifies(2) r(2) [OF that] by (cases "g_task S j") (simp_all add: rank_of_task_def)
  moreover have "rank_of_main n T \<le> rank_of_main n S + 3"
    using task_notifies(2) r(3) [of n] i by (cases "g_main S") (simp_all add: rank_of_main_def)
  moreover have "rank_of_task T i + 3 < rank_of_task S i"
    using task_notifies(2,3) r(1) by (simp add: rank_of_task_def)
  ultimately show ?thesis using i by (intro rank_task [where d = 3]) simp_all
next
  case (task_ends i M)
  have i: "i < n" using task_index [OF assms(2), of i] task_ends(3) by simp
  then show ?thesis using task_ends unlock_call_keeps [OF task_ends(4)]
    by (intro rank_task [where d = 0]) (auto simp: rank_of_task_def rank_of_main_def)
next
  case (main_schedules k)
  then have "rank_of_main n T < rank_of_main n S" by (simp add: rank_of_main_def)
  then show ?thesis using main_schedules by (intro rank_main [where d = 0]) (simp_all add: rank_of_task_def)
next
  case main_locks
  then show ?thesis by (intro rank_main [where d = 0]) (simp_all add: rank_of_task_def rank_of_main_def)
next
  case main_signals
  then show ?thesis by (intro rank_main [where d = 0]) (simp_all add: rank_of_task_def rank_of_main_def)
next
  case (main_notifies M)
  note r = notify_call_rank [OF main_notifies(4)]
  have "rank_of_task T j \<le> rank_of_task S j + 3" if "j < n" for j
    using main_notifies(2) r(3) [of j] that by (cases "g_task S j") (simp_all add: rank_of_task_def)
  moreover have "rank_of_main n T + 3 * n < rank_of_main n S"
    using main_notifies(2,3) notify_call_keeps [OF main_notifies(4)]
      mult_le_mono2 [OF Suc_leI [OF r(1)], of "3 * n + 1"] by (simp add: rank_of_main_def)
  ultimately show ?thesis by (intro rank_main [where d = 3]) simp_all
next
  case (main_signalled M)
  then show ?thesis using unlock_call_keeps [OF main_signalled(5)] wait_rank_12 [of "m_place (g_group S) n"]
    by (intro rank_main [where d = 0]) (auto simp: rank_of_task_def rank_of_main_def)
next
  case (main_waits r M)
  have "rank_of_task T j = rank_of_task S j" if "j < n" for j
    using main_waits(2) wait_call_keeps [OF main_waits(4)] that by (simp add: rank_of_task_def)
  then show ?thesis using main_waits wait_call_rank [OF main_waits(4)]
    by (intro rank_main [where d = 0]) (auto simp: rank_of_main_def)
next
  case (main_unlocks M)
  then show ?thesis using unlock_call_keeps [OF main_unlocks(4)]
    by (intro rank_main [where d = 0]) (auto simp: rank_of_task_def rank_of_main_def)
next
  case main_prints
  then show ?thesis by (intro rank_main [where d = 0]) (simp_all add: rank_of_task_def rank_of_main_def)
qed


lemma gate_start_rank: "gate_rank n (gate_start n s t) = 48 * n + 21"
  by (simp add: gate_rank_def rank_of_main_def rank_of_task_def gate_start_def)

lemma gate_step_ok:
  "gate_step g n S x T \<Longrightarrow> gate_ok g n S \<Longrightarrow> gate_ok g n T \<and> gate_rank n T < gate_rank n S"
  using gate_ok_step [of g n S x T] rank_step [of g n S x T] by (simp add: gate_ok_def)

subsection \<open>What a program does of its own, and when\<close>

text \<open>The parts of a task that have been done: before the wait, after it.\<close>

fun stage_part :: "task_stage \<Rightarrow> nat" where
  "stage_part NotRun = 0" | "stage_part Waits = 1" | "stage_part Woken = 1" | "stage_part Says = 1"
| "stage_part Defers = 2" | "stage_part Notifies = 2" | "stage_part Ended = 2"

definition parts :: "gate \<Rightarrow> nat \<Rightarrow> nat" where
  "parts S i = stage_part (g_task S i)"

lemma act_parts:
  assumes "gate_step g n S x T" "places_ok n S"
  shows "case x of
      Begins i \<Rightarrow> i < n \<and> g \<and> parts S i = 0 \<and> parts T = (parts S)(i := 1)
    | Speaks i \<Rightarrow> i < n \<and> parts S i = 1 \<and> parts T = (parts S)(i := 2)
    | Whole i \<Rightarrow> i < n \<and> \<not> g \<and> parts S i = 0 \<and> parts T = (parts S)(i := 2)
    | _ \<Rightarrow> parts T = parts S"
  using assms(1)
proof (cases rule: gate_step.cases)
  case (task_begins i)
  then show ?thesis using assms(2) by (auto simp: scheduled_def places_ok_def parts_def fun_eq_iff split: main_stage.splits)
next
  case (task_whole i)
  then show ?thesis using assms(2) by (auto simp: scheduled_def places_ok_def parts_def fun_eq_iff split: main_stage.splits)
next
  case (task_says i)
  then show ?thesis using task_index [OF assms(2), of i] by (auto simp: parts_def fun_eq_iff)
qed (auto simp: parts_def fun_eq_iff)

lemma act_main:
  assumes "gate_step g n S x T"
  shows "g_main T = Exits \<longleftrightarrow> g_main S = Exits \<or> x = Last" "x = Last \<Longrightarrow> g_main S = Prints"
    "x = Opens \<Longrightarrow> g \<and> g_main S = Schedules n"
  using assms by (cases rule: gate_step.cases; simp)+

text \<open>The main thread goes on when every task has done both parts.\<close>

lemma last_parts:
  assumes "gate_ok g n S" "after_group (g_main S)" "i < n"
  shows "parts S i = 2"
proof -
  have inv: "truth_ok g n S" using assms(1) by (simp add: gate_ok_def)
  have "pending n (g_task S) = {}"
    using truth_okD(2,7,8) [OF inv] assms(2) pending_zero [of n "g_task S"] by simp
  then show ?thesis using assms(3) by (cases "g_task S i") (auto simp: pending_def parts_def)
qed

text \<open>A task speaks after the event has been signalled only.\<close>

lemma passed_signalled: "gate_ok g n S \<Longrightarrow> g \<Longrightarrow> parts S i = 2 \<Longrightarrow> m_pred (g_event S)"
  using truth_okD(5) [of g n S i] by (cases "g_task S i") (auto simp: gate_ok_def parts_def passed_def)

subsection \<open>A run to the end\<close>

text \<open>The acts of a run. The main thread signals first, and then the tasks run one after the other.\<close>

fun own :: "act \<Rightarrow> act list" where
  "own Silent = []" | "own x = [x]"

inductive gate_does :: "bool \<Rightarrow> nat \<Rightarrow> gate \<Rightarrow> act list \<Rightarrow> gate \<Rightarrow> bool" for g n S where
  does_nothing: "gate_does g n S [] S"
| does_act: "gate_does g n S xs U \<Longrightarrow> gate_step g n U x T \<Longrightarrow> gate_does g n S (xs @ own x) T"

lemma does_silent: "gate_does g n S xs U \<Longrightarrow> gate_step g n U Silent T \<Longrightarrow> gate_does g n S xs T"
  using does_act [of g n S xs U Silent T] by simp

lemma does_own: "gate_does g n S xs U \<Longrightarrow> gate_step g n U x T \<Longrightarrow> own x = [x] \<Longrightarrow> gate_does g n S (xs @ [x]) T"
  using does_act [of g n S xs U x T] by simp

lemma does_ok: "gate_does g n S xs T \<Longrightarrow> gate_ok g n S \<Longrightarrow> gate_ok g n T"
  by (induction rule: gate_does.induct) (auto intro: gate_ok_step)


abbreviation idle_event :: "bool \<Rightarrow> nat option \<Rightarrow> (nat \<Rightarrow> entry_ptr place) \<Rightarrow> waiting_machine" where
  "idle_event b l pl \<equiv> \<lparr>m_cv = ConditionVariable_new (list_new, os_fresh []), m_pred = b, m_lock = l, m_place = pl\<rparr>"

lemma idle_call:
  assumes "a < n"
  shows "wait_call n a (idle_event b None (\<lambda>_. Away)) False (idle_event b (Some a) ((\<lambda>_. Away)(a := Holding)))"
    "wait_call n a (idle_event True l ((\<lambda>_. Away)(a := Holding))) True (idle_event True l ((\<lambda>_. Away)(a := Holding)))"
    "unlock_call n a (idle_event b l ((\<lambda>_. Away)(a := Holding))) (idle_event b None (\<lambda>_. Away))"
    "notify_call n a (idle_event b None ((\<lambda>_. Away)(a := Setter))) (idle_event b (Some a) ((\<lambda>_. Away)(a := Notifying)))"
    "notify_call n a (idle_event b l ((\<lambda>_. Away)(a := Notifying))) (idle_event b l ((\<lambda>_. Away)(a := Holding)))"
proof -
  have "fiber_step n (idle_event b None (\<lambda>_. Away)) (idle_event b (Some a) ((\<lambda>_. Away)(a := Holding)))"
    using cstep.acquire [OF assms, of "idle_event b None (\<lambda>_. Away)"] by simp
  from wait_locks [OF _ this, of a]
  show "wait_call n a (idle_event b None (\<lambda>_. Away)) False (idle_event b (Some a) ((\<lambda>_. Away)(a := Holding)))" by simp
  show "wait_call n a (idle_event True l ((\<lambda>_. Away)(a := Holding))) True (idle_event True l ((\<lambda>_. Away)(a := Holding)))"
    by (rule wait_at_once) simp_all
  show "unlock_call n a (idle_event b l ((\<lambda>_. Away)(a := Holding))) (idle_event b None (\<lambda>_. Away))"
    using unlocks [OF assms, of "idle_event b l ((\<lambda>_. Away)(a := Holding))"] by (simp add: fun_upd_idem)
  have "fiber_step n (idle_event b None ((\<lambda>_. Away)(a := Setter))) (idle_event b (Some a) ((\<lambda>_. Away)(a := Notifying)))"
    using cstep.setter_locks [OF assms, of "idle_event b None ((\<lambda>_. Away)(a := Setter))"] by simp
  from notify_inside [OF this, of a]
  show "notify_call n a (idle_event b None ((\<lambda>_. Away)(a := Setter))) (idle_event b (Some a) ((\<lambda>_. Away)(a := Notifying)))"
    by (simp add: notify_goes_iff)
  have "fiber_step n (idle_event b l ((\<lambda>_. Away)(a := Notifying))) (idle_event b l ((\<lambda>_. Away)(a := Holding)))"
    using cstep.notify_nobody [OF assms, of "idle_event b l ((\<lambda>_. Away)(a := Notifying))"]
    by (simp add: ConditionVariable_new_def)
  from notify_inside [OF this, of a]
  show "notify_call n a (idle_event b l ((\<lambda>_. Away)(a := Notifying))) (idle_event b l ((\<lambda>_. Away)(a := Holding)))"
    by (simp add: notify_goes_iff)
qed

definition after_tasks :: "bool \<Rightarrow> nat \<Rightarrow> nat \<Rightarrow> gate" where
  "after_tasks g n j =
     \<lparr>g_event = idle_event g None (\<lambda>_. Away), g_count = of_nat (n - j),
      g_group = idle_event (j = n) None (\<lambda>_. Away), g_task = (\<lambda>i. if i < j then Ended else NotRun),
      g_main = GroupWaits\<rparr>"

lemma all_scheduled:
  "gate_does g n (gate_start n s t) [] ((gate_start n s t)\<lparr>g_main := Schedules n\<rparr>)"
proof -
  let ?S = "gate_start n s t"
  have "gate_does g n ?S [] (?S\<lparr>g_main := Schedules k\<rparr>)" if "k \<le> n" for k
    using that
  proof (induction k)
    case 0
    have "?S\<lparr>g_main := Schedules 0\<rparr> = ?S" by (simp add: gate_start_def)
    then show ?case using does_nothing [of g n ?S] by simp
  next
    case (Suc k)
    then have "gate_step g n (?S\<lparr>g_main := Schedules k\<rparr>) Silent (?S\<lparr>g_main := Schedules (Suc k)\<rparr>)"
      using main_schedules [where S = "?S\<lparr>g_main := Schedules k\<rparr>" and k = k and n = n and g = g] by simp
    then show ?case using Suc by (auto intro: does_silent)
  qed
  then show ?thesis by simp
qed

lemma gateless_first:
  assumes "0 < n"
  shows "gate_does False n (gate_start n (os_fresh []) (os_fresh [])) [] (after_tasks False n 0)"
proof -
  let ?S = "gate_start n (os_fresh []) (os_fresh [])"
  have "gate_step False n (?S\<lparr>g_main := Schedules n\<rparr>) Silent (after_tasks False n 0)"
    using main_gateless [where S = "?S\<lparr>g_main := Schedules n\<rparr>" and n = n and g = False] assms
    by (simp add: gate_start_def after_tasks_def cv_start_def)
  from does_silent [OF all_scheduled this] show ?thesis .
qed

lemma signalled_first:
  assumes "0 < n"
  shows "gate_does True n (gate_start n (os_fresh []) (os_fresh [])) [Opens] (after_tasks True n 0)"
proof -
  let ?S = "gate_start n (os_fresh []) (os_fresh [])"
  note s0 = all_scheduled [of True n "os_fresh []" "os_fresh []"]
  let ?T = "\<lambda>b l p m. ?S\<lparr>g_event := idle_event b l ((\<lambda>_. Away)(n := p)), g_main := m\<rparr>"
  have "gate_step True n (?S\<lparr>g_main := Schedules n\<rparr>) Opens (?T False (Some n) Holding Signals)"
    using main_locks [where S = "?S\<lparr>g_main := Schedules n\<rparr>" and n = n and g = True] by (simp add: gate_start_def cv_start_def)
  from does_own [OF s0 this] have s1: "gate_does True n ?S [Opens] (?T False (Some n) Holding Signals)" by simp
  have "gate_step True n (?T False (Some n) Holding Signals) Silent (?T True (Some n) Notifying Signals)"
    using main_signals [where S = "?T False (Some n) Holding Signals" and n = n and g = True] by (simp add: gate_start_def)
  note s2 = does_silent [OF s1 this]
  have "gate_step True n (?T True (Some n) Notifying Signals) Silent (?T True (Some n) Holding Signals)"
    using main_notifies [where S = "?T True (Some n) Notifying Signals" and n = n and g = True] idle_call(5) [OF lessI] by (simp add: gate_start_def)
  note s3 = does_silent [OF s2 this]
  have "gate_step True n (?T True (Some n) Holding Signals) Silent
      (?S\<lparr>g_event := idle_event True None (\<lambda>_. Away), g_main := GroupWaits\<rparr>)"
    using main_signalled [where S = "?T True (Some n) Holding Signals" and n = n and g = True] idle_call(3) [OF lessI] by (simp add: gate_start_def)
  moreover have "?S\<lparr>g_event := idle_event True None (\<lambda>_. Away), g_main := GroupWaits\<rparr> = after_tasks True n 0"
    using assms by (simp add: gate_start_def after_tasks_def cv_start_def)
  ultimately show ?thesis using does_silent [OF s3] by simp
qed

text \<open>One task up to its call of \<open>done\<close>.\<close>

lemma task_to_done:
  assumes "j < n" and run: "gate_does True n S xs (after_tasks True n j)"
  shows "gate_does True n S (xs @ [Begins j, Speaks j])
    ((after_tasks True n j)\<lparr>g_task := (\<lambda>i. if i < j then Ended else NotRun)(j := Defers)\<rparr>)"
proof -
  let ?A = "after_tasks True n j" and ?ts = "\<lambda>i. if i < j then Ended else NotRun"
  let ?U = "\<lambda>l p t. ?A\<lparr>g_event := idle_event True l p, g_task := ?ts(j := t)\<rparr>"
  note call = idle_call [OF less_SucI [OF assms(1)]]
  have "gate_step True n ?A (Begins j) (?U None (\<lambda>_. Away) Waits)"
    using task_begins [of True n ?A j] assms by (simp add: after_tasks_def scheduled_def)
  from does_own [OF run this] have s1: "gate_does True n S (xs @ [Begins j]) (?U None (\<lambda>_. Away) Waits)" by simp
  have "gate_step True n (?U None (\<lambda>_. Away) Waits) Silent (?U (Some j) ((\<lambda>_. Away)(j := Holding)) Waits)"
    using task_waits [where S = "?U None (\<lambda>_. Away) Waits" and n = n and g = True and i = j and r = False] call(1) by (simp add: after_tasks_def)
  note s2 = does_silent [OF s1 this]
  have "gate_step True n (?U (Some j) ((\<lambda>_. Away)(j := Holding)) Waits) Silent
      (?U (Some j) ((\<lambda>_. Away)(j := Holding)) Woken)"
    using task_waits [where S = "?U (Some j) ((\<lambda>_. Away)(j := Holding)) Waits" and n = n and g = True and i = j and r = True] call(2) by (simp add: after_tasks_def)
  note s3 = does_silent [OF s2 this]
  have "gate_step True n (?U (Some j) ((\<lambda>_. Away)(j := Holding)) Woken) Silent (?U None (\<lambda>_. Away) Says)"
    using task_unlocks [where S = "?U (Some j) ((\<lambda>_. Away)(j := Holding)) Woken" and n = n and g = True and i = j] call(3) by (simp add: after_tasks_def)
  note s4 = does_silent [OF s3 this]
  have "gate_step True n (?U None (\<lambda>_. Away) Says) (Speaks j) (?A\<lparr>g_task := ?ts(j := Defers)\<rparr>)"
    using task_says [where S = "?U None (\<lambda>_. Away) Says" and n = n and g = True and i = j] by (simp add: after_tasks_def)
  from does_own [OF s4 this] show ?thesis by simp
qed

lemma whole_to_done:
  assumes "j < n" and run: "gate_does False n S xs (after_tasks False n j)"
  shows "gate_does False n S (xs @ [Whole j])
    ((after_tasks False n j)\<lparr>g_task := (\<lambda>i. if i < j then Ended else NotRun)(j := Defers)\<rparr>)"
proof -
  have "gate_step False n (after_tasks False n j) (Whole j)
      ((after_tasks False n j)\<lparr>g_task := (\<lambda>i. if i < j then Ended else NotRun)(j := Defers)\<rparr>)"
    using task_whole [where S = "after_tasks False n j" and i = j and n = n and g = False] assms(1)
    by (simp add: after_tasks_def scheduled_def)
  from does_own [OF run this] show ?thesis by simp
qed

text \<open>What a task does in a run, and its call of \<open>done\<close>.\<close>

definition task_acts :: "bool \<Rightarrow> nat \<Rightarrow> act list" where
  "task_acts g j = (if g then [Begins j, Speaks j] else [Whole j])"

lemma of_nat_pred:
  assumes "j < n" "Suc n < 2 ^ 31"
  shows "(of_nat (n - j) :: u32) - 1 = of_nat (n - Suc j)" "(of_nat (n - Suc j) :: u32) = 0 \<longleftrightarrow> n = Suc j"
proof -
  have "n - j = Suc (n - Suc j)" using assms(1) by simp
  then show "(of_nat (n - j) :: u32) - 1 = of_nat (n - Suc j)" by (simp del: of_nat_diff)
  have "unat (of_nat (n - Suc j) :: u32) = n - Suc j" using assms(2) by (simp add: unat_of_nat del: of_nat_diff)
  then show "(of_nat (n - Suc j) :: u32) = 0 \<longleftrightarrow> n = Suc j"
    using assms(1) unat_eq_0 [of "of_nat (n - Suc j) :: u32"] by linarith
qed

lemma task_round:
  assumes "j < n" and n: "Suc n < 2 ^ 31" and run: "gate_does g n S xs (after_tasks g n j)"
  shows "gate_does g n S (xs @ task_acts g j) (after_tasks g n (Suc j))"
proof -
  let ?ts = "\<lambda>i. if i < j then Ended else NotRun"
  let ?A = "(after_tasks g n j)\<lparr>g_task := ?ts(j := Defers)\<rparr>"
  have s0: "gate_does g n S (xs @ task_acts g j) ?A"
    using task_to_done [OF assms(1)] whole_to_done [OF assms(1)] run
    by (cases g) (simp_all add: task_acts_def)
  note count = of_nat_pred [OF assms(1) n]
  have ended: "?ts(j := Ended) = (\<lambda>i. if i < Suc j then Ended else NotRun)" by (auto simp: fun_eq_iff)
  show ?thesis
  proof (cases "Suc j = n")
    case False
    then have "gate_step g n ?A Silent (after_tasks g n (Suc j))"
      using task_done [of ?A j] count assms(1) ended by (simp add: after_tasks_def del: of_nat_diff)
    from does_silent [OF s0 this] show ?thesis .
  next
    case True
    let ?B = "\<lambda>l p. (after_tasks g n n)\<lparr>g_group := idle_event True l ((\<lambda>_. Away)(j := p)), g_task := ?ts(j := Notifies)\<rparr>"
    note call = idle_call [OF less_SucI [OF assms(1)]]
    have "gate_step g n ?A Silent (?B None Setter)"
      using task_done_last [of ?A j] count True by (simp add: after_tasks_def del: of_nat_diff)
    note s1 = does_silent [OF s0 this]
    have "gate_step g n (?B None Setter) Silent (?B (Some j) Notifying)"
      using task_notifies [where S = "?B None Setter" and n = n and g = g and i = j] call(4) by (simp add: after_tasks_def)
    note s2 = does_silent [OF s1 this]
    have "gate_step g n (?B (Some j) Notifying) Silent (?B (Some j) Holding)"
      using task_notifies [where S = "?B (Some j) Notifying" and n = n and g = g and i = j] call(5) by (simp add: after_tasks_def)
    note s3 = does_silent [OF s2 this]
    have "gate_step g n (?B (Some j) Holding) Silent (after_tasks g n n)"
      using task_ends [where S = "?B (Some j) Holding" and n = n and g = g and i = j] call(3) ended True by (simp add: after_tasks_def)
    from does_silent [OF s3 this] show ?thesis using True by simp
  qed
qed

lemma main_round:
  assumes run: "gate_does g n S xs (after_tasks g n n)"
  shows "gate_does g n S (xs @ [Last]) ((after_tasks g n n)\<lparr>g_main := Exits\<rparr>)"
proof -
  let ?B = "\<lambda>l p m. (after_tasks g n n)\<lparr>g_group := idle_event True l p, g_main := m\<rparr>"
  let ?p = "(\<lambda>_. Away)(n := Holding)"
  note call = idle_call [OF lessI [of n]]
  have "gate_step g n (after_tasks g n n) Silent (?B (Some n) ?p GroupWaits)"
    using main_waits [where S = "after_tasks g n n" and n = n and g = g and r = False] call(1) by (simp add: after_tasks_def)
  note s1 = does_silent [OF run this]
  have "gate_step g n (?B (Some n) ?p GroupWaits) Silent (?B (Some n) ?p GroupWoken)"
    using main_waits [where S = "?B (Some n) ?p GroupWaits" and n = n and g = g and r = True] call(2) by (simp add: after_tasks_def)
  note s2 = does_silent [OF s1 this]
  have "gate_step g n (?B (Some n) ?p GroupWoken) Silent (?B None (\<lambda>_. Away) Prints)"
    using main_unlocks [where S = "?B (Some n) ?p GroupWoken" and n = n and g = g] call(3) by (simp add: after_tasks_def)
  note s3 = does_silent [OF s2 this]
  have "gate_step g n (?B None (\<lambda>_. Away) Prints) Last ((after_tasks g n n)\<lparr>g_main := Exits\<rparr>)"
    using main_prints [where S = "?B None (\<lambda>_. Away) Prints" and n = n and g = g] by (simp add: after_tasks_def)
  from does_own [OF s3 this] show ?thesis by simp
qed

definition acts_in_order :: "bool \<Rightarrow> nat \<Rightarrow> act list" where
  "acts_in_order g n = (if g then [Opens] else []) @ concat (map (task_acts g) [0..<n]) @ [Last]"

lemma sequential_run:
  assumes "0 < n" "Suc n < 2 ^ 31"
  shows "gate_does g n (gate_start n (os_fresh []) (os_fresh [])) (acts_in_order g n)
    ((after_tasks g n n)\<lparr>g_main := Exits\<rparr>)"
proof -
  let ?o = "if g then [Opens] else []"
  have "gate_does g n (gate_start n (os_fresh []) (os_fresh []))
      (?o @ concat (map (task_acts g) [0..<j])) (after_tasks g n j)" if "j \<le> n" for j
    using that
  proof (induction j)
    case 0
    then show ?case using signalled_first [OF assms(1)] gateless_first [OF assms(1)] by (cases g) simp_all
  next
    case (Suc j)
    then show ?case using task_round [of j n g _ "?o @ concat (map (task_acts g) [0..<j])"] assms(2)
      by simp
  qed
  from main_round [OF this [OF le_refl]] show ?thesis by (simp add: acts_in_order_def)
qed

end
