(* ===== verification/Group_Scope.thy ===== *)
theory Group_Scope
  imports Gate_Group
begin

text \<open>
  The end of life of a wait group that the tasks refer to. The benchmarks of
  \<open>example/benchmark.cpp\<close> keep \<open>wg\<close> in a local variable of the function that waits for it, and
  the tasks capture it by reference. \<open>WaitGroup::done\<close> (\<open>include/hfts/waitgroup.hpp\<close>) brings
  the count to 0 first and locks \<open>data->mutex\<close> afterwards; in between \<open>wait\<close> may return, and the
  function destroys the group. The task then uses an object that is gone.
\<close>

text \<open>\<open>sc_fault\<close>: a task has used the group after its destruction, and nothing is said of what follows.\<close>

record 'b scope =
  sc_bench :: 'b
  sc_live :: bool
  sc_fault :: bool

definition scope_start :: "'b \<Rightarrow> 'b scope" where
  "scope_start B = \<lparr>sc_bench = B, sc_live = True, sc_fault = False\<rparr>"

text \<open>
  \<open>step\<close> is a run inside the function, \<open>gate_of\<close> its event and group, and \<open>n\<close> the number of
  tasks. A task in the stage \<open>Notifies\<close> is in \<open>done\<close> with the count at 0, before the unlock of the
  mutex; every step of it uses the group. The other tasks have returned from \<open>done\<close> or, before
  the main thread exits, keep the count above 0.
\<close>

inductive scope_step ::
  "('b \<Rightarrow> 'b \<Rightarrow> bool) \<Rightarrow> ('b \<Rightarrow> gate) \<Rightarrow> nat \<Rightarrow> 'b scope \<Rightarrow> 'b scope \<Rightarrow> bool" for step gate_of n where
  scope_runs: "sc_live S \<Longrightarrow> step (sc_bench S) B \<Longrightarrow> scope_step step gate_of n S (S\<lparr>sc_bench := B\<rparr>)"
| scope_leaves: "sc_live S \<Longrightarrow> g_main (gate_of (sc_bench S)) = Exits \<Longrightarrow>
    scope_step step gate_of n S (S\<lparr>sc_live := False\<rparr>)"
| scope_touches: "\<not> sc_live S \<Longrightarrow> \<not> sc_fault S \<Longrightarrow> i < n \<Longrightarrow> g_task (gate_of (sc_bench S)) i = Notifies \<Longrightarrow>
    scope_step step gate_of n S (S\<lparr>sc_fault := True\<rparr>)"

text \<open>A run is one inside the function, and at most two steps more.\<close>

lemma scope_run:
  assumes "(scope_step step gate_of n ^^ k) (scope_start B) S"
  shows "\<exists>m. (step ^^ m) B (sc_bench S) \<and> k = m + of_bool (\<not> sc_live S) + of_bool (sc_fault S) \<and>
    (\<not> sc_live S \<longrightarrow> g_main (gate_of (sc_bench S)) = Exits) \<and>
    (sc_fault S \<longrightarrow> \<not> sc_live S \<and> (\<exists>i<n. g_task (gate_of (sc_bench S)) i = Notifies))"
  using assms
proof (induction k arbitrary: S)
  case 0
  then show ?case by (auto simp: scope_start_def)
next
  case (Suc k)
  then obtain T where T: "(scope_step step gate_of n ^^ k) (scope_start B) T" "scope_step step gate_of n T S" by auto
  obtain m where m: "(step ^^ m) B (sc_bench T)" "k = m + of_bool (\<not> sc_live T) + of_bool (sc_fault T)"
    "\<not> sc_live T \<longrightarrow> g_main (gate_of (sc_bench T)) = Exits"
    "sc_fault T \<longrightarrow> \<not> sc_live T \<and> (\<exists>i<n. g_task (gate_of (sc_bench T)) i = Notifies)"
    using Suc.IH [OF T(1)] by blast
  from T(2) show ?case
  proof (cases rule: scope_step.cases)
    case (scope_runs C)
    then have "(step ^^ Suc m) B (sc_bench S)" using m(1) by auto
    then show ?thesis using scope_runs m by (intro exI [of _ "Suc m"]) auto
  next
    case scope_leaves
    then show ?thesis using m by (intro exI [of _ m]) auto
  next
    case (scope_touches i)
    then show ?thesis using m by (intro exI [of _ m]) auto
  qed
qed

text \<open>Runs of the function, and its two steps more.\<close>

lemma scope_follows:
  assumes "step\<^sup>*\<^sup>* B C"
  shows "(scope_step step gate_of n)\<^sup>*\<^sup>* (scope_start B) (scope_start C)"
  using assms
proof induction
  case (step C D)
  have "scope_step step gate_of n (scope_start C) (scope_start D)"
    using scope_runs [where S = "scope_start C" and B = D] step.hyps(2) by (simp add: scope_start_def)
  with step.IH show ?case by simp
qed simp

lemma scope_left:
  assumes "step\<^sup>*\<^sup>* B C" "g_main (gate_of C) = Exits"
  shows "(scope_step step gate_of n)\<^sup>*\<^sup>* (scope_start B) \<lparr>sc_bench = C, sc_live = False, sc_fault = False\<rparr>"
proof -
  have "scope_step step gate_of n (scope_start C) \<lparr>sc_bench = C, sc_live = False, sc_fault = False\<rparr>"
    using scope_leaves [where S = "scope_start C"] assms(2) by (simp add: scope_start_def)
  with scope_follows [OF assms(1)] show ?thesis by (rule rtranclp.rtrancl_into_rtrancl)
qed

lemma scope_faults:
  assumes "step\<^sup>*\<^sup>* B C" "g_main (gate_of C) = Exits" "i < n" "g_task (gate_of C) i = Notifies"
  shows "(scope_step step gate_of n)\<^sup>*\<^sup>* (scope_start B) \<lparr>sc_bench = C, sc_live = False, sc_fault = True\<rparr>"
proof -
  have "scope_step step gate_of n \<lparr>sc_bench = C, sc_live = False, sc_fault = False\<rparr>
      \<lparr>sc_bench = C, sc_live = False, sc_fault = True\<rparr>"
    using scope_touches [where S = "\<lparr>sc_bench = C, sc_live = False, sc_fault = False\<rparr>"] assms(3,4) by simp
  with scope_left [where step = step and gate_of = gate_of, OF assms(1,2)] show ?thesis
    by (rule rtranclp.rtrancl_into_rtrancl)
qed

text \<open>Where the function has returned, each task has returned too or is about to use the group.\<close>

lemma exits_tasks:
  assumes ok: "gate_ok g n G" and "g_main G = Exits" "i < n" "g_task G i \<noteq> Notifies"
  shows "g_task G i = Ended"
proof -
  have inv: "truth_ok g n G" using ok by (simp add: gate_ok_def)
  have "pending n (g_task G) = {}"
    using truth_okD(2,7,8) [OF inv] assms(2) pending_zero [of n "g_task G"] by simp
  then show ?thesis using assms(3,4) by (auto simp: pending_def)
qed

lemma scope_stuck:
  assumes stuck: "\<nexists>T. scope_step step gate_of n S T"
    and ends: "sc_live S \<Longrightarrow> \<nexists>C. step (sc_bench S) C \<Longrightarrow> g_main (gate_of (sc_bench S)) = Exits"
    and ok: "gate_ok g n (gate_of (sc_bench S))" and left: "\<not> sc_live S \<longrightarrow> g_main (gate_of (sc_bench S)) = Exits"
  shows "\<not> sc_live S \<and> (sc_fault S \<or> (\<forall>i<n. g_task (gate_of (sc_bench S)) i = Ended))"
proof -
  have dead: "\<not> sc_live S"
  proof
    assume live: "sc_live S"
    then have "\<nexists>C. step (sc_bench S) C" using stuck scope_runs [where S = S and step = step] by blast
    from ends [OF live this] live show False using stuck scope_leaves [where S = S and step = step] by blast
  qed
  moreover have "g_task (gate_of (sc_bench S)) i = Ended" if "\<not> sc_fault S" "i < n" for i
    using exits_tasks [OF ok _ that(2)] left dead stuck scope_touches [OF dead that(1,2)] by blast
  ultimately show ?thesis by blast
qed

text \<open>All tasks but the last one have run, and the last one is before its call of \<open>done\<close>.\<close>

lemma to_last_done:
  assumes "0 < n" "Suc n < 2 ^ 31"
  obtains ys where "gate_does g n (gate_start n (os_fresh []) (os_fresh [])) ys
    ((after_tasks g n (n - 1))\<lparr>g_task := (\<lambda>i. if i < n - 1 then Ended else NotRun)(n - 1 := Defers)\<rparr>)"
proof -
  let ?S = "gate_start n (os_fresh []) (os_fresh [])"
  have j: "n - 1 < n" using assms(1) by simp
  have "\<exists>xs. gate_does g n ?S xs (after_tasks g n j)" if "j \<le> n" for j
    using that
  proof (induction j)
    case 0
    then show ?case using signalled_first [OF assms(1)] gateless_first [OF assms(1)] by (cases g) auto
  next
    case (Suc j)
    then obtain xs where "gate_does g n ?S xs (after_tasks g n j)" by auto
    from task_round [OF _ assms(2) this] Suc.prems show ?case by auto
  qed
  from this [of "n - 1"] obtain xs where xs: "gate_does g n ?S xs (after_tasks g n (n - 1))" by auto
  show ?thesis
  proof (cases g)
    case True
    show ?thesis by (rule that) (use task_to_done [OF j, of ?S xs] xs True in simp)
  next
    case False
    show ?thesis by (rule that) (use whole_to_done [OF j, of ?S xs] xs False in simp)
  qed
qed

text \<open>
  A run in which the main thread exits while the last task is in \<open>done\<close>, between the count and the
  mutex.
\<close>

lemma early_run:
  assumes "0 < n" "Suc n < 2 ^ 31"
  shows "\<exists>xs G. gate_does g n (gate_start n (os_fresh []) (os_fresh [])) xs G \<and> g_main G = Exits \<and>
    g_task G (n - 1) = Notifies"
proof -
  let ?j = "n - 1" and ?S = "gate_start n (os_fresh []) (os_fresh [])"
  have j: "?j < n" using assms(1) by simp
  obtain ys where s0: "gate_does g n ?S ys
      ((after_tasks g n ?j)\<lparr>g_task := (\<lambda>i. if i < ?j then Ended else NotRun)(?j := Defers)\<rparr>)"
    by (rule to_last_done [OF assms])
  let ?ts = "(\<lambda>i. if i < ?j then Ended else NotRun)(?j := Notifies)"
  let ?pl = "(\<lambda>_. Away)(?j := Setter)"
  let ?B = "\<lambda>l p m. (after_tasks g n n)\<lparr>g_group := idle_event True l p, g_task := ?ts, g_main := m\<rparr>"
  have "gate_step g n ((after_tasks g n ?j)\<lparr>g_task := (\<lambda>i. if i < ?j then Ended else NotRun)(?j := Defers)\<rparr>) Silent
      (?B None ?pl GroupWaits)"
    using task_done_last [of "(after_tasks g n ?j)\<lparr>g_task := (\<lambda>i. if i < ?j then Ended else NotRun)(?j := Defers)\<rparr>" ?j]
      of_nat_pred [OF j assms(2)] assms(1)
    by (simp add: after_tasks_def del: of_nat_diff)
  note s1 = does_silent [OF s0 this]
  have "fiber_step (Suc n) (idle_event True None ?pl) (idle_event True (Some n) (?pl(n := Holding)))"
    using cstep.acquire [of n "Suc n" "idle_event True None ?pl"] assms(1) by simp
  from wait_locks [OF _ this, of n]
  have "wait_call (Suc n) n (idle_event True None ?pl) False (idle_event True (Some n) (?pl(n := Holding)))"
    using assms(1) by simp
  then have "gate_step g n (?B None ?pl GroupWaits) Silent (?B (Some n) (?pl(n := Holding)) GroupWaits)"
    using main_waits [where S = "?B None ?pl GroupWaits" and n = n and g = g and r = False] by (simp add: after_tasks_def)
  note s2 = does_silent [OF s1 this]
  have "wait_call (Suc n) n (idle_event True (Some n) (?pl(n := Holding))) True (idle_event True (Some n) (?pl(n := Holding)))"
    by (rule wait_at_once) simp_all
  then have "gate_step g n (?B (Some n) (?pl(n := Holding)) GroupWaits) Silent (?B (Some n) (?pl(n := Holding)) GroupWoken)"
    using main_waits [where S = "?B (Some n) (?pl(n := Holding)) GroupWaits" and n = n and g = g and r = True]
    by (simp add: after_tasks_def)
  note s3 = does_silent [OF s2 this]
  have "unlock_call (Suc n) n (idle_event True (Some n) (?pl(n := Holding))) (idle_event True None (?pl(n := Away)))"
    using unlocks [of n "Suc n" "idle_event True (Some n) (?pl(n := Holding))"] by simp
  then have "gate_step g n (?B (Some n) (?pl(n := Holding)) GroupWoken) Silent (?B None (?pl(n := Away)) Prints)"
    using main_unlocks [where S = "?B (Some n) (?pl(n := Holding)) GroupWoken" and n = n and g = g]
    by (simp add: after_tasks_def)
  note s4 = does_silent [OF s3 this]
  have "gate_step g n (?B None (?pl(n := Away)) Prints) Last (?B None (?pl(n := Away)) Exits)"
    using main_prints [where S = "?B None (?pl(n := Away)) Prints" and n = n and g = g] by (simp add: after_tasks_def)
  from does_own [OF s4 this] show ?thesis by fastforce
qed

end
