(* ===== verification/Hello.thy ===== *)
theory Hello
  imports Gate_Group
begin

text \<open>
  The example \<open>example/hello_task.cpp\<close>: ten tasks that wait for one \<open>Event\<close> and then call
  \<open>done\<close> of one \<open>WaitGroup\<close>, and the main thread that signals the event and waits for the
  group: the machine of \<open>Gate_Group\<close>, with the lines that are printed.
\<close>

subsection \<open>The program\<close>

definition numTasks :: nat where
  "numTasks = 10"

datatype hello_line = TaskWaiting nat | TaskHello nat | AllSaid

record hello =
  h_gate :: gate
  h_lines :: "hello_line list"

definition hello_start :: "os \<Rightarrow> os \<Rightarrow> hello" where
  "hello_start s t = \<lparr>h_gate = gate_start numTasks s t, h_lines = []\<rparr>"

text \<open>What is printed before and after the wait for the event, and after the wait for the group.\<close>

fun prints :: "act \<Rightarrow> hello_line list" where
  "prints (Begins i) = [TaskWaiting i]"
| "prints (Speaks i) = [TaskHello i]"
| "prints Last = [AllSaid]"
| "prints _ = []"

inductive hello_step :: "hello \<Rightarrow> hello \<Rightarrow> bool" where
  hello_acts: "gate_step True numTasks (h_gate S) x G \<Longrightarrow>
    hello_step S \<lparr>h_gate = G, h_lines = h_lines S @ prints x\<rparr>"

subsection \<open>What is printed\<close>

fun about :: "nat \<Rightarrow> hello_line \<Rightarrow> bool" where
  "about i (TaskWaiting j) \<longleftrightarrow> i = j" | "about i (TaskHello j) \<longleftrightarrow> i = j" | "about i AllSaid \<longleftrightarrow> False"

definition greeting_lines :: "nat \<Rightarrow> nat \<Rightarrow> hello_line list" where
  "greeting_lines p i = take p [TaskWaiting i, TaskHello i]"

definition lines_ok :: "hello \<Rightarrow> bool" where
  "lines_ok S \<longleftrightarrow>
     (\<forall>i. filter (about i) (h_lines S) = greeting_lines (parts (h_gate S) i) i) \<and>
     (\<exists>ls. AllSaid \<notin> set ls \<and> h_lines S = ls @ (if g_main (h_gate S) = Exits then [AllSaid] else []))"

lemma lines_ok_step:
  assumes step: "hello_step S T" and ok: "gate_ok True numTasks (h_gate S)" "lines_ok S"
  shows "lines_ok T"
proof -
  obtain x G where T: "T = \<lparr>h_gate = G, h_lines = h_lines S @ prints x\<rparr>"
    and x: "gate_step True numTasks (h_gate S) x G"
    using step by (auto elim: hello_step.cases)
  obtain ls where ls: "AllSaid \<notin> set ls" "h_lines S = ls @ (if g_main (h_gate S) = Exits then [AllSaid] else [])"
    using ok(2) by (auto simp: lines_ok_def)
  have places: "places_ok numTasks (h_gate S)" using ok(1) by (simp add: gate_ok_def)
  note parts = act_parts [OF x places] and main = act_main [OF x]
  have early: "g_main (h_gate S) \<noteq> Exits" if "i < numTasks" "parts (h_gate S) i \<noteq> 2" for i
    using last_parts [OF ok(1) _ that(1)] that(2) by auto
  have "filter (about i) (h_lines S @ prints x) = greeting_lines (parts G i) i" for i
    using ok(2) parts by (cases x) (auto simp: lines_ok_def greeting_lines_def)
  moreover have "\<exists>ls. AllSaid \<notin> set ls \<and> h_lines S @ prints x = ls @ (if g_main G = Exits then [AllSaid] else [])"
  proof (cases "x = Last")
    case True
    then show ?thesis using ls main by (intro exI [of _ ls]) auto
  next
    case False
    have "prints x = [] \<or> g_main (h_gate S) \<noteq> Exits"
      using parts early False by (cases x) (simp_all, fastforce+)
    moreover have "AllSaid \<notin> set (prints x)" using False by (cases x) auto
    ultimately show ?thesis using ls main(1) False by (intro exI [of _ "ls @ prints x"]) auto
  qed
  ultimately show ?thesis by (simp add: lines_ok_def T)
qed

lemma hello_run:
  assumes "os_inv s" "os_inv t" "(hello_step ^^ k) (hello_start s t) S"
  shows "gate_ok True numTasks (h_gate S) \<and> lines_ok S \<and> gate_rank numTasks (h_gate S) + k \<le> 501"
  using assms(3)
proof (induction k arbitrary: S)
  case 0
  then have S: "S = hello_start s t" by simp
  have "lines_ok S" by (simp add: S hello_start_def lines_ok_def greeting_lines_def parts_def gate_start_def)
  moreover have "gate_ok True numTasks (h_gate S)"
    using gate_start_ok [OF assms(1,2), of numTasks] by (simp add: S hello_start_def numTasks_def)
  moreover have "gate_rank numTasks (h_gate S) = 501"
    by (simp add: S hello_start_def gate_start_rank numTasks_def)
  ultimately show ?case by simp
next
  case (Suc k)
  then obtain U where U: "(hello_step ^^ k) (hello_start s t) U" "hello_step U S" by auto
  from Suc.IH [OF U(1)] have ok: "gate_ok True numTasks (h_gate U)" "lines_ok U" "gate_rank numTasks (h_gate U) + k \<le> 501"
    by simp_all
  from U(2) obtain x where "gate_step True numTasks (h_gate U) x (h_gate S)" by (cases rule: hello_step.cases) auto
  from gate_step_ok [OF this ok(1)] lines_ok_step [OF U(2) ok(1,2)] ok(3) show ?case by auto
qed

text \<open>
  C10. The example program does what its comments say, in whatever order its threads run. Each task prints
  that it waits and later its greeting, and the greeting only after the event has been signalled; the last
  line comes after all of them. Every run ends, after 501 steps at most, and where it ends the main
  thread has printed the last line and every task has returned, unless an allocation of a list entry has
  failed. So no wake-up of the event or of the wait group is lost.
\<close>

theorem hello_ends:
  assumes "os_inv s" "os_inv t" "(hello_step ^^ k) (hello_start s t) S"
  shows "k \<le> 501 \<and>
    (\<forall>i<numTasks. filter (about i) (h_lines S) \<in> {[], [TaskWaiting i], [TaskWaiting i, TaskHello i]} \<and>
      (TaskHello i \<in> set (h_lines S) \<longrightarrow> m_pred (g_event (h_gate S)))) \<and>
    (g_main (h_gate S) = Exits \<longrightarrow> (\<exists>ls. h_lines S = ls @ [AllSaid] \<and>
      (\<forall>i<numTasks. filter (about i) ls = [TaskWaiting i, TaskHello i]))) \<and>
    ((\<nexists>T. hello_step S T) \<and> no_entry_missing (h_gate S) \<longrightarrow>
      g_main (h_gate S) = Exits \<and> (\<forall>i<numTasks. g_task (h_gate S) i = Ended))"
proof -
  have ok: "gate_ok True numTasks (h_gate S)" "lines_ok S" "k \<le> 501" using hello_run [OF assms] by simp_all
  have lines: "filter (about i) (h_lines S) = greeting_lines (parts (h_gate S) i) i" for i
    using ok(2) by (simp add: lines_ok_def)
  have task: "filter (about i) (h_lines S) \<in> {[], [TaskWaiting i], [TaskWaiting i, TaskHello i]} \<and>
      (TaskHello i \<in> set (h_lines S) \<longrightarrow> m_pred (g_event (h_gate S)))" for i
  proof -
    have mem: "TaskHello i \<in> set (h_lines S) \<longleftrightarrow> TaskHello i \<in> set (greeting_lines (parts (h_gate S) i) i)"
      by (simp flip: lines)
    consider "parts (h_gate S) i = 0" | "parts (h_gate S) i = 1" | "parts (h_gate S) i = 2"
      by (cases "g_task (h_gate S) i") (simp_all add: parts_def)
    then show ?thesis unfolding lines mem
      by cases (simp_all add: greeting_lines_def passed_signalled [OF ok(1)])
  qed
  have last: "\<exists>ls. h_lines S = ls @ [AllSaid] \<and>
      (\<forall>i<numTasks. filter (about i) ls = [TaskWaiting i, TaskHello i])" if exits: "g_main (h_gate S) = Exits"
  proof -
    obtain ls where "h_lines S = ls @ [AllSaid]" using ok(2) exits by (auto simp: lines_ok_def)
    then show ?thesis using lines last_parts [OF ok(1)] exits
      by (intro exI [of _ ls]) (auto simp: greeting_lines_def)
  qed
  have "\<not> gate_can True numTasks (h_gate S)" if "\<nexists>T. hello_step S T" using that by (auto intro: hello_acts)
  then show ?thesis using ok(3) task last stuck_finished [OF ok(1)] by blast
qed

text \<open>A run to the end: the main thread signals first, and then the tasks run one after the other.\<close>

lemma hello_does:
  "gate_does True numTasks G xs G' \<Longrightarrow>
   hello_step\<^sup>*\<^sup>* \<lparr>h_gate = G, h_lines = []\<rparr> \<lparr>h_gate = G', h_lines = concat (map prints xs)\<rparr>"
proof (induction rule: gate_does.induct)
  case (does_act xs U x T)
  have "prints x = concat (map prints (own x))" by (cases x) simp_all
  with hello_acts [of "\<lparr>h_gate = U, h_lines = concat (map prints xs)\<rparr>" x T] does_act show ?case
    by (simp add: rtranclp.rtrancl_into_rtrancl)
qed simp

definition all_done :: hello where
  "all_done = \<lparr>h_gate = (after_tasks True numTasks numTasks)\<lparr>g_main := Exits\<rparr>,
     h_lines = concat (map prints (acts_in_order True numTasks))\<rparr>"

theorem hello_ends_witness:
  "\<exists>k. (hello_step ^^ k) (hello_start (os_fresh []) (os_fresh [])) all_done \<and> k \<le> 501 \<and>
    (\<exists>ls. h_lines all_done = ls @ [AllSaid] \<and>
      (\<forall>i<numTasks. filter (about i) ls = [TaskWaiting i, TaskHello i]))"
proof -
  have "hello_step\<^sup>*\<^sup>* (hello_start (os_fresh []) (os_fresh [])) all_done"
    using hello_does [OF sequential_run [of numTasks True]]
    by (simp add: hello_start_def all_done_def numTasks_def)
  then obtain k where run: "(hello_step ^^ k) (hello_start (os_fresh []) (os_fresh [])) all_done"
    using rtranclp_imp_relpowp by metis
  have "os_inv (os_fresh [])" by (simp add: os_inv_def os_fresh_def)
  from hello_ends [OF this this run] run show ?thesis by (intro exI [of _ k]) (simp add: all_done_def)
qed

end
