(* ===== verification/Pool_Machine.thy ===== *)
theory Pool_Machine
  imports Benchmark
begin

text \<open>
  The two benchmarks of \<open>example/benchmark.cpp\<close> that run on \<open>PlainThreadPool\<close>, as one
  step relation: the main thread in \<open>runPlainPoolTaskBenchmark\<close> or
  \<open>runPlainPoolBlockingBenchmark\<close> with the constructor and the destructor of the pool, and the
  worker threads in \<open>workerLoop\<close> with the tasks they run. A step is a critical section or the
  code between two of them; \<open>std::condition_variable\<close> blocks, wakes one or all of the threads that
  are blocked, or wakes a thread for no reason (relation \<open>spurious\<close>).
\<close>

subsection \<open>The state\<close>

text \<open>The arguments of the two functions, and which of the two it is.\<close>

record bench_run =
  br_workers :: int32
  br_tasks :: u32
  br_work :: int32
  br_blocking :: bool

text \<open>Where a worker thread stands; \<open>t\<close> is the task it runs.\<close>

datatype pool_place =
    Unstarted
  | Top              \<comment> \<open>about to take the mutex and to test the predicate of \<open>ready\<close>\<close>
  | AsleepReady      \<comment> \<open>blocked on \<open>ready\<close>\<close>
  | Runs nat         \<comment> \<open>before the first \<open>doWork\<close>\<close>
  | Enters nat       \<comment> \<open>before the lock of \<open>gateMutex\<close>\<close>
  | AtGate nat       \<comment> \<open>woken, about to test \<open>released\<close>\<close>
  | AsleepGate nat   \<comment> \<open>blocked on \<open>gateCv\<close>\<close>
  | Passes nat       \<comment> \<open>before \<open>parked.fetch_sub\<close>\<close>
  | Unparked nat     \<comment> \<open>before the second \<open>doWork\<close>\<close>
  | Finishes nat     \<comment> \<open>the task has returned\<close>
  | Gone             \<comment> \<open>out of \<open>workerLoop\<close>\<close>

datatype pool_main =
    Starts nat       \<comment> \<open>threads started so far\<close>
  | Enqueues nat     \<comment> \<open>tasks enqueued so far\<close>
  | NotifiesOne nat  \<comment> \<open>before \<open>ready.notify_one\<close> for this task\<close>
  | Loads            \<comment> \<open>before \<open>parked.load\<close>\<close>
  | OpensGate            \<comment> \<open>before \<open>released = true\<close>\<close>
  | NotifiesGate     \<comment> \<open>before \<open>gateCv.notify_all\<close>\<close>
  | Awaits           \<comment> \<open>about to test the predicate of \<open>drained\<close>\<close>
  | AsleepDrained    \<comment> \<open>blocked on \<open>drained\<close>\<close>
  | Sums             \<comment> \<open>before \<open>sumValues\<close>\<close>
  | Shuts            \<comment> \<open>in the destructor, before \<open>shutdown = true\<close>\<close>
  | NotifiesReady    \<comment> \<open>before \<open>ready.notify_all\<close>\<close>
  | Joins nat        \<comment> \<open>threads joined so far\<close>
  | Returned

record pool_bench =
  b_pool :: "nat pool"
  b_place :: "nat \<Rightarrow> pool_place"
  b_main :: pool_main
  b_outputs :: "u64 list"
  b_released :: bool
  b_parked :: u32
  b_seen :: "u32 option"       \<comment> \<open>\<open>parkedBeforeRelease\<close>, once it is set\<close>
  b_checksum :: "u64 option"

definition n_threads :: "bench_run \<Rightarrow> nat" where
  "n_threads R = nat (sint (br_workers R))"

definition n_tasks :: "bench_run \<Rightarrow> nat" where
  "n_tasks R = unat (br_tasks R)"

definition pool_bench_start :: "bench_run \<Rightarrow> pool_bench" where
  "pool_bench_start R =
     \<lparr>b_pool = PlainThreadPool_new (br_workers R), b_place = (\<lambda>_. Unstarted), b_main = Starts 0,
      b_outputs = replicate (n_tasks R) 0, b_released = False, b_parked = 0, b_seen = None,
      b_checksum = None\<rparr>"

subsection \<open>The steps\<close>

text \<open>What the three \<open>notify_all\<close> do to a thread.\<close>

fun wake_ready :: "pool_place \<Rightarrow> pool_place" where
  "wake_ready AsleepReady = Top" | "wake_ready p = p"

fun wake_gate :: "pool_place \<Rightarrow> pool_place" where
  "wake_gate (AsleepGate t) = AtGate t" | "wake_gate p = p"

fun wake_main :: "pool_main \<Rightarrow> pool_main" where
  "wake_main AsleepDrained = Awaits" | "wake_main m = m"

abbreviation move :: "nat \<Rightarrow> pool_place \<Rightarrow> pool_bench \<Rightarrow> pool_bench" where
  "move a p S \<equiv> S\<lparr>b_place := (b_place S)(a := p)\<rparr>"

text \<open>Worker \<open>a\<close> in \<open>workerLoop\<close> and in its task.\<close>

inductive worker_step :: "bench_run \<Rightarrow> nat \<Rightarrow> pool_bench \<Rightarrow> pool_bench \<Rightarrow> bool" for R a where
  top_sleeps: "b_place S a = Top \<Longrightarrow> \<not> workerLoop_pred (b_pool S) \<Longrightarrow>
    worker_step R a S (move a AsleepReady S)"
| top_takes: "b_place S a = Top \<Longrightarrow> workerLoop_pred (b_pool S) \<Longrightarrow>
    workerLoop_take (b_pool S) = Inr (Some t, p) \<Longrightarrow>
    worker_step R a S (move a (Runs t) (S\<lparr>b_pool := p\<rparr>))"
| top_leaves: "b_place S a = Top \<Longrightarrow> workerLoop_pred (b_pool S) \<Longrightarrow>
    workerLoop_take (b_pool S) = Inr (None, p) \<Longrightarrow>
    worker_step R a S (move a Gone (S\<lparr>b_pool := p\<rparr>))"
| runs_task: "b_place S a = Runs t \<Longrightarrow> \<not> br_blocking R \<Longrightarrow>
    worker_step R a S (move a (Finishes t) (S\<lparr>b_outputs := task_body (br_work R) t (b_outputs S)\<rparr>))"
| runs_first: "b_place S a = Runs t \<Longrightarrow> br_blocking R \<Longrightarrow>
    worker_step R a S
      (move a (Enters t) (S\<lparr>b_outputs := blocking_body (br_work R) (True, t) (b_outputs S)\<rparr>))"
| enters: "b_place S a = Enters t \<Longrightarrow>
    worker_step R a S (move a (if b_released S then Passes t else AsleepGate t)
      (S\<lparr>b_parked := b_parked S + 1\<rparr>))"
| checks: "b_place S a = AtGate t \<Longrightarrow>
    worker_step R a S (move a (if b_released S then Passes t else AsleepGate t) S)"
| passes: "b_place S a = Passes t \<Longrightarrow>
    worker_step R a S (move a (Unparked t) (S\<lparr>b_parked := b_parked S - 1\<rparr>))"
| runs_second: "b_place S a = Unparked t \<Longrightarrow>
    worker_step R a S
      (move a (Finishes t) (S\<lparr>b_outputs := blocking_body (br_work R) (False, t) (b_outputs S)\<rparr>))"
| finishes: "b_place S a = Finishes t \<Longrightarrow> workerLoop_finish t (b_pool S) = (drained, p) \<Longrightarrow>
    worker_step R a S (move a Top
      (S\<lparr>b_pool := p, b_main := if drained then wake_main (b_main S) else b_main S\<rparr>))"

text \<open>The main thread.\<close>

inductive main_step :: "bench_run \<Rightarrow> pool_bench \<Rightarrow> pool_bench \<Rightarrow> bool" for R where
  starts: "b_main S = Starts i \<Longrightarrow> i < n_threads R \<Longrightarrow>
    main_step R S (move i Top (S\<lparr>b_main := Starts (Suc i)\<rparr>))"
| started: "b_main S = Starts (n_threads R) \<Longrightarrow> main_step R S (S\<lparr>b_main := Enqueues 0\<rparr>)"
| enqueues: "b_main S = Enqueues i \<Longrightarrow> i < n_tasks R \<Longrightarrow>
    main_step R S (S\<lparr>b_pool := pool_enqueue i (b_pool S), b_main := NotifiesOne i\<rparr>)"
| notifies_one: "b_main S = NotifiesOne i \<Longrightarrow> a < n_threads R \<Longrightarrow> b_place S a = AsleepReady \<Longrightarrow>
    main_step R S (move a Top (S\<lparr>b_main := Enqueues (Suc i)\<rparr>))"
| notifies_nobody: "b_main S = NotifiesOne i \<Longrightarrow> \<forall>a<n_threads R. b_place S a \<noteq> AsleepReady \<Longrightarrow>
    main_step R S (S\<lparr>b_main := Enqueues (Suc i)\<rparr>)"
| enqueued: "b_main S = Enqueues (n_tasks R) \<Longrightarrow>
    main_step R S (S\<lparr>b_main := if br_blocking R then Loads else Awaits\<rparr>)"
| loads: "b_main S = Loads \<Longrightarrow> main_step R S (S\<lparr>b_seen := Some (b_parked S), b_main := OpensGate\<rparr>)"
| opens: "b_main S = OpensGate \<Longrightarrow> main_step R S (S\<lparr>b_released := True, b_main := NotifiesGate\<rparr>)"
| notifies_gate: "b_main S = NotifiesGate \<Longrightarrow>
    main_step R S (S\<lparr>b_place := \<lambda>a. wake_gate (b_place S a), b_main := Awaits\<rparr>)"
| awaits: "b_main S = Awaits \<Longrightarrow>
    main_step R S (S\<lparr>b_main := if waitUntilIdle_pred (b_pool S) then Sums else AsleepDrained\<rparr>)"
| sums: "b_main S = Sums \<Longrightarrow>
    main_step R S (S\<lparr>b_checksum := Some (sumValues (b_outputs S)), b_main := Shuts\<rparr>)"
| shuts: "b_main S = Shuts \<Longrightarrow>
    main_step R S (S\<lparr>b_pool := pool_shutdown (b_pool S), b_main := NotifiesReady\<rparr>)"
| notifies_ready: "b_main S = NotifiesReady \<Longrightarrow>
    main_step R S (S\<lparr>b_place := \<lambda>a. wake_ready (b_place S a), b_main := Joins 0\<rparr>)"
| joins: "b_main S = Joins i \<Longrightarrow> i < n_threads R \<Longrightarrow> b_place S i = Gone \<Longrightarrow>
    main_step R S (S\<lparr>b_main := Joins (Suc i)\<rparr>)"
| joined: "b_main S = Joins (n_threads R) \<Longrightarrow> main_step R S (S\<lparr>b_main := Returned\<rparr>)"

definition pool_step :: "bench_run \<Rightarrow> pool_bench \<Rightarrow> pool_bench \<Rightarrow> bool" where
  "pool_step R S T \<longleftrightarrow> (\<exists>a<n_threads R. worker_step R a S T) \<or> main_step R S T"

text \<open>Returns of \<open>wait\<close> without a notification.\<close>

inductive spurious :: "bench_run \<Rightarrow> pool_bench \<Rightarrow> pool_bench \<Rightarrow> bool" for R where
  spurious_ready: "a < n_threads R \<Longrightarrow> b_place S a = AsleepReady \<Longrightarrow> spurious R S (move a Top S)"
| spurious_gate: "a < n_threads R \<Longrightarrow> b_place S a = AsleepGate t \<Longrightarrow> spurious R S (move a (AtGate t) S)"
| spurious_drained: "b_main S = AsleepDrained \<Longrightarrow> spurious R S (S\<lparr>b_main := Awaits\<rparr>)"

text \<open>A run of \<open>m\<close> steps, with \<open>s\<close> spurious returns.\<close>

inductive pool_trace :: "bench_run \<Rightarrow> nat \<Rightarrow> nat \<Rightarrow> pool_bench \<Rightarrow> bool" for R where
  trace_start: "pool_trace R 0 0 (pool_bench_start R)"
| trace_step: "pool_trace R m s S \<Longrightarrow> pool_step R S T \<Longrightarrow> pool_trace R (Suc m) s T"
| trace_spurious: "pool_trace R m s S \<Longrightarrow> spurious R S T \<Longrightarrow> pool_trace R m (Suc s) T"

subsection \<open>The invariant\<close>

lemma sum_upd:
  fixes f :: "'p \<Rightarrow> 'b :: comm_monoid_add" and k :: nat
  assumes "a < k"
  shows "(\<Sum>x<k. f ((g(a := p)) x)) + f (g a) = (\<Sum>x<k. f (g x)) + f p"
proof -
  have "(\<Sum>x\<in>{..<k} - {a}. f ((g(a := p)) x)) = (\<Sum>x\<in>{..<k} - {a}. f (g x))"
    by (intro sum.cong) simp_all
  then show ?thesis
    using sum.remove [of "{..<k}" a "\<lambda>x. f ((g(a := p)) x)"] sum.remove [of "{..<k}" a "\<lambda>x. f (g x)"] assms
    by (simp add: ac_simps)
qed

text \<open>The task a thread runs, and how far the main thread has come.\<close>

fun place_task :: "pool_place \<Rightarrow> nat option" where
  "place_task (Runs t) = Some t" | "place_task (Enters t) = Some t" | "place_task (AtGate t) = Some t"
| "place_task (AsleepGate t) = Some t" | "place_task (Passes t) = Some t"
| "place_task (Unparked t) = Some t" | "place_task (Finishes t) = Some t"
| "place_task _ = None"

definition held :: "pool_place \<Rightarrow> nat multiset" where
  "held p = (case place_task p of None \<Rightarrow> {#} | Some t \<Rightarrow> {#t#})"

fun parked_at :: "pool_place \<Rightarrow> nat" where
  "parked_at (AtGate t) = 1" | "parked_at (AsleepGate t) = 1" | "parked_at (Passes t) = 1"
| "parked_at _ = 0"

fun phase :: "pool_main \<Rightarrow> nat" where
  "phase (Starts i) = 0" | "phase (Enqueues i) = 1" | "phase (NotifiesOne i) = 1" | "phase Loads = 2"
| "phase OpensGate = 3" | "phase NotifiesGate = 4" | "phase Awaits = 5" | "phase AsleepDrained = 5"
| "phase Sums = 6" | "phase Shuts = 7" | "phase NotifiesReady = 8" | "phase (Joins i) = 9"
| "phase Returned = 10"

fun n_enqueued :: "nat \<Rightarrow> pool_main \<Rightarrow> nat" where
  "n_enqueued n (Starts i) = 0" | "n_enqueued n (Enqueues i) = i" | "n_enqueued n (NotifiesOne i) = Suc i"
| "n_enqueued n _ = n"

lemma wake_main_keeps [simp]: "phase (wake_main m) = phase m" "n_enqueued n (wake_main m) = n_enqueued n m"
  "wake_main m = Starts i \<longleftrightarrow> m = Starts i" "wake_main m = Joins i \<longleftrightarrow> m = Joins i"
  "wake_main m = NotifiesOne i \<longleftrightarrow> m = NotifiesOne i" "wake_main m = Returned \<longleftrightarrow> m = Returned"
  "wake_main m \<noteq> AsleepDrained"
  by (cases m; simp)+

text \<open>What a task writes.\<close>

definition first_output :: "bench_run \<Rightarrow> nat \<Rightarrow> u64" where
  "first_output R t = doWork (of_nat t + 1) (br_work R)"

definition final_output :: "bench_run \<Rightarrow> nat \<Rightarrow> u64" where
  "final_output R t =
     (if br_blocking R then first_output R t XOR doWork (of_nat t + 1000003) (br_work R) else first_output R t)"

fun output_ok :: "bench_run \<Rightarrow> u64 list \<Rightarrow> pool_place \<Rightarrow> bool" where
  "output_ok R xs (Enters t) \<longleftrightarrow> br_blocking R \<and> xs ! t = first_output R t"
| "output_ok R xs (AtGate t) \<longleftrightarrow> br_blocking R \<and> xs ! t = first_output R t"
| "output_ok R xs (AsleepGate t) \<longleftrightarrow> br_blocking R \<and> xs ! t = first_output R t"
| "output_ok R xs (Passes t) \<longleftrightarrow> br_blocking R \<and> xs ! t = first_output R t"
| "output_ok R xs (Unparked t) \<longleftrightarrow> br_blocking R \<and> xs ! t = first_output R t"
| "output_ok R xs (Finishes t) \<longleftrightarrow> xs ! t = final_output R t"
| "output_ok R xs _ \<longleftrightarrow> True"

definition all_held :: "nat \<Rightarrow> (nat \<Rightarrow> pool_place) \<Rightarrow> nat multiset" where
  "all_held k f = (\<Sum>a<k. held (f a))"

abbreviation held_in :: "bench_run \<Rightarrow> pool_bench \<Rightarrow> nat multiset" where
  "held_in R S \<equiv> all_held (n_threads R) (b_place S)"

definition tasks_ok :: "bench_run \<Rightarrow> pool_bench \<Rightarrow> bool" where
  "tasks_ok R S \<longleftrightarrow>
     n_enqueued (n_tasks R) (b_main S) \<le> n_tasks R \<and>
     pool_run (br_workers R) (mset [0..<n_enqueued (n_tasks R) (b_main S)]) (b_pool S) \<and>
     pl_running (b_pool S) = held_in R S"

definition outputs_ok :: "bench_run \<Rightarrow> pool_bench \<Rightarrow> bool" where
  "outputs_ok R S \<longleftrightarrow>
     length (b_outputs S) = n_tasks R \<and>
     (\<forall>a<n_threads R. output_ok R (b_outputs S) (b_place S a)) \<and>
     (\<forall>i\<in>#pl_done (b_pool S). b_outputs S ! i = final_output R i)"

definition stage_ok :: "bench_run \<Rightarrow> pool_bench \<Rightarrow> bool" where
  "stage_ok R S \<longleftrightarrow>
     (\<forall>i. b_main S = Starts i \<longrightarrow> i \<le> n_threads R) \<and>
     (\<forall>a<n_threads R. b_place S a = Unstarted \<longleftrightarrow> (\<exists>i\<le>a. b_main S = Starts i)) \<and>
     (\<forall>i. b_main S = Joins i \<longrightarrow> i \<le> n_threads R \<and> (\<forall>a<i. b_place S a = Gone)) \<and>
     (b_main S = Returned \<longrightarrow> (\<forall>a<n_threads R. b_place S a = Gone)) \<and>
     (pl_shutdown (b_pool S) \<longleftrightarrow> 8 \<le> phase (b_main S)) \<and>
     (\<forall>a<n_threads R. b_place S a = Gone \<longrightarrow> 8 \<le> phase (b_main S)) \<and>
     (\<forall>a<n_threads R. b_place S a = AsleepReady \<longrightarrow> phase (b_main S) \<le> 8)"

definition released_ok :: "bench_run \<Rightarrow> pool_bench \<Rightarrow> bool" where
  "released_ok R S \<longleftrightarrow>
     (phase (b_main S) \<in> {2, 3, 4} \<longrightarrow> br_blocking R) \<and>
     (b_released S \<longleftrightarrow> br_blocking R \<and> 4 \<le> phase (b_main S)) \<and>
     (\<forall>a<n_threads R. \<forall>t. b_place S a = AsleepGate t \<longrightarrow> br_blocking R \<and> phase (b_main S) \<le> 4)"

definition drained_ok :: "bench_run \<Rightarrow> pool_bench \<Rightarrow> bool" where
  "drained_ok R S \<longleftrightarrow>
     (b_main S = AsleepDrained \<longrightarrow> pl_pending (b_pool S) \<noteq> 0) \<and>
     (6 \<le> phase (b_main S) \<longrightarrow> pl_done (b_pool S) = mset [0..<n_tasks R]) \<and>
     (7 \<le> phase (b_main S) \<longrightarrow> b_checksum S = Some (sumValues (map (final_output R) [0..<n_tasks R])))"

definition queue_ok :: "bench_run \<Rightarrow> pool_bench \<Rightarrow> bool" where
  "queue_ok R S \<longleftrightarrow>
     (\<exists>a<n_threads R. b_place S a = AsleepReady) \<longrightarrow>
     length (pl_queue (b_pool S)) \<le>
       (\<Sum>a<n_threads R. of_bool (b_place S a = Top)) + of_bool (\<exists>i. b_main S = NotifiesOne i)"

definition parked_ok :: "bench_run \<Rightarrow> pool_bench \<Rightarrow> bool" where
  "parked_ok R S \<longleftrightarrow>
     b_parked S = of_nat (\<Sum>a<n_threads R. parked_at (b_place S a)) \<and>
     (\<forall>v. b_seen S = Some v \<longrightarrow> unat v \<le> n_threads R \<and> unat v \<le> n_tasks R)"

lemmas pool_bench_oks = tasks_ok_def outputs_ok_def stage_ok_def released_ok_def drained_ok_def queue_ok_def parked_ok_def

lemma pool_bench_start_ok:
  "tasks_ok R (pool_bench_start R)" "outputs_ok R (pool_bench_start R)" "stage_ok R (pool_bench_start R)"
  "released_ok R (pool_bench_start R)" "drained_ok R (pool_bench_start R)" "queue_ok R (pool_bench_start R)"
  "parked_ok R (pool_bench_start R)"
  using pool_run.start [of "br_workers R"]
  by (simp_all add: pool_bench_oks pool_bench_start_def all_held_def held_def PlainThreadPool_new_def)

subsection \<open>The tasks of the pool\<close>

lemma all_held_move: "a < k \<Longrightarrow> all_held k (f(a := p)) + held (f a) = all_held k f + held p"
  using sum_upd [of a k held f p] by (simp add: all_held_def)

lemma all_held_same [simp]: "a < k \<Longrightarrow> held p = held (f a) \<Longrightarrow> all_held k (f(a := p)) = all_held k f"
  using all_held_move [of a k f p] by simp

lemma take_pool:
  assumes "workerLoop_take p = Inr (r, p')"
  shows "pl_running p' = pl_running p + (case r of None \<Rightarrow> {#} | Some t \<Rightarrow> {#t#})"
    "pl_done p' = pl_done p" "pl_pending p' = pl_pending p" "pl_shutdown p' = pl_shutdown p"
    "pl_queue p = (case r of None \<Rightarrow> [] | Some t \<Rightarrow> t # pl_queue p')"
    "pl_queue p' = (case r of None \<Rightarrow> [] | Some t \<Rightarrow> tl (pl_queue p))"
    "r = None \<longrightarrow> pl_shutdown p"
  using assms by (auto simp: workerLoop_take_def split: if_splits list.splits)

lemma finish_pool:
  assumes "workerLoop_finish t p = (d, p')"
  shows "pl_running p' = pl_running p - {#t#}" "pl_done p' = add_mset t (pl_done p)"
    "pl_pending p' = pl_pending p - 1" "pl_shutdown p' = pl_shutdown p" "pl_queue p' = pl_queue p"
    "d \<longleftrightarrow> pl_pending p' = 0"
  using assms by (auto simp: workerLoop_finish_def Let_def)

lemma held_simps [simp]:
  "held Unstarted = {#}" "held Top = {#}" "held AsleepReady = {#}" "held Gone = {#}"
  "held (Runs t) = {#t#}" "held (Enters t) = {#t#}" "held (AtGate t) = {#t#}" "held (AsleepGate t) = {#t#}"
  "held (Passes t) = {#t#}" "held (Unparked t) = {#t#}" "held (Finishes t) = {#t#}"
  by (simp_all add: held_def)

lemma held_wake [simp]: "held (wake_ready p) = held p" "held (wake_gate p) = held p"
  "parked_at (wake_ready p) = parked_at p" "parked_at (wake_gate p) = parked_at p"
  "output_ok R xs (wake_ready p) = output_ok R xs p" "output_ok R xs (wake_gate p) = output_ok R xs p"
  by (cases p; simp)+

lemma held_subset: "a < k \<Longrightarrow> held (f a) \<subseteq># all_held k f"
  using sum.remove [of "{..<k}" a "\<lambda>a. held (f a)"] by (simp add: all_held_def)

lemma tasks_worker:
  assumes "worker_step R a S T" "a < n_threads R" "tasks_ok R S"
  shows "tasks_ok R T"
proof -
  have run: "pool_run (br_workers R) (mset [0..<n_enqueued (n_tasks R) (b_main S)]) (b_pool S)"
    and held: "pl_running (b_pool S) = held_in R S"
    using assms(3) by (simp_all add: tasks_ok_def)
  note upd = all_held_move [OF assms(2), of "b_place S"]
  from assms(1) show ?thesis
  proof (cases rule: worker_step.cases)
    case (top_takes t p)
    then show ?thesis
      using assms(3) pool_run.run_take [OF run, of "Some t" p] upd [of "Runs t"] take_pool(1) [OF top_takes(4)]
      by (simp add: tasks_ok_def)
  next
    case (top_leaves p)
    then show ?thesis
      using assms(3) pool_run.run_take [OF run, of None p] upd [of Gone] take_pool(1) [OF top_leaves(4)]
      by (simp add: tasks_ok_def)
  next
    case (finishes t d p)
    have "t \<in># pl_running (b_pool S)"
      using held_subset [OF assms(2), of "b_place S"] finishes(2) held by (auto simp: subset_mset.le_iff_add)
    then have run': "pool_run (br_workers R) (mset [0..<n_enqueued (n_tasks R) (b_main S)]) p"
      using pool_run.run_finish [OF run, of t] finishes(3) by simp
    have "held_in R S = add_mset t (all_held (n_threads R) ((b_place S)(a := Top)))" using upd [of Top] finishes(2) by simp
    then have "pl_running p = all_held (n_threads R) ((b_place S)(a := Top))" using finish_pool(1) [OF finishes(3)] held by simp
    with run' show ?thesis using assms(3) finishes(1) by (simp add: tasks_ok_def)
  qed (use assms(2,3) in \<open>simp_all add: tasks_ok_def split: if_split\<close>)
qed

lemma all_held_wake [simp]:
  "all_held k (\<lambda>a. wake_ready (f a)) = all_held k f" "all_held k (\<lambda>a. wake_gate (f a)) = all_held k f"
  by (simp_all add: all_held_def)

lemma tasks_main:
  assumes "main_step R S T" "tasks_ok R S" "stage_ok R S"
  shows "tasks_ok R T"
  using assms(1)
proof (cases rule: main_step.cases)
  case (starts i)
  have "b_place S i = Unstarted" using starts assms(3) by (simp add: stage_ok_def)
  then show ?thesis using starts assms(2) by (simp add: tasks_ok_def)
next
  case (enqueues i)
  then have run: "pool_run (br_workers R) (mset [0..<i]) (b_pool S)" using assms(2) by (simp add: tasks_ok_def)
  from pool_run.run_enqueue [OF run, of i] enqueues show ?thesis
    using assms(2) by (simp add: tasks_ok_def pool_enqueue_def)
next
  case (notifies_one i a)
  then show ?thesis using assms(2) by (simp add: tasks_ok_def)
next
  case shuts
  then show ?thesis using assms(2) pool_run.run_shutdown [of "br_workers R" _ "b_pool S"]
    by (simp add: tasks_ok_def pool_shutdown_def)
qed (use assms(2) in \<open>simp_all add: tasks_ok_def\<close>)

lemma tasks_spurious:
  assumes "spurious R S T" "tasks_ok R S"
  shows "tasks_ok R T"
  using assms(1)
proof (cases rule: spurious.cases)
  case (spurious_ready a)
  then show ?thesis using assms(2) by (simp add: tasks_ok_def)
next
  case (spurious_gate a t)
  then show ?thesis using assms(2) by (simp add: tasks_ok_def)
qed (use assms(2) in \<open>simp add: tasks_ok_def\<close>)

text \<open>What the pool holds is what has been enqueued, and every task is in one place.\<close>

lemma tasks_split:
  assumes "tasks_ok R S"
  shows "mset [0..<n_enqueued (n_tasks R) (b_main S)] =
      mset (pl_queue (b_pool S)) + held_in R S + pl_done (b_pool S)"
    "pl_pending (b_pool S) = of_nat (length (pl_queue (b_pool S)) + size (held_in R S))"
    "length (pl_queue (b_pool S)) + size (held_in R S) \<le> n_tasks R"
proof -
  show e: "mset [0..<n_enqueued (n_tasks R) (b_main S)] =
      mset (pl_queue (b_pool S)) + held_in R S + pl_done (b_pool S)"
    and "pl_pending (b_pool S) = of_nat (length (pl_queue (b_pool S)) + size (held_in R S))"
    using pool_run_tasks [of "br_workers R" "mset [0..<n_enqueued (n_tasks R) (b_main S)]" "b_pool S"] assms
    by (simp_all add: tasks_ok_def)
  show "length (pl_queue (b_pool S)) + size (held_in R S) \<le> n_tasks R"
    using arg_cong [OF e, of size] assms by (simp add: tasks_ok_def)
qed

lemma pool_pending_zero:
  assumes "tasks_ok R S" "pl_pending (b_pool S) = 0"
  shows "pl_queue (b_pool S) = []" "held_in R S = {#}"
    "pl_done (b_pool S) = mset [0..<n_enqueued (n_tasks R) (b_main S)]"
proof -
  let ?m = "length (pl_queue (b_pool S)) + size (held_in R S)"
  have "?m < 4294967296"
    using le_less_trans [OF tasks_split(3) [OF assms(1), unfolded n_tasks_def] unat_lt_2p32] .
  then have "?m < 2 ^ 64" by simp
  then have "?m = 0" using tasks_split(2) [OF assms(1)] assms(2) unat_of_nat_64 [of ?m] by simp
  then show "pl_queue (b_pool S) = []" "held_in R S = {#}"
    "pl_done (b_pool S) = mset [0..<n_enqueued (n_tasks R) (b_main S)]"
    using tasks_split(1) [OF assms(1)] by simp_all
qed

lemma held_two:
  "a < k \<Longrightarrow> b < k \<Longrightarrow> a \<noteq> b \<Longrightarrow> held (f a) + held (f b) \<subseteq># all_held k f"
  using sum.remove [of "{..<k}" a "\<lambda>a. held (f a)"] sum.remove [of "{..<k} - {a}" b "\<lambda>a. held (f a)"]
  by (simp add: all_held_def)

lemma own_task:
  assumes "tasks_ok R S" "a < n_threads R" "t \<in># held (b_place S a)"
  shows "t < n_tasks R" "t \<notin># pl_done (b_pool S)"
    "b < n_threads R \<Longrightarrow> b \<noteq> a \<Longrightarrow> t \<notin># held (b_place S b)"
proof -
  let ?e = "n_enqueued (n_tasks R) (b_main S)"
  have one: "Multiset.count (mset [0..<?e]) t \<le> 1"
    using distinct_count_atmost_1 [of "[0..<?e]"] by (metis distinct_upt le_refl zero_le)
  have all: "t \<in># held_in R S" using held_subset [OF assms(2)] assms(3) by (rule mset_subset_eqD)
  then have "t \<in># mset [0..<?e]" unfolding tasks_split(1) [OF assms(1)] by simp
  then show "t < n_tasks R" using assms(1) by (auto simp: tasks_ok_def)
  have *: "Multiset.count (held_in R S) t + Multiset.count (pl_done (b_pool S)) t \<le> 1"
    using one unfolding tasks_split(1) [OF assms(1)] by simp
  moreover have "0 < Multiset.count (held_in R S) t" using all by simp
  ultimately show "t \<notin># pl_done (b_pool S)" by (simp flip: count_greater_zero_iff)
  show "t \<notin># held (b_place S b)" if b: "b < n_threads R" "b \<noteq> a"
  proof
    assume t: "t \<in># held (b_place S b)"
    have "Multiset.count (held (b_place S a)) t + Multiset.count (held (b_place S b)) t \<le> Multiset.count (held_in R S) t"
      using mset_subset_eq_count [OF held_two [OF assms(2) b(1), of "b_place S"], of t] b(2) by simp
    moreover have "0 < Multiset.count (held (b_place S a)) t" "0 < Multiset.count (held (b_place S b)) t"
      using t assms(3) by simp_all
    ultimately show False using * by simp
  qed
qed

subsection \<open>The outputs\<close>

lemma output_ok_elsewhere: "t \<notin># held p \<Longrightarrow> output_ok R (xs[t := v]) p = output_ok R xs p"
  by (cases p) auto

text \<open>A thread that writes the output of its own task.\<close>

lemma outputs_write:
  assumes ok: "tasks_ok R S" "outputs_ok R S" and a: "a < n_threads R" and t: "t \<in># held (b_place S a)"
    and p: "output_ok R ((b_outputs S)[t := v]) p"
  shows "outputs_ok R (move a p (S\<lparr>b_outputs := (b_outputs S)[t := v]\<rparr>))"
proof -
  note own = own_task [OF ok(1) a t]
  have "output_ok R ((b_outputs S)[t := v]) (b_place S b)" if "b < n_threads R" "b \<noteq> a" for b
    using output_ok_elsewhere [OF own(3) [OF that]] ok(2) that(1) by (simp add: outputs_ok_def)
  moreover have "(b_outputs S)[t := v] ! i = final_output R i" if "i \<in># pl_done (b_pool S)" for i
  proof -
    have "i \<noteq> t" using own(2) that by blast
    then show ?thesis using ok(2) that by (simp add: outputs_ok_def)
  qed
  ultimately show ?thesis using p ok(2) by (simp add: outputs_ok_def)
qed

text \<open>A thread that moves on without a write.\<close>

lemma outputs_move:
  assumes "outputs_ok R S" "output_ok R (b_outputs S) p"
    and "b_outputs T = b_outputs S" "b_place T = (b_place S)(a := p)"
    and "\<forall>i\<in>#pl_done (b_pool T). i \<in># pl_done (b_pool S) \<or> b_outputs S ! i = final_output R i"
  shows "outputs_ok R T"
  using assms by (auto simp: outputs_ok_def)

lemma outputs_worker:
  assumes "worker_step R a S T" "a < n_threads R" "tasks_ok R S" "outputs_ok R S"
  shows "outputs_ok R T"
proof -
  have len: "length (b_outputs S) = n_tasks R"
    and own: "output_ok R (b_outputs S) (b_place S a)" using assms(2,4) by (simp_all add: outputs_ok_def)
  from assms(1) show ?thesis
  proof (cases rule: worker_step.cases)
    case top_sleeps
    then show ?thesis by (intro outputs_move [OF assms(4), of AsleepReady _ a]) simp_all
  next
    case (top_takes t p)
    then show ?thesis using take_pool(2) [OF top_takes(4)]
      by (intro outputs_move [OF assms(4), of "Runs t" _ a]) simp_all
  next
    case (top_leaves p)
    then show ?thesis using take_pool(2) [OF top_leaves(4)]
      by (intro outputs_move [OF assms(4), of Gone _ a]) simp_all
  next
    case (runs_task t)
    have t: "t \<in># held (b_place S a)" using runs_task by simp
    show ?thesis unfolding runs_task(1) task_body_def
      using runs_task own_task(1) [OF assms(3,2) t] len
      by (intro outputs_write [OF assms(3,4,2) t]) (simp_all add: final_output_def first_output_def)
  next
    case (runs_first t)
    have t: "t \<in># held (b_place S a)" using runs_first by simp
    show ?thesis unfolding runs_first(1) blocking_body_def Let_def fst_conv snd_conv if_True
      using runs_first own_task(1) [OF assms(3,2) t] len
      by (intro outputs_write [OF assms(3,4,2) t]) (simp_all add: first_output_def)
  next
    case (enters t)
    then show ?thesis using own
      by (intro outputs_move [OF assms(4), of "if b_released S then Passes t else AsleepGate t" _ a]) simp_all
  next
    case (checks t)
    then show ?thesis using own
      by (intro outputs_move [OF assms(4), of "if b_released S then Passes t else AsleepGate t" _ a]) simp_all
  next
    case (passes t)
    then show ?thesis using own by (intro outputs_move [OF assms(4), of "Unparked t" _ a]) simp_all
  next
    case (runs_second t)
    have t: "t \<in># held (b_place S a)" using runs_second by simp
    show ?thesis unfolding runs_second(1) blocking_body_def Let_def fst_conv snd_conv if_False
      using runs_second own own_task(1) [OF assms(3,2) t] len
      by (intro outputs_write [OF assms(3,4,2) t]) (simp_all add: final_output_def)
  next
    case (finishes t d p)
    then show ?thesis using own finish_pool(2) [OF finishes(3)]
      by (intro outputs_move [OF assms(4), of Top _ a]) auto
  qed
qed

lemma outputs_main:
  assumes "main_step R S T" "outputs_ok R S"
  shows "outputs_ok R T"
  using assms(1) by (cases rule: main_step.cases)
    (use assms(2) in \<open>auto simp: outputs_ok_def pool_enqueue_def pool_shutdown_def\<close>)

lemma outputs_spurious:
  assumes "spurious R S T" "outputs_ok R S"
  shows "outputs_ok R T"
  using assms(1) by (cases rule: spurious.cases) (use assms(2) in \<open>auto simp: outputs_ok_def\<close>)

lemma outputs_final:
  assumes "outputs_ok R S" "pl_done (b_pool S) = mset [0..<n_tasks R]"
  shows "b_outputs S = map (final_output R) [0..<n_tasks R]"
  using assms by (intro nth_equalityI) (simp_all add: outputs_ok_def)

subsection \<open>The stages\<close>

lemma stage_worker:
  assumes "worker_step R a S T" "a < n_threads R" "stage_ok R S"
  shows "stage_ok R T"
  using assms(1)
proof (cases rule: worker_step.cases)
  case (top_takes t p)
  then show ?thesis using assms(2,3) take_pool(4) [OF top_takes(4)]
    by (auto simp: stage_ok_def)
next
  case (top_leaves p)
  then show ?thesis using assms(2,3) take_pool(4,7) [OF top_leaves(4)] by (auto simp: stage_ok_def)
next
  case (finishes t d p)
  then show ?thesis using assms(2,3) finish_pool(4) [OF finishes(3)] by (auto simp: stage_ok_def)
qed (use assms(2,3) in \<open>auto simp: stage_ok_def workerLoop_pred_def\<close>)

lemma wake_eq [simp]:
  "wake_ready p = Unstarted \<longleftrightarrow> p = Unstarted" "wake_gate p = Unstarted \<longleftrightarrow> p = Unstarted"
  "wake_ready p = Gone \<longleftrightarrow> p = Gone" "wake_gate p = Gone \<longleftrightarrow> p = Gone"
  "wake_ready p \<noteq> AsleepReady" "wake_gate p = AsleepReady \<longleftrightarrow> p = AsleepReady"
  "wake_ready p = AsleepGate t \<longleftrightarrow> p = AsleepGate t" "wake_gate p \<noteq> AsleepGate t"
  "wake_gate p = Top \<longleftrightarrow> p = Top" "wake_ready p = Top \<longleftrightarrow> p = Top \<or> p = AsleepReady"
  by (cases p; simp)+

lemma stage_main:
  assumes "main_step R S T" "stage_ok R S"
  shows "stage_ok R T"
  using assms(1)
proof (cases rule: main_step.cases)
  case (starts i)
  then show ?thesis using assms(2) by (auto simp: stage_ok_def le_less Suc_le_eq)
next
  case (joins i)
  then show ?thesis using assms(2) by (auto simp: stage_ok_def less_Suc_eq)
qed (use assms(2) in \<open>auto simp: stage_ok_def pool_enqueue_def pool_shutdown_def\<close>)

lemma stage_spurious:
  assumes "spurious R S T" "stage_ok R S"
  shows "stage_ok R T"
  using assms(1) by (cases rule: spurious.cases) (use assms(2) in \<open>auto simp: stage_ok_def\<close>)

subsection \<open>The gate\<close>

lemma gate_worker:
  assumes "worker_step R a S T" "a < n_threads R" "outputs_ok R S" "released_ok R S"
  shows "released_ok R T"
proof -
  have own: "output_ok R (b_outputs S) (b_place S a)" using assms(2,3) by (simp add: outputs_ok_def)
  from assms(1) show ?thesis
    by (cases rule: worker_step.cases) (use assms(2,4) own in \<open>auto simp: released_ok_def\<close>)
qed

lemma gate_main:
  assumes "main_step R S T" "stage_ok R S" "released_ok R S"
  shows "released_ok R T"
  using assms(1) by (cases rule: main_step.cases) (use assms(3) in \<open>auto simp: released_ok_def\<close>)

lemma gate_spurious:
  assumes "spurious R S T" "released_ok R S"
  shows "released_ok R T"
  using assms(1) by (cases rule: spurious.cases) (use assms(2) in \<open>auto simp: released_ok_def\<close>)

subsection \<open>The end of the wait\<close>

text \<open>Once every task is done nobody holds one.\<close>

lemma all_done_empty:
  assumes "tasks_ok R S" "2 \<le> phase (b_main S)" "pl_done (b_pool S) = mset [0..<n_tasks R]"
  shows "pl_queue (b_pool S) = []" "held_in R S = {#}"
proof -
  have "n_enqueued (n_tasks R) (b_main S) = n_tasks R" using assms(2) by (cases "b_main S") simp_all
  then show "pl_queue (b_pool S) = []" "held_in R S = {#}"
    using tasks_split(1) [OF assms(1)] assms(3) by simp_all
qed

lemma drained_worker:
  assumes "worker_step R a S T" "a < n_threads R" "tasks_ok R S" "drained_ok R S"
  shows "drained_ok R T"
  using assms(1)
proof (cases rule: worker_step.cases)
  case (top_takes t p)
  then show ?thesis using assms(4) take_pool(2,3) [OF top_takes(4)] by (simp add: drained_ok_def)
next
  case (top_leaves p)
  then show ?thesis using assms(4) take_pool(2,3) [OF top_leaves(4)] by (simp add: drained_ok_def)
next
  case (finishes t d p)
  have "held_in R S \<noteq> {#}" using held_subset [OF assms(2), of "b_place S"] finishes(2) by auto
  then have "\<not> 6 \<le> phase (b_main S)"
    using all_done_empty(2) [OF assms(3)] assms(4) by (auto simp: drained_ok_def)
  then show ?thesis using assms(4) finishes finish_pool(3,6) [OF finishes(3)]
    by (auto simp: drained_ok_def)
qed (use assms(4) in \<open>simp_all add: drained_ok_def\<close>)

lemma drained_main:
  assumes "main_step R S T" "tasks_ok R S" "outputs_ok R S" "drained_ok R S"
  shows "drained_ok R T"
  using assms(1)
proof (cases rule: main_step.cases)
  case awaits
  then show ?thesis using assms(4) pool_pending_zero(3) [OF assms(2)]
    by (auto simp: drained_ok_def waitUntilIdle_pred_def)
next
  case sums
  then show ?thesis using assms(4) outputs_final [OF assms(3)] by (simp add: drained_ok_def)
qed (use assms(4) in \<open>simp_all add: drained_ok_def pool_enqueue_def pool_shutdown_def\<close>)

lemma drained_spurious:
  assumes "spurious R S T" "drained_ok R S"
  shows "drained_ok R T"
  using assms(1) by (cases rule: spurious.cases) (use assms(2) in \<open>auto simp: drained_ok_def\<close>)

subsection \<open>No notification of \<open>ready\<close> is lost\<close>

lemma tops_move:
  fixes f :: "nat \<Rightarrow> pool_place"
  assumes "a < k"
  shows "(\<Sum>x<k. of_bool ((f(a := p)) x = Top)) + of_bool (f a = Top) =
    (\<Sum>x<k. of_bool (f x = Top)) + (of_bool (p = Top) :: nat)"
  using sum_upd [OF assms, of "\<lambda>p. of_bool (p = Top)" f p] .

lemma queue_move:
  assumes "queue_ok R S" "a < n_threads R" "b_place T = (b_place S)(a := p)" "p \<noteq> AsleepReady"
    and "length (pl_queue (b_pool T)) + of_bool (b_place S a = Top) + of_bool (\<exists>i. b_main S = NotifiesOne i)
      \<le> length (pl_queue (b_pool S)) + of_bool (p = Top) + of_bool (\<exists>i. b_main T = NotifiesOne i)"
  shows "queue_ok R T"
  unfolding queue_ok_def
proof
  assume "\<exists>b<n_threads R. b_place T b = AsleepReady"
  then have "\<exists>b<n_threads R. b_place S b = AsleepReady" using assms(3,4) by (auto split: if_splits)
  then have "length (pl_queue (b_pool S)) \<le>
      (\<Sum>a<n_threads R. of_bool (b_place S a = Top)) + of_bool (\<exists>i. b_main S = NotifiesOne i)"
    using assms(1) by (simp add: queue_ok_def)
  with tops_move [OF assms(2), of "b_place S" p] assms(5)
  show "length (pl_queue (b_pool T)) \<le>
      (\<Sum>a<n_threads R. of_bool (b_place T a = Top)) + of_bool (\<exists>i. b_main T = NotifiesOne i)"
    unfolding assms(3) by linarith
qed

lemma queue_worker:
  assumes "worker_step R a S T" "a < n_threads R" "queue_ok R S"
  shows "queue_ok R T"
  using assms(1)
proof (cases rule: worker_step.cases)
  case top_sleeps
  then show ?thesis by (simp add: queue_ok_def workerLoop_pred_def)
next
  case (top_takes t p)
  then show ?thesis using take_pool(5) [OF top_takes(4)]
    by (intro queue_move [OF assms(3,2), of T "Runs t"]) simp_all
next
  case (top_leaves p)
  then show ?thesis using take_pool(6) [OF top_leaves(4)] by (simp add: queue_ok_def)
next
  case (finishes t d p)
  then show ?thesis using finish_pool(5) [OF finishes(3)]
    by (intro queue_move [OF assms(3,2), of T Top]) simp_all
qed (rule queue_move [OF assms(3,2)], simp, simp, simp)+

lemma queue_main:
  assumes "main_step R S T" "queue_ok R S"
  shows "queue_ok R T"
  using assms(1)
proof (cases rule: main_step.cases)
  case (starts i)
  then show ?thesis by (intro queue_move [OF assms(2), of i T Top]) simp_all
next
  case (notifies_one i a)
  then show ?thesis by (intro queue_move [OF assms(2), of a T Top]) simp_all
qed (use assms(2) in \<open>auto simp: queue_ok_def pool_enqueue_def pool_shutdown_def\<close>)

lemma queue_spurious:
  assumes "spurious R S T" "queue_ok R S"
  shows "queue_ok R T"
  using assms(1)
proof (cases rule: spurious.cases)
  case (spurious_ready a)
  then show ?thesis by (intro queue_move [OF assms(2), of a T Top]) simp_all
next
  case (spurious_gate a t)
  then show ?thesis by (intro queue_move [OF assms(2), of a T "AtGate t"]) simp_all
qed (use assms(2) in \<open>simp add: queue_ok_def\<close>)

subsection \<open>The parked tasks\<close>

lemma parked_move:
  assumes "parked_ok R S" "a < n_threads R" "b_place T = (b_place S)(a := p)" "b_seen T = b_seen S"
    and "b_parked T + of_nat (parked_at (b_place S a)) = b_parked S + of_nat (parked_at p)"
  shows "parked_ok R T"
proof -
  have "of_nat ((\<Sum>x<n_threads R. parked_at (b_place T x)) + parked_at (b_place S a)) =
      (of_nat ((\<Sum>x<n_threads R. parked_at (b_place S x)) + parked_at p) :: u32)"
    unfolding assms(3) sum_upd [OF assms(2), of parked_at] ..
  then have "b_parked T + of_nat (parked_at (b_place S a)) =
      of_nat (\<Sum>x<n_threads R. parked_at (b_place T x)) + of_nat (parked_at (b_place S a))"
    using assms(1,5) by (simp add: parked_ok_def)
  then have "b_parked T = of_nat (\<Sum>x<n_threads R. parked_at (b_place T x))"
    by (simp only: add_right_cancel)
  then show ?thesis using assms(1,4) by (simp add: parked_ok_def)
qed

lemma parked_worker:
  assumes "worker_step R a S T" "a < n_threads R" "parked_ok R S"
  shows "parked_ok R T"
  using assms(1) by (cases rule: worker_step.cases) (rule parked_move [OF assms(3,2)], simp, simp, simp)+

lemma parked_at_le: "parked_at p \<le> 1"
  by (cases p) simp_all

lemma parked_held: "(\<Sum>a<k. parked_at (f a)) \<le> size (all_held k f)"
proof -
  have "parked_at p \<le> size (held p)" for p by (cases p) simp_all
  then have "(\<Sum>a<k. parked_at (f a)) \<le> (\<Sum>a<k. size (held (f a)))" by (intro sum_mono)
  also have "\<dots> = size (all_held k f)" unfolding all_held_def by (induction k) simp_all
  finally show ?thesis .
qed

lemma parked_main:
  assumes "main_step R S T" "tasks_ok R S" "stage_ok R S" "parked_ok R S"
  shows "parked_ok R T"
  using assms(1)
proof (cases rule: main_step.cases)
  case (starts i)
  moreover have "b_place S i = Unstarted" using starts assms(3) by (simp add: stage_ok_def)
  ultimately show ?thesis by (intro parked_move [OF assms(4), of i T Top]) simp_all
next
  case (notifies_one i a)
  then show ?thesis by (intro parked_move [OF assms(4), of a T Top]) simp_all
next
  case loads
  let ?m = "\<Sum>a<n_threads R. parked_at (b_place S a)"
  have "?m \<le> (\<Sum>a<n_threads R. 1)" by (intro sum_mono parked_at_le)
  moreover have "?m \<le> n_tasks R"
    using parked_held [where k = "n_threads R" and f = "b_place S"] tasks_split(3) [OF assms(2)] by linarith
  moreover have "unat (of_nat m :: u32) \<le> m" for m by (simp add: unsigned_of_nat)
  note this [of ?m]
  ultimately show ?thesis using loads assms(4) by (simp add: parked_ok_def)
qed (use assms(4) in \<open>simp_all add: parked_ok_def\<close>)

lemma parked_spurious:
  assumes "spurious R S T" "parked_ok R S"
  shows "parked_ok R T"
  using assms(1)
proof (cases rule: spurious.cases)
  case (spurious_ready a)
  then show ?thesis by (intro parked_move [OF assms(2), of a T Top]) simp_all
next
  case (spurious_gate a t)
  then show ?thesis by (intro parked_move [OF assms(2), of a T "AtGate t"]) simp_all
qed (use assms(2) in \<open>simp add: parked_ok_def\<close>)

subsection \<open>Every run is short\<close>

fun place_rank :: "pool_place \<Rightarrow> nat" where
  "place_rank Unstarted = 0" | "place_rank Gone = 0" | "place_rank AsleepReady = 1" | "place_rank Top = 2"
| "place_rank (Finishes t) = 4" | "place_rank (Unparked t) = 5" | "place_rank (Passes t) = 6"
| "place_rank (AsleepGate t) = 7" | "place_rank (AtGate t) = 8" | "place_rank (Enters t) = 9"
| "place_rank (Runs t) = 10"

fun pool_main_rank :: "nat \<Rightarrow> nat \<Rightarrow> pool_main \<Rightarrow> nat" where
  "pool_main_rank k n (Starts i) = 3 * k + 11 + 12 * n + 3 * (k - i)"
| "pool_main_rank k n (Enqueues i) = 3 * k + 10 + 12 * (n - i)"
| "pool_main_rank k n (NotifiesOne i) = 3 * k + 12 + 12 * (n - Suc i)"
| "pool_main_rank k n Loads = 3 * k + 9" | "pool_main_rank k n OpensGate = 3 * k + 8" | "pool_main_rank k n NotifiesGate = 3 * k + 7"
| "pool_main_rank k n Awaits = 2 * k + 6" | "pool_main_rank k n AsleepDrained = 2 * k + 5"
| "pool_main_rank k n Sums = 2 * k + 4" | "pool_main_rank k n Shuts = 2 * k + 3" | "pool_main_rank k n NotifiesReady = 2 * k + 2"
| "pool_main_rank k n (Joins i) = 1 + (k - i)" | "pool_main_rank k n Returned = 0"

definition bench_rank :: "bench_run \<Rightarrow> pool_bench \<Rightarrow> nat" where
  "bench_rank R S = 9 * length (pl_queue (b_pool S)) + (\<Sum>a<n_threads R. place_rank (b_place S a)) +
     pool_main_rank (n_threads R) (n_tasks R) (b_main S)"

lemma pool_rank_move:
  assumes "a < n_threads R" "b_place T = (b_place S)(a := p)"
  shows "bench_rank R T + 9 * length (pl_queue (b_pool S)) + place_rank (b_place S a) +
      pool_main_rank (n_threads R) (n_tasks R) (b_main S) =
    bench_rank R S + 9 * length (pl_queue (b_pool T)) + place_rank p +
      pool_main_rank (n_threads R) (n_tasks R) (b_main T)"
  using sum_upd [OF assms(1), of place_rank "b_place S" p] unfolding bench_rank_def assms(2) by linarith

lemma pool_rank_worker:
  assumes "worker_step R a S T" "a < n_threads R"
  shows "bench_rank R T < bench_rank R S"
  using assms(1)
proof (cases rule: worker_step.cases)
  case (top_takes t p)
  then show ?thesis using pool_rank_move [OF assms(2), of T S "Runs t"] take_pool(5) [OF top_takes(4)] by simp
next
  case (top_leaves p)
  then show ?thesis using pool_rank_move [OF assms(2), of T S Gone] take_pool(5,6) [OF top_leaves(4)] by simp
next
  case (finishes t d p)
  have "pool_main_rank k n (wake_main m) \<le> pool_main_rank k n m + 1" for k n m by (cases m) simp_all
  note this [of "n_threads R" "n_tasks R" "b_main S"]
  then show ?thesis using finishes pool_rank_move [OF assms(2), of T S Top] finish_pool(5) [OF finishes(3)]
    by (simp split: if_splits)
next
  case top_sleeps
  then show ?thesis using pool_rank_move [OF assms(2), of T S AsleepReady] by simp
next
  case (runs_task t)
  then show ?thesis using pool_rank_move [OF assms(2), of T S "Finishes t"] by simp
next
  case (runs_first t)
  then show ?thesis using pool_rank_move [OF assms(2), of T S "Enters t"] by simp
next
  case (enters t)
  then show ?thesis using pool_rank_move [OF assms(2), of T S "if b_released S then Passes t else AsleepGate t"]
    by (simp split: if_splits)
next
  case (checks t)
  then show ?thesis using pool_rank_move [OF assms(2), of T S "if b_released S then Passes t else AsleepGate t"]
    by (simp split: if_splits)
next
  case (passes t)
  then show ?thesis using pool_rank_move [OF assms(2), of T S "Unparked t"] by simp
next
  case (runs_second t)
  then show ?thesis using pool_rank_move [OF assms(2), of T S "Finishes t"] by simp
qed

lemma rank_wake:
  assumes "\<And>p. place_rank (w p) \<le> place_rank p + 1"
  shows "(\<Sum>a<k. place_rank (w (f a))) \<le> (\<Sum>a<k. place_rank (f a)) + k"
proof -
  have "(\<Sum>a<k. place_rank (w (f a))) \<le> (\<Sum>a<k. place_rank (f a) + 1)" using assms by (intro sum_mono)
  also have "\<dots> = (\<Sum>a<k. place_rank (f a)) + k" unfolding sum.distrib by simp
  finally show ?thesis .
qed

lemma pool_rank_main:
  assumes "main_step R S T" "stage_ok R S"
  shows "bench_rank R T < bench_rank R S"
  using assms(1)
proof (cases rule: main_step.cases)
  case (starts i)
  moreover have "b_place S i = Unstarted" using starts assms(2) by (simp add: stage_ok_def)
  ultimately show ?thesis using pool_rank_move [of i R T S Top] by simp
next
  case (notifies_one i a)
  then show ?thesis using pool_rank_move [of a R T S Top] by simp
next
  case notifies_gate
  have "place_rank (wake_gate p) \<le> place_rank p + 1" for p by (cases p) simp_all
  from rank_wake [OF this, where k = "n_threads R" and f = "b_place S"] show ?thesis using notifies_gate by (simp add: bench_rank_def)
next
  case notifies_ready
  have "place_rank (wake_ready p) \<le> place_rank p + 1" for p by (cases p) simp_all
  from rank_wake [OF this, where k = "n_threads R" and f = "b_place S"] show ?thesis using notifies_ready by (simp add: bench_rank_def)
next
  case (enqueues i)
  then have "pool_main_rank (n_threads R) (n_tasks R) (NotifiesOne i) + 10 =
      pool_main_rank (n_threads R) (n_tasks R) (Enqueues i)" by simp
  then show ?thesis using enqueues by (simp add: bench_rank_def pool_enqueue_def)
qed (auto simp: bench_rank_def pool_shutdown_def)

lemma rank_spurious:
  assumes "spurious R S T"
  shows "bench_rank R T \<le> bench_rank R S + 1"
  using assms
proof (cases rule: spurious.cases)
  case (spurious_ready a)
  then show ?thesis using pool_rank_move [of a R T S Top] by simp
next
  case (spurious_gate a t)
  then show ?thesis using pool_rank_move [of a R T S "AtGate t"] by simp
qed (simp add: bench_rank_def)

lemma bench_rank_start: "bench_rank R (pool_bench_start R) = 6 * n_threads R + 12 * n_tasks R + 11"
  by (simp add: bench_rank_def pool_bench_start_def PlainThreadPool_new_def)

subsection \<open>Every run goes on to the end\<close>

definition bench_ok :: "bench_run \<Rightarrow> pool_bench \<Rightarrow> bool" where
  "bench_ok R S \<longleftrightarrow> tasks_ok R S \<and> outputs_ok R S \<and> stage_ok R S \<and> released_ok R S \<and> drained_ok R S \<and>
     queue_ok R S \<and> parked_ok R S"

lemma pool_step_ok:
  assumes "pool_step R S T" "bench_ok R S"
  shows "bench_ok R T \<and> bench_rank R T < bench_rank R S"
proof -
  note ok = assms(2) [unfolded bench_ok_def]
  from assms(1) consider (w) a where "a < n_threads R" "worker_step R a S T" | (m) "main_step R S T"
    by (auto simp: pool_step_def)
  then show ?thesis
  proof cases
    case w
    then show ?thesis
      using ok tasks_worker [OF w(2,1)] outputs_worker [OF w(2,1)] stage_worker [OF w(2,1)]
        gate_worker [OF w(2,1)] drained_worker [OF w(2,1)] queue_worker [OF w(2,1)]
        parked_worker [OF w(2,1)] pool_rank_worker [OF w(2,1)]
      by (simp add: bench_ok_def)
  next
    case m
    then show ?thesis
      using ok tasks_main [OF m] outputs_main [OF m] stage_main [OF m] gate_main [OF m]
        drained_main [OF m] queue_main [OF m] parked_main [OF m] pool_rank_main [OF m]
      by (simp add: bench_ok_def)
  qed
qed

lemma spurious_ok: "spurious R S T \<Longrightarrow> bench_ok R S \<Longrightarrow> bench_ok R T"
  by (simp add: bench_ok_def tasks_spurious outputs_spurious stage_spurious gate_spurious
      drained_spurious queue_spurious parked_spurious)

lemma pool_trace_ok:
  "pool_trace R m s S \<Longrightarrow> bench_ok R S \<and> m + bench_rank R S \<le> 6 * n_threads R + 12 * n_tasks R + 11 + s"
proof (induction rule: pool_trace.induct)
  case trace_start
  then show ?case by (simp add: bench_ok_def pool_bench_start_ok bench_rank_start)
next
  case (trace_step m s S T)
  then show ?case using pool_step_ok [of R S T] by simp
next
  case (trace_spurious m s S T)
  then show ?case using spurious_ok [of R S T] rank_spurious [of R S T] by simp
qed

text \<open>A thread that is not blocked and has not left can go on.\<close>

lemma pool_worker_goes_on:
  assumes "b_place S a \<notin> {Unstarted, Gone, AsleepReady}" "\<forall>t. b_place S a \<noteq> AsleepGate t"
  shows "\<exists>T. worker_step R a S T"
proof (cases "b_place S a")
  case Top
  show ?thesis
  proof (cases "workerLoop_pred (b_pool S)")
    case True
    then obtain r p where take: "workerLoop_take (b_pool S) = Inr (r, p)" using workerLoop_take_safe by blast
    then show ?thesis using Top True by (cases r) (auto intro: top_takes top_leaves)
  qed (use Top in \<open>auto intro: top_sleeps\<close>)
next
  case (Runs t)
  then show ?thesis by (cases "br_blocking R") (auto intro: runs_task runs_first)
next
  case (Finishes t)
  obtain d p where "workerLoop_finish t (b_pool S) = (d, p)" by fastforce
  with Finishes show ?thesis by (auto intro: finishes)
qed (use assms in \<open>auto intro: enters checks passes runs_second\<close>)

lemma pool_goes_on:
  assumes ok: "bench_ok R S" and k: "0 < n_threads R" and main: "b_main S \<noteq> Returned"
  shows "\<exists>T. pool_step R S T"
proof (rule ccontr)
  assume stuck: "\<nexists>T. pool_step R S T"
  then have no_main: "\<not> main_step R S T" and no_worker: "a < n_threads R \<Longrightarrow> \<not> worker_step R a S T" for a T
    by (auto simp: pool_step_def)
  have st: "stage_ok R S" and gt: "released_ok R S" and tk: "tasks_ok R S" using ok by (simp_all add: bench_ok_def)
  have late: "b_main S = AsleepDrained \<or> (\<exists>i<n_threads R. b_main S = Joins i \<and> b_place S i \<noteq> Gone)"
  proof (cases "b_main S")
    case (Starts i)
    then have "i \<le> n_threads R" using st by (simp add: stage_ok_def)
    then show ?thesis using no_main Starts starts [of S i R] started [of S R] by (cases "i = n_threads R") auto
  next
    case (Enqueues i)
    then have "i \<le> n_tasks R" using tk by (simp add: tasks_ok_def)
    then show ?thesis using no_main Enqueues enqueues [of S i R] enqueued [of S R] by (cases "i = n_tasks R") auto
  next
    case (NotifiesOne i)
    then show ?thesis using no_main notifies_one [of S i _ R] notifies_nobody [of S i R] by blast
  next
    case (Joins i)
    then have "i \<le> n_threads R" using st by (simp add: stage_ok_def)
    then show ?thesis using no_main Joins joins [of S i R] joined [of S R] by (cases "i = n_threads R") auto
  qed (use main no_main in \<open>auto intro: main_step.intros\<close>)
  then have phase: "5 \<le> phase (b_main S)" by auto
  have blocked: "b_place S a \<in> {Gone, AsleepReady}" if a: "a < n_threads R" for a
  proof -
    have "b_place S a \<noteq> Unstarted" using st a late by (auto simp: stage_ok_def)
    moreover have "b_place S a \<noteq> AsleepGate t" for t using gt a phase by (auto simp: released_ok_def)
    ultimately show ?thesis using pool_worker_goes_on [of S a R] no_worker [OF a] by blast
  qed
  from late show False
  proof
    assume m: "b_main S = AsleepDrained"
    have asleep: "b_place S a = AsleepReady" if "a < n_threads R" for a
      using blocked [OF that] st that m by (auto simp: stage_ok_def)
    then have "held_in R S = {#}" by (simp add: all_held_def)
    moreover have "pl_queue (b_pool S) = []"
      using ok asleep k m by (auto simp: bench_ok_def queue_ok_def)
    ultimately show False using tasks_split(2) [OF tk] ok m by (simp add: bench_ok_def drained_ok_def)
  next
    assume "\<exists>i<n_threads R. b_main S = Joins i \<and> b_place S i \<noteq> Gone"
    then obtain i where "i < n_threads R" "b_main S = Joins i" "b_place S i \<noteq> Gone" by blast
    then show False using blocked [of i] st by (auto simp: stage_ok_def)
  qed
qed

subsection \<open>The benchmarks return, with the checksum of their tasks\<close>

lemma final_checksum:
  "sumValues (map (final_output R) [0..<n_tasks R]) =
     (if br_blocking R
      then runPlainPoolBlockingBenchmark (concat (map (\<lambda>i. [(True, i), (False, i)]) [0..<n_tasks R]))
        (br_tasks R) (br_work R)
      else runPlainPoolTaskBenchmark [0..<n_tasks R] (br_tasks R) (br_work R))"
proof -
  have one: "filter (\<lambda>part. snd part = i) (concat (map (\<lambda>i. [(True, i), (False, i)]) [0..<n])) =
      (if i < n then [(True, i), (False, i)] else [])" for i n :: nat
    by (induction n) (auto simp: less_Suc_eq)
  have "runPlainPoolTaskBenchmark [0..<n_tasks R] (br_tasks R) (br_work R) =
      (\<Sum>i\<leftarrow>[0..<n_tasks R]. doWork (of_nat i + 1) (br_work R))"
    using task_checksum [of "[0..<n_tasks R]" "br_tasks R" "br_work R"]
    by (simp add: runPlainPoolTaskBenchmark_def runTaskBenchmark_def n_tasks_def atLeast0LessThan)
  moreover have "runPlainPoolBlockingBenchmark (concat (map (\<lambda>i. [(True, i), (False, i)]) [0..<n_tasks R]))
      (br_tasks R) (br_work R) =
      (\<Sum>i\<leftarrow>[0..<n_tasks R]. doWork (of_nat i + 1) (br_work R) XOR doWork (of_nat i + 1000003) (br_work R))"
    using blocking_checksum [of "br_tasks R" _ "br_work R"] one
    by (simp add: runPlainPoolBlockingBenchmark_def runFiberBlockingBenchmark_def n_tasks_def)
  ultimately show ?thesis
    by (cases "br_blocking R") (simp_all add: sumValues_eq final_output_def [abs_def] first_output_def [abs_def])
qed

text \<open>
  C11. The benchmarks on the plain thread pool. Every run, however the threads interleave, has at most
  six steps for each thread and twelve for each task, up to 11 and the spurious returns of waits, and
  it goes on until the function has returned: no notification of \<open>ready\<close>, \<open>gateCv\<close> or
  \<open>drained\<close> is lost. The number of parked tasks that is reported is at most the number of threads
  and that of tasks. Once \<open>waitUntilIdle\<close> has returned no thread is inside a task, so none refers to
  the local variables of the function any more. At the end every thread has left and the checksum is
  that of the tasks run one after the other.
\<close>

theorem plain_pool_returns:
  assumes "pool_trace R m s S" "0 < sint (br_workers R)"
  shows "m \<le> 6 * n_threads R + 12 * n_tasks R + 11 + s \<and>
    (b_main S \<noteq> Returned \<longrightarrow> (\<exists>T. pool_step R S T)) \<and>
    (\<forall>v. b_seen S = Some v \<longrightarrow> unat v \<le> n_threads R \<and> unat v \<le> n_tasks R) \<and>
    (6 \<le> phase (b_main S) \<longrightarrow> (\<forall>a<n_threads R. place_task (b_place S a) = None)) \<and>
    (b_main S = Returned \<longrightarrow> (\<forall>a<n_threads R. b_place S a = Gone) \<and> b_checksum S = Some
      (if br_blocking R
       then runPlainPoolBlockingBenchmark (concat (map (\<lambda>i. [(True, i), (False, i)]) [0..<n_tasks R]))
         (br_tasks R) (br_work R)
       else runPlainPoolTaskBenchmark [0..<n_tasks R] (br_tasks R) (br_work R)))"
proof -
  have ok: "bench_ok R S" and m: "m + bench_rank R S \<le> 6 * n_threads R + 12 * n_tasks R + 11 + s"
    using pool_trace_ok [OF assms(1)] by simp_all
  have "0 < n_threads R" using assms(2) by (simp add: n_threads_def)
  then have "b_main S \<noteq> Returned \<longrightarrow> (\<exists>T. pool_step R S T)" using pool_goes_on [OF ok] by blast
  moreover have "place_task (b_place S a) = None" if "6 \<le> phase (b_main S)" "a < n_threads R" for a
  proof -
    have "held_in R S = {#}" using that(1) ok all_done_empty(2) [of R S] by (simp add: bench_ok_def drained_ok_def)
    then have "held (b_place S a) = {#}" using held_subset [OF that(2), of "b_place S"] by simp
    then show ?thesis by (cases "b_place S a") simp_all
  qed
  ultimately show ?thesis
    using ok m unfolding final_checksum [symmetric]
    by (simp add: bench_ok_def stage_ok_def parked_ok_def drained_ok_def)
qed

text \<open>The blocking benchmark with one thread and one task: the task parks, and is released.\<close>

definition one_task :: bench_run where
  "one_task = \<lparr>br_workers = 1, br_tasks = 1, br_work = 0, br_blocking = True\<rparr>"

lemma one_task_simps [simp]:
  "n_threads one_task = 1" "n_tasks one_task = 1" "br_workers one_task = 1" "br_blocking one_task"
  by (simp_all add: n_threads_def n_tasks_def one_task_def)

text \<open>What the task writes at first, and in the end.\<close>

abbreviation one_first :: u64 where
  "one_first \<equiv> doWork 1 0"

abbreviation one_last :: u64 where
  "one_last \<equiv> one_first XOR doWork 1000003 0"

text \<open>A state of that run, by the places of the task and of the two threads.\<close>

definition one_state :: "nat list \<Rightarrow> nat multiset \<Rightarrow> bool \<Rightarrow> pool_place \<Rightarrow> pool_main \<Rightarrow> u64 \<Rightarrow> bool \<Rightarrow> u32 \<Rightarrow>
    u32 option \<Rightarrow> u64 option \<Rightarrow> pool_bench" where
  "one_state q run dn p m out rel parked seen c =
     \<lparr>b_pool = \<lparr>pl_queue = q, pl_running = run, pl_done = (if dn then {#0#} else {#}),
        pl_pending = of_nat (length q + size run), pl_shutdown = 8 \<le> phase m,
        pl_workers = (if p = Gone then 0 else 1)\<rparr>,
      b_place = (\<lambda>_. Unstarted)(0 := p), b_main = m, b_outputs = [out], b_released = rel,
      b_parked = parked, b_seen = seen, b_checksum = c\<rparr>"

lemma one_trace_step:
  assumes "pool_trace one_task m 0 S" "worker_step one_task 0 S T \<or> main_step one_task S T"
  shows "pool_trace one_task (Suc m) 0 T"
  using assms trace_step [OF assms(1), of T] by (auto simp: pool_step_def)

lemma one_fun_simps:
  "(\<lambda>a. wake_gate (if a = 0 then p else Unstarted)) = (\<lambda>_ :: nat. Unstarted)(0 := wake_gate p)"
  "(\<lambda>a. wake_ready (if a = 0 then p else Unstarted)) = (\<lambda>_ :: nat. Unstarted)(0 := wake_ready p)"
  "(\<lambda>_. Unstarted)(0 := Unstarted) = (\<lambda>_ :: nat. Unstarted)"
  by auto

lemmas one_step_simps = one_state_def one_fun_simps workerLoop_pred_def workerLoop_take_def workerLoop_finish_def
  waitUntilIdle_pred_def pool_enqueue_def pool_shutdown_def blocking_body_def

lemma one_task_work: "br_work one_task = 0"
  by (simp add: one_task_def)

lemma one_task_tasks: "br_tasks one_task = 1"
  by (simp add: one_task_def)

lemma one_task_begins: "pool_trace one_task 0 0 (one_state [] {#} False Unstarted (Starts 0) 0 False 0 None None)"
  using trace_start [of one_task]
  by (simp add: pool_bench_start_def PlainThreadPool_new_def one_step_simps)

lemma one_task_parks:
  "pool_trace one_task 6 0
    (one_state [] {#0#} False (Enters 0) (Enqueues 1) one_first False 0 None None)"
proof -
  have "main_step one_task (one_state [] {#} False Unstarted (Starts 0) 0 False 0 None None)
      (one_state [] {#} False Top (Starts 1) 0 False 0 None None)"
    using main_step.starts
      [where S = "one_state [] {#} False Unstarted (Starts 0) 0 False 0 None None" and R = one_task and i = 0]
    by (simp add: one_step_simps one_task_work)
  note t1 = one_trace_step [OF one_task_begins disjI2 [OF this]]
  have "main_step one_task (one_state [] {#} False Top (Starts 1) 0 False 0 None None)
      (one_state [] {#} False Top (Enqueues 0) 0 False 0 None None)"
    using main_step.started
      [where S = "one_state [] {#} False Top (Starts 1) 0 False 0 None None" and R = one_task]
    by (simp add: one_step_simps one_task_work)
  note t2 = one_trace_step [OF t1 disjI2 [OF this]]
  have "main_step one_task (one_state [] {#} False Top (Enqueues 0) 0 False 0 None None)
      (one_state [0] {#} False Top (NotifiesOne 0) 0 False 0 None None)"
    using main_step.enqueues
      [where S = "one_state [] {#} False Top (Enqueues 0) 0 False 0 None None" and R = one_task and i = 0]
    by (simp add: one_step_simps one_task_work)
  note t3 = one_trace_step [OF t2 disjI2 [OF this]]
  have "main_step one_task (one_state [0] {#} False Top (NotifiesOne 0) 0 False 0 None None)
      (one_state [0] {#} False Top (Enqueues 1) 0 False 0 None None)"
    using main_step.notifies_nobody
      [where S = "one_state [0] {#} False Top (NotifiesOne 0) 0 False 0 None None" and R = one_task and i = 0]
    by (simp add: one_step_simps one_task_work)
  note t4 = one_trace_step [OF t3 disjI2 [OF this]]
  have "worker_step one_task 0 (one_state [0] {#} False Top (Enqueues 1) 0 False 0 None None)
      (one_state [] {#0#} False (Runs 0) (Enqueues 1) 0 False 0 None None)"
    using worker_step.top_takes
      [where S = "one_state [0] {#} False Top (Enqueues 1) 0 False 0 None None" and R = one_task and a = 0 and t = 0]
    by (simp add: one_step_simps one_task_work)
  note t5 = one_trace_step [OF t4 disjI1 [OF this]]
  have "worker_step one_task 0 (one_state [] {#0#} False (Runs 0) (Enqueues 1) 0 False 0 None None)
      (one_state [] {#0#} False (Enters 0) (Enqueues 1) one_first False 0 None None)"
    using worker_step.runs_first
      [where S = "one_state [] {#0#} False (Runs 0) (Enqueues 1) 0 False 0 None None" and R = one_task and a = 0 and t = 0]
    by (simp add: one_step_simps one_task_work)
  from one_trace_step [OF t5 disjI1 [OF this]]
  show ?thesis by (simp add: eval_nat_numeral)
qed

lemma one_task_is_released:
  "pool_trace one_task 12 0
    (one_state [] {#0#} False (AtGate 0) AsleepDrained one_first True 1 (Some 1) None)"
proof -
  have "worker_step one_task 0 (one_state [] {#0#} False (Enters 0) (Enqueues 1) one_first False 0 None None)
      (one_state [] {#0#} False (AsleepGate 0) (Enqueues 1) one_first False 1 None None)"
    using worker_step.enters
      [where S = "one_state [] {#0#} False (Enters 0) (Enqueues 1) one_first False 0 None None" and R = one_task and a = 0 and t = 0]
    by (simp add: one_step_simps one_task_work)
  note t7 = one_trace_step [OF one_task_parks disjI1 [OF this]]
  have "main_step one_task (one_state [] {#0#} False (AsleepGate 0) (Enqueues 1) one_first False 1 None None)
      (one_state [] {#0#} False (AsleepGate 0) Loads one_first False 1 None None)"
    using main_step.enqueued
      [where S = "one_state [] {#0#} False (AsleepGate 0) (Enqueues 1) one_first False 1 None None" and R = one_task]
    by (simp add: one_step_simps one_task_work)
  note t8 = one_trace_step [OF t7 disjI2 [OF this]]
  have "main_step one_task (one_state [] {#0#} False (AsleepGate 0) Loads one_first False 1 None None)
      (one_state [] {#0#} False (AsleepGate 0) OpensGate one_first False 1 (Some 1) None)"
    using main_step.loads
      [where S = "one_state [] {#0#} False (AsleepGate 0) Loads one_first False 1 None None" and R = one_task]
    by (simp add: one_step_simps one_task_work)
  note t9 = one_trace_step [OF t8 disjI2 [OF this]]
  have "main_step one_task (one_state [] {#0#} False (AsleepGate 0) OpensGate one_first False 1 (Some 1) None)
      (one_state [] {#0#} False (AsleepGate 0) NotifiesGate one_first True 1 (Some 1) None)"
    using main_step.opens
      [where S = "one_state [] {#0#} False (AsleepGate 0) OpensGate one_first False 1 (Some 1) None" and R = one_task]
    by (simp add: one_step_simps one_task_work)
  note t10 = one_trace_step [OF t9 disjI2 [OF this]]
  have "main_step one_task (one_state [] {#0#} False (AsleepGate 0) NotifiesGate one_first True 1 (Some 1) None)
      (one_state [] {#0#} False (AtGate 0) Awaits one_first True 1 (Some 1) None)"
    using main_step.notifies_gate
      [where S = "one_state [] {#0#} False (AsleepGate 0) NotifiesGate one_first True 1 (Some 1) None" and R = one_task]
    by (simp add: one_step_simps one_task_work)
  note t11 = one_trace_step [OF t10 disjI2 [OF this]]
  have "main_step one_task (one_state [] {#0#} False (AtGate 0) Awaits one_first True 1 (Some 1) None)
      (one_state [] {#0#} False (AtGate 0) AsleepDrained one_first True 1 (Some 1) None)"
    using main_step.awaits
      [where S = "one_state [] {#0#} False (AtGate 0) Awaits one_first True 1 (Some 1) None" and R = one_task]
    by (simp add: one_step_simps one_task_work)
  from one_trace_step [OF t11 disjI2 [OF this]]
  show ?thesis by (simp add: eval_nat_numeral)
qed

lemma one_task_finishes:
  "pool_trace one_task 18 0
    (one_state [] {#} True AsleepReady Sums one_last True 0 (Some 1) None)"
proof -
  have "worker_step one_task 0 (one_state [] {#0#} False (AtGate 0) AsleepDrained one_first True 1 (Some 1) None)
      (one_state [] {#0#} False (Passes 0) AsleepDrained one_first True 1 (Some 1) None)"
    using worker_step.checks
      [where S = "one_state [] {#0#} False (AtGate 0) AsleepDrained one_first True 1 (Some 1) None" and R = one_task and a = 0 and t = 0]
    by (simp add: one_step_simps one_task_work)
  note t13 = one_trace_step [OF one_task_is_released disjI1 [OF this]]
  have "worker_step one_task 0 (one_state [] {#0#} False (Passes 0) AsleepDrained one_first True 1 (Some 1) None)
      (one_state [] {#0#} False (Unparked 0) AsleepDrained one_first True 0 (Some 1) None)"
    using worker_step.passes
      [where S = "one_state [] {#0#} False (Passes 0) AsleepDrained one_first True 1 (Some 1) None" and R = one_task and a = 0 and t = 0]
    by (simp add: one_step_simps one_task_work)
  note t14 = one_trace_step [OF t13 disjI1 [OF this]]
  have "worker_step one_task 0 (one_state [] {#0#} False (Unparked 0) AsleepDrained one_first True 0 (Some 1) None)
      (one_state [] {#0#} False (Finishes 0) AsleepDrained one_last True 0 (Some 1) None)"
    using worker_step.runs_second
      [where S = "one_state [] {#0#} False (Unparked 0) AsleepDrained one_first True 0 (Some 1) None" and R = one_task and a = 0 and t = 0]
    by (simp add: one_step_simps one_task_work)
  note t15 = one_trace_step [OF t14 disjI1 [OF this]]
  have "worker_step one_task 0 (one_state [] {#0#} False (Finishes 0) AsleepDrained one_last True 0 (Some 1) None)
      (one_state [] {#} True Top Awaits one_last True 0 (Some 1) None)"
    using worker_step.finishes
      [where S = "one_state [] {#0#} False (Finishes 0) AsleepDrained one_last True 0 (Some 1) None" and R = one_task and a = 0 and t = 0]
    by (simp add: one_step_simps one_task_work)
  note t16 = one_trace_step [OF t15 disjI1 [OF this]]
  have "worker_step one_task 0 (one_state [] {#} True Top Awaits one_last True 0 (Some 1) None)
      (one_state [] {#} True AsleepReady Awaits one_last True 0 (Some 1) None)"
    using worker_step.top_sleeps
      [where S = "one_state [] {#} True Top Awaits one_last True 0 (Some 1) None" and R = one_task and a = 0]
    by (simp add: one_step_simps one_task_work)
  note t17 = one_trace_step [OF t16 disjI1 [OF this]]
  have "main_step one_task (one_state [] {#} True AsleepReady Awaits one_last True 0 (Some 1) None)
      (one_state [] {#} True AsleepReady Sums one_last True 0 (Some 1) None)"
    using main_step.awaits
      [where S = "one_state [] {#} True AsleepReady Awaits one_last True 0 (Some 1) None" and R = one_task]
    by (simp add: one_step_simps one_task_work)
  from one_trace_step [OF t17 disjI2 [OF this]]
  show ?thesis by (simp add: eval_nat_numeral)
qed

lemma one_task_returns:
  "pool_trace one_task 24 0
    (one_state [] {#} True Gone Returned one_last True 0 (Some 1) (Some (sumValues [one_last])))"
proof -
  have "main_step one_task (one_state [] {#} True AsleepReady Sums one_last True 0 (Some 1) None)
      (one_state [] {#} True AsleepReady Shuts one_last True 0 (Some 1) (Some (sumValues [one_last])))"
    using main_step.sums
      [where S = "one_state [] {#} True AsleepReady Sums one_last True 0 (Some 1) None" and R = one_task]
    by (simp add: one_step_simps one_task_work)
  note t19 = one_trace_step [OF one_task_finishes disjI2 [OF this]]
  have "main_step one_task (one_state [] {#} True AsleepReady Shuts one_last True 0 (Some 1) (Some (sumValues [one_last])))
      (one_state [] {#} True AsleepReady NotifiesReady one_last True 0 (Some 1) (Some (sumValues [one_last])))"
    using main_step.shuts
      [where S = "one_state [] {#} True AsleepReady Shuts one_last True 0 (Some 1) (Some (sumValues [one_last]))" and R = one_task]
    by (simp add: one_step_simps one_task_work)
  note t20 = one_trace_step [OF t19 disjI2 [OF this]]
  have "main_step one_task (one_state [] {#} True AsleepReady NotifiesReady one_last True 0 (Some 1) (Some (sumValues [one_last])))
      (one_state [] {#} True Top (Joins 0) one_last True 0 (Some 1) (Some (sumValues [one_last])))"
    using main_step.notifies_ready
      [where S = "one_state [] {#} True AsleepReady NotifiesReady one_last True 0 (Some 1) (Some (sumValues [one_last]))" and R = one_task]
    by (simp add: one_step_simps one_task_work)
  note t21 = one_trace_step [OF t20 disjI2 [OF this]]
  have "worker_step one_task 0 (one_state [] {#} True Top (Joins 0) one_last True 0 (Some 1) (Some (sumValues [one_last])))
      (one_state [] {#} True Gone (Joins 0) one_last True 0 (Some 1) (Some (sumValues [one_last])))"
    using worker_step.top_leaves
      [where S = "one_state [] {#} True Top (Joins 0) one_last True 0 (Some 1) (Some (sumValues [one_last]))" and R = one_task and a = 0]
    by (simp add: one_step_simps one_task_work)
  note t22 = one_trace_step [OF t21 disjI1 [OF this]]
  have "main_step one_task (one_state [] {#} True Gone (Joins 0) one_last True 0 (Some 1) (Some (sumValues [one_last])))
      (one_state [] {#} True Gone (Joins 1) one_last True 0 (Some 1) (Some (sumValues [one_last])))"
    using main_step.joins
      [where S = "one_state [] {#} True Gone (Joins 0) one_last True 0 (Some 1) (Some (sumValues [one_last]))" and R = one_task and i = 0]
    by (simp add: one_step_simps one_task_work)
  note t23 = one_trace_step [OF t22 disjI2 [OF this]]
  have "main_step one_task (one_state [] {#} True Gone (Joins 1) one_last True 0 (Some 1) (Some (sumValues [one_last])))
      (one_state [] {#} True Gone Returned one_last True 0 (Some 1) (Some (sumValues [one_last])))"
    using main_step.joined
      [where S = "one_state [] {#} True Gone (Joins 1) one_last True 0 (Some 1) (Some (sumValues [one_last]))" and R = one_task]
    by (simp add: one_step_simps one_task_work)
  from one_trace_step [OF t23 disjI2 [OF this]]
  show ?thesis by (simp add: eval_nat_numeral)
qed

theorem plain_pool_returns_witness:
  "\<exists>S. pool_trace one_task 24 0 S \<and> 24 \<le> 6 * n_threads one_task + 12 * n_tasks one_task + (11 :: nat) \<and>
     b_main S = Returned \<and> b_seen S = Some 1 \<and> b_place S 0 = Gone \<and>
     b_checksum S = Some (runPlainPoolBlockingBenchmark [(True, 0), (False, 0)] 1 0)"
proof -
  let ?S = "one_state [] {#} True Gone Returned one_last True 0 (Some 1) (Some (sumValues [one_last]))"
  have "b_main ?S = Returned" "b_seen ?S = Some 1" by (simp_all add: one_state_def)
  with plain_pool_returns [OF one_task_returns] one_task_returns show ?thesis
    by (intro exI [of _ ?S]) (simp add: one_task_tasks one_task_work)
qed

end
