(* ===== verification/Fiber_Benchmark.thy ===== *)
theory Fiber_Benchmark
  imports Group_Scope Pool_Machine
begin

text \<open>
  The benchmarks of \<open>example/benchmark.cpp\<close> that run on the scheduler, as the machine of
  \<open>Gate_Group\<close> with what they do of their own: \<open>runTaskBenchmark\<close>, whose tasks write their output
  and call \<open>done\<close>; \<open>runFiberBlockingBenchmark\<close>, whose tasks wait for the event \<open>gate\<close> in
  between; \<open>runParallelReduce\<close>, whose tasks sum one chunk each. Every run ends and gives the checksum
  of the tasks run in order. The local variables that the tasks refer to end with the function
  (\<open>Group_Scope\<close>), which the last task may not survive.
\<close>

subsection \<open>The task and the blocking benchmark\<close>

record fiber_bench =
  fb_gate :: gate
  fb_outputs :: "u64 list"
  fb_parked :: u32
  fb_seen :: "u32 option"
  fb_checksum :: "u64 option"

definition fiber_bench_start :: "bench_run \<Rightarrow> os \<Rightarrow> os \<Rightarrow> fiber_bench" where
  "fiber_bench_start R s t =
     \<lparr>fb_gate = gate_start (n_tasks R) s t, fb_outputs = replicate (n_tasks R) 0, fb_parked = 0,
      fb_seen = None, fb_checksum = None\<rparr>"

text \<open>The code of the tasks up to and after \<open>gate.wait\<close>, of a task without it, and of the end.\<close>

fun bench_does :: "bench_run \<Rightarrow> act \<Rightarrow> fiber_bench \<Rightarrow> fiber_bench" where
  "bench_does R (Begins i) B =
     B\<lparr>fb_outputs := blocking_body (br_work R) (True, i) (fb_outputs B), fb_parked := fb_parked B + 1\<rparr>"
| "bench_does R (Speaks i) B =
     B\<lparr>fb_parked := fb_parked B - 1, fb_outputs := blocking_body (br_work R) (False, i) (fb_outputs B)\<rparr>"
| "bench_does R (Whole i) B = B\<lparr>fb_outputs := task_body (br_work R) i (fb_outputs B)\<rparr>"
| "bench_does R Last B = B\<lparr>fb_checksum := Some (sumValues (fb_outputs B))\<rparr>"
| "bench_does R _ B = B"

text \<open>The main thread reads \<open>parked\<close> before it signals the gate.\<close>

inductive fiber_bench_step :: "bench_run \<Rightarrow> fiber_bench \<Rightarrow> fiber_bench \<Rightarrow> bool" for R where
  bench_acts: "gate_step (br_blocking R) (n_tasks R) (fb_gate B) x G \<Longrightarrow> x = Opens \<longrightarrow> fb_seen B \<noteq> None \<Longrightarrow>
    fiber_bench_step R B ((bench_does R x B)\<lparr>fb_gate := G\<rparr>)"
| bench_loads: "br_blocking R \<Longrightarrow> g_main (fb_gate B) = Schedules (n_tasks R) \<Longrightarrow> fb_seen B = None \<Longrightarrow>
    fiber_bench_step R B (B\<lparr>fb_seen := Some (fb_parked B)\<rparr>)"

subsection \<open>The invariant\<close>

text \<open>The output of a task by the parts it has done, and the number of tasks between the two parts.\<close>

definition output_at :: "bench_run \<Rightarrow> nat \<Rightarrow> nat \<Rightarrow> u64" where
  "output_at R p i = (if p = 0 then 0 else if p = 1 then first_output R i else final_output R i)"

definition between :: "nat \<Rightarrow> gate \<Rightarrow> nat set" where
  "between n G = {i. i < n \<and> parts G i = 1}"

definition fiber_bench_ok :: "bench_run \<Rightarrow> fiber_bench \<Rightarrow> bool" where
  "fiber_bench_ok R B \<longleftrightarrow>
     gate_ok (br_blocking R) (n_tasks R) (fb_gate B) \<and>
     length (fb_outputs B) = n_tasks R \<and>
     (\<forall>i<n_tasks R. fb_outputs B ! i = output_at R (parts (fb_gate B) i) i) \<and>
     fb_parked B = of_nat (card (between (n_tasks R) (fb_gate B))) \<and>
     (\<forall>v. fb_seen B = Some v \<longrightarrow> unat v \<le> n_tasks R) \<and>
     (g_main (fb_gate B) = Exits \<longrightarrow>
       fb_checksum B = Some (sumValues (map (final_output R) [0..<n_tasks R])))"

lemma finite_between [simp]: "finite (between n G)"
  by (simp add: between_def)

lemma card_between: "card (between n G) \<le> n"
proof -
  have "card (between n G) \<le> card {..<n}" by (intro card_mono) (auto simp: between_def)
  then show ?thesis by simp
qed

lemma between_enter:
  assumes "parts T = (parts S)(i := 1)" "parts S i = 0" "i < n"
  shows "card (between n T) = Suc (card (between n S))"
proof -
  have "between n T = insert i (between n S)" "i \<notin> between n S" using assms by (auto simp: between_def)
  then show ?thesis by simp
qed

lemma between_leave:
  assumes "parts T = (parts S)(i := 2)" "parts S i = 1" "i < n"
  shows "card (between n S) = Suc (card (between n T))"
proof -
  have "between n S = insert i (between n T)" "i \<notin> between n T" using assms by (auto simp: between_def)
  then show ?thesis by simp
qed

lemma between_same: "parts T = (parts S)(i := 2) \<Longrightarrow> parts S i = 0 \<Longrightarrow> between n T = between n S"
  "parts T = parts S \<Longrightarrow> between n T = between n S"
  by (auto simp: between_def)

lemma fiber_bench_start_ok:
  assumes "os_inv s" "os_inv t" "0 < n_tasks R" "Suc (n_tasks R) < 2 ^ 31"
  shows "fiber_bench_ok R (fiber_bench_start R s t)"
  using gate_start_ok [OF assms]
  by (simp add: fiber_bench_ok_def fiber_bench_start_def output_at_def between_def parts_def gate_start_def)

text \<open>What the own code does, for each kind of step.\<close>

lemma fiber_bench_act:
  assumes ok: "fiber_bench_ok R B" and x: "gate_step (br_blocking R) (n_tasks R) (fb_gate B) x G"
  shows "fiber_bench_ok R ((bench_does R x B)\<lparr>fb_gate := G\<rparr>)"
proof -
  let ?n = "n_tasks R"
  have gate: "gate_ok (br_blocking R) ?n (fb_gate B)" "gate_ok (br_blocking R) ?n G"
    using ok gate_ok_step [OF x] by (simp_all add: fiber_bench_ok_def)
  then have places: "places_ok ?n (fb_gate B)" by (simp add: gate_ok_def)
  note p = act_parts [OF x places] and main = act_main [OF x]
  have early: "g_main G \<noteq> Exits" if "i < ?n" "parts (fb_gate B) i \<noteq> 2" "x \<noteq> Last" for i
    using last_parts [OF gate(1) _ that(1)] that(2,3) main(1) by auto
  show ?thesis
  proof (cases x)
    case (Begins i)
    then show ?thesis using ok p gate(2) early [of i] between_enter [of G "fb_gate B" i ?n]
      by (auto simp: fiber_bench_ok_def blocking_body_def nth_list_update output_at_def first_output_def)
  next
    case (Speaks i)
    then have g: "br_blocking R" using gate(1) p parts_def [of "fb_gate B" i]
      by (cases "g_task (fb_gate B) i") (auto simp: gate_ok_def truth_ok_def)
    from Speaks g show ?thesis using ok p gate(2) early [of i] between_leave [of G "fb_gate B" i ?n]
      by (auto simp: fiber_bench_ok_def blocking_body_def nth_list_update output_at_def final_output_def)
  next
    case (Whole i)
    then show ?thesis using ok p gate(2) early [of i] between_same(1) [of G "fb_gate B" i ?n]
      by (auto simp: fiber_bench_ok_def task_body_def nth_list_update output_at_def final_output_def first_output_def)
  next
    case Last
    have "fb_outputs B = map (final_output R) [0..<?n]"
      using ok last_parts [OF gate(1)] main(2) [OF Last]
      by (intro nth_equalityI) (simp_all add: fiber_bench_ok_def output_at_def)
    then show ?thesis using ok p gate(2) Last between_same(2) [of G "fb_gate B" ?n]
      by (auto simp: fiber_bench_ok_def)
  qed (use ok p gate(2) main(1) between_same(2) [of G "fb_gate B" ?n] in \<open>auto simp: fiber_bench_ok_def\<close>)
qed

lemma fiber_bench_step_ok:
  assumes "fiber_bench_step R B C" "fiber_bench_ok R B"
  shows "fiber_bench_ok R C"
  using assms(1)
proof (cases rule: fiber_bench_step.cases)
  case (bench_acts x G)
  then show ?thesis using fiber_bench_act [OF assms(2)] by simp
next
  case bench_loads
  have "unat (of_nat m :: u32) \<le> m" for m by (simp add: unsigned_of_nat)
  note le_trans [OF this card_between [of "n_tasks R" "fb_gate B"]]
  then show ?thesis using bench_loads assms(2) by (simp add: fiber_bench_ok_def)
qed

text \<open>The load is one step more.\<close>

definition fiber_bench_rank :: "bench_run \<Rightarrow> fiber_bench \<Rightarrow> nat" where
  "fiber_bench_rank R B = gate_rank (n_tasks R) (fb_gate B) + of_bool (fb_seen B = None)"

lemma bench_does_seen [simp]: "fb_seen (bench_does R x B) = fb_seen B"
  by (cases x) simp_all

lemma fiber_bench_rank_step:
  assumes "fiber_bench_step R B C" "fiber_bench_ok R B"
  shows "fiber_bench_rank R C < fiber_bench_rank R B"
  using assms(1)
proof (cases rule: fiber_bench_step.cases)
  case (bench_acts x G)
  then show ?thesis using gate_step_ok [OF bench_acts(2)] assms(2)
    by (simp add: fiber_bench_rank_def fiber_bench_ok_def)
qed (simp add: fiber_bench_rank_def)

lemma fiber_bench_run:
  assumes "(fiber_bench_step R ^^ k) B C" "fiber_bench_ok R B"
  shows "fiber_bench_ok R C \<and> k + fiber_bench_rank R C \<le> fiber_bench_rank R B"
  using assms(1)
proof (induction k arbitrary: C)
  case (Suc k)
  then obtain D where D: "(fiber_bench_step R ^^ k) B D" "fiber_bench_step R D C" by auto
  from Suc.IH [OF D(1)] fiber_bench_step_ok [OF D(2)] fiber_bench_rank_step [OF D(2)] show ?case by auto
qed (use assms(2) in simp)

text \<open>Where the benchmark cannot go on the gate cannot either.\<close>

lemma fiber_bench_stuck:
  assumes "\<nexists>C. fiber_bench_step R B C"
  shows "\<not> gate_can (br_blocking R) (n_tasks R) (fb_gate B)"
proof
  assume "gate_can (br_blocking R) (n_tasks R) (fb_gate B)"
  then obtain x G where x: "gate_step (br_blocking R) (n_tasks R) (fb_gate B) x G" by blast
  show False
  proof (cases "x = Opens \<and> fb_seen B = None")
    case True
    then have "fiber_bench_step R B (B\<lparr>fb_seen := Some (fb_parked B)\<rparr>)"
      using act_main(3) [OF x] bench_loads [of R B] by simp
    with assms show False by blast
  next
    case False
    then have "fiber_bench_step R B ((bench_does R x B)\<lparr>fb_gate := G\<rparr>)" by (intro bench_acts [OF x]) simp
    with assms show False by blast
  qed
qed

subsection \<open>The benchmarks return, with the checksum of their tasks\<close>

lemma fiber_checksum:
  "sumValues (map (final_output R) [0..<n_tasks R]) =
     (if br_blocking R
      then runFiberBlockingBenchmark (concat (map (\<lambda>i. [(True, i), (False, i)]) [0..<n_tasks R]))
        (br_tasks R) (br_work R)
      else runTaskBenchmark [0..<n_tasks R] (br_tasks R) (br_work R))"
  unfolding final_checksum by (simp add: runPlainPoolBlockingBenchmark_def runFiberBlockingBenchmark_def
      runPlainPoolTaskBenchmark_def runTaskBenchmark_def)

text \<open>The run inside the function.\<close>

lemma fiber_bench_inside:
  assumes "os_inv s" "os_inv t" "0 < n_tasks R" "Suc (n_tasks R) < 2 ^ 31"
    and "(fiber_bench_step R ^^ k) (fiber_bench_start R s t) B"
  shows "fiber_bench_ok R B \<and> k \<le> 48 * n_tasks R + 22 \<and>
    ((\<nexists>C. fiber_bench_step R B C) \<and> no_entry_missing (fb_gate B) \<longrightarrow> g_main (fb_gate B) = Exits)"
proof -
  have ok: "fiber_bench_ok R B" and k: "k + fiber_bench_rank R B \<le> fiber_bench_rank R (fiber_bench_start R s t)"
    using fiber_bench_run [OF assms(5) fiber_bench_start_ok [OF assms(1-4)]] by simp_all
  have "fiber_bench_rank R (fiber_bench_start R s t) = 48 * n_tasks R + 22"
    by (simp add: fiber_bench_rank_def fiber_bench_start_def gate_start_rank)
  with k have "k \<le> 48 * n_tasks R + 22" by simp
  moreover have "g_main (fb_gate B) = Exits"
    if "\<nexists>C. fiber_bench_step R B C" "no_entry_missing (fb_gate B)"
    using stuck_finished [OF _ fiber_bench_stuck [OF that(1)] that(2)] ok by (simp add: fiber_bench_ok_def)
  ultimately show ?thesis using ok by blast
qed

text \<open>The function with the end of life of its local variables.\<close>

definition fiber_scope_step :: "bench_run \<Rightarrow> fiber_bench scope \<Rightarrow> fiber_bench scope \<Rightarrow> bool" where
  "fiber_scope_step R = scope_step (fiber_bench_step R) fb_gate (n_tasks R)"

text \<open>
  C12. The task and the blocking benchmark on the scheduler, with at least one task and fewer than
  \<open>2 ^ 31 - 1\<close>. Every run has at most 48 steps for each task and 24 more, whatever the order in which
  the fibers run. Where nobody can go on, and no allocation of a list entry has failed, the function has
  returned, and either every task has returned, so that none stays parked at the gate, or there was a
  fault. The only fault is that a task which has brought the count of \<open>wg\<close> to 0 uses \<open>wg\<close> in
  \<open>done\<close> when the function has returned and destroyed it; the witness shows such a run beside one
  without a fault. The number of parked tasks that is reported is at most the number of tasks. The
  checksum is that of the tasks run one after the other.
\<close>

theorem fiber_benchmark_returns:
  assumes "os_inv s" "os_inv t" "0 < n_tasks R" "Suc (n_tasks R) < 2 ^ 31"
    and "(fiber_scope_step R ^^ k) (scope_start (fiber_bench_start R s t)) S" and B: "B = sc_bench S"
  shows "k \<le> 48 * n_tasks R + 24 \<and>
    (\<forall>v. fb_seen B = Some v \<longrightarrow> unat v \<le> n_tasks R) \<and>
    (g_main (fb_gate B) = Exits \<longrightarrow> fb_checksum B = Some
      (if br_blocking R
       then runFiberBlockingBenchmark (concat (map (\<lambda>i. [(True, i), (False, i)]) [0..<n_tasks R]))
         (br_tasks R) (br_work R)
       else runTaskBenchmark [0..<n_tasks R] (br_tasks R) (br_work R))) \<and>
    (sc_fault S \<longrightarrow> \<not> sc_live S \<and> g_main (fb_gate B) = Exits \<and>
      (\<exists>i<n_tasks R. g_task (fb_gate B) i = Notifies)) \<and>
    ((\<nexists>T. fiber_scope_step R S T) \<and> no_entry_missing (fb_gate B) \<longrightarrow>
      \<not> sc_live S \<and> (sc_fault S \<or> (\<forall>i<n_tasks R. g_task (fb_gate B) i = Ended)))"
proof -
  obtain m where m: "(fiber_bench_step R ^^ m) (fiber_bench_start R s t) B"
    "k = m + of_bool (\<not> sc_live S) + of_bool (sc_fault S)"
    and left: "\<not> sc_live S \<longrightarrow> g_main (fb_gate B) = Exits"
    and fault: "sc_fault S \<longrightarrow> \<not> sc_live S \<and> (\<exists>i<n_tasks R. g_task (fb_gate B) i = Notifies)"
    using scope_run [OF assms(5) [unfolded fiber_scope_step_def]] B by auto
  note inside = fiber_bench_inside [OF assms(1-4) m(1)]
  then have ok: "gate_ok (br_blocking R) (n_tasks R) (fb_gate B)" by (simp add: fiber_bench_ok_def)
  have "\<not> sc_live S \<and> (sc_fault S \<or> (\<forall>i<n_tasks R. g_task (fb_gate B) i = Ended))"
    if "\<nexists>T. fiber_scope_step R S T" "no_entry_missing (fb_gate B)"
    using scope_stuck [OF that(1) [unfolded fiber_scope_step_def] _ ok [unfolded B]] inside left that(2) B by blast
  moreover have "k \<le> 48 * n_tasks R + 24" using m(2) inside by (simp split: if_splits)
  ultimately show ?thesis using inside left fault unfolding fiber_checksum [symmetric]
    by (simp add: fiber_bench_ok_def)
qed

text \<open>A run of the gate is a run of the benchmark, with the load before the gate is opened.\<close>

lemma fiber_bench_follows:
  assumes "gate_does (br_blocking R) (n_tasks R) (fb_gate B) xs G"
  shows "\<exists>C. (fiber_bench_step R)\<^sup>*\<^sup>* B C \<and> fb_gate C = G"
  using assms
proof (induction rule: gate_does.induct)
  case (does_act xs U x T)
  then obtain C where C: "(fiber_bench_step R)\<^sup>*\<^sup>* B C" "fb_gate C = U" by blast
  obtain D where D: "(fiber_bench_step R)\<^sup>*\<^sup>* C D" "fb_gate D = U" "x = Opens \<longrightarrow> fb_seen D \<noteq> None"
  proof (cases "x = Opens \<and> fb_seen C = None")
    case True
    then have "fiber_bench_step R C (C\<lparr>fb_seen := Some (fb_parked C)\<rparr>)"
      using act_main(3) [OF does_act.hyps(2)] bench_loads [of R C] C(2) by simp
    then show ?thesis using C(2) by (intro that [of "C\<lparr>fb_seen := Some (fb_parked C)\<rparr>"]) auto
  qed (use C(2) in \<open>auto intro: that [of C]\<close>)
  have "fiber_bench_step R D ((bench_does R x D)\<lparr>fb_gate := T\<rparr>)"
    using bench_acts [of R D x T] D(2,3) does_act.hyps(2) by simp
  with C(1) D(1) have "(fiber_bench_step R)\<^sup>*\<^sup>* B ((bench_does R x D)\<lparr>fb_gate := T\<rparr>)" by simp
  then show ?case by (intro exI [of _ "(bench_does R x D)\<lparr>fb_gate := T\<rparr>"]) simp
qed auto

theorem fiber_benchmark_returns_witness:
  "(\<exists>k S. (fiber_scope_step one_task ^^ k) (scope_start (fiber_bench_start one_task (os_fresh []) (os_fresh []))) S \<and>
      k \<le> 72 \<and> sc_fault S \<and>
      fb_checksum (sc_bench S) = Some (runFiberBlockingBenchmark [(True, 0), (False, 0)] 1 0)) \<and>
   (\<exists>S. (fiber_scope_step one_task)\<^sup>*\<^sup>* (scope_start (fiber_bench_start one_task (os_fresh []) (os_fresh []))) S \<and>
      \<not> sc_live S \<and> \<not> sc_fault S \<and> g_task (fb_gate (sc_bench S)) 0 = Ended)"
proof -
  let ?B = "fiber_bench_start one_task (os_fresh []) (os_fresh [])"
  let ?follows = "gate_does (br_blocking one_task) (n_tasks one_task) (fb_gate ?B)"
  obtain xs G where G: "?follows xs G" "g_main G = Exits" "g_task G 0 = Notifies"
    using early_run [of 1 True] by (auto simp: fiber_bench_start_def)
  then obtain C where C: "(fiber_bench_step one_task)\<^sup>*\<^sup>* ?B C" "fb_gate C = G" using fiber_bench_follows by blast
  from scope_faults [where gate_of = fb_gate and n = "n_tasks one_task" and i = 0, OF C(1)] C(2) G(2,3)
  obtain k where run: "(fiber_scope_step one_task ^^ k) (scope_start ?B) \<lparr>sc_bench = C, sc_live = False, sc_fault = True\<rparr>"
    using rtranclp_imp_relpowp by (fastforce simp: fiber_scope_step_def)
  have "os_inv (os_fresh [])" by (simp add: os_inv_def os_fresh_def)
  from fiber_benchmark_returns [OF this this _ _ run refl] C(2) G(2)
  have fault: "k \<le> 72 \<and> fb_checksum C = Some (runFiberBlockingBenchmark [(True, 0), (False, 0)] 1 0)"
    by (simp add: one_task_tasks one_task_work)
  have "?follows (acts_in_order True 1) ((after_tasks True 1 1)\<lparr>g_main := Exits\<rparr>)"
    using sequential_run [of 1 True] by (simp add: fiber_bench_start_def)
  then obtain D where D: "(fiber_bench_step one_task)\<^sup>*\<^sup>* ?B D" "fb_gate D = (after_tasks True 1 1)\<lparr>g_main := Exits\<rparr>"
    using fiber_bench_follows by blast
  from scope_left [where gate_of = fb_gate and n = "n_tasks one_task", OF D(1)] D(2)
  have "(fiber_scope_step one_task)\<^sup>*\<^sup>* (scope_start ?B) \<lparr>sc_bench = D, sc_live = False, sc_fault = False\<rparr>"
    by (simp add: fiber_scope_step_def)
  moreover have "g_task (fb_gate D) 0 = Ended" using D(2) by (simp add: after_tasks_def)
  ultimately show ?thesis using run fault by (metis scope.select_convs)
qed

subsection \<open>The parallel reduce\<close>

record reduce_run =
  rr_items :: u64
  rr_work :: int32
  rr_chunk :: u64

record reduce_bench =
  rb_gate :: gate
  rb_partials :: "u64 list"
  rb_checksum :: "u64 option"

definition n_chunks :: "reduce_run \<Rightarrow> nat" where
  "n_chunks R = (case chunk_count (rr_items R) (rr_chunk R) of Inl e \<Rightarrow> 0 | Inr c \<Rightarrow> unat c)"

definition reduce_bench_start :: "reduce_run \<Rightarrow> os \<Rightarrow> os \<Rightarrow> reduce_bench" where
  "reduce_bench_start R s t =
     \<lparr>rb_gate = gate_start (n_chunks R) s t, rb_partials = replicate (n_chunks R) 0, rb_checksum = None\<rparr>"

fun reduce_does :: "reduce_run \<Rightarrow> act \<Rightarrow> reduce_bench \<Rightarrow> reduce_bench" where
  "reduce_does R (Whole c) B =
     B\<lparr>rb_partials := reduce_body (rr_items R) (rr_chunk R) (rr_work R) c (rb_partials B)\<rparr>"
| "reduce_does R Last B = B\<lparr>rb_checksum := Some (sumValues (rb_partials B))\<rparr>"
| "reduce_does R _ B = B"

inductive reduce_bench_step :: "reduce_run \<Rightarrow> reduce_bench \<Rightarrow> reduce_bench \<Rightarrow> bool" for R where
  reduce_acts: "gate_step False (n_chunks R) (rb_gate B) x G \<Longrightarrow>
    reduce_bench_step R B ((reduce_does R x B)\<lparr>rb_gate := G\<rparr>)"

definition chunk_value :: "reduce_run \<Rightarrow> nat \<Rightarrow> u64" where
  "chunk_value R c =
     reduceRange (of_nat c * rr_chunk R) (min (of_nat c * rr_chunk R + rr_chunk R) (rr_items R)) (rr_work R)"

definition reduce_bench_ok :: "reduce_run \<Rightarrow> reduce_bench \<Rightarrow> bool" where
  "reduce_bench_ok R B \<longleftrightarrow>
     gate_ok False (n_chunks R) (rb_gate B) \<and> length (rb_partials B) = n_chunks R \<and>
     (\<forall>c<n_chunks R. parts (rb_gate B) c = 2 \<longrightarrow> rb_partials B ! c = chunk_value R c) \<and>
     (g_main (rb_gate B) = Exits \<longrightarrow>
       rb_checksum B = Some (sumValues (map (chunk_value R) [0..<n_chunks R])))"

lemma reduce_bench_act:
  assumes ok: "reduce_bench_ok R B" and x: "gate_step False (n_chunks R) (rb_gate B) x G"
  shows "reduce_bench_ok R ((reduce_does R x B)\<lparr>rb_gate := G\<rparr>)"
proof -
  let ?n = "n_chunks R"
  have gate: "gate_ok False ?n (rb_gate B)" "gate_ok False ?n G"
    using ok gate_ok_step [OF x] by (simp_all add: reduce_bench_ok_def)
  then have places: "places_ok ?n (rb_gate B)" by (simp add: gate_ok_def)
  note p = act_parts [OF x places] and main = act_main [OF x]
  have ungated: "parts (rb_gate B) c \<noteq> 1" for c
    using gate(1) by (cases "g_task (rb_gate B) c") (auto simp: parts_def gate_ok_def truth_ok_def)
  show ?thesis
  proof (cases x)
    case (Whole c)
    then have "g_main G \<noteq> Exits" using main(1) p last_parts [OF gate(1), of c] by auto
    then show ?thesis using ok p gate(2) Whole
      by (auto simp: reduce_bench_ok_def reduce_body_def Let_def nth_list_update chunk_value_def)
  next
    case Last
    have "rb_partials B = map (chunk_value R) [0..<?n]"
      using ok last_parts [OF gate(1)] main(2) [OF Last]
      by (intro nth_equalityI) (simp_all add: reduce_bench_ok_def)
    then show ?thesis using ok p gate(2) Last by (auto simp: reduce_bench_ok_def)
  qed (use ok p gate(2) main(1) ungated in \<open>auto simp: reduce_bench_ok_def\<close>)
qed

lemma reduce_bench_run:
  assumes "os_inv s" "os_inv t" "0 < n_chunks R" "Suc (n_chunks R) < 2 ^ 31"
    and "(reduce_bench_step R ^^ k) (reduce_bench_start R s t) B"
  shows "reduce_bench_ok R B \<and> k + gate_rank (n_chunks R) (rb_gate B) \<le> 48 * n_chunks R + 21"
  using assms(5)
proof (induction k arbitrary: B)
  case 0
  then have B: "B = reduce_bench_start R s t" by simp
  have "parts (gate_start n s t) c = 0" "g_main (gate_start n s t) \<noteq> Exits" for n c
    by (simp_all add: gate_start_def parts_def)
  then show ?case using gate_start_ok [OF assms(1-4)]
    by (simp add: B reduce_bench_ok_def reduce_bench_start_def gate_start_rank)
next
  case (Suc k)
  then obtain D where D: "(reduce_bench_step R ^^ k) (reduce_bench_start R s t) D" "reduce_bench_step R D B" by auto
  note IH = Suc.IH [OF D(1)]
  from D(2) obtain x where x: "gate_step False (n_chunks R) (rb_gate D) x (rb_gate B)"
    and B: "B = (reduce_does R x D)\<lparr>rb_gate := rb_gate B\<rparr>" by (cases rule: reduce_bench_step.cases) auto
  have "reduce_bench_ok R B" using reduce_bench_act [OF _ x] IH B by metis
  moreover have "gate_rank (n_chunks R) (rb_gate B) < gate_rank (n_chunks R) (rb_gate D)"
    using gate_step_ok [OF x] IH by (simp add: reduce_bench_ok_def)
  ultimately show ?case using IH by simp
qed

lemma chunk_sum:
  assumes "rr_chunk R \<noteq> 0" "unat (rr_items R) + unat (rr_chunk R) \<le> 2 ^ 64"
  shows "sumValues (map (chunk_value R) [0..<n_chunks R]) = runSequentialReduce (rr_items R) (rr_work R)"
proof -
  obtain c where c: "chunk_count (rr_items R) (rr_chunk R) = Inr c"
    "unat c = (unat (rr_items R) + unat (rr_chunk R) - 1) div unat (rr_chunk R)"
    using chunk_count_eq [OF assms] by blast
  let ?f = "reduce_body (rr_items R) (rr_chunk R) (rr_work R)"
  have "foldl (\<lambda>ps c. ?f c ps) (replicate (unat c) 0) [0..<unat c] = map (chunk_value R) [0..<unat c]"
    using foldl_each_once [of ?f "chunk_value R" "[0..<unat c]" "replicate (unat c) 0"]
    by (simp add: reduce_body_def Let_def nth_list_update chunk_value_def atLeast0LessThan)
  moreover have "\<exists>m wg. runParallelReduce [0..<unat c] (rr_items R) (rr_work R) (rr_chunk R) =
      Inr (m, wg, runSequentialReduce (rr_items R) (rr_work R))"
    using parallel_reduce_ok [OF assms, of "[0..<unat c]" "rr_work R"] c(2) by (auto simp: atLeast0LessThan)
  ultimately show ?thesis using c(1) by (simp add: runParallelReduce_def n_chunks_def Let_def)
qed

lemma reduce_bench_inside:
  assumes "os_inv s" "os_inv t" "0 < n_chunks R" "Suc (n_chunks R) < 2 ^ 31"
    and "(reduce_bench_step R ^^ k) (reduce_bench_start R s t) B"
  shows "reduce_bench_ok R B \<and> k \<le> 48 * n_chunks R + 21 \<and>
    ((\<nexists>C. reduce_bench_step R B C) \<and> no_entry_missing (rb_gate B) \<longrightarrow> g_main (rb_gate B) = Exits)"
proof -
  have run: "reduce_bench_ok R B" "k \<le> 48 * n_chunks R + 21"
    using reduce_bench_run [OF assms] by simp_all
  have "\<not> gate_can False (n_chunks R) (rb_gate B)" if "\<nexists>C. reduce_bench_step R B C"
    using that by (auto intro: reduce_acts)
  then show ?thesis using run stuck_finished [of False "n_chunks R" "rb_gate B"]
    by (auto simp: reduce_bench_ok_def)
qed

text \<open>The function with the end of life of its local variables.\<close>

definition reduce_scope_step :: "reduce_run \<Rightarrow> reduce_bench scope \<Rightarrow> reduce_bench scope \<Rightarrow> bool" where
  "reduce_scope_step R = scope_step (reduce_bench_step R) rb_gate (n_chunks R)"

text \<open>
  C13. The parallel reduce on the scheduler computes what the sequential one computes, whatever the order in
  which its fibers run, provided that the number of items and the chunk size do not add up to more than
  \<open>2 ^ 64\<close> and that there is at least one chunk and fewer than \<open>2 ^ 31 - 1\<close>. Every run has at most 48
  steps for each chunk and 23 more. Where nobody can go on, and no allocation of a list entry has failed,
  the function has returned, and either every task has returned or there was a fault. The only fault is
  that a task which has brought the count of \<open>wg\<close> to 0 uses \<open>wg\<close> in \<open>done\<close> when the
  function has returned and destroyed it; the witness shows such a run beside one without a fault.
\<close>

theorem parallel_reduce_returns:
  assumes "os_inv s" "os_inv t" "rr_chunk R \<noteq> 0" "unat (rr_items R) + unat (rr_chunk R) \<le> 2 ^ 64"
    and "0 < n_chunks R" "Suc (n_chunks R) < 2 ^ 31"
    and "(reduce_scope_step R ^^ k) (scope_start (reduce_bench_start R s t)) S" and B: "B = sc_bench S"
  shows "k \<le> 48 * n_chunks R + 23 \<and>
    (g_main (rb_gate B) = Exits \<longrightarrow> rb_checksum B = Some (runSequentialReduce (rr_items R) (rr_work R))) \<and>
    (sc_fault S \<longrightarrow> \<not> sc_live S \<and> g_main (rb_gate B) = Exits \<and>
      (\<exists>c<n_chunks R. g_task (rb_gate B) c = Notifies)) \<and>
    ((\<nexists>T. reduce_scope_step R S T) \<and> no_entry_missing (rb_gate B) \<longrightarrow>
      \<not> sc_live S \<and> (sc_fault S \<or> (\<forall>c<n_chunks R. g_task (rb_gate B) c = Ended)))"
proof -
  obtain m where m: "(reduce_bench_step R ^^ m) (reduce_bench_start R s t) B"
    "k = m + of_bool (\<not> sc_live S) + of_bool (sc_fault S)"
    and left: "\<not> sc_live S \<longrightarrow> g_main (rb_gate B) = Exits"
    and fault: "sc_fault S \<longrightarrow> \<not> sc_live S \<and> (\<exists>c<n_chunks R. g_task (rb_gate B) c = Notifies)"
    using scope_run [OF assms(7) [unfolded reduce_scope_step_def]] B by auto
  note inside = reduce_bench_inside [OF assms(1,2,5,6) m(1)]
  then have ok: "gate_ok False (n_chunks R) (rb_gate B)" by (simp add: reduce_bench_ok_def)
  have "\<not> sc_live S \<and> (sc_fault S \<or> (\<forall>c<n_chunks R. g_task (rb_gate B) c = Ended))"
    if "\<nexists>T. reduce_scope_step R S T" "no_entry_missing (rb_gate B)"
    using scope_stuck [OF that(1) [unfolded reduce_scope_step_def] _ ok [unfolded B]] inside left that(2) B by blast
  moreover have "k \<le> 48 * n_chunks R + 23" using m(2) inside by (simp split: if_splits)
  ultimately show ?thesis using inside left fault chunk_sum [OF assms(3,4)] by (simp add: reduce_bench_ok_def)
qed

text \<open>Five items in chunks of two, the chunks in order.\<close>

definition five_items :: reduce_run where
  "five_items = \<lparr>rr_items = 5, rr_work = 1, rr_chunk = 2\<rparr>"

lemma reduce_bench_follows:
  assumes "gate_does False (n_chunks R) (rb_gate B) xs G"
  shows "\<exists>C. (reduce_bench_step R)\<^sup>*\<^sup>* B C \<and> rb_gate C = G"
  using assms
proof (induction rule: gate_does.induct)
  case (does_act xs U x T)
  then obtain C where C: "(reduce_bench_step R)\<^sup>*\<^sup>* B C" "rb_gate C = U" by blast
  have "reduce_bench_step R C ((reduce_does R x C)\<lparr>rb_gate := T\<rparr>)"
    using reduce_acts [of R C x T] C(2) does_act.hyps(2) by simp
  with C(1) have "(reduce_bench_step R)\<^sup>*\<^sup>* B ((reduce_does R x C)\<lparr>rb_gate := T\<rparr>)" by simp
  then show ?case by (intro exI [of _ "(reduce_does R x C)\<lparr>rb_gate := T\<rparr>"]) simp
qed auto

theorem parallel_reduce_returns_witness:
  "(\<exists>k S. (reduce_scope_step five_items ^^ k) (scope_start (reduce_bench_start five_items (os_fresh []) (os_fresh []))) S \<and>
      k \<le> 167 \<and> sc_fault S \<and> rb_checksum (sc_bench S) = Some (runSequentialReduce 5 1)) \<and>
   (\<exists>S. (reduce_scope_step five_items)\<^sup>*\<^sup>* (scope_start (reduce_bench_start five_items (os_fresh []) (os_fresh []))) S \<and>
      \<not> sc_live S \<and> \<not> sc_fault S \<and> (\<forall>c. c < 3 \<longleftrightarrow> g_task (rb_gate (sc_bench S)) c = Ended))"
proof -
  let ?B = "reduce_bench_start five_items (os_fresh []) (os_fresh [])"
  have n: "n_chunks five_items = 3" by (simp add: n_chunks_def five_items_def chunk_count_def)
  obtain xs G where G: "gate_does False (n_chunks five_items) (rb_gate ?B) xs G" "g_main G = Exits" "g_task G 2 = Notifies"
    using early_run [of 3 False] n by (auto simp: reduce_bench_start_def)
  then obtain C where C: "(reduce_bench_step five_items)\<^sup>*\<^sup>* ?B C" "rb_gate C = G" using reduce_bench_follows by blast
  from scope_faults [where gate_of = rb_gate and n = "n_chunks five_items" and i = 2, OF C(1)] C(2) G(2,3) n
  obtain k where run: "(reduce_scope_step five_items ^^ k) (scope_start ?B) \<lparr>sc_bench = C, sc_live = False, sc_fault = True\<rparr>"
    using rtranclp_imp_relpowp by (fastforce simp: reduce_scope_step_def)
  have "os_inv (os_fresh [])" by (simp add: os_inv_def os_fresh_def)
  from parallel_reduce_returns [OF this this _ _ _ _ run refl] C(2) G(2) n
  have fault: "k \<le> 167 \<and> rb_checksum C = Some (runSequentialReduce 5 1)" by (simp add: five_items_def)
  have "gate_does False (n_chunks five_items) (rb_gate ?B) (acts_in_order False 3) ((after_tasks False 3 3)\<lparr>g_main := Exits\<rparr>)"
    using sequential_run [of 3 False] n by (simp add: reduce_bench_start_def)
  then obtain D where D: "(reduce_bench_step five_items)\<^sup>*\<^sup>* ?B D" "rb_gate D = (after_tasks False 3 3)\<lparr>g_main := Exits\<rparr>"
    using reduce_bench_follows by blast
  from scope_left [where gate_of = rb_gate and n = "n_chunks five_items", OF D(1)] D(2)
  have "(reduce_scope_step five_items)\<^sup>*\<^sup>* (scope_start ?B) \<lparr>sc_bench = D, sc_live = False, sc_fault = False\<rparr>"
    by (simp add: reduce_scope_step_def)
  moreover have "\<forall>c. c < 3 \<longleftrightarrow> g_task (rb_gate D) c = Ended" using D(2) by (simp add: after_tasks_def)
  ultimately show ?thesis using run fault by (metis scope.select_convs)
qed

end
