(* ===== verification/Platforms.thy ===== *)
theory Platforms
  imports Thread
begin

text \<open>
  The branches for other systems: the page functions for Windows and Fuchsia
  (\<open>src/memory.cpp\<close>), which stand in for those of Linux in \<open>pagedMalloc\<close> and
  \<open>pagedFree\<close>, and the thread implementation for Windows (\<open>src/thread.cpp\<close>) from the
  creation of the thread to its join. What the calls of the systems do is their documented behaviour.
\<close>

subsection \<open>Pages on Windows\<close>

text \<open>
  The address space, and the regions that \<open>VirtualAlloc\<close> has reserved: \<open>VirtualFree\<close> with
  \<open>MEM_RELEASE\<close> gives back a whole region, named by its base address.
\<close>

type_synonym win_pages = "os \<times> (size_t \<times> nat) list"

definition VirtualAlloc :: "size_t \<Rightarrow> win_pages \<Rightarrow> size_t \<times> win_pages" where
  "VirtualAlloc len = (\<lambda>(s, regions).
     let (p, s1) = next_answer s; k = unat len div unat (os_page_size s)
     in if mmap_ok s1 p len
        then (p, s1\<lparr>os_pages := page_run (os_page_size s) p k @ os_pages s1\<rparr>, (p, k) # regions)
        else (0, s1, regions))"

definition VirtualFree :: "size_t \<Rightarrow> win_pages \<Rightarrow> win_pages" where
  "VirtualFree p = (\<lambda>(s, regions).
     case map_of regions p of
       None \<Rightarrow> (s, regions)
     | Some k \<Rightarrow>
         let gone = page_run (os_page_size s) p k
         in (s\<lparr>os_pages := filter (\<lambda>q. q \<notin> set gone) (os_pages s),
               os_guarded := filter (\<lambda>q. q \<notin> set gone) (os_guarded s)\<rparr>,
             filter (\<lambda>r. fst r \<noteq> p) regions))"

definition allocatePages_windows :: "size_t \<Rightarrow> win_pages \<Rightarrow> size_t \<times> win_pages" where
  "allocatePages_windows pages = (\<lambda>(s, regions). VirtualAlloc (pages * os_page_size s) (s, regions))"

definition freePages_windows :: "size_t \<Rightarrow> size_t \<Rightarrow> win_pages \<Rightarrow> win_pages" where
  "freePages_windows ptr pages = VirtualFree ptr"

text \<open>\<open>VirtualProtect\<close> of one page to \<open>PAGE_NOACCESS\<close>.\<close>

definition protectPage_windows :: "size_t \<Rightarrow> win_pages \<Rightarrow> win_pages" where
  "protectPage_windows addr = (\<lambda>(s, regions). (protectPage addr s, regions))"

text \<open>They do to the address space what the functions for Linux do.\<close>

lemma allocatePages_windows_eq:
  "(let (p, s1) = allocatePages pages s in
      allocatePages_windows pages (s, regions) =
        (p, s1, if p = 0 then regions else (p, unat (pages * os_page_size s) div unat (os_page_size s)) # regions))"
  by (auto simp: allocatePages_windows_def VirtualAlloc_def allocatePages_def mmap_ok_def Let_def split: prod.splits)

text \<open>
  \<open>freePages\<close> takes back what \<open>allocatePages\<close> with the same number of pages has given, whatever was
  protected between them.
\<close>

lemma freePages_windows_eq:
  assumes "map_of regions p = Some (unat (pages * os_page_size s) div unat (os_page_size s))"
  shows "freePages_windows p pages (s, regions) = (freePages p pages s, filter (\<lambda>r. fst r \<noteq> p) regions)"
  using assms by (simp add: freePages_windows_def VirtualFree_def freePages_def Let_def)

lemma windows_round:
  assumes "allocatePages pages s = (p, s1)" "p \<noteq> 0" "os_page_size s1 = os_page_size s"
  shows "freePages_windows p pages (protectPage_windows addr (snd (allocatePages_windows pages (s, regions)))) =
    (freePages p pages (protectPage addr s1), filter (\<lambda>r. fst r \<noteq> p) regions)"
proof -
  have "allocatePages_windows pages (s, regions) =
      (p, s1, (p, unat (pages * os_page_size s) div unat (os_page_size s)) # regions)"
    using allocatePages_windows_eq [of pages s regions] assms(1,2) by simp
  then show ?thesis using assms(3) by (simp add: protectPage_windows_def freePages_windows_eq protectPage_def)
qed

subsection \<open>Pages on Fuchsia\<close>

text \<open>
  \<open>vmo\<close>: whether \<open>zx_vmo_create\<close> succeeds. The status of \<open>zx_vmar_map\<close> is dropped; if it
  fails, it does not write the variable \<open>reservation\<close>, which holds what was in its place.
\<close>

definition allocatePages_fuchsia :: "bool \<Rightarrow> size_t \<Rightarrow> size_t \<Rightarrow> os \<Rightarrow> size_t \<times> os" where
  "allocatePages_fuchsia vmo reservation pages s =
     (let len = pages * os_page_size s
      in if \<not> vmo then (0, s)
         else let (p, s1) = next_answer s
              in if mmap_ok s1 p len
                 then (p, s1\<lparr>os_pages :=
                         page_run (os_page_size s) p (unat len div unat (os_page_size s)) @ os_pages s1\<rparr>)
                 else (reservation, s1))"

definition freePages_fuchsia :: "size_t \<Rightarrow> size_t \<Rightarrow> os \<Rightarrow> os" where
  "freePages_fuchsia ptr pages s =
     (let gone = page_run (os_page_size s) ptr
                   (unat (pages * os_page_size s) div unat (os_page_size s))
      in s\<lparr>os_pages := filter (\<lambda>q. q \<notin> set gone) (os_pages s),
           os_guarded := filter (\<lambda>q. q \<notin> set gone) (os_guarded s)\<rparr>)"

definition protectPage_fuchsia :: "size_t \<Rightarrow> os \<Rightarrow> os" where
  "protectPage_fuchsia addr s =
     (if addr \<in> set (os_pages s) then s\<lparr>os_guarded := addr # os_guarded s\<rparr> else s)"

lemma allocatePages_fuchsia_eq:
  "allocatePages_fuchsia True 0 pages s = allocatePages pages s"
  by (simp add: allocatePages_fuchsia_def allocatePages_def Let_def)

text \<open>A failed mapping comes back as whatever address the variable held, without a page behind it.\<close>

lemma fuchsia_failed_mapping:
  "allocatePages_fuchsia True 4096 1 (os_fresh []) = (4096, os_fresh []) \<and> os_pages (os_fresh []) = []"
  by (simp add: allocatePages_fuchsia_def next_answer_def mmap_ok_def os_fresh_def)

subsection \<open>Threads on Windows\<close>

text \<open>Where the new thread stands: in \<open>Impl::run\<close> before the call, in the function, or returned.\<close>

datatype win_place = NoThread | Begins | Calls | Returned

record win_thread =
  w_impl :: bool         \<comment> \<open>the \<open>Impl\<close> is alive\<close>
  w_handle :: bool       \<comment> \<open>its handle is open and not null\<close>
  w_place :: win_place

text \<open>\<open>created\<close>: whether \<open>CreateRemoteThreadEx\<close> succeeds; the code does not look.\<close>

definition Impl_new_windows :: "bool \<Rightarrow> win_thread" where
  "Impl_new_windows created =
     \<lparr>w_impl = True, w_handle = created, w_place = if created then Begins else NoThread\<rparr>"

text \<open>
  The constructor of \<open>Thread\<close>: the group affinity of the attribute list, if there is one, and the
  implementation. The results of the calls on the attribute list are dropped.
\<close>

definition Thread_new_windows :: "affinity \<Rightarrow> bool \<Rightarrow> ((byte \<times> u64) option \<times> win_thread) res" where
  "Thread_new_windows aff created =
     bind_res (group_affinity_windows aff) (\<lambda>attribute. Inr (attribute, Impl_new_windows created))"

text \<open>\<open>None\<close>: the call blocks. A wait for a null handle fails at once, and the code does not look.\<close>

definition Join_windows :: "win_thread \<Rightarrow> win_thread res option" where
  "Join_windows t =
     (if \<not> w_impl t then Some (Inl WildAccess)
      else if w_handle t \<and> w_place t \<noteq> Returned then None
      else Some (Inr t))"

definition Thread_delete_windows :: "win_thread \<Rightarrow> win_thread res" where
  "Thread_delete_windows t =
     (if w_impl t then Inr (t\<lparr>w_impl := False, w_handle := False\<rparr>) else Inl WildAccess)"

text \<open>\<open>Impl::run\<close> reads the member \<open>func\<close>, and the function it calls is that member.\<close>

definition Impl_run_windows :: "win_thread \<Rightarrow> win_thread res option" where
  "Impl_run_windows t =
     (case w_place t of
        Begins \<Rightarrow> Some (if w_impl t then Inr (t\<lparr>w_place := Calls\<rparr>) else Inl WildAccess)
      | Calls \<Rightarrow> Some (if w_impl t then Inr (t\<lparr>w_place := Returned\<rparr>) else Inl WildAccess)
      | _ \<Rightarrow> None)"

text \<open>The life of a thread, with the steps of the thread itself between the calls of its owner.\<close>

datatype win_event = RunStep | JoinCall | DeleteCall

fun win_do :: "win_event \<Rightarrow> win_thread \<Rightarrow> win_thread res option" where
  "win_do RunStep t = Impl_run_windows t"
| "win_do JoinCall t = Join_windows t"
| "win_do DeleteCall t = Some (Thread_delete_windows t)"

fun win_run :: "win_event list \<Rightarrow> win_thread \<Rightarrow> win_thread res option" where
  "win_run [] t = Some (Inr t)"
| "win_run (e # es) t =
     (case win_do e t of None \<Rightarrow> None | Some (Inl x) \<Rightarrow> Some (Inl x) | Some (Inr t) \<Rightarrow> win_run es t)"

lemmas win_defs = Impl_run_windows_def Join_windows_def Thread_delete_windows_def Impl_new_windows_def

lemma win_run_append:
  "win_run (es @ fs) t =
     (case win_run es t of Some (Inr u) \<Rightarrow> win_run fs u | r \<Rightarrow> r)"
  by (induction es arbitrary: t) (auto split: option.splits sum.splits)

text \<open>A thread that its owner joins before the deletion never reads the deleted object.\<close>

lemma before_delete:
  assumes "DeleteCall \<notin> set es" "w_impl t" "w_handle t \<longleftrightarrow> w_place t \<noteq> NoThread" "win_run es t = Some r"
  shows "\<exists>u. r = Inr u \<and> w_impl u \<and> w_handle u = w_handle t \<and> (w_handle u \<longleftrightarrow> w_place u \<noteq> NoThread)"
  using assms
proof (induction es arbitrary: t)
  case (Cons e es)
  from Cons.prems obtain u where u: "win_do e t = Some (Inr u)" "win_run es u = Some r"
    "w_impl u" "w_handle u = w_handle t" "w_handle u \<longleftrightarrow> w_place u \<noteq> NoThread"
    by (cases e; cases "w_place t") (auto simp: win_defs split: if_splits)
  then show ?case using Cons.IH [of u] Cons.prems(1) by simp
qed auto

lemma joined_windows_thread:
  assumes "DeleteCall \<notin> set es" "win_run (es @ [JoinCall, DeleteCall]) (Impl_new_windows created) = Some r"
  shows "\<exists>t. r = Inr t \<and> win_do RunStep t = None \<and> (created \<longrightarrow> w_place t = Returned)"
proof -
  let ?t = "Impl_new_windows created"
  have t: "w_impl ?t" "w_handle ?t \<longleftrightarrow> w_place ?t \<noteq> NoThread" "w_handle ?t = created"
    by (simp_all add: Impl_new_windows_def)
  obtain q where q: "win_run es ?t = Some q"
    using assms(2) by (auto simp: win_run_append split: option.splits)
  obtain u where "q = Inr u" "w_impl u" "w_handle u = created" "w_handle u \<longleftrightarrow> w_place u \<noteq> NoThread"
    using before_delete [OF assms(1) t(1,2) q] t(3) by auto
  then show ?thesis
    using assms(2) q by (cases "w_place u") (auto simp: win_run_append win_defs split: if_splits)
qed

text \<open>
  Without a join the thread reads the deleted object; and the join of a thread that could not be created
  returns although its function has not run.
\<close>

lemma windows_thread_faults:
  "win_run [DeleteCall, RunStep] (Impl_new_windows True) = Some (Inl WildAccess)"
  "win_run [RunStep, DeleteCall, RunStep] (Impl_new_windows True) = Some (Inl WildAccess)"
  "win_run [JoinCall] (Impl_new_windows False) = Some (Inr (Impl_new_windows False))"
  by (simp_all add: win_defs)

end
