(* ===== verification/Spec2Isabelle.thy ===== *)
theory Spec2Isabelle
  imports Prelude Memory Allocators OS_Fiber Vec Affinity Thread Linked_List Task Fiber Waiting_Fibers Worker Worker_Machine Scheduler Condition_Variable Wait_Machine Event Auto_Event Wait_Group Benchmark Support Bmp Worker_Wait Lifecycle System System_Tasks System_Progress Thread_Names Fiber_API Vec_Iteration Benchmark_Main Fractal Gate_Group Group_Scope Hello Pool_Machine Fiber_Benchmark Platforms
begin

text \<open>
  A verification library for hfts, a scheduler of fibers in C++11. The files are under
  \<open>src/\<close>: the library in \<open>include/hfts/\<close> and \<open>src/\<close>, three example programs in
  \<open>example/\<close>.

  \<^bold>\<open>The program.\<close> A \<open>Scheduler\<close> owns up to 256 worker threads. A task given to
  \<open>Scheduler::enqueue\<close> goes to a worker that spins for lack of work, or else to the next one in turn.
  Each \<open>Worker\<close> runs its tasks on fibers: when a task waits, \<open>Worker::suspend\<close> switches to
  another fiber of the same worker, which may be new, idle or queued; a notification queues the
  suspended fiber again. A worker without work spins for a while, tries to steal a task from another
  worker, and then sleeps on a \<open>std::condition_variable\<close>. A thread that calls
  \<open>Scheduler::bind\<close> gets a single-threaded worker, which runs only tasks bound to that thread. On top
  of the fibers lie \<open>ConditionVariable\<close>, \<open>Event\<close> and \<open>WaitGroup\<close>; beneath them lie the
  switch of register contexts in assembly, the allocators, and two containers, \<open>vector\<close> and
  \<open>list\<close>.

  \<^bold>\<open>Conventions\<close> (theory \<open>Prelude\<close>). Machine integers are words of their width
  (\<open>u32\<close>, \<open>u64\<close>, \<open>size_t\<close>), with \<open>sint\<close> where the source has a signed type. An
  operation that can reach undefined behaviour, or the end of the process, returns a \<open>res\<close>:
  \<open>Inl\<close> of a \<open>fault\<close>, or \<open>Inr\<close> of its result. A loop that may run forever, or a thread that
  may block forever, gives \<open>None\<close>. What the operating system or the clock answers is an argument or
  part of a record (\<open>os\<close>), so nothing is assumed of it that is not named in a theorem.
  Concurrency is a step relation whose steps are the pieces of code between two points at which other
  threads may run.

  \<^bold>\<open>The theories\<close>, from the bottom to the top.

  \<^item> \<open>Memory\<close> (\<open>memory.hpp\<close>, \<open>memory.cpp\<close>): \<open>alignUp\<close>, \<open>alignedMalloc\<close> with its
    hidden base pointer, \<open>pagedMalloc\<close> with its guard pages, \<open>DefaultAllocator\<close>. The state is the
    record \<open>os\<close>. The locale \<open>allocator_contract\<close> is what the containers require of an
    allocator; \<open>DefaultAllocator\<close> is its interpretation. The theorems say that blocks are found
    again by \<open>free\<close> and that guards are where they have to be.
  \<^item> \<open>Allocators\<close> (\<open>memory.hpp\<close>): \<open>TrackedAllocator\<close>, whose contract follows from that of
    the allocator it wraps (a sublocale) and whose statistics are exact; \<open>create\<close>, \<open>destroy\<close>,
    \<open>make_unique_n\<close> and its deleter, \<open>make_shared\<close>, \<open>StlAllocator\<close>.
  \<^item> \<open>Vec\<close>, \<open>Vec_Iteration\<close> (\<open>containers.hpp\<close>, \<open>vector\<close>): slots that hold an
    object, a moved-from object or nothing; the calls that append, remove, resize and assign an element
    refine those of a list. The argument of \<open>push_back\<close> is a reference, which may be to an element
    of the vector itself and then dangles when the vector grows. Copy assignment works exactly when the
    target fits the source inline, or is empty and grows; assignment to itself never does.
  \<^item> \<open>Linked_List\<close> (\<open>containers.hpp\<close>, \<open>list\<close>): entries in an explicit heap, with the
    surgery of \<open>link\<close> and \<open>unlink\<close>; it refines the list of values, and its destructor gives
    every block back.
  \<^item> \<open>OS_Fiber\<close> (\<open>osfiberm.hpp\<close>, \<open>osfiber_i.S\<close>): the saved registers, the creation of a
    stack, and the switch, instruction by instruction.
  \<^item> \<open>Affinity\<close>, \<open>Thread\<close>, \<open>Thread_Names\<close> (\<open>thread.hpp\<close>, \<open>thread.cpp\<close>): sets of
    cores as sequences of calls of the vector, with the blocks that \<open>add\<close> and \<open>remove\<close> take
    for a \<open>std::unordered_set\<close> (what the library asks for is an argument), the two policies, the CPU set of a new thread, who owns
    a running thread through moves and joins, names of threads.
  \<^item> \<open>Platforms\<close> (\<open>memory.cpp\<close>, \<open>thread.cpp\<close>): the page functions for Windows and
    Fuchsia against those of Linux, the life of a thread on Windows.
  \<^item> \<open>Task\<close>, \<open>Fiber\<close>, \<open>Fiber_API\<close>, \<open>Support\<close> (\<open>task.hpp\<close>, \<open>fiber.hpp\<close>,
    \<open>fiber.cpp\<close>, \<open>defer.hpp\<close>, \<open>mutex.hpp\<close>, \<open>thread_loacl.hpp\<close>): the small parts.
  \<^item> \<open>Waiting_Fibers\<close> (\<open>waitingfiber.hpp\<close>): the fibers that wait with a timeout, with the set
    and the map that the code lets diverge.
  \<^item> \<open>Worker\<close>, \<open>Worker_Wait\<close> (\<open>worker.hpp\<close>, \<open>worker.cpp\<close>): the operations of a worker as
    straight-line code on the record \<open>worker\<close>; the two overloads of \<open>wait\<close> as sequences of
    events on the two mutexes.
  \<^item> \<open>Worker_Machine\<close> (\<open>worker.cpp\<close>): one worker thread. A machine is the worker and the
    place of each fiber in \<open>run\<close>, \<open>runUntilShutdown\<close>, \<open>waitForWork\<close>,
    \<open>spinForWorkAndLock\<close>, \<open>runUntilIdle\<close> and \<open>suspend\<close> (type \<open>pc\<close>); the relation
    \<open>wstep\<close> has a step of the current fiber for every piece of code, and steps of other threads
    (\<open>enqueue\<close>, \<open>steal\<close>, notifications). The invariant \<open>minv\<close> is proved by rule
    induction, step by step.
  \<^item> \<open>Scheduler\<close>, \<open>Lifecycle\<close> (\<open>scheduler.hpp\<close>, \<open>scheduler.cpp\<close>): the constructor,
    the stack of spinning workers, round robin, \<open>enqueue\<close>, \<open>stealWork\<close>, \<open>bind\<close> and
    \<open>unbind\<close>, the configuration, the order of destruction.
  \<^item> \<open>System\<close>, \<open>System_Tasks\<close>, \<open>System_Progress\<close>: all worker threads of one scheduler (relation
    \<open>sysstep\<close>), with its spinning workers, submissions from any thread and thefts. Each worker
    refines \<open>Worker_Machine\<close> and is never held up by the others; a ledger of submitted and called
    tasks is balanced in every state.
  \<^item> \<open>Condition_Variable\<close>, \<open>Wait_Machine\<close> (\<open>conditionvariable.hpp\<close>): the operations
    over the interface \<open>waiting_list\<close> of their container (interpreted by the verified
    \<open>list\<close>), and the interleavings of fibers and threads that wait, time out and are notified
    (relation \<open>cstep\<close>).
  \<^item> \<open>Event\<close> (\<open>event.hpp\<close>): the graph of shared states, \<open>signal\<close> through it,
    \<open>any\<close>. \<open>Auto_Event\<close>: the interleavings around an event of the default mode, whose
    \<open>signal\<close> notifies one waiter (relation \<open>auto_step\<close>). \<open>Wait_Group\<close>
    (\<open>waitgroup.hpp\<close>): the counter, refining \<open>Wait_Machine\<close>.
  \<^item> \<open>Benchmark\<close>, \<open>Benchmark_Main\<close> (\<open>benchmark.cpp\<close>), \<open>Bmp\<close>, \<open>Fractal\<close>
    (\<open>fractal.cpp\<close>): the example programs up to their results, for every order of their tasks.
  \<^item> \<open>Gate_Group\<close>: the main thread and \<open>n\<close> tasks around an event and a wait group, two
    machines of \<open>Wait_Machine\<close> run as one step relation; its runs end, and end with everyone past
    both. The example programs are this machine with what their tasks do in between:
    \<open>Hello\<close> (\<open>hello_task.cpp\<close>) and \<open>Fiber_Benchmark\<close> (the benchmarks of
    \<open>benchmark.cpp\<close> on the scheduler). \<open>Group_Scope\<close> adds the end of life of the wait group,
    which the tasks of the benchmarks refer to: a task inside \<open>done\<close> may use it when it is gone.
  \<^item> \<open>Pool_Machine\<close> (\<open>benchmark.cpp\<close>): the plain thread pool and the benchmarks on it as a step
    relation over its threads, its queue and its two condition variables, with wake-ups for no
    reason.
\<close>

text \<open>
  \<^bold>\<open>What the properties show.\<close> No submitted task is lost or run twice, and when all workers rest
  every task has run, but for those given to a worker that had ended; a worker makes progress unless
  it sleeps for lack of work, and a task given to it wakes it; a worker stops only when nothing is
  left; waits on a condition variable lose no wake-up; a fiber is resumed with the registers it had.
  All this holds as long as no fiber waits with a timeout: two theorems of \<open>Worker\<close> show how the
  bookkeeping of timed waits makes a worker hang or read an empty set, and one of \<open>Auto_Event\<close> that
  a timed wait may swallow the signal of an event, so \<open>reachable False\<close> is the machine without
  them, and \<open>reachable True\<close> the one with them; \<open>sysstep\<close> has no timed waits either. The plain
  pool and the example programs return, whatever the interleaving, with the results of their tasks run
  in order; in the benchmarks on the scheduler the last task may then still use the wait group, which
  is the only fault of their runs.

  \<^bold>\<open>Bounds.\<close> Queues hold fewer than 2^64 entries (\<open>room\<close>, since \<open>num\<close> is a
  \<open>uint64_t\<close>); at most 2^31 - 1 actors use a condition variable (its counters are
  \<open>int\<close>); a list of waiting fibers has fewer than 2^58 entries (\<open>list_room\<close>: the next chunk still
  has a size below 2^64); a scheduler has 1 to 256 workers; the runs of the example programs have at
  least one task and fewer than 2^31 - 1, and the plain pool at least one thread, and their lengths are
  bounded by a linear function of these numbers. The loop of \<open>Scheduler::enqueue\<close> and
  the loops that wait for a predicate are run against a list of what they observe in each turn
  (whether \<open>tryLock\<close> succeeds, the values of the predicate and of the clock); the theorems say how
  many turns are enough. Loops of the source that end are recursive functions with a termination
  proof; \<open>enqueueFiberTimeouts\<close>, which may not, is a \<open>partial_function\<close>, as is every
  other loop whose end is in question.

  \<^bold>\<open>Not modelled.\<close>

  \<^item> \<open>tsa.hpp\<close>: macros for the thread safety analysis of the compiler, without code.
  \<^item> The FreeBSD branches, which are those of Linux with other type names.
  \<^item> \<open>printUsage\<close>, the printing of worker counts and of measured times in
    \<open>benchmark.cpp\<close>: output only.
  \<^item> The type \<open>float\<close>: a parameter of \<open>Fractal\<close>.
  \<^item> Memory order: the atomic operations of the source are sequentially consistent by default, and
    the step relations interleave them.
  \<^item> The system of \<open>System\<close> has the worker threads of the scheduler; the single-threaded workers
    take no tasks from it and give none to it, and are instances of \<open>Worker_Machine\<close> alone.
\<close>

end
